(* ===== verification/CxxString.thy ===== *)
theory CxxString
  imports Prelude "HOL-Library.Char_ord"
begin

text \<open>
  What the program uses of the C++ standard library on \<open>std::string\<close>: bytes in the
  \<open>C\<close> locale, searches that answer a position or \<open>npos\<close> (here \<open>option\<close>),
  \<open>std::getline\<close> loops, \<open>std::to_string\<close>, \<open>std::stoll\<close> and \<open>std::stoi\<close>. A
  \<open>char\<close> is one byte, so \<open>length\<close> is \<open>size()\<close>.
\<close>

section \<open>Character classes\<close>

definition ccode :: "char \<Rightarrow> nat" where
  "ccode c = of_char c"

definition is_digit :: "char \<Rightarrow> bool" where
  "is_digit c \<longleftrightarrow> 48 \<le> ccode c \<and> ccode c \<le> 57"

definition is_upper :: "char \<Rightarrow> bool" where
  "is_upper c \<longleftrightarrow> 65 \<le> ccode c \<and> ccode c \<le> 90"

definition is_lower :: "char \<Rightarrow> bool" where
  "is_lower c \<longleftrightarrow> 97 \<le> ccode c \<and> ccode c \<le> 122"

definition is_alpha :: "char \<Rightarrow> bool" where
  "is_alpha c \<longleftrightarrow> is_upper c \<or> is_lower c"

definition is_alnum :: "char \<Rightarrow> bool" where
  "is_alnum c \<longleftrightarrow> is_alpha c \<or> is_digit c"

definition is_space :: "char \<Rightarrow> bool" where
  "is_space c \<longleftrightarrow> ccode c = 32 \<or> (9 \<le> ccode c \<and> ccode c \<le> 13)"

definition to_lower :: "char \<Rightarrow> char" where
  "to_lower c = (if is_upper c then char_of (ccode c + 32) else c)"

definition lower_str :: "string \<Rightarrow> string" where
  "lower_str s = map to_lower s"

abbreviation nl :: char where "nl \<equiv> CHR 0x0A"
abbreviation cr :: char where "cr \<equiv> CHR 0x0D"
abbreviation tab :: char where "tab \<equiv> CHR 0x09"
abbreviation dq :: char where "dq \<equiv> CHR 0x22"
abbreviation bs :: char where "bs \<equiv> CHR 0x5C"
abbreviation sq :: char where "sq \<equiv> CHR 0x27"

lemmas char_class_defs =
  is_digit_def is_upper_def is_lower_def is_alpha_def is_alnum_def is_space_def ccode_def

lemma ccode_less [simp]: "ccode c < 256"
  by (simp add: ccode_def)

lemma ccode_inject: "ccode a = ccode b \<longleftrightarrow> a = b"
  by (simp add: ccode_def)

lemma ccode_char_of: "n < 256 \<Longrightarrow> ccode (char_of n) = n"
  by (simp add: ccode_def)

lemma to_lower_not_upper: "\<not> is_upper (to_lower c)"
  by (auto simp: to_lower_def is_upper_def ccode_char_of)

lemma to_lower_idem [simp]: "to_lower (to_lower c) = to_lower c"
  using to_lower_not_upper[of c] by (simp add: to_lower_def[of "to_lower c"])

lemma lower_str_idem [simp]: "lower_str (lower_str s) = lower_str s"
  by (simp add: lower_str_def)

lemma length_lower_str [simp]: "length (lower_str s) = length s"
  by (simp add: lower_str_def)

lemma lower_str_Nil_iff [simp]: "lower_str s = [] \<longleftrightarrow> s = []"
  by (simp add: lower_str_def)

section \<open>Searching\<close>

text \<open>\<open>s.find(pat)\<close>, \<open>s.find(pat, pos)\<close> and their single-character and set forms.\<close>

fun find_sub :: "string \<Rightarrow> string \<Rightarrow> nat option" where
  "find_sub pat [] = (if pat = [] then Some 0 else None)"
| "find_sub pat (c # cs) =
     (if prefix pat (c # cs) then Some 0 else map_option Suc (find_sub pat cs))"

definition find_from :: "string \<Rightarrow> nat \<Rightarrow> string \<Rightarrow> nat option" where
  "find_from pat pos s =
     (if pos \<le> length s then map_option (\<lambda>i. pos + i) (find_sub pat (drop pos s)) else None)"

definition contains :: "string \<Rightarrow> string \<Rightarrow> bool" where
  "contains pat s \<longleftrightarrow> find_sub pat s \<noteq> None"

fun index_of :: "(char \<Rightarrow> bool) \<Rightarrow> string \<Rightarrow> nat option" where
  "index_of P [] = None"
| "index_of P (c # cs) = (if P c then Some 0 else map_option Suc (index_of P cs))"

definition index_from :: "(char \<Rightarrow> bool) \<Rightarrow> nat \<Rightarrow> string \<Rightarrow> nat option" where
  "index_from P pos s = map_option (\<lambda>i. pos + i) (index_of P (drop pos s))"

definition last_index_of :: "(char \<Rightarrow> bool) \<Rightarrow> string \<Rightarrow> nat option" where
  "last_index_of P s = map_option (\<lambda>i. length s - 1 - i) (index_of P (rev s))"

definition substr :: "nat \<Rightarrow> nat \<Rightarrow> string \<Rightarrow> string" where
  "substr pos n s = take n (drop pos s)"

lemma find_sub_Some:
  "find_sub pat s = Some i \<Longrightarrow> i + length pat \<le> length s \<and> take (length pat) (drop i s) = pat"
proof (induction pat s arbitrary: i rule: find_sub.induct)
  case (2 pat c cs)
  then show ?case
    by (auto split: if_splits dest: prefix_length_le simp: prefix_def)
       (metis length_Cons length_append le_add1)
qed (auto split: if_splits)

lemma find_sub_first:
  "find_sub pat s = Some i \<Longrightarrow> j < i \<Longrightarrow> \<not> prefix pat (drop j s)"
proof (induction pat s arbitrary: i j rule: find_sub.induct)
  case (2 pat c cs)
  then show ?case by (cases j) (auto split: if_splits)
qed (auto split: if_splits)

lemma find_sub_None: "find_sub pat s = None \<longleftrightarrow> \<not> sublist pat s"
  by (induction pat s rule: find_sub.induct) (auto simp: sublist_Cons_right)

lemma contains_sublist: "contains pat s \<longleftrightarrow> sublist pat s"
  by (auto simp: contains_def find_sub_None)

lemma contains_append: "contains pat s \<Longrightarrow> contains pat (u @ s @ v)"
  by (simp add: contains_sublist sublist_def) (metis append.assoc)

lemma contains_sep: "d \<notin> set t \<Longrightarrow> contains t (x @ d # y) \<longleftrightarrow> contains t x \<or> contains t y"
  unfolding contains_sublist sublist_append by (auto simp: prefix_Cons sublist_Cons_right)

lemma index_of_Some:
  "index_of P s = Some i \<Longrightarrow> i < length s \<and> P (s ! i) \<and> (\<forall>j < i. \<not> P (s ! j))"
proof (induction s arbitrary: i)
  case (Cons c cs)
  show ?case
  proof (cases "P c")
    case False
    with Cons.prems obtain k where k: "index_of P cs = Some k" "i = Suc k" by auto
    with Cons.IH[of k] False show ?thesis by (auto simp: less_Suc_eq_0_disj)
  qed (use Cons.prems in auto)
qed simp

lemma index_of_None: "index_of P s = None \<longleftrightarrow> (\<forall>c \<in> set s. \<not> P c)"
  by (induction s) auto

lemma index_of_append_first:
  "\<forall>c \<in> set x. \<not> P c \<Longrightarrow> P c \<Longrightarrow> index_of P (x @ c # y) = Some (length x)"
  by (induction x) auto

text \<open>The text before and after the first occurrence of a character.\<close>

definition cut_at :: "char \<Rightarrow> string \<Rightarrow> (string \<times> string) option" where
  "cut_at c s = (case index_of (\<lambda>x. x = c) s of None \<Rightarrow> None | Some i \<Rightarrow> Some (take i s, drop (i + 1) s))"

lemma cut_at_shorter: "cut_at c s = Some (x, y) \<Longrightarrow> length y < length s"
  using index_of_Some by (fastforce simp: cut_at_def split: option.splits)

lemma cut_at_append: "c \<notin> set x \<Longrightarrow> cut_at c (x @ c # y) = Some (x, y)"
  by (subst cut_at_def, subst index_of_append_first) auto

lemma cut_at_Cons [simp]:
  "cut_at c [] = None"
  "cut_at c (a # s) = (if a = c then Some ([], s) else map_option (\<lambda>(x, y). (a # x, y)) (cut_at c s))"
  by (auto simp: cut_at_def split: option.split)

lemma cut_at_None: "cut_at c s = None \<longleftrightarrow> c \<notin> set s"
  by (induction s) auto

section \<open>Lines\<close>

text \<open>\<open>while (std::getline(is, line))\<close>: a final empty piece is not a line.\<close>

definition getlines_on :: "char \<Rightarrow> string \<Rightarrow> string list" where
  "getlines_on d s = (let ls = split_on d s in if last ls = [] then butlast ls else ls)"

abbreviation getlines :: "string \<Rightarrow> string list" where
  "getlines \<equiv> getlines_on nl"

lemma getlines_Nil [simp]: "getlines_on d [] = []"
  by (simp add: getlines_on_def)

lemma getlines_on_Cons:
  "d \<notin> set l \<Longrightarrow> getlines_on d (l @ d # s) = l # getlines_on d s"
  by (simp add: getlines_on_def split_on_append_sep Let_def)

lemma getlines_on_last: "d \<notin> set l \<Longrightarrow> l \<noteq> [] \<Longrightarrow> getlines_on d l = [l]"
  by (simp add: getlines_on_def split_on_plain)

lemma getlines_on_no_sep: "l \<in> set (getlines_on d s) \<Longrightarrow> d \<notin> set l"
  by (auto simp: getlines_on_def Let_def split: if_splits dest: in_set_butlastD split_on_no_sep)

text \<open>A line without its carriage return, and the words of a text.\<close>

definition chop_cr :: "string \<Rightarrow> string" where
  "chop_cr l = (if l \<noteq> [] \<and> last l = cr then butlast l else l)"

definition word_char :: "char \<Rightarrow> bool" where
  "word_char c \<longleftrightarrow> is_alnum c \<or> c = CHR ''_''"

fun words_go :: "string \<Rightarrow> string \<Rightarrow> string list" where
  "words_go cur [] = (if cur \<noteq> [] then [cur] else [])"
| "words_go cur (c # cs) =
     (if word_char c then words_go (cur @ [c]) cs
      else if cur \<noteq> [] then cur # words_go [] cs else words_go [] cs)"

definition unlines :: "string list \<Rightarrow> string" where
  "unlines ls = concat (map (\<lambda>l. l @ [nl]) ls)"

lemma unlines_simps [simp]:
  "unlines [] = []" "unlines (l # ls) = l @ nl # unlines ls"
  by (simp_all add: unlines_def)

lemma unlines_append: "unlines (xs @ ys) = unlines xs @ unlines ys"
  by (simp add: unlines_def)

lemma getlines_unlines: "\<forall>l \<in> set ls. nl \<notin> set l \<Longrightarrow> getlines (unlines ls) = ls"
  by (induction ls) (auto simp: getlines_on_Cons)

lemma unlines_join: "ls \<noteq> [] \<Longrightarrow> unlines ls = join [nl] ls @ [nl]"
  by (induction ls rule: induct_list012) simp_all

lemma getlines_join_nonempty:
  "\<forall>l \<in> set ls. nl \<notin> set l \<Longrightarrow>
   filter (\<lambda>l. l \<noteq> []) (getlines (join [nl] ls)) = filter (\<lambda>l. l \<noteq> []) ls"
proof (cases "ls = []")
  case False
  assume "\<forall>l \<in> set ls. nl \<notin> set l"
  then have "split_on nl (join [nl] ls) = ls" using False by (intro split_on_join) simp_all
  moreover have "last ls = [] \<Longrightarrow> filter (\<lambda>l. l \<noteq> []) (butlast ls) = filter (\<lambda>l. l \<noteq> []) ls"
    using False by (cases ls rule: rev_cases) simp_all
  ultimately show ?thesis by (simp add: getlines_on_def Let_def)
qed simp

lemma unlines_inject:
  "\<forall>l \<in> set a. nl \<notin> set l \<Longrightarrow> \<forall>l \<in> set b. nl \<notin> set l \<Longrightarrow> unlines a = unlines b \<longleftrightarrow> a = b"
  by (metis getlines_unlines)

section \<open>Numbers as text\<close>

definition digit_char :: "nat \<Rightarrow> char" where
  "digit_char d = char_of (48 + d)"

definition digit_val :: "char \<Rightarrow> nat" where
  "digit_val c = ccode c - 48"

fun nat_str :: "nat \<Rightarrow> string" where
  "nat_str n =
     (if n < 10 then [digit_char n] else nat_str (n div 10) @ [digit_char (n mod 10)])"

declare nat_str.simps [simp del]

definition int_str :: "int \<Rightarrow> string" where
  "int_str i = (if i < 0 then CHR ''-'' # nat_str (nat (- i)) else nat_str (nat i))"

definition num_of :: "string \<Rightarrow> nat" where
  "num_of ds = foldl (\<lambda>a c. 10 * a + digit_val c) 0 ds"

text \<open>
  \<open>std::stoll\<close> skips white space, takes an optional sign and the digits that follow and
  ignores the rest; \<open>None\<close> is the exception it throws when there is no digit or the
  value does not fit in \<open>w\<close> bits.
\<close>

definition sto_int :: "nat \<Rightarrow> string \<Rightarrow> int option" where
  "sto_int w s =
     (let t = dropWhile is_space s;
          neg = (t \<noteq> [] \<and> hd t = CHR ''-'');
          u = (if t \<noteq> [] \<and> (hd t = CHR ''-'' \<or> hd t = CHR ''+'') then tl t else t);
          ds = takeWhile is_digit u;
          v = (if neg then - int (num_of ds) else int (num_of ds))
      in if ds = [] then None
         else if - (2 ^ (w - 1)) \<le> v \<and> v < 2 ^ (w - 1) then Some v else None)"

definition stoll :: "string \<Rightarrow> int option" where
  "stoll s = sto_int 64 s"

definition stoi :: "string \<Rightarrow> int option" where
  "stoi s = sto_int 32 s"

definition fits64 :: "int \<Rightarrow> bool" where
  "fits64 i \<longleftrightarrow> - (2 ^ 63) \<le> i \<and> i < 2 ^ 63"

lemma digit_char_digit: "d < 10 \<Longrightarrow> is_digit (digit_char d)"
  by (simp add: digit_char_def is_digit_def ccode_char_of)

lemma digit_val_char [simp]: "d < 10 \<Longrightarrow> digit_val (digit_char d) = d"
  by (simp add: digit_char_def digit_val_def ccode_char_of)

lemma num_of_append: "num_of (xs @ [c]) = 10 * num_of xs + digit_val c"
  by (simp add: num_of_def)

lemma nat_str_digits: "\<forall>c \<in> set (nat_str n). is_digit c"
  by (induction n rule: nat_str.induct) (subst nat_str.simps, auto simp: digit_char_digit)

lemma nat_str_nonempty [simp]: "nat_str n \<noteq> []"
  by (subst nat_str.simps) simp

lemma num_of_nat_str [simp]: "num_of (nat_str n) = n"
proof (induction n rule: nat_str.induct)
  case (1 n)
  show ?case
  proof (cases "n < 10")
    case True
    then show ?thesis by (subst nat_str.simps) (simp add: num_of_def)
  next
    case False
    with 1 have "num_of (nat_str (n div 10)) = n div 10" by simp
    with False show ?thesis by (subst nat_str.simps) (simp add: num_of_append)
  qed
qed

lemma nat_str_inject: "nat_str a = nat_str b \<longleftrightarrow> a = b"
  by (metis num_of_nat_str)

lemma takeWhile_digits:
  "\<forall>c \<in> set ds. is_digit c \<Longrightarrow> rest = [] \<or> \<not> is_digit (hd rest) \<Longrightarrow>
   takeWhile is_digit (ds @ rest) = ds"
  by (cases rest) (auto simp: takeWhile_append2 takeWhile_eq_all_conv)

lemma digit_not_sign: "is_digit c \<Longrightarrow> c \<noteq> CHR ''-'' \<and> c \<noteq> CHR ''+'' \<and> \<not> is_space c"
  by (auto simp: is_digit_def is_space_def ccode_def)

lemma sto_int_int_str:
  assumes range: "- (2 ^ (w - 1)) \<le> i" "i < 2 ^ (w - 1)"
    and rest: "rest = [] \<or> \<not> is_digit (hd rest)"
  shows "sto_int w (int_str i @ rest) = Some i"
proof (cases "i < 0")
  case True
  let ?ds = "nat_str (nat (- i))"
  have "takeWhile is_digit (?ds @ rest) = ?ds"
    using rest by (intro takeWhile_digits nat_str_digits)
  moreover have "\<not> is_space (CHR ''-'')" by (simp add: is_space_def ccode_def)
  ultimately show ?thesis
    using True range by (simp add: sto_int_def int_str_def)
next
  case False
  let ?ds = "nat_str (nat i)"
  obtain d ds where ds: "?ds = d # ds" by (cases ?ds) auto
  then have d: "is_digit d" using nat_str_digits[of "nat i"] by simp
  have tw: "takeWhile is_digit (?ds @ rest) = ?ds"
    using rest by (intro takeWhile_digits nat_str_digits)
  have dw: "dropWhile is_space (?ds @ rest) = ?ds @ rest"
    using ds digit_not_sign[OF d] by simp
  show ?thesis
    using False range tw dw digit_not_sign[OF d] ds num_of_nat_str[of "nat i"]
    by (simp add: sto_int_def int_str_def Let_def)
qed

lemma stoll_int_str: "fits64 i \<Longrightarrow> stoll (int_str i) = Some i"
  using sto_int_int_str[of 64 i "[]"] by (simp add: stoll_def fits64_def)

lemma int_str_chars: "c \<in> set (int_str i) \<Longrightarrow> c = CHR ''-'' \<or> is_digit c"
  using nat_str_digits by (auto simp: int_str_def split: if_splits)

lemma int_str_no_sep:
  "tab \<notin> set (int_str i)" "nl \<notin> set (int_str i)" "CHR '':'' \<notin> set (int_str i)"
  "CHR '','' \<notin> set (int_str i)" "dq \<notin> set (int_str i)"
  by (auto dest!: int_str_chars simp: is_digit_def ccode_def)

lemma int_str_nonempty [simp]: "int_str i \<noteq> []"
  by (simp add: int_str_def)

end
