(* ===== verification/Quoting.thy ===== *)
theory Quoting
  imports CxxString
begin

text \<open>
  Command-line quoting: \<open>cli/run_args.hpp\<close> (\<open>runQuoteArg\<close>), \<open>core/msys_quote.hpp\<close> and
  the splitter \<open>parseArgv\<close> of \<open>tkil/runner.cpp\<close> that the direct-spawn path uses to take a
  quoted line apart again. The lemmas show that splitting inverts quoting on every token
  the quoter protects, what happens to the tokens it does not protect, and that the
  MSVCRT quoter never lets an argument close its own quotes.
\<close>

section \<open>Quoting for the shell and for the direct-spawn path\<close>

abbreviation blank :: "char \<Rightarrow> bool" where
  "blank c \<equiv> c = CHR '' '' \<or> c = tab"

definition run_special :: "char \<Rightarrow> bool" where
  "run_special c \<longleftrightarrow> c = CHR '' '' \<or> c = tab \<or> c = dq \<or> c = bs"

definition esc_char :: "char \<Rightarrow> string" where
  "esc_char c = (if c = dq \<or> c = bs then [bs, c] else [c])"

definition runQuoteArg :: "string \<Rightarrow> string" where
  "runQuoteArg a =
     (if a = [] then [dq, dq]
      else if \<not> list_ex run_special a then a
      else dq # concat (map esc_char a) @ [dq])"

text \<open>\<open>parseArgv\<close>: the loop state is the open quote, the token read so far and the result.\<close>

function parse_argv_go :: "string \<Rightarrow> char option \<Rightarrow> string \<Rightarrow> string list \<Rightarrow> string list" where
  "parse_argv_go [] quote token argv = (if token \<noteq> [] then argv @ [token] else argv)"
| "parse_argv_go (c # cs) quote token argv =
     (if c = bs \<and> cs \<noteq> [] \<and> hd cs = dq then parse_argv_go (tl cs) quote (token @ [dq]) argv
      else if quote = Some dq \<and> c = bs \<and> cs \<noteq> [] \<and> hd cs = bs
        then parse_argv_go (tl cs) quote (token @ [bs]) argv
      else (case quote of
          Some q \<Rightarrow> if c = q then parse_argv_go cs None token argv
                    else parse_argv_go cs quote (token @ [c]) argv
        | None \<Rightarrow>
            if c = dq \<or> c = sq then parse_argv_go cs (Some c) token argv
            else if blank c then
              (if token \<noteq> [] then parse_argv_go cs None [] (argv @ [token])
               else parse_argv_go cs None token argv)
            else parse_argv_go cs None (token @ [c]) argv))"
  by pat_completeness auto
termination
  by (relation "measure (\<lambda>(s, _, _, _). length s)") (simp_all add: less_Suc_eq_le)


definition parseArgv :: "string \<Rightarrow> string list" where
  "parseArgv command = parse_argv_go command None [] []"

text \<open>A bare token passes the splitter unchanged, up to the blank or the end that closes it.\<close>

definition bare_char :: "char \<Rightarrow> bool" where
  "bare_char c \<longleftrightarrow> \<not> run_special c \<and> c \<noteq> sq"

lemma parse_bare:
  "\<forall>c \<in> set a. bare_char c \<Longrightarrow>
   parse_argv_go (a @ rest) None token argv = parse_argv_go rest None (token @ a) argv"
  by (induction a arbitrary: token) (auto simp: bare_char_def run_special_def)

lemma parse_escaped:
  "parse_argv_go (concat (map esc_char a) @ dq # rest) (Some dq) token argv =
   parse_argv_go rest None (token @ a) argv"
proof (induction a arbitrary: token)
  case (Cons c a)
  show ?case
  proof (cases "c = dq \<or> c = bs")
    case True
    then show ?thesis using Cons.IH by (auto simp: esc_char_def)
  next
    case False
    then show ?thesis using Cons.IH by (auto simp: esc_char_def)
  qed
qed simp

definition quotable :: "string \<Rightarrow> bool" where
  "quotable a \<longleftrightarrow> a \<noteq> [] \<and> (sq \<notin> set a \<or> list_ex run_special a)"

lemma parse_quoted_token:
  assumes "quotable a"
  shows "parse_argv_go (runQuoteArg a @ rest) None [] argv = parse_argv_go rest None a argv"
proof (cases "list_ex run_special a")
  case True
  with assms show ?thesis
    using parse_escaped[of a rest "[]" argv] by (auto simp: runQuoteArg_def quotable_def)
next
  case False
  with assms have "\<forall>c \<in> set a. bare_char c"
    by (auto simp: quotable_def bare_char_def list_ex_iff)
  with False assms show ?thesis
    using parse_bare[of a rest "[]" argv] by (simp add: runQuoteArg_def quotable_def)
qed

lemma parse_empty_token:
  "parse_argv_go (runQuoteArg [] @ rest) None [] argv = parse_argv_go rest None [] argv"
  by (simp add: runQuoteArg_def)

lemma parse_token:
  assumes "a = [] \<or> quotable a"
  shows "parse_argv_go (runQuoteArg a @ rest) None [] argv = parse_argv_go rest None a argv"
  using assms parse_empty_token parse_quoted_token by blast

lemma parse_quoted_line:
  "\<forall>a \<in> set args. a = [] \<or> quotable a \<Longrightarrow>
   parse_argv_go (join '' '' (map runQuoteArg args)) None [] argv = argv @ filter (\<lambda>a. a \<noteq> []) args"
proof (induction args arbitrary: argv rule: induct_list012)
  case (2 a)
  then show ?case using parse_token[of a "[]" argv] by simp
next
  case (3 a b args)
  then have "parse_argv_go (join '' '' (map runQuoteArg (b # args))) None [] (argv @ filter (\<lambda>a. a \<noteq> []) [a]) =
      (argv @ filter (\<lambda>a. a \<noteq> []) [a]) @ filter (\<lambda>a. a \<noteq> []) (b # args)" by (auto simp del: join.simps)
  then show ?case using 3 by (simp add: parse_token split: if_splits)
qed simp

text \<open>An unprotected apostrophe opens a quote for the splitter.\<close>

lemma parse_single_quoted:
  "\<forall>c \<in> set a. bare_char c \<Longrightarrow>
   parse_argv_go a (Some sq) token argv = (if token @ a = [] then argv else argv @ [token @ a])"
  by (induction a arbitrary: token) (auto simp: bare_char_def run_special_def)

text \<open>
  Property C4. Splitting a line that was built by joining quoted tokens with blanks gives
  back exactly the tokens that are not empty, in order, as long as every token with an
  apostrophe is put in double quotes, that is, also holds a blank, a double quote or a
  backslash. An empty token is printed as two double quotes and lost.
\<close>

theorem parseArgv_inverts_runQuoteArg:
  assumes "\<forall>a \<in> set args. a = [] \<or> sq \<notin> set a \<or> list_ex run_special a"
  shows "parseArgv (join '' '' (map runQuoteArg args)) = filter (\<lambda>a. a \<noteq> []) args"
  using assms parse_quoted_line[of args "[]"] by (auto simp: parseArgv_def quotable_def)

theorem parseArgv_inverts_runQuoteArg_witness:
  "parseArgv (join '' '' (map runQuoteArg
     [''C:'' @ [bs] @ ''dir x'', [], ''say '' @ [dq] @ ''hi'' @ [dq], ''it'' @ [sq] @ ''s here'', ''a'' @ [bs, bs] @ ''b'']))
   = [''C:'' @ [bs] @ ''dir x'', ''say '' @ [dq] @ ''hi'' @ [dq], ''it'' @ [sq] @ ''s here'', ''a'' @ [bs, bs] @ ''b'']"
  using parseArgv_inverts_runQuoteArg[of "[''C:'' @ [bs] @ ''dir x'', [], ''say '' @ [dq] @ ''hi'' @ [dq], ''it'' @ [sq] @ ''s here'', ''a'' @ [bs, bs] @ ''b'']"]
  by (simp add: run_special_def)

text \<open>So a command line with an empty argument loses it, and the arguments behind it move up.\<close>

lemma parseArgv_drops_empty:
  "parseArgv (join '' '' (map runQuoteArg [''grep'', [], ''file''])) = [''grep'', ''file'']"
  by code_simp

text \<open>
  The round trip fails on a token whose only special character is an
  apostrophe: the quoter leaves it bare and the splitter takes the apostrophe for an open
  quote and drops it.
\<close>

theorem parseArgv_drops_apostrophe:
  assumes "\<forall>c \<in> set a. bare_char c" and "\<forall>c \<in> set b. bare_char c" and "a @ b \<noteq> []"
  shows "parseArgv (runQuoteArg (a @ sq # b)) = [a @ b]"
proof -
  have "\<not> list_ex run_special (a @ sq # b)"
    using assms by (auto simp: list_ex_iff bare_char_def run_special_def)
  then have "runQuoteArg (a @ sq # b) = a @ sq # b" by (simp add: runQuoteArg_def)
  then show ?thesis
    using assms parse_bare[of a "sq # b" "[]" "[]"] parse_single_quoted[of b a "[]"]
    by (simp add: parseArgv_def)
qed

theorem parseArgv_drops_apostrophe_witness:
  "parseArgv (runQuoteArg (''it'' @ sq # ''s'')) = [''its'']"
  using parseArgv_drops_apostrophe[of "''it''" "''s''"]
  by (simp add: bare_char_def run_special_def)

section \<open>Quoting for CreateProcess\<close>

definition msvcrt_special :: "char \<Rightarrow> bool" where
  "msvcrt_special c \<longleftrightarrow> c = CHR '' '' \<or> c = tab \<or> c = nl \<or> c = CHR 0x0B \<or> c = dq"

text \<open>
  The loop of \<open>quoteArgMsvcrt\<close>: a run of backslashes, then the end of the argument, a
  double quote or an ordinary character.
\<close>

function msvcrt_body :: "string \<Rightarrow> string" where
  "msvcrt_body a =
     (if a = [] then []
      else let n = length (takeWhile (\<lambda>c. c = bs) a);
               r = dropWhile (\<lambda>c. c = bs) a
           in case r of
                [] \<Rightarrow> replicate (n * 2) bs
              | c # cs \<Rightarrow>
                  if c = dq then replicate (n * 2 + 1) bs @ dq # msvcrt_body cs
                  else replicate n bs @ c # msvcrt_body cs)"
  by pat_completeness auto
termination
proof (relation "measure length", goal_cases)
  case (2 a n r c cs)
  then have "length (c # cs) \<le> length a" by (metis length_dropWhile_le)
  then show ?case by simp
next
  case (3 a n r c cs)
  then have "length (c # cs) \<le> length a" by (metis length_dropWhile_le)
  then show ?case by simp
qed simp

declare msvcrt_body.simps [simp del]

lemma bs_run_cases:
  obtains (run) n where "a = replicate n bs"
  | (step) n c cs where "a = replicate n bs @ c # cs" "c \<noteq> bs"
proof (cases "dropWhile (\<lambda>c. c = bs) a")
  case Nil
  then have "a = replicate (length a) bs"
    by (intro replicate_eqI) auto
  then show ?thesis by (rule run)
next
  case (Cons c cs)
  have "\<forall>y \<in> set (takeWhile (\<lambda>c. c = bs) a). y = bs" by (auto dest: set_takeWhileD)
  then obtain n where run: "takeWhile (\<lambda>c. c = bs) a = replicate n bs"
    by (meson replicate_eqI)
  have "takeWhile (\<lambda>c. c = bs) a @ dropWhile (\<lambda>c. c = bs) a = a" by simp
  then have "a = replicate n bs @ c # cs" unfolding run Cons by (rule sym)
  moreover have "c \<noteq> bs" using hd_dropWhile[of "\<lambda>c. c = bs" a] Cons by simp
  ultimately show ?thesis by (rule step)
qed

lemma bs_run_induct [case_names run step]:
  assumes "\<And>n. P (replicate n bs)"
    and "\<And>n c cs. c \<noteq> bs \<Longrightarrow> P cs \<Longrightarrow> P (replicate n bs @ c # cs)"
  shows "P a"
proof (induction a rule: length_induct)
  case (1 a)
  show ?case
  proof (cases a rule: bs_run_cases)
    case (run n)
    then show ?thesis using assms(1)[of n] by simp
  next
    case (step n c cs)
    have "length cs < length a" unfolding step(1) by simp
    with 1 have "P cs" by blast
    then have "P (replicate n bs @ c # cs)" by (rule assms(2)[OF step(2)])
    with step(1) show ?thesis by simp
  qed
qed

lemma takeWhile_bs_run:
  "takeWhile (\<lambda>c. c = x) (replicate n x) = replicate n x"
  "dropWhile (\<lambda>c. c = x) (replicate n x) = []"
  "c \<noteq> x \<Longrightarrow> takeWhile (\<lambda>c. c = x) (replicate n x @ c # cs) = replicate n x"
  "c \<noteq> x \<Longrightarrow> dropWhile (\<lambda>c. c = x) (replicate n x @ c # cs) = c # cs"
  by (induction n) auto

lemma msvcrt_body_run: "msvcrt_body (replicate n bs) = replicate (n * 2) bs"
  by (subst msvcrt_body.simps) (simp add: takeWhile_bs_run Let_def)

lemma msvcrt_body_dq:
  "msvcrt_body (replicate n bs @ dq # cs) = replicate (n * 2 + 1) bs @ dq # msvcrt_body cs"
  by (subst msvcrt_body.simps) (simp add: takeWhile_bs_run Let_def)

lemma msvcrt_body_other:
  "c \<noteq> bs \<Longrightarrow> c \<noteq> dq \<Longrightarrow>
   msvcrt_body (replicate n bs @ c # cs) = replicate n bs @ c # msvcrt_body cs"
  by (subst msvcrt_body.simps) (simp add: takeWhile_bs_run Let_def)

definition quoteArgMsvcrt :: "string \<Rightarrow> string" where
  "quoteArgMsvcrt a =
     (if a \<noteq> [] \<and> \<not> list_ex msvcrt_special a then a else dq # msvcrt_body a @ [dq])"

definition quoteArgMsys :: "string \<Rightarrow> string" where
  "quoteArgMsys a =
     (if a \<noteq> [] \<and> \<not> list_ex (\<lambda>c. msvcrt_special c \<or> c = bs) a then a
      else dq # concat (map esc_char a) @ [dq])"

definition slash_lower :: "char \<Rightarrow> char" where
  "slash_lower c = (if c = bs then CHR ''/'' else to_lower c)"

definition after_last :: "(char \<Rightarrow> bool) \<Rightarrow> string \<Rightarrow> string" where
  "after_last P s = rev (takeWhile (\<lambda>c. \<not> P c) (rev s))"

definition strip_exe :: "string \<Rightarrow> string" where
  "strip_exe base =
     (if 4 < length base \<and> suffix ''.exe'' base then take (length base - 4) base else base)"

definition isMsysProgram :: "string \<Rightarrow> bool" where
  "isMsysProgram exe =
     (let s = map slash_lower exe in
      if contains ''/windows/system32/'' s then False
      else if contains ''msys'' s \<or> contains ''cygwin'' s then True
      else if contains ''/git/usr/bin/'' s \<or> contains ''/git/bin/'' s
              \<or> contains ''/git/mingw64/bin/'' s then True
      else let base = strip_exe (after_last (\<lambda>c. c = CHR ''/'') s)
           in base = ''bash'' \<or> base = ''sh'' \<or> base = ''dash'' \<or> base = ''zsh'')"

definition buildChildCmdline :: "string list \<Rightarrow> string" where
  "buildChildCmdline argv =
     (case argv of [] \<Rightarrow> []
      | a0 # args \<Rightarrow>
          (let msys = isMsysProgram a0
           in join '' '' (quoteArgMsvcrt a0 #
                map (\<lambda>a. if msys then quoteArgMsys a else quoteArgMsvcrt a) args)))"

section \<open>Where a quoted line breaks into words\<close>

text \<open>
  The rule both kinds of child share, as the header's comment states it: a double quote
  opens or closes a quoted stretch unless an odd number of backslashes stands before it,
  and a blank outside a quoted stretch ends a word. \<open>breaks\<close> counts those blanks.
\<close>

fun breaks :: "bool \<Rightarrow> nat \<Rightarrow> string \<Rightarrow> nat" where
  "breaks q n [] = 0"
| "breaks q n (c # cs) =
     (if c = bs then breaks q (Suc n) cs
      else if c = dq then breaks (if even n then \<not> q else q) 0 cs
      else (if blank c \<and> \<not> q then 1 else 0) + breaks q 0 cs)"

lemma breaks_bs_run: "breaks q n (replicate k bs @ s) = breaks q (n + k) s"
  by (induction k arbitrary: n) auto

lemma breaks_Suc_Suc [simp]: "breaks q (Suc (Suc n)) s = breaks q n s"
  by (induction q n s rule: breaks.induct) auto

lemma breaks_even: "breaks q (n * 2) s = breaks q 0 s"
  by (induction n) auto

lemma breaks_odd: "breaks q (Suc (n * 2)) (dq # s) = breaks q 0 s"
  by simp

lemma breaks_plain:
  "\<forall>c \<in> set a. \<not> blank c \<and> c \<noteq> dq \<Longrightarrow>
   breaks False n (a @ CHR '' '' # rest) = Suc (breaks False 0 rest) \<and> breaks False n a = 0"
  by (induction a arbitrary: n) auto

lemma breaks_escaped:
  "breaks True 0 (concat (map esc_char a) @ dq # rest) = breaks False 0 rest"
  by (induction a) (auto simp: esc_char_def)

lemma breaks_msvcrt: "breaks True 0 (msvcrt_body a @ dq # rest) = breaks False 0 rest"
proof (induction a rule: bs_run_induct)
  case (run n)
  then show ?case by (simp add: msvcrt_body_run breaks_bs_run breaks_even)
next
  case (step n c cs)
  then show ?case
    by (cases "c = dq")
       (simp_all add: msvcrt_body_dq msvcrt_body_other breaks_bs_run breaks_odd)
qed

text \<open>The interface a quoter offers to whoever joins its results with blanks.\<close>

locale word_quoter =
  fixes quote :: "string \<Rightarrow> string"
  assumes closed_end: "breaks False 0 (quote a) = 0"
    and closed_sep: "breaks False 0 (quote a @ CHR '' '' # rest) = Suc (breaks False 0 rest)"
begin

lemma breaks_join:
  "args \<noteq> [] \<Longrightarrow> breaks False 0 (join '' '' (map quote args)) = length args - 1"
  by (induction args rule: induct_list012) (auto simp: closed_end closed_sep)

lemma breaks_line: "breaks False 0 (quote a @ CHR '' '' # join '' '' (map quote args)) =
    Suc (length args - 1)" if "args \<noteq> []"
  using that by (simp add: closed_sep breaks_join)

end

lemma closed_quoted:
  assumes "\<And>rest. breaks True 0 (body @ dq # rest) = breaks False 0 rest"
  shows "breaks False 0 (dq # body @ [dq]) = 0"
    and "breaks False 0 (dq # body @ dq # CHR '' '' # rest) = Suc (breaks False 0 rest)"
  using assms[of "[]"] assms[of "CHR '' '' # rest"] by auto

interpretation msvcrt: word_quoter quoteArgMsvcrt
proof
  fix a rest
  have plain: "\<forall>c \<in> set a. \<not> blank c \<and> c \<noteq> dq" if "\<not> list_ex msvcrt_special a"
    using that by (auto simp: list_ex_iff msvcrt_special_def)
  show "breaks False 0 (quoteArgMsvcrt a) = 0"
    using breaks_plain[OF plain] closed_quoted(1)[OF breaks_msvcrt]
    by (simp add: quoteArgMsvcrt_def)
  show "breaks False 0 (quoteArgMsvcrt a @ CHR '' '' # rest) = Suc (breaks False 0 rest)"
    using breaks_plain[OF plain] closed_quoted(2)[OF breaks_msvcrt]
    by (simp add: quoteArgMsvcrt_def)
qed

interpretation msys: word_quoter quoteArgMsys
proof
  fix a rest
  have plain: "\<forall>c \<in> set a. \<not> blank c \<and> c \<noteq> dq"
    if "\<not> list_ex (\<lambda>c. msvcrt_special c \<or> c = bs) a"
    using that by (auto simp: list_ex_iff msvcrt_special_def)
  show "breaks False 0 (quoteArgMsys a) = 0"
    using breaks_plain[OF plain] closed_quoted(1)[OF breaks_escaped]
    by (simp add: quoteArgMsys_def)
  show "breaks False 0 (quoteArgMsys a @ CHR '' '' # rest) = Suc (breaks False 0 rest)"
    using breaks_plain[OF plain] closed_quoted(2)[OF breaks_escaped]
    by (simp add: quoteArgMsys_def)
qed

interpretation run: word_quoter runQuoteArg
proof
  fix a rest
  have plain: "\<forall>c \<in> set a. \<not> blank c \<and> c \<noteq> dq" if "\<not> list_ex run_special a"
    using that by (auto simp: list_ex_iff run_special_def)
  show "breaks False 0 (runQuoteArg a) = 0"
    using breaks_plain[OF plain] closed_quoted(1)[OF breaks_escaped]
    by (simp add: runQuoteArg_def)
  show "breaks False 0 (runQuoteArg a @ CHR '' '' # rest) = Suc (breaks False 0 rest)"
    using breaks_plain[OF plain] closed_quoted(2)[OF breaks_escaped]
    by (simp add: runQuoteArg_def)
qed

text \<open>
  The command line handed to CreateProcess breaks into exactly as many words
  as there are arguments, whatever bytes the arguments hold and whichever quoting rule
  the child needs.
\<close>

theorem buildChildCmdline_word_count:
  "breaks False 0 (buildChildCmdline argv) = length argv - 1"
proof (cases argv)
  case (Cons a0 args)
  show ?thesis
  proof (cases "args = []")
    case False
    then show ?thesis
      by (cases "isMsysProgram a0")
         (use Cons msys.breaks_join[OF False] msvcrt.breaks_join[OF False] in
          \<open>simp_all add: buildChildCmdline_def join_Cons msvcrt.closed_sep\<close>)
  qed (use Cons in \<open>simp add: buildChildCmdline_def msvcrt.closed_end\<close>)
qed (simp add: buildChildCmdline_def)

end
