(* ===== verification/RunArgs.thy ===== *)
theory RunArgs
  imports Quoting
begin

text \<open>
  \<open>cli/run_args.hpp\<close>: how \<open>icmg run\<close> tells its own flags from the child command, how it
  unwraps a nested \<open>icmg run\<close>, and how it decides whether a command is destructive.
\<close>

section \<open>Parsing the arguments\<close>

record run_args =
  raw :: bool
  json_out :: bool
  dry_run :: bool
  stream :: bool
  yes :: bool
  ultra :: bool
  no_delta :: bool
  last_full :: bool
  no_tier :: bool
  nano :: bool
  gist :: bool
  command :: string
  cmd_args :: "string list"

definition run_args0 :: run_args where
  "run_args0 = \<lparr>raw = False, json_out = False, dry_run = False, stream = False, yes = False,
     ultra = False, no_delta = False, last_full = False, no_tier = False, nano = False,
     gist = False, command = [], cmd_args = []\<rparr>"

definition isIcmgArgv0 :: "string \<Rightarrow> bool" where
  "isIcmgArgv0 t =
     (let s = map (\<lambda>c. if c = CHR ''/'' then bs else to_lower c) t;
          base = after_last (\<lambda>c. c = bs) s
      in base = ''icmg'' \<or> base = ''icmg.exe'')"

text \<open>The \<open>if\<close>/\<open>else if\<close> chain over the leading flags; \<open>None\<close> is an unknown flag.\<close>

definition set_flag :: "string \<Rightarrow> run_args \<Rightarrow> run_args option" where
  "set_flag a r =
     (if a = ''--raw'' then Some (r\<lparr>raw := True\<rparr>)
      else if a = ''--json'' then Some (r\<lparr>json_out := True\<rparr>)
      else if a = ''--dry-run'' then Some (r\<lparr>dry_run := True\<rparr>)
      else if a = ''--stream'' then Some (r\<lparr>stream := True\<rparr>)
      else if a = ''--yes'' \<or> a = ''-y'' then Some (r\<lparr>yes := True\<rparr>)
      else if a = ''--ultra'' then Some (r\<lparr>ultra := True\<rparr>)
      else if a = ''--no-delta'' then Some (r\<lparr>no_delta := True\<rparr>)
      else if a = ''--last-full'' then Some (r\<lparr>last_full := True\<rparr>)
      else if a = ''--no-tier'' then Some (r\<lparr>no_tier := True\<rparr>)
      else if a = ''--nano'' then Some (r\<lparr>nano := True\<rparr>)
      else if a = ''--gist'' then Some (r\<lparr>gist := True\<rparr>)
      else None)"

definition push_arg :: "string \<Rightarrow> run_args \<Rightarrow> run_args" where
  "push_arg a r = r\<lparr>cmd_args := cmd_args r @ [a]\<rparr>"

text \<open>The loop over \<open>args\<close> with its two booleans.\<close>

fun scan_args :: "bool \<Rightarrow> bool \<Rightarrow> run_args \<Rightarrow> string list \<Rightarrow> run_args" where
  "scan_args in_cmd passthrough r [] = r"
| "scan_args in_cmd passthrough r (a # args) =
     (if a = [] then scan_args in_cmd passthrough r args
      else if \<not> in_cmd \<and> \<not> passthrough \<and> a = ''--'' then scan_args in_cmd True r args
      else if \<not> in_cmd \<and> \<not> passthrough \<and> 1 < length a \<and> hd a = CHR ''-'' then
        (case set_flag a r of
           Some r' \<Rightarrow> scan_args in_cmd passthrough r' args
         | None \<Rightarrow> scan_args True passthrough (push_arg a r) args)
      else scan_args True passthrough (push_arg a r) args)"

text \<open>\<open>stripNestedRunPrefix\<close>: a suffix of the line stands for the code's position in it.\<close>

abbreviation skip_blanks :: "string \<Rightarrow> string" where
  "skip_blanks \<equiv> dropWhile (\<lambda>c. blank c)"

abbreviation word_of :: "string \<Rightarrow> string" where
  "word_of \<equiv> takeWhile (\<lambda>c. \<not> blank c)"

abbreviation after_word :: "string \<Rightarrow> string" where
  "after_word \<equiv> dropWhile (\<lambda>c. \<not> blank c)"

lemma after_word_length: "length (after_word s) \<le> length s"
  by (rule length_dropWhile_le)

lemma skip_blanks_length: "length (skip_blanks s) \<le> length s"
  by (rule length_dropWhile_le)

function skip_flags :: "string \<Rightarrow> string" where
  "skip_flags s =
     (if s = [] \<or> hd s \<noteq> CHR ''-'' then s
      else let r = after_word s in if r = [] then [] else skip_flags (skip_blanks r))"
  by pat_completeness auto
termination
proof (relation "measure length", goal_cases)
  case (2 s r)
  then have "s \<noteq> []" "hd s = CHR ''-''" by auto
  then have "length (after_word s) < length s"
    by (intro length_dropWhile_less) simp_all
  with skip_blanks_length[of r] show ?case unfolding 2(2) by simp
qed simp

declare skip_flags.simps [simp del]

lemma skip_flags_length: "length (skip_flags s) \<le> length s"
proof (induction s rule: skip_flags.induct)
  case (1 s)
  show ?case
  proof (cases "s = [] \<or> hd s \<noteq> CHR ''-'' \<or> after_word s = []")
    case True
    then show ?thesis by (subst skip_flags.simps) auto
  next
    case False
    then have "length (skip_flags (skip_blanks (after_word s))) \<le> length (skip_blanks (after_word s))"
      using 1 by simp
    also have "\<dots> \<le> length s"
      using skip_blanks_length after_word_length le_trans by blast
    finally show ?thesis using False by (subst skip_flags.simps) (simp add: Let_def)
  qed
qed

function stripNestedRunPrefix :: "string \<Rightarrow> string" where
  "stripNestedRunPrefix s =
     (let t = skip_blanks s in
      if t = [] then s
      else let w1 = word_of t; r1 = after_word t in
      if \<not> isIcmgArgv0 w1 \<or> r1 = [] then s
      else let t2 = skip_blanks r1 in
      if t2 = [] then s
      else if word_of t2 \<noteq> ''run'' then s
      else let p = skip_flags (skip_blanks (after_word t2)) in
      if p = [] then [] else stripNestedRunPrefix p)"
  by pat_completeness auto
termination
proof (relation "measure length", goal_cases)
  case (2 s t w1 r1 t2 p)
  have "t2 \<noteq> []" using 2 by blast
  moreover have "\<not> blank (hd t2)"
    using hd_dropWhile[of "\<lambda>c. blank c" r1] \<open>t2 \<noteq> []\<close> unfolding 2(6) by blast
  ultimately have "length (after_word t2) < length t2"
    by (rule length_dropWhile_less)
  moreover have "length p \<le> length (after_word t2)"
    unfolding 2(9) by (rule order_trans[OF skip_flags_length skip_blanks_length])
  moreover have "length t2 \<le> length r1" unfolding 2(6) by (rule skip_blanks_length)
  moreover have "length r1 \<le> length t" unfolding 2(4) by (rule after_word_length)
  moreover have "length t \<le> length s" unfolding 2(1) by (rule skip_blanks_length)
  ultimately show ?case by simp
qed simp

declare stripNestedRunPrefix.simps [simp del]

lemma set_flag_frame:
  "pred_option (\<lambda>r'. cmd_args r' = cmd_args r \<and> command r' = command r) (set_flag a r)"
  by (simp add: set_flag_def)

lemma set_flag_cmd_args: "set_flag a r = Some r' \<Longrightarrow> cmd_args r' = cmd_args r"
  using set_flag_frame[of r a] by simp

lemma push_arg_cmd_args [simp]: "cmd_args (push_arg a r) = cmd_args r @ [a]"
  by (simp add: push_arg_def)

lemma length_scan_args: "length (cmd_args (scan_args c p r args)) \<le> length (cmd_args r) + length args"
proof (induction args arbitrary: c p r)
  case (Cons a args)
  have push: "length (cmd_args (scan_args True p (push_arg a r) args)) \<le> length (cmd_args r) + length (a # args)"
    for p using Cons.IH[of True p "push_arg a r"] by simp
  have flag: "length (cmd_args (scan_args c p r' args)) \<le> length (cmd_args r) + length (a # args)"
    if "cmd_args r' = cmd_args r" for c p r'
    using Cons.IH[of c p r'] that by simp
  show ?case
    unfolding scan_args.simps
    by (cases "set_flag a r") (simp_all add: push[simplified] flag[simplified] set_flag_cmd_args)
qed simp

definition nested_run :: "string list \<Rightarrow> bool" where
  "nested_run xs \<longleftrightarrow> 2 \<le> length xs \<and> isIcmgArgv0 (xs ! 0) \<and> xs ! 1 = ''run''"

definition merge_flags :: "run_args \<Rightarrow> run_args \<Rightarrow> run_args" where
  "merge_flags ri r = ri\<lparr>raw := raw ri \<or> raw r, json_out := json_out ri \<or> json_out r,
     dry_run := dry_run ri \<or> dry_run r, stream := stream ri \<or> stream r, yes := yes ri \<or> yes r,
     ultra := ultra ri \<or> ultra r, no_delta := no_delta ri \<or> no_delta r,
     last_full := last_full ri \<or> last_full r, no_tier := no_tier ri \<or> no_tier r,
     nano := nano ri \<or> nano r, gist := gist ri \<or> gist r\<rparr>"

definition build_command :: "string list \<Rightarrow> string" where
  "build_command xs =
     (if length xs = 1 then stripNestedRunPrefix (xs ! 0)
      else foldl (\<lambda>cmd a. (if cmd \<noteq> [] then cmd @ '' '' else cmd) @ runQuoteArg a) [] xs)"

function parseRunArgs :: "string list \<Rightarrow> run_args" where
  "parseRunArgs args =
     (let r = scan_args False False run_args0 args in
      if nested_run (cmd_args r) then merge_flags (parseRunArgs (drop 2 (cmd_args r))) r
      else r\<lparr>command := build_command (cmd_args r)\<rparr>)"
  by pat_completeness auto
termination
proof (relation "measure length", goal_cases)
  case (2 args r)
  have "length (cmd_args r) \<le> length args"
    using length_scan_args[of False False run_args0 args] 2 by (simp add: run_args0_def)
  then show ?case using 2 by (auto simp: nested_run_def)
qed simp

declare parseRunArgs.simps [simp del]

section \<open>What reaches the child\<close>

definition own_flags :: "string list" where
  "own_flags = [''--raw'', ''--json'', ''--dry-run'', ''--stream'', ''--yes'', ''-y'', ''--ultra'',
     ''--no-delta'', ''--last-full'', ''--no-tier'', ''--nano'', ''--gist'']"

definition fold_flags :: "string list \<Rightarrow> run_args" where
  "fold_flags fs = foldl (\<lambda>r f. case set_flag f r of Some r' \<Rightarrow> r' | None \<Rightarrow> r) run_args0 fs"

lemma set_flag_own: "set_flag a r \<noteq> None \<longleftrightarrow> a \<in> set own_flags"
  by (simp add: set_flag_def own_flags_def)

lemma own_flag_shape: "a \<in> set own_flags \<Longrightarrow> a \<noteq> [] \<and> a \<noteq> ''--'' \<and> 1 < length a \<and> hd a = CHR ''-''"
  by (auto simp: own_flags_def)

lemma scan_flags:
  "\<forall>f \<in> set fs. f \<in> set own_flags \<Longrightarrow>
   scan_args False False r (fs @ rest) =
   scan_args False False (foldl (\<lambda>r f. case set_flag f r of Some r' \<Rightarrow> r' | None \<Rightarrow> r) r fs) rest"
proof (induction fs arbitrary: r)
  case (Cons f fs)
  then obtain r' where "set_flag f r = Some r'" using set_flag_own[of f r] by auto
  with Cons own_flag_shape[of f] show ?case by simp
qed simp

lemma scan_verbatim:
  "c \<or> p \<Longrightarrow> scan_args c p r args = r\<lparr>cmd_args := cmd_args r @ filter (\<lambda>a. a \<noteq> []) args\<rparr>"
  by (induction args arbitrary: c r) (auto simp: push_arg_def)

lemma fold_flags_frame: "cmd_args (fold_flags fs) = [] \<and> command (fold_flags fs) = []"
proof -
  have "cmd_args (foldl (\<lambda>r f. case set_flag f r of Some r' \<Rightarrow> r' | None \<Rightarrow> r) r fs) = cmd_args r \<and>
    command (foldl (\<lambda>r f. case set_flag f r of Some r' \<Rightarrow> r' | None \<Rightarrow> r) r fs) = command r" for r
  proof (induction fs arbitrary: r)
    case (Cons f fs)
    then show ?case using set_flag_frame[of r f] by (cases "set_flag f r") simp_all
  qed simp
  then show ?thesis by (simp add: fold_flags_def run_args0_def)
qed

lemma parse_after_flags:
  assumes "\<forall>f \<in> set fs. f \<in> set own_flags"
    and "scan_args False False (fold_flags fs) rest = (fold_flags fs)\<lparr>cmd_args := xs\<rparr>"
    and "\<not> nested_run xs"
  shows "parseRunArgs (fs @ rest) = (fold_flags fs)\<lparr>cmd_args := xs, command := build_command xs\<rparr>"
  using assms scan_flags[OF assms(1), of run_args0 rest]
  by (subst parseRunArgs.simps) (simp add: fold_flags_def Let_def)

text \<open>
  Everything after a bare \<open>--\<close> that follows only icmg's own flags goes to the
  child untouched, whatever it looks like, and the flags before it are the only ones taken.
\<close>

theorem parseRunArgs_after_dashes:
  assumes "\<forall>f \<in> set fs. f \<in> set own_flags" and "\<forall>a \<in> set rest. a \<noteq> []" and "\<not> nested_run rest"
  shows "parseRunArgs (fs @ ''--'' # rest) =
    (fold_flags fs)\<lparr>cmd_args := rest, command := build_command rest\<rparr>"
proof (rule parse_after_flags)
  have "filter (\<lambda>a. a \<noteq> []) rest = rest" using assms(2) by simp
  then show "scan_args False False (fold_flags fs) (''--'' # rest) = (fold_flags fs)\<lparr>cmd_args := rest\<rparr>"
    using scan_verbatim[of False True "fold_flags fs" rest] fold_flags_frame[of fs] by simp
qed (use assms in simp_all)

theorem parseRunArgs_after_dashes_witness:
  "parseRunArgs ([''--raw''] @ ''--'' # [''ls'', ''--json'']) =
   (fold_flags [''--raw''])\<lparr>cmd_args := [''ls'', ''--json''],
      command := build_command [''ls'', ''--json'']\<rparr>"
  by (rule parseRunArgs_after_dashes)
     (simp_all add: own_flags_def nested_run_def isIcmgArgv0_def after_last_def to_lower_def char_class_defs)

text \<open>
  The first token that is not one of icmg's flags starts the child command:
  it and every non-empty token after it reach the child, flags included.
\<close>

theorem parseRunArgs_first_command:
  assumes "\<forall>f \<in> set fs. f \<in> set own_flags"
    and "cmd \<noteq> []" and "cmd \<noteq> ''--''" and "cmd \<notin> set own_flags"
    and "\<not> nested_run (cmd # filter (\<lambda>a. a \<noteq> []) rest)"
  shows "parseRunArgs (fs @ cmd # rest) =
    (fold_flags fs)\<lparr>cmd_args := cmd # filter (\<lambda>a. a \<noteq> []) rest,
       command := build_command (cmd # filter (\<lambda>a. a \<noteq> []) rest)\<rparr>"
proof (rule parse_after_flags)
  have "set_flag cmd (fold_flags fs) = None" using assms(4) set_flag_own by blast
  then show "scan_args False False (fold_flags fs) (cmd # rest) =
      (fold_flags fs)\<lparr>cmd_args := cmd # filter (\<lambda>a. a \<noteq> []) rest\<rparr>"
    using assms(2,3) scan_verbatim[of True False "push_arg cmd (fold_flags fs)" rest]
      fold_flags_frame[of fs]
    by (auto simp: push_arg_def)
qed (use assms in simp_all)

theorem parseRunArgs_first_command_witness:
  "parseRunArgs ([''--yes''] @ ''./tool'' # [''--json'', [], ''--raw'']) =
   (fold_flags [''--yes''])\<lparr>cmd_args := ''./tool'' # filter (\<lambda>a. a \<noteq> []) [''--json'', [], ''--raw''],
     command := build_command (''./tool'' # filter (\<lambda>a. a \<noteq> []) [''--json'', [], ''--raw''])\<rparr>"
  by (rule parseRunArgs_first_command)
     (simp_all add: own_flags_def nested_run_def isIcmgArgv0_def after_last_def to_lower_def char_class_defs)

lemma merge_flags_frame [simp]:
  "cmd_args (merge_flags ri r) = cmd_args ri" "command (merge_flags ri r) = command ri"
  by (simp_all add: merge_flags_def)

text \<open>
  However often \<open>icmg run\<close> is nested in the arguments, the parsed command
  never starts another \<open>icmg run\<close>.
\<close>

theorem parseRunArgs_never_nested: "\<not> nested_run (cmd_args (parseRunArgs args))"
proof (induction args rule: parseRunArgs.induct)
  case (1 args)
  let ?r = "scan_args False False run_args0 args"
  show ?case
  proof (cases "nested_run (cmd_args ?r)")
    case True
    with 1 show ?thesis by (subst parseRunArgs.simps) (simp add: Let_def)
  next
    case False
    then show ?thesis by (subst parseRunArgs.simps) (simp add: Let_def)
  qed
qed

section \<open>The child command line\<close>

lemma runQuoteArg_nonempty [simp]: "runQuoteArg a \<noteq> []"
  by (simp add: runQuoteArg_def)

lemma join_glue: "join sep ((x @ y) # zs) = x @ join sep (y # zs)"
  by (cases zs) auto

lemma foldl_join:
  "cmd \<noteq> [] \<Longrightarrow> foldl (\<lambda>cmd a. (if cmd \<noteq> [] then cmd @ '' '' else cmd) @ runQuoteArg a) cmd xs =
   join '' '' (cmd # map runQuoteArg xs)"
proof (induction xs arbitrary: cmd)
  case (Cons a xs)
  then show ?case
    using Cons.IH[of "cmd @ '' '' @ runQuoteArg a"]
      join_glue[of "'' ''" "cmd @ '' ''" "runQuoteArg a" "map runQuoteArg xs"] by simp
qed simp

lemma build_command_join:
  "length xs \<noteq> 1 \<Longrightarrow> build_command xs = join '' '' (map runQuoteArg xs)"
  by (cases xs) (auto simp: build_command_def foldl_join)

lemma command_parseRunArgs:
  "command (parseRunArgs args) = build_command (cmd_args (parseRunArgs args))"
proof (induction args rule: parseRunArgs.induct)
  case (1 args)
  then show ?case
    by (cases "nested_run (cmd_args (scan_args False False run_args0 args))")
       (subst (1 2) parseRunArgs.simps, simp add: Let_def)+
qed

text \<open>
  For a command of several tokens the command line that is built splits back
  into exactly the tokens, if each token is one the quoter protects.
\<close>

theorem parseRunArgs_command_splits:
  assumes "2 \<le> length (cmd_args (parseRunArgs args))"
    and "\<forall>a \<in> set (cmd_args (parseRunArgs args)). quotable a"
  shows "parseArgv (command (parseRunArgs args)) = cmd_args (parseRunArgs args)"
  using assms parse_quoted_line[of "cmd_args (parseRunArgs args)" "[]"]
  by (simp add: command_parseRunArgs build_command_join parseArgv_def quotable_def)

lemma parseRunArgs_example:
  "cmd_args (parseRunArgs [''--raw'', ''git'', ''commit'', ''-m'', ''a b'']) =
   [''git'', ''commit'', ''-m'', ''a b'']"
  by (subst parseRunArgs.simps)
     (simp add: set_flag_def push_arg_def run_args0_def nested_run_def isIcmgArgv0_def
       after_last_def to_lower_def char_class_defs Let_def)

theorem parseRunArgs_command_splits_witness:
  "parseArgv (command (parseRunArgs [''--raw'', ''git'', ''commit'', ''-m'', ''a b''])) =
   [''git'', ''commit'', ''-m'', ''a b'']"
  using parseRunArgs_command_splits[of "[''--raw'', ''git'', ''commit'', ''-m'', ''a b'']"]
  by (simp add: parseRunArgs_example quotable_def run_special_def)

section \<open>Unwrapping a verbatim line\<close>

text \<open>
  Unwrapping the \<open>icmg run\<close> prefixes of a line leaves none: the result is a
  fixed point of the unwrapping.
\<close>

theorem stripNestedRunPrefix_fixpoint:
  "stripNestedRunPrefix (stripNestedRunPrefix s) = stripNestedRunPrefix s"
proof (induction s rule: stripNestedRunPrefix.induct)
  case (1 s)
  let ?t = "skip_blanks s" and ?t2 = "skip_blanks (after_word (skip_blanks s))"
  let ?p = "skip_flags (skip_blanks (after_word ?t2))"
  let ?stop = "?t = [] \<or> \<not> isIcmgArgv0 (word_of ?t) \<or> after_word ?t = [] \<or> ?t2 = [] \<or> word_of ?t2 \<noteq> ''run''"
  consider "?stop" | "\<not> ?stop" "?p = []" | "\<not> ?stop" "?p \<noteq> []" by blast
  then show ?case
  proof cases
    case 1
    then have "stripNestedRunPrefix s = s"
      by (subst stripNestedRunPrefix.simps) (unfold Let_def, metis (full_types))
    then show ?thesis by simp
  next
    case 2
    then have "stripNestedRunPrefix s = []"
      by (subst stripNestedRunPrefix.simps) (simp only: Let_def de_Morgan_disj simp_thms if_False if_True)
    moreover have "stripNestedRunPrefix [] = []" by (subst stripNestedRunPrefix.simps) simp
    ultimately show ?thesis by simp
  next
    case 3
    then have "stripNestedRunPrefix s = stripNestedRunPrefix ?p"
      by (subst stripNestedRunPrefix.simps) (simp only: Let_def de_Morgan_disj simp_thms if_False if_True)
    moreover have "stripNestedRunPrefix (stripNestedRunPrefix ?p) = stripNestedRunPrefix ?p"
      by (rule 1[OF refl _ refl refl _ refl _ _ refl]) (use 3 in blast)+
    ultimately show ?thesis by simp
  qed
qed

end
