(* ===== verification/Destructive.thy ===== *)
theory Destructive
  imports RunArgs
begin

text \<open>
  The destructive-command guard of \<open>cli/run_args.hpp\<close>: \<open>destructiveDecision\<close>,
  \<open>hasInlineYesPrefix\<close> and \<open>isDestructiveArgv\<close>. The reason string that the code writes
  through its out-parameter is the value under \<open>Some\<close>; \<open>None\<close> is the answer \<open>false\<close>.
\<close>

section \<open>Deciding what to do\<close>

datatype decision = Proceed | Deny | Prompt

definition destructiveDecision :: "bool \<Rightarrow> bool \<Rightarrow> bool \<Rightarrow> bool \<Rightarrow> bool \<Rightarrow> decision" where
  "destructiveDecision yes_flag assume_yes_env is_destructive targets_safe stdin_is_tty =
     (if \<not> is_destructive \<or> targets_safe then Proceed
      else if yes_flag \<or> assume_yes_env then Proceed
      else if \<not> stdin_is_tty then Deny
      else Prompt)"

section \<open>Tokens and wrappers\<close>

fun flatten_word :: "string \<Rightarrow> string \<Rightarrow> string list" where
  "flatten_word cur [] = (if cur \<noteq> [] then [cur] else [])"
| "flatten_word cur (c # cs) =
     (if blank c then (if cur \<noteq> [] then cur # flatten_word [] cs else flatten_word [] cs)
      else flatten_word (cur @ [c]) cs)"

definition flatten :: "string list \<Rightarrow> string list" where
  "flatten argv = concat (map (flatten_word []) argv)"

definition isEnvAssign :: "string \<Rightarrow> bool" where
  "isEnvAssign t =
     (case index_of (\<lambda>c. c = CHR ''='') t of
        None \<Rightarrow> False
      | Some eq \<Rightarrow> eq \<noteq> 0 \<and> list_all (\<lambda>c. is_alnum c \<or> c = CHR ''_'') (take eq t))"

fun yes_prefix :: "string list \<Rightarrow> bool" where
  "yes_prefix [] = False"
| "yes_prefix (t # ts) =
     (if \<not> isEnvAssign t then False
      else let eq = the (index_of (\<lambda>c. c = CHR ''='') t);
               key = lower_str (take eq t);
               val = lower_str (drop (eq + 1) t);
               truthy = (val = ''1'' \<or> val = ''true'' \<or> val = ''yes'')
           in if (key = ''icmg_assume_yes'' \<or> key = ''force'' \<or> key = ''icmg_yes'') \<and> truthy
              then True else yes_prefix ts)"

definition hasInlineYesPrefix :: "string list \<Rightarrow> bool" where
  "hasInlineYesPrefix argv = yes_prefix (flatten argv)"

definition is_wrapper :: "string \<Rightarrow> bool" where
  "is_wrapper t \<longleftrightarrow> isEnvAssign t \<or> lower_str t = ''sudo''"

definition hasTok :: "string \<Rightarrow> string list \<Rightarrow> bool" where
  "hasTok f args = list_ex (\<lambda>t. lower_str t = f) args"

definition short_force :: "string \<Rightarrow> bool" where
  "short_force t \<longleftrightarrow> 2 \<le> length t \<and> t ! 0 = CHR ''-'' \<and> t ! 1 \<noteq> CHR ''-''
     \<and> list_ex (\<lambda>c. c = CHR ''r'' \<or> c = CHR ''R'' \<or> c = CHR ''f'') t"

definition hasRmForce :: "string list \<Rightarrow> bool" where
  "hasRmForce args = list_ex short_force args"

definition git_reason :: "string list \<Rightarrow> string option" where
  "git_reason args =
     (case args of [] \<Rightarrow> None
      | s # _ \<Rightarrow>
          let sub = lower_str s in
          if sub = ''rm'' \<and> hasRmForce args then Some ''git rm -r/-f''
          else if sub = ''push'' \<and> hasTok ''--force'' args then Some ''git push --force''
          else if sub = ''reset'' \<and> hasTok ''--hard'' args then Some ''git reset --hard''
          else if sub = ''clean'' \<and> hasRmForce args then Some ''git clean -f''
          else None)"

definition sql_reason :: "string list \<Rightarrow> string option" where
  "sql_reason rest =
     (let joined = concat (map (\<lambda>t. lower_str t @ '' '') rest) in
      if contains ''delete from'' joined then Some ''DELETE FROM''
      else if contains ''drop table'' joined then Some ''DROP TABLE''
      else if contains ''drop database'' joined then Some ''DROP DATABASE''
      else if contains ''drop schema'' joined then Some ''DROP SCHEMA''
      else if contains ''truncate '' joined then Some ''TRUNCATE''
      else None)"

definition isDestructiveArgv :: "string list \<Rightarrow> string option" where
  "isDestructiveArgv argv =
     (case dropWhile is_wrapper (flatten argv) of
        [] \<Rightarrow> None
      | v # args \<Rightarrow>
          let verb = lower_str v in
          if verb = ''rm'' then (if hasRmForce args then Some ''rm with -r/-f'' else None)
          else if verb = ''remove-item'' then Some ''Remove-Item''
          else if verb = ''rmdir'' then
            (if hasTok ''/s'' args \<or> hasRmForce args then Some ''rmdir /s'' else None)
          else if verb = ''git'' then git_reason args
          else sql_reason (v # args))"

section \<open>Properties\<close>

lemma flatten_word_plain:
  "\<forall>c \<in> set t. \<not> blank c \<Longrightarrow> flatten_word cur t = (if cur @ t = [] then [] else [cur @ t])"
proof (induction t arbitrary: cur)
  case (Cons c t)
  then show ?case by simp
qed simp

definition plain_token :: "string \<Rightarrow> bool" where
  "plain_token t \<longleftrightarrow> t \<noteq> [] \<and> (\<forall>c \<in> set t. \<not> blank c)"

lemma flatten_plain: "\<forall>t \<in> set argv. plain_token t \<Longrightarrow> flatten argv = argv"
  by (induction argv) (auto simp: flatten_def plain_token_def flatten_word_plain)

lemma flatten_Cons: "flatten (t # argv) = flatten_word [] t @ flatten argv"
  by (simp add: flatten_def)

lemma flatten_plain_Cons: "plain_token t \<Longrightarrow> flatten (t # argv) = t # flatten argv"
  by (simp add: flatten_Cons plain_token_def flatten_word_plain)

text \<open>
  Wrapping a command in environment assignments or \<open>sudo\<close> changes nothing:
  the guard reaches the verb behind them, on every command.
\<close>

theorem isDestructiveArgv_wrappers:
  assumes "\<forall>w \<in> set ws. is_wrapper w \<and> plain_token w"
  shows "isDestructiveArgv (ws @ argv) = isDestructiveArgv argv"
proof -
  have "flatten (ws @ argv) = ws @ flatten argv"
    using assms by (induction ws) (auto simp: flatten_plain_Cons)
  moreover have "dropWhile is_wrapper (ws @ flatten argv) = dropWhile is_wrapper (flatten argv)"
    using assms by (simp add: dropWhile_append2)
  ultimately show ?thesis by (simp add: isDestructiveArgv_def)
qed

theorem isDestructiveArgv_wrappers_witness:
  "isDestructiveArgv ([''A=1'', ''sudo''] @ [''rm'', ''-rf'', ''x'']) = Some ''rm with -r/-f''"
  by (subst isDestructiveArgv_wrappers)
     (simp_all add: is_wrapper_def isEnvAssign_def plain_token_def lower_str_def to_lower_def
        char_class_defs isDestructiveArgv_def flatten_def hasRmForce_def short_force_def)

text \<open>
  A command is flagged only for its leading verb or for an SQL phrase in its
  words: a token that merely mentions a destructive tool never trips the guard.
\<close>

theorem isDestructiveArgv_only_verb:
  assumes "isDestructiveArgv argv = Some reason"
  shows "\<exists>v args. dropWhile is_wrapper (flatten argv) = v # args \<and>
    (lower_str v \<in> {''rm'', ''remove-item'', ''rmdir'', ''git''} \<or> sql_reason (v # args) = Some reason)"
proof (cases "dropWhile is_wrapper (flatten argv)")
  case Nil
  with assms show ?thesis by (simp add: isDestructiveArgv_def)
next
  case (Cons v args)
  show ?thesis
  proof (cases "lower_str v \<in> {''rm'', ''remove-item'', ''rmdir'', ''git''}")
    case True
    with Cons show ?thesis by blast
  next
    case False
    with assms Cons have "sql_reason (v # args) = Some reason"
      by (simp add: isDestructiveArgv_def Let_def)
    with Cons show ?thesis by blast
  qed
qed

theorem isDestructiveArgv_only_verb_witness:
  "isDestructiveArgv [''grep'', ''rm -rf''] = None \<and>
   (\<exists>v args. dropWhile is_wrapper (flatten [''git'', ''push'', ''--force'']) = v # args \<and>
    (lower_str v \<in> {''rm'', ''remove-item'', ''rmdir'', ''git''} \<or>
     sql_reason (v # args) = Some ''git push --force''))"
proof
  show "isDestructiveArgv [''grep'', ''rm -rf''] = None"
    by code_simp
  have "isDestructiveArgv [''git'', ''push'', ''--force''] = Some ''git push --force''"
    by code_simp
  then show "\<exists>v args. dropWhile is_wrapper (flatten [''git'', ''push'', ''--force'']) = v # args \<and>
    (lower_str v \<in> {''rm'', ''remove-item'', ''rmdir'', ''git''} \<or>
     sql_reason (v # args) = Some ''git push --force'')"
    by (rule isDestructiveArgv_only_verb)
qed

text \<open>
  \<open>rm\<close> with long options is never flagged, so \<open>rm --recursive --force\<close>
  passes the guard that stops \<open>rm -rf\<close>.
\<close>

theorem rm_long_options_unflagged:
  assumes "\<forall>t \<in> set args. plain_token t \<and> (hd t = CHR ''-'' \<longrightarrow> prefix ''--'' t)"
  shows "isDestructiveArgv (''rm'' # args) = None"
proof -
  have "\<not> short_force t" if "t \<in> set args" for t
  proof -
    have "t \<noteq> []" "hd t = CHR ''-'' \<longrightarrow> prefix ''--'' t"
      using assms that by (auto simp: plain_token_def)
    then show ?thesis
      by (cases t) (auto simp: short_force_def prefix_def)
  qed
  then have "\<not> hasRmForce args" by (auto simp: hasRmForce_def list_ex_iff)
  moreover have "flatten (''rm'' # args) = ''rm'' # args"
    using assms by (intro flatten_plain) (auto simp: plain_token_def)
  moreover have "\<not> is_wrapper ''rm''"
    by (simp add: is_wrapper_def isEnvAssign_def lower_str_def to_lower_def char_class_defs)
  ultimately show ?thesis
    by (simp add: isDestructiveArgv_def lower_str_def to_lower_def char_class_defs)
qed

theorem rm_long_options_unflagged_witness:
  "isDestructiveArgv (''rm'' # [''--recursive'', ''--force'', ''/srv'']) = None"
  by (rule rm_long_options_unflagged) (simp add: plain_token_def)

lemma destructiveDecision_iff:
  "destructiveDecision y e d s tty = Proceed \<longleftrightarrow> \<not> d \<or> s \<or> y \<or> e"
  "destructiveDecision y e d s tty = Prompt \<longrightarrow> tty"
  by (auto simp: destructiveDecision_def)

end
