(* ===== verification/Cli.thy ===== *)
theory Cli
  imports CxxString
begin

text \<open>
  What every command class shares, \<open>cli/base_command.hpp\<close>: the option helpers, and the outcome of
  a run, its exit code with what it prints to the two streams.
\<close>

record outcome =
  exit_code :: int
  out :: string
  err :: string

definition hasFlag :: "string list \<Rightarrow> string \<Rightarrow> bool" where
  "hasFlag args flag \<longleftrightarrow> flag \<in> set args"

fun flagValue :: "string list \<Rightarrow> string \<Rightarrow> string \<Rightarrow> string" where
  "flagValue [] k d = d"
| "flagValue (a # as) k d =
     (if prefix (k @ ''='') a then drop (length k + 1) a
      else if a = k \<and> as \<noteq> [] then hd as
      else flagValue as k d)"

definition em_dash :: string where
  "em_dash = [CHR 0xE2, CHR 0x80, CHR 0x94]"

text \<open>Trailing blanks and line ends, as the commands that read another program's output drop them.\<close>

definition rtrim :: "string \<Rightarrow> string" where
  "rtrim s = rev (dropWhile (\<lambda>c. c \<in> {nl, cr, CHR '' '', tab}) (rev s))"

end
