(* ===== verification/Wire.thy ===== *)
theory Wire
  imports Cli
begin

text \<open>
  The shared append-only files of the cross-session commands (\<open>icmg presence\<close>, \<open>lock\<close>,
  \<open>msg\<close>, \<open>bus\<close>): tab-separated fields with escaped free text, one entry per line, read
  back by skipping the lines that do not parse. The locale \<open>line_codec\<close> is the contract a
  pair of line functions offers the commands that append to such a file and read it.
\<close>

section \<open>Sessions and command outcomes\<close>

text \<open>
  Each of the four commands names its session by \<open>ICMG_SESSION_ID\<close> or its process id,
  and answers with an exit code and text.
\<close>

definition mySession :: "string option \<Rightarrow> int \<Rightarrow> string" where
  "mySession env getpid =
     (case env of Some s \<Rightarrow> if s \<noteq> [] then s else ''pid-'' @ int_str getpid
      | None \<Rightarrow> ''pid-'' @ int_str getpid)"

text \<open>The last value given for an option, over the arguments after the subcommand.\<close>

fun opt_last :: "string \<Rightarrow> string \<Rightarrow> string list \<Rightarrow> string" where
  "opt_last flag d (a # b # rest) = opt_last flag (if a = flag then b else d) (b # rest)"
| "opt_last flag d _ = d"

section \<open>Fields\<close>

definition cut_tab :: "string \<Rightarrow> (string \<times> string) option" where
  "cut_tab s =
     (case index_of (\<lambda>c. c = tab) s of
        None \<Rightarrow> None
      | Some i \<Rightarrow> Some (take i s, drop (i + 1) s))"

lemma cut_tab_append: "tab \<notin> set x \<Longrightarrow> cut_tab (x @ tab # y) = Some (x, y)"
  by (subst cut_tab_def, subst index_of_append_first) auto

lemma cut_tab_Some: "cut_tab s = Some (x, y) \<Longrightarrow> s = x @ tab # y \<and> tab \<notin> set x"
proof -
  assume "cut_tab s = Some (x, y)"
  then obtain i where i: "index_of (\<lambda>c. c = tab) s = Some i" "x = take i s" "y = drop (i + 1) s"
    by (auto simp: cut_tab_def split: option.splits)
  then have "i < length s" "s ! i = tab" "\<forall>j < i. s ! j \<noteq> tab"
    using index_of_Some by blast+
  then show ?thesis
    using i id_take_nth_drop[of i s] by (auto simp: in_set_conv_nth)
qed

lemma stoll_fits: "stoll s = Some v \<Longrightarrow> fits64 v"
  by (auto simp: stoll_def sto_int_def fits64_def Let_def split: if_splits)

text \<open>
  The escaping of free text (\<open>msg_detail::esc\<close>, \<open>bus_detail::esc\<close> and the loops of
  \<open>presence.hpp\<close>): backslash, tab and newline become two-character sequences.
\<close>

definition esc1 :: "char \<Rightarrow> string" where
  "esc1 c = (if c = bs then [bs, bs] else if c = tab then [bs, CHR ''t'']
             else if c = nl then [bs, CHR ''n''] else [c])"

definition esc :: "string \<Rightarrow> string" where
  "esc s = concat (map esc1 s)"

definition unesc1 :: "char \<Rightarrow> char" where
  "unesc1 n = (if n = CHR ''t'' then tab else if n = CHR ''n'' then nl else n)"

function unesc :: "string \<Rightarrow> string" where
  "unesc [] = []"
| "unesc (c # cs) =
     (if c = bs \<and> cs \<noteq> [] then unesc1 (hd cs) # unesc (tl cs) else c # unesc cs)"
  by pat_completeness auto
termination
  by (relation "measure length") simp_all

lemma unesc_esc: "unesc (esc s) = s"
  by (induction s) (simp_all add: esc_def esc1_def unesc1_def)

lemma esc_clean: "tab \<notin> set (esc s)" "nl \<notin> set (esc s)"
  by (auto simp: esc_def esc1_def)

section \<open>Cursors\<close>

text \<open>The newest time seen by a reader that starts from a cursor.\<close>

definition newest_of :: "('e \<Rightarrow> int) \<Rightarrow> int \<Rightarrow> 'e list \<Rightarrow> int" where
  "newest_of f since xs = foldl (\<lambda>n x. if n < f x then f x else n) since xs"

lemma newest_of_simps [simp]:
  "newest_of f since [] = since"
  "newest_of f since (x # xs) = newest_of f (max since (f x)) xs"
  by (auto simp: newest_of_def max_def not_less)

lemma newest_of_ge: "since \<le> newest_of f since xs" "x \<in> set xs \<Longrightarrow> f x \<le> newest_of f since xs"
proof -
  have "since \<le> newest_of f since xs \<and> (\<forall>x \<in> set xs. f x \<le> newest_of f since xs)"
  proof (induction xs arbitrary: since)
    case (Cons x xs)
    have "max since (f x) \<le> newest_of f (max since (f x)) xs" using Cons.IH by blast
    moreover have "\<forall>y \<in> set xs. f y \<le> newest_of f (max since (f x)) xs" using Cons.IH by blast
    ultimately show ?case by auto
  qed simp
  then show "since \<le> newest_of f since xs" "x \<in> set xs \<Longrightarrow> f x \<le> newest_of f since xs" by auto
qed

lemma newest_of_in: "newest_of f since xs = since \<or> newest_of f since xs \<in> f ` set xs"
proof (induction xs arbitrary: since)
  case (Cons x xs)
  show ?case using Cons.IH[of "max since (f x)"] by (auto simp: max_def)
qed simp

section \<open>Files of lines\<close>

definition complete :: "string \<Rightarrow> bool" where
  "complete file \<longleftrightarrow> file = [] \<or> last file = nl"

definition read_lines :: "(string \<Rightarrow> 'e option) \<Rightarrow> string \<Rightarrow> 'e list" where
  "read_lines parse file = List.map_filter parse (getlines file)"

lemma complete_Nil [simp]: "complete []"
  by (simp add: complete_def)

lemma complete_append_line [simp]: "complete (file @ l @ [nl])"
  by (simp add: complete_def)

lemma complete_unlines: "complete (unlines ls)"
  by (induction ls rule: rev_induct) (auto simp: complete_def unlines_append)

lemma split_on_append:
  "split_on d (x @ y) =
   butlast (split_on d x) @ (last (split_on d x) @ hd (split_on d y)) # tl (split_on d y)"
proof (induction x)
  case Nil
  then show ?case by (cases "split_on d y") auto
next
  case (Cons c cs)
  show ?case
  proof (cases "c = d")
    case False
    obtain l ls where "split_on d cs = l # ls" by (cases "split_on d cs") auto
    with False Cons show ?thesis by (cases ls) auto
  qed (use Cons in simp)
qed

lemma split_on_last_sep: "s \<noteq> [] \<Longrightarrow> last s = d \<Longrightarrow> last (split_on d s) = []"
proof -
  assume "s \<noteq> []" "last s = d"
  then have "s = butlast s @ [d]" by (metis append_butlast_last_id)
  then show ?thesis using split_on_append[of d "butlast s" "[d]"] by simp
qed

lemma getlines_append_line:
  assumes "complete file" and "nl \<notin> set l"
  shows "getlines (file @ l @ [nl]) = getlines file @ [l]"
proof -
  have l: "split_on nl (l @ [nl]) = [l, []]"
    using assms(2) split_on_append_sep[of nl l "[]"] by simp
  show ?thesis
  proof (cases "file = []")
    case True
    with l show ?thesis by (simp add: getlines_on_def)
  next
    case False
    then have "last (split_on nl file) = []"
      using assms(1) split_on_last_sep by (simp add: complete_def)
    then show ?thesis
      by (simp add: getlines_on_def split_on_append[where x = "file"] l Let_def butlast_append)
  qed
qed

lemma map_filter_append: "List.map_filter f (xs @ ys) = List.map_filter f xs @ List.map_filter f ys"
  by (induction xs) (auto simp: List.map_filter_def)

lemma map_filter_map_Some: "\<forall>x \<in> set xs. f (g x) = Some x \<Longrightarrow> List.map_filter f (map g xs) = xs"
  by (induction xs) (auto simp: List.map_filter_def)

lemma map_filter_set: "y \<in> set (List.map_filter f xs) \<Longrightarrow> \<exists>x \<in> set xs. f x = Some y"
  by (auto simp: List.map_filter_def)

locale line_codec =
  fixes to_line :: "'e \<Rightarrow> string" and from_line :: "string \<Rightarrow> 'e option" and ok :: "'e \<Rightarrow> bool"
  assumes one_line: "ok e \<Longrightarrow> nl \<notin> set (to_line e)"
    and round_trip: "ok e \<Longrightarrow> from_line (to_line e) = Some e"
begin

lemma read_append:
  assumes "complete file" and "ok e"
  shows "read_lines from_line (file @ to_line e @ [nl]) = read_lines from_line file @ [e]"
  using assms by (simp add: read_lines_def getlines_append_line one_line map_filter_append
      round_trip List.map_filter_def)

lemma read_write:
  assumes "\<forall>e \<in> set es. ok e"
  shows "read_lines from_line (unlines (map to_line es)) = es"
proof -
  have "getlines (unlines (map to_line es)) = map to_line es"
    using assms by (intro getlines_unlines) (auto simp: one_line)
  then show ?thesis
    using assms by (simp add: read_lines_def map_filter_map_Some round_trip)
qed

lemma to_line_inject: "ok a \<Longrightarrow> ok b \<Longrightarrow> to_line a = to_line b \<longleftrightarrow> a = b"
  by (metis option.inject round_trip)

end

section \<open>Logs collapsed by key\<close>

text \<open>
  A log is collapsed by folding one step over its entries: the entry takes the place of the
  one with its key, or goes to the end. The contract fixes where an entry lands; what stays
  at a key is the client's rule \<open>wins\<close>.
\<close>

definition entry_at :: "('e \<Rightarrow> 'k) \<Rightarrow> 'k \<Rightarrow> 'e list \<Rightarrow> 'e option" where
  "entry_at key k xs = find (\<lambda>x. key x = k) xs"

locale keyed_log =
  fixes key :: "'e \<Rightarrow> 'k" and wins :: "'e \<Rightarrow> 'e \<Rightarrow> bool" and put :: "'e \<Rightarrow> 'e list \<Rightarrow> 'e list"
  assumes put_keys: "map key (put e xs) =
      (if key e \<in> key ` set xs then map key xs else map key xs @ [key e])"
    and put_at: "entry_at key k (put e xs) =
      (if k \<noteq> key e then entry_at key k xs
       else case entry_at key k xs of None \<Rightarrow> Some e
            | Some x \<Rightarrow> Some (if wins e x then e else x))"
begin

lemma put_distinct: "distinct (map key xs) \<Longrightarrow> distinct (map key (put e xs))"
  by (simp add: put_keys)

lemma put_key_set: "key ` set (put e xs) = insert (key e) (key ` set xs)"
proof -
  have "set (map key (put e xs)) = insert (key e) (set (map key xs))"
    unfolding put_keys by auto
  then show ?thesis by simp
qed

lemma collapse_distinct: "distinct (map key xs) \<Longrightarrow> distinct (map key (fold put es xs))"
  by (induction es arbitrary: xs) (auto simp: put_distinct)

lemma collapse_keys: "key ` set (fold put es xs) = key ` set es \<union> key ` set xs"
  by (induction es arbitrary: xs) (auto simp: put_key_set)

lemma collapse_snoc: "fold put (es @ [e]) xs = put e (fold put es xs)"
  by simp

lemma collapse_at_last:
  assumes "\<And>a b. wins a b"
  shows "entry_at key k (fold put (es @ [e]) []) =
    (if k = key e then Some e else entry_at key k (fold put es []))"
  using assms by (simp add: put_at split: option.split)

lemma collapse_at_find:
  assumes "\<And>a b. wins a b"
  shows "entry_at key k (fold put es []) = find (\<lambda>e. key e = k) (rev es)"
proof (induction es rule: rev_induct)
  case Nil
  then show ?case by (simp add: entry_at_def)
next
  case (snoc e es)
  then show ?case using collapse_at_last[OF assms, where k = k and es = es and e = e] by auto
qed

end

section \<open>Tables of distinct keys\<close>

lemma entry_at_simps:
  "entry_at key k [] = None"
  "entry_at key k (x # xs) = (if key x = k then Some x else entry_at key k xs)"
  by (simp_all add: entry_at_def)

lemma entry_at_None: "entry_at key k xs = None \<longleftrightarrow> k \<notin> key ` set xs"
  by (auto simp: entry_at_def find_None_all)

lemma entry_at_Some: "entry_at key k xs = Some x \<Longrightarrow> x \<in> set xs \<and> key x = k"
  by (auto simp: entry_at_def dest: find_Some_in)

lemma entry_at_filter:
  assumes "distinct (map key xs)"
  shows "entry_at key k (filter P xs) =
    (case entry_at key k xs of None \<Rightarrow> None | Some x \<Rightarrow> if P x then Some x else None)"
  using assms
proof (induction xs)
  case (Cons x xs)
  show ?case
  proof (cases "key x = k")
    case True
    then have "entry_at key k xs = None" using Cons.prems by (auto simp: entry_at_None)
    then show ?thesis using True Cons by (simp add: entry_at_simps)
  qed (use Cons in \<open>simp add: entry_at_simps\<close>)
qed (simp add: entry_at_simps)

end
