(* ===== verification/Locks.thy ===== *)
theory Locks
  imports Wire
begin

text \<open>
  Resource locks across parallel sessions: \<open>core/agent_lease.hpp\<close> (leases, their text
  form and the conflict rule) and \<open>cli/commands/lock_cmd.cpp\<close> (the command over the shared
  file). The file is its byte content; a command takes it and returns its exit code, what
  it prints and the new content.
\<close>

section \<open>Leases\<close>

record agent_lease =
  scope :: string
  pid :: int
  host :: string
  heartbeat_at :: int

record claim_result =
  granted :: bool
  conflict_host :: string
  conflict_pid :: int

fun resolveClaim :: "agent_lease list \<Rightarrow> string \<Rightarrow> int \<Rightarrow> string \<Rightarrow> int \<Rightarrow> int \<Rightarrow> claim_result" where
  "resolveClaim [] sc my_pid my_host now stale_after =
     \<lparr>granted = True, conflict_host = [], conflict_pid = 0\<rparr>"
| "resolveClaim (l # ls) sc my_pid my_host now stale_after =
     (if scope l \<noteq> sc then resolveClaim ls sc my_pid my_host now stale_after
      else if pid l = my_pid \<and> host l = my_host then resolveClaim ls sc my_pid my_host now stale_after
      else if now - heartbeat_at l > stale_after then resolveClaim ls sc my_pid my_host now stale_after
      else \<lparr>granted = False, conflict_host = host l, conflict_pid = pid l\<rparr>)"

definition leaseToLine :: "agent_lease \<Rightarrow> string" where
  "leaseToLine l = int_str (pid l) @ [tab] @ host l @ [tab] @ int_str (heartbeat_at l) @ [tab] @ scope l"

definition leaseFromLine :: "string \<Rightarrow> agent_lease option" where
  "leaseFromLine line =
     (case cut_tab line of None \<Rightarrow> None | Some (f1, r1) \<Rightarrow>
      (case cut_tab r1 of None \<Rightarrow> None | Some (f2, r2) \<Rightarrow>
      (case cut_tab r2 of None \<Rightarrow> None | Some (f3, f4) \<Rightarrow>
      (case stoll f1 of None \<Rightarrow> None | Some p \<Rightarrow>
      (case stoll f3 of None \<Rightarrow> None | Some hb \<Rightarrow>
         if f4 = [] then None
         else Some \<lparr>scope = f4, pid = p, host = f2, heartbeat_at = hb\<rparr>)))))"

text \<open>The inner loop of \<open>lastPerScope\<close>: replace the entry of the same scope, or append.\<close>

fun put_lease :: "agent_lease \<Rightarrow> agent_lease list \<Rightarrow> agent_lease list" where
  "put_lease l [] = [l]"
| "put_lease l (x # xs) = (if scope x = scope l then l # xs else x # put_lease l xs)"

definition lastPerScope :: "agent_lease list \<Rightarrow> agent_lease list" where
  "lastPerScope all = fold put_lease all []"

interpretation lease_log: keyed_log scope "\<lambda>_ _. True" put_lease
proof
  show "map scope (put_lease e xs) =
      (if scope e \<in> scope ` set xs then map scope xs else map scope xs @ [scope e])" for e xs
    by (induction xs) auto
  show "entry_at scope k (put_lease e xs) =
      (if k \<noteq> scope e then entry_at scope k xs
       else case entry_at scope k xs of None \<Rightarrow> Some e | Some x \<Rightarrow> Some (if True then e else x))" for k e xs
    by (induction xs) (auto simp: entry_at_def)
qed

section \<open>Text form\<close>

definition lease_ok :: "agent_lease \<Rightarrow> bool" where
  "lease_ok l \<longleftrightarrow> fits64 (pid l) \<and> fits64 (heartbeat_at l) \<and> tab \<notin> set (host l) \<and> nl \<notin> set (host l)
     \<and> scope l \<noteq> [] \<and> nl \<notin> set (scope l)"

interpretation lease_text: line_codec leaseToLine leaseFromLine lease_ok
proof
  fix l
  assume ok: "lease_ok l"
  then show "nl \<notin> set (leaseToLine l)"
    by (simp add: leaseToLine_def lease_ok_def int_str_no_sep)
  show "leaseFromLine (leaseToLine l) = Some l"
    using ok by (simp add: leaseFromLine_def leaseToLine_def lease_ok_def cut_tab_append
        int_str_no_sep stoll_int_str)
qed

section \<open>The command\<close>

definition TTL :: int where
  "TTL = 300"

definition readAll :: "string \<Rightarrow> agent_lease list" where
  "readAll file = read_lines leaseFromLine file"

definition append_lease :: "agent_lease \<Rightarrow> string \<Rightarrow> string" where
  "append_lease l file = file @ leaseToLine l @ [nl]"

definition lock_usage :: string where
  "lock_usage =
     ''Usage: icmg lock claim <scope> | release <scope> | list'' @ [nl] @
     ''  claim    claim a file/zone/task so another live session can'' @ [sq] @ ''t clobber it'' @ [nl] @
     ''  release  free a scope you hold'' @ [nl] @
     ''  list     show currently-held scopes + owner'' @ [nl]"

definition live_lines :: "int \<Rightarrow> agent_lease list \<Rightarrow> string list" where
  "live_lines now held =
     map (\<lambda>l. ''  '' @ scope l @ ''  (held by '' @ host l @ '', '' @ int_str (now - heartbeat_at l) @ ''s ago)'')
       (filter (\<lambda>l. \<not> now - heartbeat_at l > TTL) held)"

definition lock_run :: "string list \<Rightarrow> int \<Rightarrow> string \<Rightarrow> string \<Rightarrow> outcome \<times> string" where
  "lock_run args now me file =
     (let sub = (if args = [] then [] else args ! 0);
          sc = (if 1 < length args then args ! 1 else []) in
      if sub = ''claim'' \<or> sub = ''release'' then
        (if sc = [] then
           (\<lparr>exit_code = 1, out = [], err = ''icmg lock '' @ sub @ '': scope required'' @ [nl]\<rparr>, file)
         else if sub = ''release'' then
           (\<lparr>exit_code = 0, out = ''released '' @ [sq] @ sc @ [sq, nl], err = []\<rparr>,
            append_lease \<lparr>scope = sc, pid = 0, host = me, heartbeat_at = 0\<rparr> file)
         else
           let r = resolveClaim (lastPerScope (readAll file)) sc 0 me now TTL in
           if \<not> granted r then
             (\<lparr>exit_code = 1, out = ''DENIED '' @ [sq] @ sc @ [sq] @ '' '' @ em_dash @ '' held by ''
                  @ conflict_host r @ [nl], err = []\<rparr>, file)
           else
             (\<lparr>exit_code = 0, out = ''claimed '' @ [sq] @ sc @ [sq, nl], err = []\<rparr>,
              append_lease \<lparr>scope = sc, pid = 0, host = me, heartbeat_at = now\<rparr> file))
      else if sub = ''list'' then
        (let ls = live_lines now (lastPerScope (readAll file)) in
         (\<lparr>exit_code = 0, out = (if ls = [] then ''(no live locks)'' @ [nl] else unlines ls), err = []\<rparr>, file))
      else (\<lparr>exit_code = (if sub = [] then 0 else 1), out = lock_usage, err = []\<rparr>, file))"

section \<open>The lock table the file stands for\<close>

definition holder :: "string \<Rightarrow> string \<Rightarrow> agent_lease option" where
  "holder file sc = entry_at scope sc (lastPerScope (readAll file))"

definition blocks :: "agent_lease \<Rightarrow> string \<Rightarrow> int \<Rightarrow> bool" where
  "blocks l me now \<longleftrightarrow> \<not> (pid l = 0 \<and> host l = me) \<and> now - heartbeat_at l \<le> TTL"

definition clean_name :: "string \<Rightarrow> bool" where
  "clean_name s \<longleftrightarrow> tab \<notin> set s \<and> nl \<notin> set s"

definition clean_scope :: "string \<Rightarrow> bool" where
  "clean_scope s \<longleftrightarrow> s \<noteq> [] \<and> nl \<notin> set s"

lemma resolveClaim_distinct:
  assumes "distinct (map scope ls)"
  shows "granted (resolveClaim ls sc p me now ttl) \<longleftrightarrow>
    (case entry_at scope sc ls of None \<Rightarrow> True
     | Some l \<Rightarrow> (pid l = p \<and> host l = me) \<or> now - heartbeat_at l > ttl)"
  using assms
proof (induction ls)
  case (Cons l ls)
  show ?case
  proof (cases "scope l = sc")
    case True
    then have "entry_at scope sc ls = None" using Cons.prems by (auto simp: entry_at_None)
    then show ?thesis using True Cons by (auto simp: entry_at_simps)
  qed (use Cons in \<open>auto simp: entry_at_simps\<close>)
qed (simp add: entry_at_simps)

lemma lastPerScope_distinct: "distinct (map scope (lastPerScope ls))"
  unfolding lastPerScope_def by (rule lease_log.collapse_distinct) simp

lemma claim_granted_iff:
  "granted (resolveClaim (lastPerScope (readAll file)) sc 0 me now TTL) \<longleftrightarrow>
   (case holder file sc of None \<Rightarrow> True | Some l \<Rightarrow> \<not> blocks l me now)"
  by (auto simp: resolveClaim_distinct lastPerScope_distinct holder_def blocks_def split: option.split)

lemma holder_append:
  assumes "complete file" and "lease_ok l"
  shows "holder (append_lease l file) sc = (if sc = scope l then Some l else holder file sc)"
  using lease_text.read_append[OF assms]
  by (simp add: holder_def append_lease_def readAll_def lastPerScope_def lease_log.put_at split: option.split)

lemma complete_append_lease [simp]: "complete (append_lease l file)"
  by (simp add: append_lease_def complete_def)

lemma lease_ok_claim:
  "clean_name me \<Longrightarrow> clean_scope sc \<Longrightarrow> fits64 now \<Longrightarrow>
   lease_ok \<lparr>scope = sc, pid = 0, host = me, heartbeat_at = now\<rparr>"
  by (simp add: lease_ok_def clean_name_def clean_scope_def fits64_def)

lemma TTL_nonneg [simp]: "0 \<le> TTL"
  by (simp add: TTL_def)

text \<open>The two halves of a claim: the decision on what was read, and the append.\<close>

definition claim_decides :: "string \<Rightarrow> string \<Rightarrow> int \<Rightarrow> string \<Rightarrow> bool" where
  "claim_decides sc me now file = granted (resolveClaim (lastPerScope (readAll file)) sc 0 me now TTL)"

definition claim_writes :: "string \<Rightarrow> string \<Rightarrow> int \<Rightarrow> string \<Rightarrow> string" where
  "claim_writes sc me now file = append_lease \<lparr>scope = sc, pid = 0, host = me, heartbeat_at = now\<rparr> file"

datatype lock_op = Claim string string int | Release string string int

fun op_scope :: "lock_op \<Rightarrow> string" where
  "op_scope (Claim sc me now) = sc" | "op_scope (Release sc me now) = sc"

fun op_ok :: "lock_op \<Rightarrow> bool" where
  "op_ok (Claim sc me now) \<longleftrightarrow> clean_name me \<and> clean_scope sc \<and> fits64 now"
| "op_ok (Release sc me now) \<longleftrightarrow> clean_name me \<and> clean_scope sc \<and> fits64 now"

fun op_time :: "lock_op \<Rightarrow> int" where
  "op_time (Claim sc me now) = now" | "op_time (Release sc me now) = now"

fun exec_op :: "lock_op \<Rightarrow> string \<Rightarrow> outcome \<times> string" where
  "exec_op (Claim sc me now) file = lock_run [''claim'', sc] now me file"
| "exec_op (Release sc me now) file = lock_run [''release'', sc] now me file"

lemma exec_claim:
  "sc \<noteq> [] \<Longrightarrow> exit_code (fst (exec_op (Claim sc me now) file)) = (if claim_decides sc me now file then 0 else 1)"
  "sc \<noteq> [] \<Longrightarrow> snd (exec_op (Claim sc me now) file) =
     (if claim_decides sc me now file then claim_writes sc me now file else file)"
  by (simp_all add: lock_run_def claim_decides_def claim_writes_def Let_def)

lemma exec_release:
  "sc \<noteq> [] \<Longrightarrow> exec_op (Release sc me now) file =
     (\<lparr>exit_code = 0, out = ''released '' @ [sq] @ sc @ [sq, nl], err = []\<rparr>,
      append_lease \<lparr>scope = sc, pid = 0, host = me, heartbeat_at = 0\<rparr> file)"
  by (simp add: lock_run_def)

definition held_since :: "string \<Rightarrow> string \<Rightarrow> int \<Rightarrow> string \<Rightarrow> bool" where
  "held_since sc me t0 file \<longleftrightarrow>
     complete file \<and> (\<exists>l. holder file sc = Some l \<and> pid l = 0 \<and> host l = me \<and> t0 \<le> heartbeat_at l)"

lemma exec_complete: "complete file \<Longrightarrow> op_ok x \<Longrightarrow> complete (snd (exec_op x file))"
  by (cases x) (auto simp: exec_claim exec_release clean_scope_def claim_writes_def simp del: exec_op.simps)

lemma held_since_step:
  assumes held: "held_since sc me t0 file" and ok: "op_ok x"
    and keep: "\<forall>who now. x \<noteq> Release sc who now"
    and time: "t0 \<le> op_time x" "op_time x - t0 \<le> TTL"
  shows "held_since sc me t0 (snd (exec_op x file))"
proof -
  have comp: "complete file" and comp': "complete (snd (exec_op x file))"
    using held ok by (auto simp: held_since_def exec_complete)
  obtain l where l: "holder file sc = Some l" "pid l = 0" "host l = me" "t0 \<le> heartbeat_at l"
    using held by (auto simp: held_since_def)
  show ?thesis
  proof (cases x)
    case (Claim sc' who now)
    have ne: "sc' \<noteq> []" using ok Claim by (simp add: clean_scope_def)
    have dec: "claim_decides sc' who now file \<Longrightarrow> sc' = sc \<Longrightarrow> who = me"
      using l time Claim by (auto simp: claim_decides_def claim_granted_iff blocks_def)
    have "holder (claim_writes sc' who now file) sc =
        (if sc = sc' then Some \<lparr>scope = sc', pid = 0, host = who, heartbeat_at = now\<rparr> else Some l)"
      using ok Claim l comp by (simp add: claim_writes_def holder_append lease_ok_claim)
    then show ?thesis
      using Claim ne dec comp' l time held
      by (auto simp: held_since_def exec_claim simp del: exec_op.simps)
  next
    case (Release sc' who now)
    then have "sc' \<noteq> sc" using keep by auto
    then have "holder (snd (exec_op x file)) sc = Some l"
      using ok Release l comp
      by (simp add: exec_release holder_append lease_ok_claim fits64_def clean_scope_def del: exec_op.simps)
    then show ?thesis using l comp' by (auto simp: held_since_def)
  qed
qed

definition exec_ops :: "lock_op list \<Rightarrow> string \<Rightarrow> string" where
  "exec_ops xs file = fold (\<lambda>x f. snd (exec_op x f)) xs file"

lemma held_since_ops:
  assumes "held_since sc me t0 file"
    and "\<forall>x \<in> set xs. op_ok x \<and> (\<forall>who now. x \<noteq> Release sc who now) \<and> t0 \<le> op_time x \<and> op_time x - t0 \<le> TTL"
  shows "held_since sc me t0 (exec_ops xs file)"
  using assms
proof (induction xs arbitrary: "file")
  case (Cons x xs)
  then have "held_since sc me t0 (snd (exec_op x file))" by (intro held_since_step) auto
  with Cons show ?case by (simp add: exec_ops_def)
qed (simp add: exec_ops_def)

lemma held_since_claim:
  assumes "complete file" and "op_ok (Claim sc me t0)"
    and "exit_code (fst (exec_op (Claim sc me t0) file)) = 0"
  shows "held_since sc me t0 (snd (exec_op (Claim sc me t0) file))"
proof -
  have sc: "sc \<noteq> []" using assms(2) by (simp add: clean_scope_def)
  then have "claim_decides sc me t0 file"
    using assms(3) by (simp add: exec_claim del: exec_op.simps split: if_splits)
  then show ?thesis
    using assms(1,2) sc
    by (auto simp: held_since_def exec_claim claim_writes_def holder_append lease_ok_claim simp del: exec_op.simps)
qed

text \<open>
  Property C7. Once a session's claim of a scope has been granted, no other session's
  claim of it is granted for 300 seconds, whatever claims and releases of any scopes run
  in between, as long as nobody releases this scope.
\<close>

theorem claim_excludes_others:
  assumes "complete file" and "op_ok (Claim sc me t0)"
    and "exit_code (fst (exec_op (Claim sc me t0) file)) = 0"
    and "\<forall>x \<in> set xs. op_ok x \<and> (\<forall>who now. x \<noteq> Release sc who now) \<and> t0 \<le> op_time x \<and> op_time x - t0 \<le> TTL"
    and "other \<noteq> me" and "now - t0 \<le> TTL"
  shows "exit_code (fst (exec_op (Claim sc other now)
    (exec_ops xs (snd (exec_op (Claim sc me t0) file))))) = 1"
proof -
  let ?f = "exec_ops xs (snd (exec_op (Claim sc me t0) file))"
  have "held_since sc me t0 ?f"
    using held_since_ops[OF held_since_claim[OF assms(1-3)] assms(4)] .
  then have "\<not> claim_decides sc other now ?f"
    using assms(5,6) by (auto simp: held_since_def claim_decides_def claim_granted_iff blocks_def)
  then show ?thesis using assms(2) by (simp add: exec_claim clean_scope_def del: exec_op.simps)
qed

lemma empty_file_holder: "holder [] sc = None"
  by (simp add: holder_def readAll_def read_lines_def lastPerScope_def entry_at_def List.map_filter_def)

lemma claim_on_empty: "sc \<noteq> [] \<Longrightarrow> exit_code (fst (exec_op (Claim sc me t0) [])) = 0"
  by (simp add: exec_claim claim_decides_def claim_granted_iff empty_file_holder del: exec_op.simps)

theorem claim_excludes_others_witness:
  "exit_code (fst (exec_op (Claim ''src'' ''b'' 1100)
    (exec_ops [Claim ''doc'' ''c'' 1050] (snd (exec_op (Claim ''src'' ''a'' 1000) []))))) = 1"
  by (rule claim_excludes_others)
     (simp_all add: clean_name_def clean_scope_def fits64_def TTL_def claim_on_empty del: exec_op.simps)

text \<open>
  A release is not checked against the owner: any session may release a
  scope another one has just claimed and take it over at once.
\<close>

theorem release_ignores_owner:
  assumes "complete file" and "op_ok (Claim sc me now)" and "clean_name other" and "TTL < now"
    and "exit_code (fst (exec_op (Claim sc me now) file)) = 0"
  shows "exit_code (fst (exec_op (Claim sc other now)
    (snd (exec_op (Release sc other now) (snd (exec_op (Claim sc me now) file)))))) = 0"
proof -
  let ?f = "snd (exec_op (Claim sc me now) file)"
  have sc: "sc \<noteq> []" and comp: "complete ?f"
    using assms(2) exec_complete[OF assms(1,2)] by (simp_all add: clean_scope_def)
  have "holder (snd (exec_op (Release sc other now) ?f)) sc =
      Some \<lparr>scope = sc, pid = 0, host = other, heartbeat_at = 0\<rparr>"
    using assms comp sc
    by (simp add: exec_release holder_append lease_ok_claim fits64_def del: exec_op.simps)
  then have "claim_decides sc other now (snd (exec_op (Release sc other now) ?f))"
    by (simp add: claim_decides_def claim_granted_iff blocks_def)
  then show ?thesis using sc by (simp add: exec_claim del: exec_op.simps)
qed

theorem release_ignores_owner_witness:
  "exit_code (fst (exec_op (Claim ''src'' ''b'' 1000)
    (snd (exec_op (Release ''src'' ''b'' 1000) (snd (exec_op (Claim ''src'' ''a'' 1000) [])))))) = 0"
  by (rule release_ignores_owner)
     (simp_all add: clean_name_def clean_scope_def fits64_def TTL_def claim_on_empty del: exec_op.simps)

text \<open>
  The claim is not atomic: when two sessions both read the file before
  either appends, both are granted, although the second would have been denied had it
  read after the first append; the file then names the second.
\<close>

theorem claim_race:
  assumes "complete file" and "op_ok (Claim sc a now)" and "op_ok (Claim sc b now)" and "a \<noteq> b"
    and "claim_decides sc a now file" and "claim_decides sc b now file"
  shows "\<not> claim_decides sc b now (claim_writes sc a now file) \<and>
    holder (claim_writes sc b now (claim_writes sc a now file)) sc =
      Some \<lparr>scope = sc, pid = 0, host = b, heartbeat_at = now\<rparr>"
  using assms
  by (simp add: claim_writes_def holder_append lease_ok_claim claim_decides_def claim_granted_iff
      blocks_def)

theorem claim_race_witness:
  "\<not> claim_decides ''src'' ''b'' 1000 (claim_writes ''src'' ''a'' 1000 []) \<and>
    holder (claim_writes ''src'' ''b'' 1000 (claim_writes ''src'' ''a'' 1000 [])) ''src'' =
      Some \<lparr>scope = ''src'', pid = 0, host = ''b'', heartbeat_at = 1000\<rparr>"
  by (rule claim_race)
     (simp_all add: clean_name_def clean_scope_def fits64_def claim_decides_def claim_granted_iff empty_file_holder)

end
