(* ===== verification/Presence.thy ===== *)
theory Presence
  imports Wire
begin

text \<open>
  Who is alive: \<open>core/presence.hpp\<close> (entries, liveness, the two ways of merging a beat log,
  the text form) and \<open>cli/commands/presence_cmd.cpp\<close> (\<open>beat\<close>, \<open>list\<close>, \<open>sync\<close> over the
  shared file). The lemmas show that the text form round-trips, that a beat is visible to
  every later reader within the TTL, and that compacting the log changes no reader's view.
\<close>

section \<open>Entries\<close>

record presence_entry =
  session_id :: string
  p_pid :: int
  focus :: string
  beat_at :: int

definition livePresence :: "presence_entry list \<Rightarrow> int \<Rightarrow> int \<Rightarrow> presence_entry list" where
  "livePresence all now ttl = filter (\<lambda>e. now - beat_at e \<le> ttl) all"

fun upsertPresence :: "presence_entry \<Rightarrow> presence_entry list \<Rightarrow> presence_entry list" where
  "upsertPresence e [] = [e]"
| "upsertPresence e (x # xs) =
     (if session_id x = session_id e then e # xs else x # upsertPresence e xs)"

fun put_latest :: "presence_entry \<Rightarrow> presence_entry list \<Rightarrow> presence_entry list" where
  "put_latest e [] = [e]"
| "put_latest e (x # xs) =
     (if session_id x = session_id e
      then (if beat_at x \<le> beat_at e then e else x) # xs
      else x # put_latest e xs)"

definition latestPerSession :: "presence_entry list \<Rightarrow> presence_entry list" where
  "latestPerSession all = fold put_latest all []"

interpretation upsert: keyed_log session_id "\<lambda>_ _. True" upsertPresence
proof
  show "map session_id (upsertPresence e xs) =
      (if session_id e \<in> session_id ` set xs then map session_id xs
       else map session_id xs @ [session_id e])" for e xs
    by (induction xs) auto
  show "entry_at session_id k (upsertPresence e xs) =
      (if k \<noteq> session_id e then entry_at session_id k xs
       else case entry_at session_id k xs of None \<Rightarrow> Some e | Some x \<Rightarrow> Some (if True then e else x))" for k e xs
    by (induction xs) (auto simp: entry_at_simps)
qed

interpretation beats: keyed_log session_id "\<lambda>e x. beat_at x \<le> beat_at e" put_latest
proof
  show "map session_id (put_latest e xs) =
      (if session_id e \<in> session_id ` set xs then map session_id xs
       else map session_id xs @ [session_id e])" for e xs
    by (induction xs) auto
  show "entry_at session_id k (put_latest e xs) =
      (if k \<noteq> session_id e then entry_at session_id k xs
       else case entry_at session_id k xs of None \<Rightarrow> Some e
            | Some x \<Rightarrow> Some (if beat_at x \<le> beat_at e then e else x))" for k e xs
    by (induction xs) (auto simp: entry_at_simps)
qed

definition presenceToLine :: "presence_entry \<Rightarrow> string" where
  "presenceToLine e =
     session_id e @ [tab] @ int_str (p_pid e) @ [tab] @ int_str (beat_at e) @ [tab] @ esc (focus e)"

definition presenceFromLine :: "string \<Rightarrow> presence_entry option" where
  "presenceFromLine line =
     (case cut_tab line of None \<Rightarrow> None | Some (i, r1) \<Rightarrow>
      (case cut_tab r1 of None \<Rightarrow> None | Some (p, r2) \<Rightarrow>
      (case cut_tab r2 of None \<Rightarrow> None | Some (hb, fe) \<Rightarrow>
         if i = [] then None
         else (case stoll p of None \<Rightarrow> None | Some pv \<Rightarrow>
              (case stoll hb of None \<Rightarrow> None | Some hv \<Rightarrow>
                 Some \<lparr>session_id = i, p_pid = pv, focus = unesc fe, beat_at = hv\<rparr>)))))"

definition presence_ok :: "presence_entry \<Rightarrow> bool" where
  "presence_ok e \<longleftrightarrow> session_id e \<noteq> [] \<and> tab \<notin> set (session_id e) \<and> nl \<notin> set (session_id e)
     \<and> fits64 (p_pid e) \<and> fits64 (beat_at e)"

interpretation presence_text: line_codec presenceToLine presenceFromLine presence_ok
proof
  fix e
  assume ok: "presence_ok e"
  then show "nl \<notin> set (presenceToLine e)"
    by (simp add: presenceToLine_def presence_ok_def int_str_no_sep esc_clean)
  show "presenceFromLine (presenceToLine e) = Some e"
    using ok by (simp add: presenceFromLine_def presenceToLine_def presence_ok_def cut_tab_append
        int_str_no_sep stoll_int_str unesc_esc)
qed

lemma presenceFromLine_ok: "presenceFromLine l = Some e \<Longrightarrow> nl \<notin> set l \<Longrightarrow> presence_ok e"
  by (auto simp: presenceFromLine_def presence_ok_def dest!: cut_tab_Some split: option.splits prod.splits if_splits)
     (auto dest: stoll_fits)

section \<open>The command\<close>

definition readPresence :: "string \<Rightarrow> presence_entry list" where
  "readPresence file = read_lines presenceFromLine file"

definition presence_usage :: string where
  "presence_usage =
     ''Usage: icmg presence beat [--focus '' @ [dq] @ ''<task>'' @ [dq] @ ''] | list [--ttl <sec>]'' @ [nl] @
     ''  beat   record this session'' @ [sq] @ ''s heartbeat + current focus'' @ [nl] @
     ''  list   show sessions whose heartbeat is within TTL (default 90s)'' @ [nl]"

fun ttl_arg :: "int \<Rightarrow> string list \<Rightarrow> int" where
  "ttl_arg t (a # b # rest) =
     ttl_arg (if a = ''--ttl'' then (case stoll b of Some v \<Rightarrow> v | None \<Rightarrow> t) else t) (b # rest)"
| "ttl_arg t _ = t"

definition beat_entry :: "string list \<Rightarrow> string \<Rightarrow> int \<Rightarrow> int \<Rightarrow> presence_entry" where
  "beat_entry args me pid now =
     \<lparr>session_id = me, p_pid = pid, focus = opt_last ''--focus'' [] (tl args), beat_at = now\<rparr>"

definition append_beat :: "presence_entry \<Rightarrow> string \<Rightarrow> string" where
  "append_beat e file = file @ presenceToLine e @ [nl]"

definition compact_beats :: "int \<Rightarrow> string \<Rightarrow> string" where
  "compact_beats now file =
     (let all = readPresence file in
      if 200 < length all
      then unlines (map presenceToLine (livePresence (latestPerSession all) now 300))
      else file)"

definition list_line :: "int \<Rightarrow> presence_entry \<Rightarrow> string" where
  "list_line now e = ''  '' @ session_id e @ ''  pid='' @ int_str (p_pid e) @ ''  (''
     @ int_str (now - beat_at e) @ ''s ago)  '' @ focus e"

definition other_name :: "presence_entry \<Rightarrow> string" where
  "other_name x = session_id x @ (if focus x \<noteq> [] then '' ('' @ focus x @ '')'' else [])"

definition presence_run :: "string list \<Rightarrow> int \<Rightarrow> string \<Rightarrow> int \<Rightarrow> string \<Rightarrow> outcome \<times> string" where
  "presence_run args now me pid file =
     (let sub = (if args = [] then [] else hd args) in
      if sub = ''beat'' then
        (\<lparr>exit_code = 0, out = [], err = []\<rparr>,
         compact_beats now (append_beat (beat_entry args me pid now) file))
      else if sub = ''list'' then
        (let ttl = ttl_arg 90 (tl args);
             live = livePresence (latestPerSession (readPresence file)) now ttl in
         if live = [] then (\<lparr>exit_code = 0, out = ''(no live sessions)'' @ [nl], err = []\<rparr>, file)
         else (\<lparr>exit_code = 0,
                out = ''Live sessions (heartbeat <= '' @ int_str ttl @ ''s):'' @ [nl] @ unlines (map (list_line now) live),
                err = []\<rparr>, file))
      else if sub = ''sync'' then
        (let file' = append_beat (beat_entry args me pid now) file;
             live = livePresence (latestPerSession (readPresence file')) now 90;
             others = filter (\<lambda>x. session_id x \<noteq> me) live in
         (\<lparr>exit_code = 0,
           out = (if others = [] then []
                  else ''[me-everywhere] '' @ nat_str (length others) @ '' other live session(s): ''
                       @ join ''; '' (map other_name others) @ [nl]),
           err = []\<rparr>, file'))
      else (\<lparr>exit_code = (if sub = [] then 0 else 1), out = presence_usage, err = []\<rparr>, file))"

section \<open>Properties\<close>

lemma latest_distinct: "distinct (map session_id (latestPerSession xs))"
  unfolding latestPerSession_def by (rule beats.collapse_distinct) simp

lemma put_latest_fresh: "session_id e \<notin> session_id ` set xs \<Longrightarrow> put_latest e xs = xs @ [e]"
  by (induction xs) auto

lemma latest_of_distinct: "distinct (map session_id xs) \<Longrightarrow> latestPerSession xs = xs"
proof (induction xs rule: rev_induct)
  case (snoc e xs)
  then show ?case by (simp add: latestPerSession_def put_latest_fresh)
qed (simp add: latestPerSession_def)

lemma put_latest_set: "set (put_latest e xs) \<subseteq> insert e (set xs)"
  by (induction xs) auto

lemma latest_set: "set (latestPerSession xs) \<subseteq> set xs"
proof (induction xs rule: rev_induct)
  case (snoc e xs)
  then show ?case using put_latest_set[of e "latestPerSession xs"] by (auto simp: latestPerSession_def)
qed (simp add: latestPerSession_def)

lemma readPresence_ok: "e \<in> set (readPresence file) \<Longrightarrow> presence_ok e"
  by (auto simp: readPresence_def read_lines_def dest!: map_filter_set
      intro: presenceFromLine_ok dest: getlines_on_no_sep)

lemma readPresence_append:
  "complete file \<Longrightarrow> presence_ok e \<Longrightarrow> readPresence (append_beat e file) = readPresence file @ [e]"
  using presence_text.read_append by (simp add: readPresence_def append_beat_def)

lemma readPresence_unlines:
  "\<forall>e \<in> set es. presence_ok e \<Longrightarrow> readPresence (unlines (map presenceToLine es)) = es"
  using presence_text.read_write by (simp add: readPresence_def)

lemma compacted_log:
  assumes "200 < length (readPresence file)"
  shows "latestPerSession (readPresence (compact_beats now file)) = livePresence (latestPerSession (readPresence file)) now 300"
proof -
  let ?live = "livePresence (latestPerSession (readPresence file)) now 300"
  have "\<forall>e \<in> set ?live. presence_ok e"
    using latest_set readPresence_ok by (fastforce simp: livePresence_def)
  then have "readPresence (compact_beats now file) = ?live"
    using assms by (simp add: compact_beats_def Let_def readPresence_unlines)
  moreover have "latestPerSession ?live = ?live"
    by (intro latest_of_distinct) (simp add: livePresence_def distinct_map_filter latest_distinct)
  ultimately show ?thesis by simp
qed

lemma uncompacted_log: "\<not> 200 < length (readPresence file) \<Longrightarrow> compact_beats now file = file"
  by (simp add: compact_beats_def)

lemma live_of_live:
  "livePresence (livePresence es now t) later ttl = livePresence es later (min ttl (t + (later - now)))"
  unfolding livePresence_def filter_filter by (intro filter_cong refl) auto

text \<open>A reader with a TTL of up to 300 seconds sees no difference.\<close>

lemma compaction_short_ttl:
  assumes "now \<le> later" and "ttl \<le> 300"
  shows "livePresence (latestPerSession (readPresence (compact_beats now file))) later ttl =
    livePresence (latestPerSession (readPresence file)) later ttl"
proof (cases "200 < length (readPresence file)")
  case True
  have "min ttl (300 + (later - now)) = ttl" using assms by simp
  with True show ?thesis by (simp add: compacted_log live_of_live)
qed (simp add: uncompacted_log)

text \<open>
  Property C40. What compacting the beat log does to a reader's view, at any later time and for any
  TTL: the live sessions, their data and their order are those of the log before, for the TTL
  asked for, but at most for 300 seconds more than have passed since the compaction. So a
  reader with a TTL of up to 300 seconds sees no difference; one with a longer TTL may miss
  sessions whose last beat is older than that.
\<close>

theorem compaction_invisible:
  "livePresence (latestPerSession (readPresence (compact_beats now file))) later ttl =
    livePresence (latestPerSession (readPresence file)) later
      (if 200 < length (readPresence file) then min ttl (300 + (later - now)) else ttl)"
  by (cases "200 < length (readPresence file)") (simp_all add: compacted_log uncompacted_log live_of_live)

text \<open>
  A log long enough to be compacted, of one session last heard of at second 100 and one at
  second 990. After the compaction at second 1000 a reader with \<open>--ttl 2000\<close> no longer sees the
  first; with a TTL of 90 seconds the view is what it was.
\<close>

definition beat_of :: "string \<Rightarrow> int \<Rightarrow> presence_entry" where
  "beat_of me t = \<lparr>session_id = me, p_pid = 7, focus = ''task'', beat_at = t\<rparr>"

definition long_log :: string where
  "long_log = unlines (map presenceToLine (beat_of ''old'' 100 # replicate 200 (beat_of ''new'' 990)))"

lemma long_log_latest:
  "200 < length (readPresence long_log)" "latestPerSession (readPresence long_log) = [beat_of ''old'' 100, beat_of ''new'' 990]"
proof -
  have read: "readPresence long_log = beat_of ''old'' 100 # replicate 200 (beat_of ''new'' 990)"
    unfolding long_log_def by (rule readPresence_unlines) (simp add: beat_of_def presence_ok_def fits64_def)
  then show "200 < length (readPresence long_log)" by simp
  have old: "latestPerSession (beat_of ''old'' 100 # replicate (Suc n) (beat_of ''new'' 990)) = [beat_of ''old'' 100, beat_of ''new'' 990]" for n
    by (induction n) (simp_all add: latestPerSession_def beat_of_def replicate_append_same[symmetric] del: replicate_Suc)
  have "(200 :: nat) = Suc 199" by simp
  then show "latestPerSession (readPresence long_log) = [beat_of ''old'' 100, beat_of ''new'' 990]" unfolding read using old[of 199] by simp
qed

theorem compaction_invisible_witness:
  "livePresence (latestPerSession (readPresence (compact_beats 1000 long_log))) 1000 90 = [beat_of ''new'' 990] \<and>
   livePresence (latestPerSession (readPresence long_log)) 1000 90 = [beat_of ''new'' 990] \<and>
   livePresence (latestPerSession (readPresence (compact_beats 1000 long_log))) 1000 2000 = [beat_of ''new'' 990] \<and>
   livePresence (latestPerSession (readPresence long_log)) 1000 2000 = [beat_of ''old'' 100, beat_of ''new'' 990]"
  by (simp add: compaction_invisible long_log_latest) (simp add: livePresence_def beat_of_def)

lemma latest_append_own:
  assumes "\<forall>x \<in> set xs. session_id x = session_id e \<longrightarrow> beat_at x \<le> beat_at e"
  shows "entry_at session_id (session_id e) (latestPerSession (xs @ [e])) = Some e"
proof (cases "entry_at session_id (session_id e) (latestPerSession xs)")
  case None
  then show ?thesis by (simp add: latestPerSession_def beats.put_at)
next
  case (Some x)
  then have "beat_at x \<le> beat_at e" using assms entry_at_Some latest_set by fastforce
  with Some show ?thesis by (simp add: latestPerSession_def beats.put_at)
qed

text \<open>
  A heartbeat is seen: after \<open>presence beat\<close> every reader finds the session
  live, with the focus it gave, for as long as its TTL (up to 300 seconds) has not passed,
  also when the beat triggered a compaction.
\<close>

theorem beat_is_visible:
  assumes "complete file" and "presence_ok (beat_entry args me pid now)" and "args \<noteq> []" and "hd args = ''beat''"
    and "\<forall>x \<in> set (readPresence file). session_id x = me \<longrightarrow> beat_at x \<le> now"
    and "now \<le> later" and "later - now \<le> ttl" and "ttl \<le> 300"
  shows "beat_entry args me pid now \<in> set (livePresence
    (latestPerSession (readPresence (snd (presence_run args now me pid file)))) later ttl)"
proof -
  let ?e = "beat_entry args me pid now"
  let ?f = "append_beat ?e file"
  have "entry_at session_id me (latestPerSession (readPresence ?f)) = Some ?e"
    using latest_append_own[of "readPresence file" ?e] assms(1,2,5)
    by (simp add: readPresence_append beat_entry_def)
  then have "?e \<in> set (latestPerSession (readPresence ?f))" by (auto dest: entry_at_Some)
  then have "?e \<in> set (livePresence (latestPerSession (readPresence ?f)) later ttl)"
    using assms(7) by (simp add: livePresence_def beat_entry_def)
  then show ?thesis
    using assms(3,4,6,8) by (simp add: presence_run_def compaction_short_ttl)
qed

theorem beat_is_visible_witness:
  "beat_entry [''beat'', ''--focus'', ''x''] ''s1'' 7 1000 \<in> set (livePresence
    (latestPerSession (readPresence (snd (presence_run [''beat'', ''--focus'', ''x''] 1000 ''s1'' 7 [])))) 1080 90)"
  by (rule beat_is_visible)
     (simp_all add: presence_ok_def beat_entry_def fits64_def readPresence_def read_lines_def List.map_filter_def)

end
