(* ===== verification/Messages.thy ===== *)
theory Messages
  imports Wire
begin

text \<open>
  Messages between live sessions: \<open>core/msg.hpp\<close> (messages, text form, inbox),
  \<open>core/wire_check_helpers.hpp\<close> (the persisted cursor) and \<open>cli/commands/msg_cmd.cpp\<close>. The
  state of the command is the message file and the cursor files, each by its content.
\<close>

section \<open>Messages\<close>

record message =
  ts :: int
  from_id :: string
  to_id :: string
  body :: string

definition msgToLine :: "message \<Rightarrow> string" where
  "msgToLine m = int_str (ts m) @ [tab] @ from_id m @ [tab] @ to_id m @ [tab] @ esc (body m)"

definition msgFromLine :: "string \<Rightarrow> message option" where
  "msgFromLine line =
     (case cut_tab line of None \<Rightarrow> None | Some (t, r1) \<Rightarrow>
      (case cut_tab r1 of None \<Rightarrow> None | Some (f, r2) \<Rightarrow>
      (case cut_tab r2 of None \<Rightarrow> None | Some (d, b) \<Rightarrow>
      (case stoll t of None \<Rightarrow> None | Some tv \<Rightarrow>
         if f = [] \<or> d = [] then None
         else Some \<lparr>ts = tv, from_id = f, to_id = d, body = unesc b\<rparr>))))"

definition inboxSince :: "message list \<Rightarrow> string \<Rightarrow> int \<Rightarrow> message list" where
  "inboxSince all me since_ts =
     filter (\<lambda>m. \<not> ts m \<le> since_ts \<and> from_id m \<noteq> me \<and> (to_id m = me \<or> to_id m = ''*'')) all"

definition message_ok :: "message \<Rightarrow> bool" where
  "message_ok m \<longleftrightarrow> fits64 (ts m) \<and> from_id m \<noteq> [] \<and> tab \<notin> set (from_id m) \<and> nl \<notin> set (from_id m)
     \<and> to_id m \<noteq> [] \<and> tab \<notin> set (to_id m) \<and> nl \<notin> set (to_id m)"

interpretation msg_text: line_codec msgToLine msgFromLine message_ok
proof
  fix m
  assume ok: "message_ok m"
  then show "nl \<notin> set (msgToLine m)"
    by (simp add: msgToLine_def message_ok_def int_str_no_sep esc_clean)
  show "msgFromLine (msgToLine m) = Some m"
    using ok by (simp add: msgFromLine_def msgToLine_def message_ok_def cut_tab_append
        int_str_no_sep stoll_int_str unesc_esc)
qed

section \<open>Cursors\<close>

definition seenMarkerName :: "string \<Rightarrow> string" where
  "seenMarkerName me = ''.seen-'' @ map (\<lambda>c. if is_alnum c then c else CHR ''_'') me"

definition parseSeenTs :: "string \<Rightarrow> int" where
  "parseSeenTs s = (case stoll s of Some v \<Rightarrow> v | None \<Rightarrow> 0)"

section \<open>The command\<close>

record msg_state =
  msg_file :: string
  markers :: "string \<Rightarrow> string option"

definition readMessages :: "string \<Rightarrow> message list" where
  "readMessages file = read_lines msgFromLine file"

definition msg_usage :: string where
  "msg_usage =
     ''Usage: icmg msg send <to|*> '' @ [dq] @ ''<body>'' @ [dq] @ '' | inbox [--since <ts>] | check'' @ [nl] @
     ''  send    send to a session id, or * to broadcast'' @ [nl] @
     ''  inbox   read messages addressed to you (or *) newer than --since'' @ [nl] @
     ''  check   peek unread since last check (auto-advancing cursor; no --since)'' @ [nl]"

fun since_arg :: "int \<Rightarrow> string list \<Rightarrow> int" where
  "since_arg s (a # b # rest) =
     since_arg (if a = ''--since'' then (case stoll b of Some v \<Rightarrow> v | None \<Rightarrow> s) else s) (b # rest)"
| "since_arg s _ = s"

definition newest_ts :: "int \<Rightarrow> message list \<Rightarrow> int" where
  "newest_ts since ms = newest_of ts since ms"

definition message_line :: "int \<Rightarrow> message \<Rightarrow> string" where
  "message_line now m = ''  ['' @ int_str (now - ts m) @ ''s] '' @ from_id m
     @ (if to_id m = ''*'' then '' (all)'' else []) @ '': '' @ body m"

definition compact_messages :: "string \<Rightarrow> string" where
  "compact_messages file =
     (let all = readMessages file in
      if 1000 < length all then unlines (map msgToLine (drop (length all - 500) all)) else file)"

definition send_message :: "message \<Rightarrow> string \<Rightarrow> string" where
  "send_message m file = compact_messages (file @ msgToLine m @ [nl])"

definition marker_since :: "string option \<Rightarrow> int" where
  "marker_since mk =
     (case mk of None \<Rightarrow> 0
      | Some content \<Rightarrow> (case getlines content of [] \<Rightarrow> 0 | l # _ \<Rightarrow> parseSeenTs l))"

definition msg_check :: "int \<Rightarrow> string \<Rightarrow> msg_state \<Rightarrow> message list \<times> msg_state" where
  "msg_check now me s =
     (let since = marker_since (markers s (seenMarkerName me));
          inbox = inboxSince (readMessages (msg_file s)) me since
      in (inbox, s\<lparr>markers := (markers s)(seenMarkerName me \<mapsto> int_str (newest_ts since inbox) @ [nl])\<rparr>))"

definition msg_run :: "string list \<Rightarrow> int \<Rightarrow> string \<Rightarrow> msg_state \<Rightarrow> outcome \<times> msg_state" where
  "msg_run args now me s =
     (let sub = (if args = [] then [] else hd args) in
      if sub = ''send'' then
        (if length args < 3 then
           (\<lparr>exit_code = 1, out = [], err = ''icmg msg send: need <to> and <body>'' @ [nl]\<rparr>, s)
         else
           (\<lparr>exit_code = 0, out = ''sent to '' @ args ! 1 @ [nl], err = []\<rparr>,
            s\<lparr>msg_file := send_message \<lparr>ts = now, from_id = me, to_id = args ! 1,
                body = join '' '' (drop 2 args)\<rparr> (msg_file s)\<rparr>))
      else if sub = ''inbox'' then
        (let since = since_arg 0 (tl args);
             inbox = inboxSince (readMessages (msg_file s)) me since in
         (\<lparr>exit_code = 0,
           out = unlines (map (message_line now) inbox)
             @ (if inbox = [] then ''(no new messages)'' @ [nl] else [])
             @ ''cursor: '' @ int_str (newest_ts since inbox) @ [nl], err = []\<rparr>, s))
      else if sub = ''check'' then
        (let (inbox, s') = msg_check now me s in
         (\<lparr>exit_code = 0,
           out = unlines (map (message_line now) inbox) @ nat_str (length inbox) @ '' new'' @ [nl],
           err = []\<rparr>, s'))
      else (\<lparr>exit_code = (if sub = [] then 0 else 1), out = msg_usage, err = []\<rparr>, s))"

section \<open>Properties\<close>

lemma fits64_newest:
  "fits64 since \<Longrightarrow> \<forall>m \<in> set ms. fits64 (ts m) \<Longrightarrow> fits64 (newest_ts since ms)"
  using newest_of_in[of ts since ms] by (auto simp: newest_ts_def)

lemma marker_since_fits: "fits64 (marker_since mk)"
  by (auto simp: marker_since_def parseSeenTs_def fits64_def split: option.splits list.splits)
     (auto dest!: stoll_fits simp: fits64_def)

lemma marker_since_written: "fits64 v \<Longrightarrow> marker_since (Some (int_str v @ [nl])) = v"
  using getlines_on_Cons[of nl "int_str v" "[]"]
  by (simp add: marker_since_def parseSeenTs_def stoll_int_str int_str_no_sep)

lemma msgFromLine_ok: "msgFromLine l = Some m \<Longrightarrow> nl \<notin> set l \<Longrightarrow> message_ok m"
proof -
  assume m: "msgFromLine l = Some m" and l: "nl \<notin> set l"
  show ?thesis
    using m l
    by (auto simp: msgFromLine_def message_ok_def dest!: cut_tab_Some split: option.splits prod.splits if_splits)
       (auto dest: stoll_fits)
qed

lemma readMessages_ok: "m \<in> set (readMessages file) \<Longrightarrow> message_ok m"
  by (auto simp: readMessages_def read_lines_def dest!: map_filter_set
      intro: msgFromLine_ok dest: getlines_on_no_sep)

lemma readMessages_fits: "m \<in> set (readMessages file) \<Longrightarrow> fits64 (ts m)"
  using readMessages_ok by (auto simp: message_ok_def)

lemma check_inbox: "fst (msg_check now me s) =
    inboxSince (readMessages (msg_file s)) me (marker_since (markers s (seenMarkerName me)))"
  by (simp add: msg_check_def Let_def)

lemma check_marker:
  "marker_since (markers (snd (msg_check now me s)) (seenMarkerName me)) =
   newest_ts (marker_since (markers s (seenMarkerName me))) (fst (msg_check now me s))"
proof -
  let ?since = "marker_since (markers s (seenMarkerName me))"
  let ?inbox = "inboxSince (readMessages (msg_file s)) me ?since"
  have "fits64 (newest_ts ?since ?inbox)"
    by (intro fits64_newest marker_since_fits) (auto simp: inboxSince_def dest: readMessages_fits)
  then show ?thesis by (simp add: msg_check_def Let_def marker_since_written)
qed

lemma check_file [simp]: "msg_file (snd (msg_check now me s)) = msg_file s"
  by (simp add: msg_check_def Let_def)

text \<open>
  Property C25. \<open>msg check\<close> delivers a message at most once: a second check with no send in
  between shows nothing.
\<close>

theorem check_twice_is_empty:
  "fst (msg_check later me (snd (msg_check now me s))) = []"
proof -
  let ?since = "marker_since (markers s (seenMarkerName me))"
  let ?inbox = "inboxSince (readMessages (msg_file s)) me ?since"
  have "ts m \<le> newest_ts ?since ?inbox"
    if "m \<in> set (readMessages (msg_file s))" "from_id m \<noteq> me" "to_id m = me \<or> to_id m = ''*''" for m
  proof (cases "ts m \<le> ?since")
    case True
    then show ?thesis using newest_of_ge(1) unfolding newest_ts_def by (rule order_trans)
  next
    case False
    with that have "m \<in> set ?inbox" by (simp add: inboxSince_def)
    then show ?thesis unfolding newest_ts_def by (rule newest_of_ge(2))
  qed
  then show ?thesis
    by (auto simp: check_inbox check_marker inboxSince_def[of _ _ "newest_ts _ _"] filter_empty_conv)
qed

lemma readMessages_append:
  "complete file \<Longrightarrow> message_ok m \<Longrightarrow> readMessages (file @ msgToLine m @ [nl]) = readMessages file @ [m]"
  using msg_text.read_append by (simp add: readMessages_def)

lemma readMessages_compact:
  "readMessages (compact_messages file) =
   (let all = readMessages file in if 1000 < length all then drop (length all - 500) all else all)"
proof (cases "1000 < length (readMessages file)")
  case True
  have "\<forall>m \<in> set (drop (length (readMessages file) - 500) (readMessages file)). message_ok m"
    using readMessages_ok by (meson in_set_dropD)
  then show ?thesis
    using True msg_text.read_write by (simp add: compact_messages_def Let_def readMessages_def)
qed (simp add: compact_messages_def Let_def)

lemma sent_is_read:
  assumes "complete file" and "message_ok m"
  shows "m \<in> set (readMessages (send_message m file))"
proof -
  let ?all = "readMessages file @ [m]"
  have "readMessages (send_message m file) =
      (if 1000 < length ?all then drop (length ?all - 500) ?all else ?all)"
    using assms by (simp add: send_message_def readMessages_compact readMessages_append Let_def)
  then show ?thesis by auto
qed

text \<open>
  Property C26. A message reaches its reader: after \<open>msg send\<close>, the addressee's next check
  shows the message if it is newer than the reader's cursor, also when the send compacted
  the file.
\<close>

theorem send_then_check:
  assumes "complete (msg_file s)" and "message_ok m" and "from_id m \<noteq> me"
    and "to_id m = me \<or> to_id m = ''*''" and "marker_since (markers s (seenMarkerName me)) < ts m"
  shows "m \<in> set (fst (msg_check now me (s\<lparr>msg_file := send_message m (msg_file s)\<rparr>)))"
  using assms sent_is_read[of "msg_file s" m] by (auto simp: check_inbox inboxSince_def)

theorem send_then_check_witness:
  "\<lparr>ts = 1000, from_id = ''a'', to_id = ''b'', body = ''hi''\<rparr> \<in> set (fst (msg_check 1001 ''b''
    (\<lparr>msg_file = [], markers = (\<lambda>_. None)\<rparr>\<lparr>msg_file :=
       send_message \<lparr>ts = 1000, from_id = ''a'', to_id = ''b'', body = ''hi''\<rparr> []\<rparr>)))"
  using send_then_check[of "\<lparr>msg_file = [], markers = (\<lambda>_. None)\<rparr>"
      "\<lparr>ts = 1000, from_id = ''a'', to_id = ''b'', body = ''hi''\<rparr>" "''b''" 1001]
  by (simp add: message_ok_def fits64_def marker_since_def)

text \<open>
  The cursor is the time of the newest message shown, and only strictly newer
  messages are unread: a message sent in the same second as the newest one shown, but after
  the check, is never shown by any check.
\<close>

theorem same_second_message_lost:
  assumes "shown \<in> set (fst (msg_check now me s))" and "ts m = ts shown"
  shows "m \<notin> set (fst (msg_check later me
    ((snd (msg_check now me s))\<lparr>msg_file := send_message m (msg_file s)\<rparr>)))"
proof -
  have "ts m \<le> newest_ts (marker_since (markers s (seenMarkerName me))) (fst (msg_check now me s))"
    using assms newest_of_ge(2)[of shown "fst (msg_check now me s)" ts] by (simp add: newest_ts_def)
  then show ?thesis by (simp add: check_inbox[of later] check_marker inboxSince_def[of _ _ "newest_ts _ _"])
qed

theorem same_second_message_lost_witness:
  "let m = \<lparr>ts = 1000, from_id = ''a'', to_id = ''b'', body = ''hi''\<rparr>;
       m' = \<lparr>ts = 1000, from_id = ''a'', to_id = ''b'', body = ''again''\<rparr>;
       s = \<lparr>msg_file = send_message m [], markers = (\<lambda>_. None)\<rparr>
   in m \<in> set (fst (msg_check 1000 ''b'' s)) \<and>
      m' \<notin> set (fst (msg_check 1005 ''b''
        ((snd (msg_check 1000 ''b'' s))\<lparr>msg_file := send_message m' (msg_file s)\<rparr>)))"
proof -
  let ?m = "\<lparr>ts = 1000, from_id = ''a'', to_id = ''b'', body = ''hi''\<rparr>"
  let ?s = "\<lparr>msg_file = send_message ?m [], markers = (\<lambda>_. None)\<rparr>"
  have "?m \<in> set (readMessages (send_message ?m []))"
    by (rule sent_is_read) (simp_all add: message_ok_def fits64_def)
  then have shown: "?m \<in> set (fst (msg_check 1000 ''b'' ?s))"
    by (simp add: check_inbox inboxSince_def marker_since_def)
  show ?thesis
    unfolding Let_def
    using shown same_second_message_lost[OF shown,
        of "\<lparr>ts = 1000, from_id = ''a'', to_id = ''b'', body = ''again''\<rparr>" 1005]
    by simp
qed

end
