(* ===== verification/EventBus.thy ===== *)
theory EventBus
  imports Wire
begin

text \<open>
  The shared action stream: \<open>core/event_bus.hpp\<close> (events, their text form, the events newer
  than a cursor) and \<open>cli/commands/bus_cmd.cpp\<close> (\<open>emit\<close> and \<open>tail\<close> over the shared file).
  The lemmas show that an emitted event is read back, that a poller which passes the
  reported cursor back sees each event once, and what a tab in a target does.
\<close>

section \<open>Events\<close>

record bus_event =
  e_ts :: int
  actor :: string
  kind :: string
  target :: string
  detail :: string

definition eventToLine :: "bus_event \<Rightarrow> string" where
  "eventToLine e = int_str (e_ts e) @ [tab] @ actor e @ [tab] @ kind e @ [tab] @ target e @ [tab] @ esc (detail e)"

definition eventFromLine :: "string \<Rightarrow> bus_event option" where
  "eventFromLine line =
     (case cut_tab line of None \<Rightarrow> None | Some (t, r1) \<Rightarrow>
      (case cut_tab r1 of None \<Rightarrow> None | Some (a, r2) \<Rightarrow>
      (case cut_tab r2 of None \<Rightarrow> None | Some (k, r3) \<Rightarrow>
      (case cut_tab r3 of None \<Rightarrow> None | Some (g, d) \<Rightarrow>
      (case stoll t of None \<Rightarrow> None | Some tv \<Rightarrow>
         if a = [] \<or> k = [] then None
         else Some \<lparr>e_ts = tv, actor = a, kind = k, target = g, detail = unesc d\<rparr>)))))"

definition eventsSince :: "bus_event list \<Rightarrow> int \<Rightarrow> bus_event list" where
  "eventsSince all since_ts = filter (\<lambda>e. since_ts < e_ts e) all"

definition event_ok :: "bus_event \<Rightarrow> bool" where
  "event_ok e \<longleftrightarrow> fits64 (e_ts e) \<and> actor e \<noteq> [] \<and> kind e \<noteq> []
     \<and> tab \<notin> set (actor e @ kind e @ target e) \<and> nl \<notin> set (actor e @ kind e @ target e)"

interpretation event_text: line_codec eventToLine eventFromLine event_ok
proof
  fix e
  assume ok: "event_ok e"
  then show "nl \<notin> set (eventToLine e)"
    by (simp add: eventToLine_def event_ok_def int_str_no_sep esc_clean)
  show "eventFromLine (eventToLine e) = Some e"
    using ok by (simp add: eventFromLine_def eventToLine_def event_ok_def cut_tab_append
        int_str_no_sep stoll_int_str unesc_esc)
qed

lemma eventFromLine_ok: "eventFromLine l = Some e \<Longrightarrow> nl \<notin> set l \<Longrightarrow> event_ok e"
  by (auto simp: eventFromLine_def event_ok_def dest!: cut_tab_Some split: option.splits prod.splits if_splits)
     (auto dest: stoll_fits)

section \<open>The command\<close>

definition readEvents :: "string \<Rightarrow> bus_event list" where
  "readEvents file = read_lines eventFromLine file"

text \<open>The first value given for an option, from the second argument on.\<close>

fun opt_first :: "string \<Rightarrow> string list \<Rightarrow> string" where
  "opt_first flag (a # b # rest) = (if a = flag then b else opt_first flag (b # rest))"
| "opt_first flag _ = []"

definition bus_usage :: string where
  "bus_usage =
     ''Usage: icmg bus emit <kind> [--target <x>] [--detail '' @ [dq] @ ''<text>'' @ [dq] @ '']'' @ [nl] @
     ''       icmg bus tail [--since <ts>] [--all]'' @ [nl] @
     ''  emit   record an action (kind = edit|claim|release|done|note|...)'' @ [nl] @
     ''  tail   print events newer than --since (others'' @ [sq] @ '' by default; --all incl. own)'' @ [nl]"

definition compact_events :: "string \<Rightarrow> string" where
  "compact_events file =
     (let all = readEvents file in
      if 1000 < length all then unlines (map eventToLine (drop (length all - 500) all)) else file)"

definition emit_event :: "bus_event \<Rightarrow> string \<Rightarrow> string" where
  "emit_event e file = compact_events (file @ eventToLine e @ [nl])"

definition emitted :: "string list \<Rightarrow> string \<Rightarrow> int \<Rightarrow> bus_event" where
  "emitted args me now =
     (let kind0 = (if 1 < length args \<and> args ! 1 \<noteq> [] \<and> hd (args ! 1) \<noteq> CHR ''-''
                   then args ! 1 else ''note'')
      in \<lparr>e_ts = now, actor = me, kind = kind0, target = opt_first ''--target'' (tl args),
          detail = opt_first ''--detail'' (tl args)\<rparr>)"

definition tail_since :: "string list \<Rightarrow> int \<Rightarrow> int" where
  "tail_since args now =
     (let s = opt_first ''--since'' (tl args) in
      if s \<noteq> [] then (case stoll s of Some v \<Rightarrow> v | None \<Rightarrow> 0) else now - 120)"

definition event_line :: "int \<Rightarrow> bus_event \<Rightarrow> string" where
  "event_line now e =
     ''  ['' @ int_str (now - e_ts e) @ ''s] '' @ actor e @ '' '' @ kind e
     @ (if target e \<noteq> [] then '' '' @ target e else [])
     @ (if detail e \<noteq> [] then '' '' @ em_dash @ '' '' @ detail e else [])"

text \<open>What \<open>tail\<close> shows, and the cursor it reports.\<close>

definition bus_tail :: "string list \<Rightarrow> string \<Rightarrow> int \<Rightarrow> string \<Rightarrow> bus_event list \<times> int" where
  "bus_tail args me now file =
     (let since = tail_since args now;
          evs = eventsSince (readEvents file) since;
          all = (''--all'' \<in> set args)
      in (filter (\<lambda>e. all \<or> actor e \<noteq> me) evs, newest_of e_ts since evs))"

definition bus_run :: "string list \<Rightarrow> string \<Rightarrow> int \<Rightarrow> string \<Rightarrow> outcome \<times> string" where
  "bus_run args me now file =
     (let sub = (if args = [] then [] else hd args) in
      if sub = ''emit'' then
        (\<lparr>exit_code = 0, out = [], err = []\<rparr>, emit_event (emitted args me now) file)
      else if sub = ''tail'' then
        (let (evs, newest) = bus_tail args me now file in
         (\<lparr>exit_code = 0,
           out = unlines (map (event_line now) evs)
             @ (if evs = [] then ''(no new events)'' @ [nl] else [])
             @ ''cursor: '' @ int_str newest @ [nl], err = []\<rparr>, file))
      else (\<lparr>exit_code = (if sub = [] then 0 else 1), out = bus_usage, err = []\<rparr>, file))"

section \<open>Reading what was emitted\<close>

lemma readEvents_ok: "e \<in> set (readEvents file) \<Longrightarrow> event_ok e"
  by (auto simp: readEvents_def read_lines_def dest!: map_filter_set
      intro: eventFromLine_ok dest: getlines_on_no_sep)

lemma readEvents_compact:
  "readEvents (compact_events file) =
   (let all = readEvents file in if 1000 < length all then drop (length all - 500) all else all)"
proof (cases "1000 < length (readEvents file)")
  case True
  have "\<forall>e \<in> set (drop (length (readEvents file) - 500) (readEvents file)). event_ok e"
    using readEvents_ok by (meson in_set_dropD)
  then show ?thesis
    using True event_text.read_write by (simp add: compact_events_def Let_def readEvents_def)
qed (simp add: compact_events_def Let_def)

lemma readEvents_emit:
  assumes "complete file" and "event_ok e"
  shows "\<exists>n. readEvents (emit_event e file) = drop n (readEvents file) @ [e]"
proof -
  have app: "readEvents (file @ eventToLine e @ [nl]) = readEvents file @ [e]"
    using assms event_text.read_append by (simp add: readEvents_def)
  have "readEvents (emit_event e file) =
      (let all = readEvents file @ [e] in if 1000 < length all then drop (length all - 500) all else all)"
    by (simp add: emit_event_def readEvents_compact app)
  then show ?thesis
    by (cases "1000 < length (readEvents file @ [e])")
       (auto simp: Let_def intro: exI[of _ "length (readEvents file) - 499"] exI[of _ 0])
qed

lemma readEvents_bounded:
  assumes "length (readEvents file) \<le> 1000" and "complete file" and "event_ok e"
  shows "length (readEvents (emit_event e file)) \<le> 1000"
proof -
  have "readEvents (file @ eventToLine e @ [nl]) = readEvents file @ [e]"
    using assms event_text.read_append by (simp add: readEvents_def)
  then show ?thesis using assms(1) by (simp add: emit_event_def readEvents_compact Let_def)
qed

section \<open>Properties\<close>

lemma tail_newest_covers:
  "e \<in> set (readEvents file) \<Longrightarrow> e_ts e \<le> snd (bus_tail args me now file)"
proof -
  let ?since = "tail_since args now"
  assume e: "e \<in> set (readEvents file)"
  have "e_ts e \<le> newest_of e_ts ?since (eventsSince (readEvents file) ?since)"
  proof (cases "e_ts e \<le> ?since")
    case True
    then show ?thesis using newest_of_ge(1) by (rule order_trans)
  next
    case False
    then show ?thesis using e by (intro newest_of_ge(2)) (simp add: eventsSince_def)
  qed
  then show ?thesis by (simp add: bus_tail_def Let_def)
qed

lemma tail_since_cursor: "fits64 c \<Longrightarrow> tail_since [''tail'', ''--since'', int_str c] now = c"
proof -
  assume c: "fits64 c"
  have "int_str c \<noteq> []" using stoll_int_str[OF c] by (auto simp: stoll_def sto_int_def)
  then show ?thesis using c by (simp add: tail_since_def stoll_int_str Let_def)
qed

text \<open>
  A poller neither misses nor repeats an event that arrives in a later second:
  it passes the reported cursor back, and after an \<open>emit\<close> with a newer time the second
  \<open>tail\<close> shows exactly that event, also when the \<open>emit\<close> compacted the log.
\<close>

theorem tail_poll_exact:
  assumes "complete file" and "event_ok e" and "actor e \<noteq> me"
    and "cursor = snd (bus_tail args me now file)" and "fits64 cursor" and "cursor < e_ts e"
  shows "fst (bus_tail [''tail'', ''--since'', int_str cursor] me later (emit_event e file)) = [e]"
proof -
  obtain n where n: "readEvents (emit_event e file) = drop n (readEvents file) @ [e]"
    using readEvents_emit assms(1,2) by blast
  have "\<forall>x \<in> set (drop n (readEvents file)). \<not> cursor < e_ts x"
    using tail_newest_covers assms(4) by (meson in_set_dropD linorder_not_less)
  then show ?thesis
    using assms(3,5,6) by (auto simp: bus_tail_def Let_def tail_since_cursor eventsSince_def n)
qed

theorem tail_poll_exact_witness:
  "fst (bus_tail [''tail'', ''--since'', int_str 880] ''me'' 1001
    (emit_event \<lparr>e_ts = 1000, actor = ''a'', kind = ''edit'', target = ''x.cpp'', detail = []\<rparr> [])) =
   [\<lparr>e_ts = 1000, actor = ''a'', kind = ''edit'', target = ''x.cpp'', detail = []\<rparr>]"
proof (rule tail_poll_exact[where args = "[''tail'']" and now = 1000])
  show "880 = snd (bus_tail [''tail''] ''me'' 1000 [])"
    by (simp add: bus_tail_def tail_since_def eventsSince_def readEvents_def read_lines_def
        getlines_on_def List.map_filter_def Let_def)
qed (simp_all add: event_ok_def fits64_def)

text \<open>
  Only the detail of an event is escaped. A tab inside the target moves the field
  boundary: the reader of \<open>emit --target "g<TAB>h"\<close> sees the target cut at the tab and the
  rest of it in front of the detail.
\<close>

theorem tab_in_target_shifts:
  assumes "fits64 t" and "a \<noteq> []" and "k \<noteq> []" and "tab \<notin> set (a @ k @ g)"
  shows "eventFromLine (eventToLine \<lparr>e_ts = t, actor = a, kind = k, target = g @ tab # h, detail = d\<rparr>) =
    Some \<lparr>e_ts = t, actor = a, kind = k, target = g, detail = unesc (h @ tab # esc d)\<rparr>"
  using assms by (simp add: eventFromLine_def eventToLine_def cut_tab_append int_str_no_sep stoll_int_str)

theorem tab_in_target_shifts_witness:
  "eventFromLine (eventToLine \<lparr>e_ts = 5, actor = ''a'', kind = ''edit'', target = ''my'' @ tab # ''file'',
      detail = ''d''\<rparr>) =
   Some \<lparr>e_ts = 5, actor = ''a'', kind = ''edit'', target = ''my'', detail = unesc (''file'' @ tab # esc ''d'')\<rparr>"
  by (rule tab_in_target_shifts) (simp_all add: fits64_def)

end
