(* ===== verification/RecallCache.thy ===== *)
theory RecallCache
  imports CxxString
begin

text \<open>
  The in-memory recall cache, \<open>core/recall_cache.hpp\<close> and \<open>core/recall_cache.cpp\<close>: an LRU list
  of entries, a hash map from keys to list iterators, a running byte count, caps, TTL and
  pins. An iterator is the address of its list node, so that the map and the list can
  disagree in the model as they can in the code: an operation that follows a dangling
  iterator has the value \<open>None\<close>. Sizes are natural numbers; that the byte count never goes
  below zero is part of the invariant. The lemmas show that every sequence of operations is
  free of dangling iterators and keeps the invariant, what eviction removes, and when a value
  put is read back.
\<close>

section \<open>State\<close>

record cache_entry =
  addr :: nat
  key :: string
  val :: string
  n_bytes :: nat
  hits :: nat
  last_used :: int
  created :: int
  pinned :: bool

record cache =
  lru :: "cache_entry list"
  map_of_keys :: "string \<Rightarrow> nat option"
  cap_entries :: nat
  cap_bytes :: nat
  bytes :: nat
  ttl :: int
  sink :: "(string \<times> string \<times> nat) list option"
  agg_hits :: nat
  agg_misses :: nat
  agg_evictions :: nat
  next_addr :: nat

definition new_cache :: cache where
  "new_cache = \<lparr>lru = [], map_of_keys = (\<lambda>_. None), cap_entries = 256, cap_bytes = 16 * 2 ^ 20,
     bytes = 0, ttl = 300, sink = None, agg_hits = 0, agg_misses = 0, agg_evictions = 0, next_addr = 0\<rparr>"

definition deref :: "nat \<Rightarrow> cache_entry list \<Rightarrow> cache_entry option" where
  "deref a xs = find (\<lambda>n. addr n = a) xs"

definition erase_at :: "nat \<Rightarrow> cache_entry list \<Rightarrow> cache_entry list" where
  "erase_at a xs = filter (\<lambda>n. addr n \<noteq> a) xs"

section \<open>Eviction\<close>

definition evictLRUUnpinned :: "cache \<Rightarrow> cache" where
  "evictLRUUnpinned c =
     (case find (\<lambda>n. \<not> pinned n) (rev (lru c)) of
        None \<Rightarrow> c
      | Some n \<Rightarrow> c\<lparr>bytes := bytes c - n_bytes n, map_of_keys := (map_of_keys c)(key n := None),
          lru := erase_at (addr n) (lru c), agg_evictions := agg_evictions c + 1\<rparr>)"

definition over_cap :: "cache \<Rightarrow> bool" where
  "over_cap c \<longleftrightarrow> cap_entries c < length (lru c) \<or> cap_bytes c < bytes c"

lemma evict_length: "length (lru (evictLRUUnpinned c)) \<le> length (lru c)"
  by (auto simp: evictLRUUnpinned_def erase_at_def split: option.splits)

function evictToFit :: "cache \<Rightarrow> cache" where
  "evictToFit c =
     (if over_cap c \<and> lru c \<noteq> [] then
        (let c' = evictLRUUnpinned c in
         if length (lru c') = length (lru c) then c' else evictToFit c')
      else c)"
  by pat_completeness auto
termination
  by (relation "measure (\<lambda>c. length (lru c))") (use evict_length in \<open>auto simp: le_neq_implies_less\<close>)

declare evictToFit.simps [simp del]

section \<open>Operations\<close>

definition setCap :: "nat \<Rightarrow> nat \<Rightarrow> cache \<Rightarrow> cache" where
  "setCap e b c = evictToFit (c\<lparr>cap_entries := e, cap_bytes := b\<rparr>)"

definition setTtlSeconds :: "int \<Rightarrow> cache \<Rightarrow> cache" where
  "setTtlSeconds t c = c\<lparr>ttl := t\<rparr>"

definition setPersistSink :: "cache \<Rightarrow> cache" where
  "setPersistSink c = c\<lparr>sink := Some []\<rparr>"

definition touch :: "cache_entry \<Rightarrow> int \<Rightarrow> cache \<Rightarrow> cache" where
  "touch n now c =
     c\<lparr>lru := n\<lparr>last_used := now, hits := hits n + 1\<rparr> # erase_at (addr n) (lru c)\<rparr>"

definition getAt :: "string \<Rightarrow> int \<Rightarrow> cache \<Rightarrow> (string option \<times> cache) option" where
  "getAt k now c =
     (case map_of_keys c k of
        None \<Rightarrow> Some (None, c\<lparr>agg_misses := agg_misses c + 1\<rparr>)
      | Some a \<Rightarrow>
          (case deref a (lru c) of
             None \<Rightarrow> None
           | Some n \<Rightarrow>
               if 0 < ttl c \<and> ttl c < now - created n \<and> \<not> pinned n
               then Some (None, c\<lparr>bytes := bytes c - n_bytes n, lru := erase_at a (lru c),
                      map_of_keys := (map_of_keys c)(k := None), agg_misses := agg_misses c + 1\<rparr>)
               else Some (Some (val n), touch n now (c\<lparr>agg_hits := agg_hits c + 1\<rparr>))))"

definition drop_key :: "string \<Rightarrow> cache \<Rightarrow> cache option" where
  "drop_key k c =
     (case map_of_keys c k of
        None \<Rightarrow> Some c
      | Some a \<Rightarrow>
          (case deref a (lru c) of
             None \<Rightarrow> None
           | Some n \<Rightarrow> Some (c\<lparr>bytes := bytes c - n_bytes n, lru := erase_at a (lru c),
                          map_of_keys := (map_of_keys c)(k := None)\<rparr>)))"

definition push_new :: "string \<Rightarrow> string \<Rightarrow> int \<Rightarrow> cache \<Rightarrow> cache" where
  "push_new k v now c =
     (let n = \<lparr>addr = next_addr c, key = k, val = v, n_bytes = length k + length v, hits = 0,
               last_used = now, created = now, pinned = False\<rparr>
      in c\<lparr>bytes := bytes c + n_bytes n, lru := n # lru c,
           map_of_keys := (map_of_keys c)(k \<mapsto> addr n), next_addr := next_addr c + 1,
           sink := map_option (\<lambda>calls. calls @ [(k, v, length k + length v)]) (sink c)\<rparr>)"

definition putAt :: "string \<Rightarrow> string \<Rightarrow> int \<Rightarrow> cache \<Rightarrow> cache option" where
  "putAt k v now c = map_option (\<lambda>c'. evictToFit (push_new k v now c')) (drop_key k c)"

definition flush :: "cache \<Rightarrow> cache" where
  "flush c = c\<lparr>lru := [], map_of_keys := (\<lambda>_. None), bytes := 0\<rparr>"

definition pin :: "string \<Rightarrow> cache \<Rightarrow> cache option" where
  "pin k c =
     (case map_of_keys c k of
        None \<Rightarrow> Some c
      | Some a \<Rightarrow>
          (case deref a (lru c) of
             None \<Rightarrow> None
           | Some _ \<Rightarrow> Some (c\<lparr>lru := map (\<lambda>n. if addr n = a then n\<lparr>pinned := True\<rparr> else n) (lru c)\<rparr>)))"

text \<open>
  \<open>std::sort\<close> by descending hits leaves the order of equal hits open: the sorting function is
  an argument.
\<close>

definition pinHot :: "(cache_entry list \<Rightarrow> cache_entry list) \<Rightarrow> nat \<Rightarrow> cache \<Rightarrow> cache" where
  "pinHot srt topN c =
     (let v = map (\<lambda>n. n\<lparr>pinned := False\<rparr>) (lru c);
          hot = map addr (take topN (srt v))
      in c\<lparr>lru := map (\<lambda>n. n\<lparr>pinned := addr n \<in> set hot\<rparr>) v\<rparr>)"

record cache_stats =
  s_hits :: nat
  s_misses :: nat
  s_evictions :: nat
  s_entries :: nat
  s_bytes :: nat
  s_cap_entries :: nat
  s_cap_bytes :: nat

definition stats :: "cache \<Rightarrow> cache_stats" where
  "stats c = \<lparr>s_hits = agg_hits c, s_misses = agg_misses c, s_evictions = agg_evictions c,
     s_entries = length (lru c), s_bytes = bytes c, s_cap_entries = cap_entries c, s_cap_bytes = cap_bytes c\<rparr>"

text \<open>
  The governor compares the used fraction of memory with 0.85 and 0.60; the model compares the
  exact fractions.
\<close>

definition governorTargetBytes :: "nat \<Rightarrow> nat \<Rightarrow> nat \<Rightarrow> nat \<Rightarrow> nat \<Rightarrow> nat" where
  "governorTargetBytes avail_mb cur floor_b ceil_b total_mb =
     (if total_mb = 0 then floor_b
      else
        (let used = int total_mb - int avail_mb;
             base = (if cur \<noteq> 0 then cur else floor_b);
             target = (if 85 * int total_mb \<le> 100 * used then base div 2
                       else if 100 * used \<le> 60 * int total_mb then base * 2 else base);
             target1 = (if target < floor_b then floor_b else target)
         in if ceil_b < target1 then ceil_b else target1))"

definition runGovernorOnce ::
  "(cache_entry list \<Rightarrow> cache_entry list) \<Rightarrow> nat \<Rightarrow> nat \<Rightarrow> cache \<Rightarrow> cache" where
  "runGovernorOnce srt avail_mb total_mb c =
     (let s = stats c;
          target = governorTargetBytes avail_mb (s_bytes s) (4 * 2 ^ 20) (64 * 2 ^ 20) total_mb;
          c1 = pinHot srt 16 c
      in setCap (if s_cap_entries s \<noteq> 0 then s_cap_entries s else 256) target c1)"

datatype cache_op =
    Get string int
  | Put string string int
  | Flush
  | Pin string
  | PinHot nat
  | SetCap nat nat
  | SetTtl int
  | SetSink
  | Governor nat nat

fun cache_step :: "(cache_entry list \<Rightarrow> cache_entry list) \<Rightarrow> cache_op \<Rightarrow> cache \<Rightarrow> cache option" where
  "cache_step srt (Get k now) c = map_option snd (getAt k now c)"
| "cache_step srt (Put k v now) c = putAt k v now c"
| "cache_step srt Flush c = Some (flush c)"
| "cache_step srt (Pin k) c = pin k c"
| "cache_step srt (PinHot n) c = Some (pinHot srt n c)"
| "cache_step srt (SetCap e b) c = Some (setCap e b c)"
| "cache_step srt (SetTtl t) c = Some (setTtlSeconds t c)"
| "cache_step srt SetSink c = Some (setPersistSink c)"
| "cache_step srt (Governor a t) c = Some (runGovernorOnce srt a t c)"

fun cache_run :: "(cache_entry list \<Rightarrow> cache_entry list) \<Rightarrow> cache_op list \<Rightarrow> cache \<Rightarrow> cache option" where
  "cache_run srt [] c = Some c"
| "cache_run srt (opn # ops) c = Option.bind (cache_step srt opn c) (cache_run srt ops)"

section \<open>The invariant\<close>

definition cache_ok :: "cache_entry list \<Rightarrow> (string \<Rightarrow> nat option) \<Rightarrow> nat \<Rightarrow> nat \<Rightarrow> bool" where
  "cache_ok xs m b nx \<longleftrightarrow>
     distinct (map addr xs) \<and> distinct (map key xs) \<and>
     (\<forall>k a. m k = Some a \<longleftrightarrow> (\<exists>n \<in> set xs. key n = k \<and> addr n = a)) \<and>
     b = sum_list (map n_bytes xs) \<and>
     (\<forall>n \<in> set xs. addr n < nx \<and> n_bytes n = length (key n) + length (val n))"

definition cache_inv :: "cache \<Rightarrow> bool" where
  "cache_inv c \<longleftrightarrow> cache_ok (lru c) (map_of_keys c) (bytes c) (next_addr c)"

lemma cache_okD:
  assumes "cache_ok xs m b nx"
  shows "distinct (map addr xs)" "distinct (map key xs)"
    "m k = Some a \<longleftrightarrow> (\<exists>n \<in> set xs. key n = k \<and> addr n = a)"
    "b = sum_list (map n_bytes xs)"
    "n \<in> set xs \<Longrightarrow> addr n < nx" "n \<in> set xs \<Longrightarrow> n_bytes n = length (key n) + length (val n)"
  using assms by (auto simp: cache_ok_def)

lemma erase_at_split: "distinct (map addr (ys @ n # zs)) \<Longrightarrow> erase_at (addr n) (ys @ n # zs) = ys @ zs"
proof -
  assume "distinct (map addr (ys @ n # zs))"
  then have "addr n \<notin> addr ` set ys" "addr n \<notin> addr ` set zs" by auto
  then have "\<forall>x \<in> set ys. addr x \<noteq> addr n" "\<forall>x \<in> set zs. addr x \<noteq> addr n" by (metis image_eqI)+
  then show ?thesis by (simp add: erase_at_def)
qed

lemma key_of_member: "distinct (map key xs) \<Longrightarrow> n \<in> set xs \<Longrightarrow> n' \<in> set xs \<Longrightarrow> key n = key n' \<Longrightarrow> n = n'"
  by (meson distinct_map inj_onD)

lemma addr_of_member: "distinct (map addr xs) \<Longrightarrow> n \<in> set xs \<Longrightarrow> n' \<in> set xs \<Longrightarrow> addr n = addr n' \<Longrightarrow> n = n'"
  by (meson distinct_map inj_onD)

lemma deref_member: "distinct (map addr xs) \<Longrightarrow> n \<in> set xs \<Longrightarrow> deref (addr n) xs = Some n"
proof -
  assume d: "distinct (map addr xs)" and n: "n \<in> set xs"
  show ?thesis
  proof (cases "deref (addr n) xs")
    case None
    then show ?thesis using n by (auto simp: deref_def find_None_all)
  next
    case (Some m)
    then have "m \<in> set xs \<and> addr m = addr n" unfolding deref_def by (drule_tac find_Some_in) simp
    then show ?thesis using d n Some by (auto dest: addr_of_member)
  qed
qed

lemma no_dangling:
  assumes "cache_inv c" and "map_of_keys c k = Some a"
  shows "\<exists>n \<in> set (lru c). deref a (lru c) = Some n \<and> key n = k \<and> addr n = a"
proof -
  have ok: "cache_ok (lru c) (map_of_keys c) (bytes c) (next_addr c)"
    using assms(1) by (simp add: cache_inv_def)
  then obtain n where "n \<in> set (lru c)" "key n = k" "addr n = a"
    using assms(2) cache_okD(3) by blast
  then show ?thesis using deref_member cache_okD(1)[OF ok] by blast
qed

lemma unmapped:
  assumes "cache_inv c" and "map_of_keys c k = None"
  shows "k \<notin> key ` set (lru c)"
proof
  have ok: "cache_ok (lru c) (map_of_keys c) (bytes c) (next_addr c)"
    using assms(1) by (simp add: cache_inv_def)
  assume "k \<in> key ` set (lru c)"
  then have "\<exists>a. map_of_keys c k = Some a" using cache_okD(3)[OF ok] by blast
  then show False using assms(2) by simp
qed

lemma cache_ok_remove:
  assumes "cache_ok xs m b nx" and "n \<in> set xs"
  shows "cache_ok (erase_at (addr n) xs) (m(key n := None)) (b - n_bytes n) nx"
proof -
  obtain ys zs where xs: "xs = ys @ n # zs" using assms(2) split_list by fastforce
  then have e: "erase_at (addr n) xs = ys @ zs"
    using assms(1) erase_at_split[of ys n zs] by (simp add: cache_ok_def)
  have mm: "(m(key n := None)) k = Some a \<longleftrightarrow> (\<exists>x \<in> set (ys @ zs). key x = k \<and> addr x = a)" for k a
    using assms(1) unfolding cache_ok_def xs by (auto simp: image_iff)
  show ?thesis
    unfolding e cache_ok_def using assms(1) mm by (auto simp: cache_ok_def xs)
qed

lemma cache_ok_push:
  assumes "cache_ok xs m b nx" and "key n \<notin> key ` set xs" and "addr n = nx"
    and "n_bytes n = length (key n) + length (val n)"
  shows "cache_ok (n # xs) (m(key n \<mapsto> nx)) (b + n_bytes n) (nx + 1)"
proof -
  have mm: "(m(key n \<mapsto> nx)) k = Some a \<longleftrightarrow> (\<exists>x \<in> set (n # xs). key x = k \<and> addr x = a)" for k a
    using assms unfolding cache_ok_def by (auto simp: image_iff)
  have "nx \<notin> addr ` set xs" using assms(1) unfolding cache_ok_def by force
  then show ?thesis
    using assms mm unfolding cache_ok_def[of "n # xs"] by (auto simp: cache_ok_def less_Suc_eq)
qed

lemma cache_ok_same_nodes:
  assumes "cache_ok xs m b nx"
    and "map addr ys = map addr xs" and "map key ys = map key xs"
    and "map val ys = map val xs" and "map n_bytes ys = map n_bytes xs"
  shows "cache_ok ys m b nx"
proof -
  have len: "length ys = length xs" using assms(2) map_eq_imp_length_eq by blast
  have at: "addr (ys ! i) = addr (xs ! i) \<and> key (ys ! i) = key (xs ! i) \<and> val (ys ! i) = val (xs ! i)
      \<and> n_bytes (ys ! i) = n_bytes (xs ! i)" if "i < length xs" for i
    using that assms(2-5) len by (metis nth_map)
  have ex: "(\<exists>n \<in> set ys. key n = k \<and> addr n = a) \<longleftrightarrow> (\<exists>n \<in> set xs. key n = k \<and> addr n = a)" for k a
    using at len by (metis in_set_conv_nth)
  have all: "\<forall>n \<in> set ys. addr n < nx \<and> n_bytes n = length (key n) + length (val n)"
  proof
    fix n
    assume "n \<in> set ys"
    then obtain i where "i < length xs" "n = ys ! i" using len by (metis in_set_conv_nth)
    then show "addr n < nx \<and> n_bytes n = length (key n) + length (val n)"
      using assms(1) at[of i] nth_mem[of i xs] by (simp add: cache_ok_def)
  qed
  show ?thesis
    using assms ex all unfolding cache_ok_def by simp
qed

lemma inv_field [frame]:
  "cache_inv (c\<lparr>cap_entries := e\<rparr>) = cache_inv c"
  "cache_inv (c\<lparr>cap_bytes := e\<rparr>) = cache_inv c"
  "cache_inv (c\<lparr>ttl := t\<rparr>) = cache_inv c"
  "cache_inv (c\<lparr>sink := q\<rparr>) = cache_inv c"
  "cache_inv (c\<lparr>agg_hits := h\<rparr>) = cache_inv c"
  "cache_inv (c\<lparr>agg_misses := h\<rparr>) = cache_inv c"
  "cache_inv (c\<lparr>agg_evictions := h\<rparr>) = cache_inv c"
  by (simp_all add: cache_inv_def)

section \<open>Eviction keeps the pinned and the recent\<close>

lemma find_rev_split:
  "find P (rev xs) = Some n \<Longrightarrow> \<exists>ys zs. xs = ys @ n # zs \<and> P n \<and> (\<forall>z \<in> set zs. \<not> P z)"
proof (induction xs rule: rev_induct)
  case (snoc x xs)
  show ?case
  proof (cases "P x")
    case True
    then show ?thesis using snoc.prems by force
  next
    case False
    then obtain ys zs where "xs = ys @ n # zs" "P n" "\<forall>z \<in> set zs. \<not> P z"
      using snoc by auto
    then have "xs @ [x] = ys @ n # (zs @ [x])" "P n" "\<forall>z \<in> set (zs @ [x]). \<not> P z"
      using False by auto
    then show ?thesis by blast
  qed
qed simp

lemma evict_cases:
  assumes "cache_inv c"
  obtains (all_pinned) "\<forall>n \<in> set (lru c). pinned n" "evictLRUUnpinned c = c"
  | (removed) ys n zs where "lru c = ys @ n # zs" "\<not> pinned n" "\<forall>z \<in> set zs. pinned z"
      "evictLRUUnpinned c = c\<lparr>bytes := bytes c - n_bytes n,
         map_of_keys := (map_of_keys c)(key n := None), lru := ys @ zs, agg_evictions := agg_evictions c + 1\<rparr>"
proof (cases "find (\<lambda>n. \<not> pinned n) (rev (lru c))")
  case None
  then have "\<forall>n \<in> set (lru c). pinned n" by (simp add: find_None_all)
  then show thesis using None all_pinned by (simp add: evictLRUUnpinned_def)
next
  case (Some n)
  then obtain ys zs where yz: "lru c = ys @ n # zs" "\<not> pinned n" "\<forall>z \<in> set zs. pinned z"
    using find_rev_split[OF Some] by auto
  have "distinct (map addr (ys @ n # zs))"
    using assms cache_okD(1) unfolding cache_inv_def yz(1) by blast
  then have "erase_at (addr n) (lru c) = ys @ zs" unfolding yz(1) by (rule erase_at_split)
  then show thesis using removed yz Some by (simp add: evictLRUUnpinned_def)
qed

lemma evict_inv: "cache_inv c \<Longrightarrow> cache_inv (evictLRUUnpinned c)"
proof -
  assume inv: "cache_inv c"
  show ?thesis
  proof (cases "find (\<lambda>n. \<not> pinned n) (rev (lru c))")
    case None
    then show ?thesis using inv by (simp add: evictLRUUnpinned_def)
  next
    case (Some n)
    then have "n \<in> set (lru c)" using find_Some_in by fastforce
    then show ?thesis
      using inv cache_ok_remove[of "lru c" _ _ _ n] by (simp add: evictLRUUnpinned_def Some cache_inv_def)
  qed
qed

lemma evictToFit_inv: "cache_inv c \<Longrightarrow> cache_inv (evictToFit c)"
proof (induction c rule: evictToFit.induct)
  case (1 c)
  then show ?case by (subst evictToFit.simps) (auto simp: Let_def evict_inv)
qed

text \<open>An induction rule for the loop: a relation that holds of each eviction holds of the loop.\<close>

lemma evictToFit_relates:
  assumes "cache_inv c" and "\<And>c. R c c" and "\<And>a b c. R a b \<Longrightarrow> R b c \<Longrightarrow> R a c"
    and "\<And>c. cache_inv c \<Longrightarrow> over_cap c \<Longrightarrow> R c (evictLRUUnpinned c)"
  shows "R c (evictToFit c)"
  using assms(1)
proof (induction c rule: evictToFit.induct)
  case (1 c)
  show ?case
  proof (cases "over_cap c \<and> lru c \<noteq> []")
    case False
    then show ?thesis by (subst evictToFit.simps) (auto simp: assms(2))
  next
    case True
    then have step: "R c (evictLRUUnpinned c)" using 1 assms(4) by blast
    show ?thesis
    proof (cases "length (lru (evictLRUUnpinned c)) = length (lru c)")
      case True': True
      then have "evictToFit c = evictLRUUnpinned c"
        using True by (subst evictToFit.simps) (simp add: Let_def)
      then show ?thesis using step by simp
    next
      case False
      then have "evictToFit c = evictToFit (evictLRUUnpinned c)"
        using True by (subst evictToFit.simps) (simp add: Let_def)
      then show ?thesis
        using 1 True False step assms(3) evict_inv by metis
    qed
  qed
qed

lemma evict_frame:
  "cap_entries (evictLRUUnpinned c) = cap_entries c" "cap_bytes (evictLRUUnpinned c) = cap_bytes c"
  "ttl (evictLRUUnpinned c) = ttl c" "next_addr (evictLRUUnpinned c) = next_addr c"
  by (simp_all add: evictLRUUnpinned_def split: option.split)

lemma evictToFit_frame [frame]:
  "cap_entries (evictToFit c) = cap_entries c" "cap_bytes (evictToFit c) = cap_bytes c"
  "ttl (evictToFit c) = ttl c" "next_addr (evictToFit c) = next_addr c"
proof (induction c rule: evictToFit.induct)
  case (1 c)
  {
    case 1
    then show ?case using "1.IH"(1) by (subst evictToFit.simps) (auto simp: Let_def evict_frame)
  next
    case 2
    then show ?case using "1.IH"(2) by (subst evictToFit.simps) (auto simp: Let_def evict_frame)
  next
    case 3
    then show ?case using "1.IH"(3) by (subst evictToFit.simps) (auto simp: Let_def evict_frame)
  next
    case 4
    then show ?case using "1.IH"(4) by (subst evictToFit.simps) (auto simp: Let_def evict_frame)
  }
qed

lemma touch_inv: "cache_inv c \<Longrightarrow> n \<in> set (lru c) \<Longrightarrow> cache_inv (touch n now c)"
proof -
  assume inv: "cache_inv c" and n: "n \<in> set (lru c)"
  obtain ys zs where yz: "lru c = ys @ n # zs" using split_list[OF n] by blast
  have ok: "cache_ok (ys @ n # zs) (map_of_keys c) (bytes c) (next_addr c)"
    using inv by (simp add: cache_inv_def yz)
  then have front: "cache_ok (n # ys @ zs) (map_of_keys c) (bytes c) (next_addr c)"
    unfolding cache_ok_def by auto
  have e: "erase_at (addr n) (lru c) = ys @ zs"
    unfolding yz by (rule erase_at_split[OF cache_okD(1)[OF ok]])
  have "cache_ok (n\<lparr>last_used := now, hits := hits n + 1\<rparr> # ys @ zs) (map_of_keys c) (bytes c) (next_addr c)"
    by (rule cache_ok_same_nodes[OF front]) simp_all
  then show ?thesis by (simp add: cache_inv_def touch_def e)
qed

lemma getAt_safe: "cache_inv c \<Longrightarrow> \<exists>r c'. getAt k now c = Some (r, c') \<and> cache_inv c'"
proof (cases "map_of_keys c k")
  case (Some a)
  assume inv: "cache_inv c"
  then obtain n where n: "n \<in> set (lru c)" "deref a (lru c) = Some n" "key n = k" "addr n = a"
    using no_dangling[OF inv Some] by blast
  have "cache_inv (c\<lparr>bytes := bytes c - n_bytes n, lru := erase_at a (lru c),
      map_of_keys := (map_of_keys c)(k := None), agg_misses := agg_misses c + 1\<rparr>)"
    using inv cache_ok_remove[of "lru c" _ _ _ n] n by (simp add: cache_inv_def)
  moreover have "cache_inv (touch n now (c\<lparr>agg_hits := agg_hits c + 1\<rparr>))"
    using inv n by (intro touch_inv) (simp_all add: frame)
  ultimately show ?thesis by (simp add: getAt_def Some n(2))
qed (simp add: getAt_def frame)

lemma drop_key_safe:
  assumes "cache_inv c"
  shows "\<exists>c'. drop_key k c = Some c' \<and> cache_inv c' \<and> lru c' = filter (\<lambda>n. key n \<noteq> k) (lru c)
     \<and> map_of_keys c' k = None \<and> cap_entries c' = cap_entries c \<and> cap_bytes c' = cap_bytes c
     \<and> ttl c' = ttl c \<and> next_addr c' = next_addr c"
proof (cases "map_of_keys c k")
  case None
  then have "filter (\<lambda>n. key n \<noteq> k) (lru c) = lru c"
    using unmapped[OF assms None] by (auto simp: filter_id_conv)
  then show ?thesis using None assms by (simp add: drop_key_def)
next
  case (Some a)
  then obtain n where n: "n \<in> set (lru c)" "deref a (lru c) = Some n" "key n = k" "addr n = a"
    using no_dangling[OF assms Some] by blast
  have ok: "cache_ok (lru c) (map_of_keys c) (bytes c) (next_addr c)"
    using assms by (simp add: cache_inv_def)
  have "cache_inv (c\<lparr>bytes := bytes c - n_bytes n, lru := erase_at a (lru c),
      map_of_keys := (map_of_keys c)(k := None)\<rparr>)"
    using ok cache_ok_remove[of "lru c" _ _ _ n] n by (simp add: cache_inv_def)
  moreover have "erase_at a (lru c) = filter (\<lambda>n. key n \<noteq> k) (lru c)"
    unfolding erase_at_def
  proof (rule filter_cong[OF refl])
    fix x
    assume "x \<in> set (lru c)"
    then show "(addr x \<noteq> a) = (key x \<noteq> k)"
      using n key_of_member[OF cache_okD(2)[OF ok]] addr_of_member[OF cache_okD(1)[OF ok]] by metis
  qed
  ultimately show ?thesis by (simp add: drop_key_def Some n(2))
qed

lemma push_new_inv: "cache_inv c \<Longrightarrow> map_of_keys c k = None \<Longrightarrow> cache_inv (push_new k v now c)"
  using unmapped[of c k] cache_ok_push[of "lru c" "map_of_keys c" "bytes c" "next_addr c"
      "\<lparr>addr = next_addr c, key = k, val = v, n_bytes = length k + length v, hits = 0,
        last_used = now, created = now, pinned = False\<rparr>"]
  by (simp add: cache_inv_def push_new_def Let_def)

lemma putAt_safe: "cache_inv c \<Longrightarrow> \<exists>c'. putAt k v now c = Some c' \<and> cache_inv c'"
  using drop_key_safe[of c k] push_new_inv evictToFit_inv by (force simp: putAt_def)

lemma pin_safe: "cache_inv c \<Longrightarrow> \<exists>c'. pin k c = Some c' \<and> cache_inv c'"
proof (cases "map_of_keys c k")
  case (Some a)
  assume inv: "cache_inv c"
  then obtain n where n: "deref a (lru c) = Some n" using no_dangling[OF inv Some] by blast
  have "cache_ok (map (\<lambda>n. if addr n = a then n\<lparr>pinned := True\<rparr> else n) (lru c))
      (map_of_keys c) (bytes c) (next_addr c)"
    by (rule cache_ok_same_nodes[of "lru c"]) (use inv in \<open>auto simp: cache_inv_def\<close>)
  then show ?thesis by (simp add: pin_def Some n cache_inv_def)
qed (simp add: pin_def)

lemma pinHot_inv: "cache_inv c \<Longrightarrow> cache_inv (pinHot srt k c)"
  unfolding pinHot_def Let_def cache_inv_def
  by simp (rule cache_ok_same_nodes[of "lru c"], auto)

lemma setCap_inv: "cache_inv c \<Longrightarrow> cache_inv (setCap e b c)"
  by (simp add: setCap_def evictToFit_inv frame)

lemma cache_step_safe: "cache_inv c \<Longrightarrow> \<exists>c'. cache_step srt opn c = Some c' \<and> cache_inv c'"
proof (cases opn)
  case (Get k now)
  assume "cache_inv c"
  then show ?thesis using getAt_safe[of c k now] Get by auto
qed (auto simp: putAt_safe pin_safe pinHot_inv setCap_inv runGovernorOnce_def Let_def
    setTtlSeconds_def setPersistSink_def frame flush_def cache_inv_def[of "c\<lparr>lru := [], map_of_keys := _, bytes := 0\<rparr>"] cache_ok_def)

lemma cache_run_safe: "cache_inv c \<Longrightarrow> \<exists>c'. cache_run srt ops c = Some c' \<and> cache_inv c'"
proof (induction ops arbitrary: c)
  case (Cons opn ops)
  obtain c' where "cache_step srt opn c = Some c'" "cache_inv c'"
    using cache_step_safe[OF Cons.prems] by blast
  then show ?case using Cons.IH by simp
qed simp

lemma new_cache_inv: "cache_inv new_cache"
  by (simp add: cache_inv_def cache_ok_def new_cache_def)

section \<open>Properties\<close>

text \<open>
  Property C2. No operation follows a dangling iterator: from the new cache every sequence of
  operations runs to the end, whatever order the sort gives equal hit counts, and leaves the
  map and the list in agreement, the byte count equal to the sum of the entries' sizes and
  the keys distinct.
\<close>

theorem cache_never_dangles: "\<exists>c. cache_run srt ops new_cache = Some c \<and> cache_inv c"
  by (rule cache_run_safe[OF new_cache_inv])

text \<open>What eviction may keep: the pinned entries and the \<open>j\<close> most recent of the others.\<close>

definition unpinned :: "cache \<Rightarrow> cache_entry list" where
  "unpinned c = filter (\<lambda>n. \<not> pinned n) (lru c)"

definition kept :: "cache \<Rightarrow> cache_entry list" where
  "kept c = filter pinned (lru c)"

definition too_many :: "cache \<Rightarrow> nat \<Rightarrow> bool" where
  "too_many c j \<longleftrightarrow>
     cap_entries c < length (kept c) + length (take j (unpinned c)) \<or>
     cap_bytes c < sum_list (map n_bytes (kept c)) + sum_list (map n_bytes (take j (unpinned c)))"

definition trimmed :: "cache \<Rightarrow> cache \<Rightarrow> bool" where
  "trimmed c c' \<longleftrightarrow> kept c' = kept c \<and> cap_entries c' = cap_entries c \<and> cap_bytes c' = cap_bytes c \<and>
     (\<exists>k \<le> length (unpinned c). unpinned c' = take k (unpinned c) \<and>
        (\<forall>j. k < j \<and> j \<le> length (unpinned c) \<longrightarrow> too_many c j))"

lemma over_cap_parts:
  assumes "cache_inv c"
  shows "over_cap c \<longleftrightarrow> too_many c (length (unpinned c))"
proof -
  have l: "length (kept c) + length (unpinned c) = length (lru c)"
    by (simp add: kept_def unpinned_def sum_length_filter_compl)
  have "sum_list (map n_bytes (filter pinned xs)) + sum_list (map n_bytes (filter (\<lambda>n. \<not> pinned n) xs))
      = sum_list (map n_bytes xs)" for xs
    by (induction xs) auto
  then have "bytes c = sum_list (map n_bytes (kept c)) + sum_list (map n_bytes (unpinned c))"
    using assms unfolding kept_def unpinned_def cache_inv_def cache_ok_def by metis
  then show ?thesis using l by (simp add: over_cap_def too_many_def)
qed

lemma trimmed_refl: "trimmed c c"
  by (auto simp: trimmed_def)

lemma trimmed_trans: "trimmed a b \<Longrightarrow> trimmed b c \<Longrightarrow> trimmed a c"
proof -
  assume ab: "trimmed a b" and bc: "trimmed b c"
  obtain k where k: "k \<le> length (unpinned a)" "unpinned b = take k (unpinned a)"
    "\<forall>j. k < j \<and> j \<le> length (unpinned a) \<longrightarrow> too_many a j"
    using ab unfolding trimmed_def by blast
  obtain l where l: "l \<le> length (unpinned b)" "unpinned c = take l (unpinned b)"
    "\<forall>j. l < j \<and> j \<le> length (unpinned b) \<longrightarrow> too_many b j"
    using bc unfolding trimmed_def by blast
  have lk: "l \<le> k" "length (unpinned b) = k" using k l by simp_all
  have "too_many a j" if "l < j" "j \<le> length (unpinned a)" for j
  proof (cases "k < j")
    case False
    then have "too_many b j" using l(3) that lk by simp
    moreover have "take j (unpinned b) = take j (unpinned a)" using False k(2) by (simp add: min_def)
    ultimately show ?thesis using ab by (simp add: too_many_def trimmed_def)
  qed (use k that in blast)
  then show ?thesis
    using ab bc k l lk unfolding trimmed_def by (intro conjI exI[of _ l]) (simp_all add: min_def)
qed

lemma trimmed_evict:
  assumes inv: "cache_inv c" and over: "over_cap c"
  shows "trimmed c (evictLRUUnpinned c)"
  using inv
proof (cases rule: evict_cases)
  case (removed ys n zs)
  have u: "unpinned c = filter (\<lambda>n. \<not> pinned n) ys @ [n]"
    using removed by (simp add: unpinned_def)
  have u': "unpinned (evictLRUUnpinned c) = filter (\<lambda>n. \<not> pinned n) ys"
    using removed by (simp add: unpinned_def)
  have kp: "kept (evictLRUUnpinned c) = kept c" using removed by (simp add: kept_def)
  have "too_many c j" if "length (filter (\<lambda>n. \<not> pinned n) ys) < j" "j \<le> length (unpinned c)" for j
    using that over over_cap_parts[OF inv] u by (simp add: le_Suc_eq)
  then show ?thesis
    unfolding trimmed_def using u u' kp
    by (intro conjI exI[of _ "length (filter (\<lambda>n. \<not> pinned n) ys)"]) (simp_all add: evict_frame)
qed (simp_all add: trimmed_refl)

lemma evictToFit_trimmed: "cache_inv c \<Longrightarrow> trimmed c (evictToFit c)"
  using evictToFit_relates[of c trimmed] trimmed_refl trimmed_trans trimmed_evict by blast

lemma evictToFit_fits: "cache_inv c \<Longrightarrow> over_cap (evictToFit c) \<Longrightarrow> \<forall>n \<in> set (lru (evictToFit c)). pinned n"
proof (induction c rule: evictToFit.induct)
  case (1 c)
  show ?case
  proof (cases "over_cap c \<and> lru c \<noteq> []")
    case False
    then have "evictToFit c = c" by (subst evictToFit.simps) auto
    then show ?thesis using False "1.prems" by auto
  next
    case True
    show ?thesis
      using "1.prems"(1)
    proof (cases rule: evict_cases)
      case all_pinned
      then have "evictToFit c = c" using True by (subst evictToFit.simps) (simp add: Let_def)
      then show ?thesis using all_pinned by simp
    next
      case (removed ys n zs)
      then have ne: "length (lru (evictLRUUnpinned c)) \<noteq> length (lru c)" by simp
      then have "evictToFit c = evictToFit (evictLRUUnpinned c)"
        using True by (subst evictToFit.simps) (simp add: Let_def)
      then show ?thesis using 1 True ne evict_inv by metis
    qed
  qed
qed

text \<open>
  Property C3. Eviction is exact LRU: \<open>evictToFit\<close> keeps every pinned entry and, of the others,
  the longest prefix of the recency order that fits the caps; it exceeds a cap only when
  nothing but pinned entries is left.
\<close>

theorem evictToFit_exact:
  assumes "cache_inv c"
  shows "kept (evictToFit c) = kept c \<and>
    (\<exists>k \<le> length (unpinned c). unpinned (evictToFit c) = take k (unpinned c) \<and>
       (\<forall>j. k < j \<and> j \<le> length (unpinned c) \<longrightarrow> too_many c j) \<and> (too_many c k \<longrightarrow> k = 0))"
proof -
  obtain k where k: "k \<le> length (unpinned c)" "unpinned (evictToFit c) = take k (unpinned c)"
      "\<forall>j. k < j \<and> j \<le> length (unpinned c) \<longrightarrow> too_many c j"
    and kp: "kept (evictToFit c) = kept c"
    using evictToFit_trimmed[OF assms] unfolding trimmed_def by blast
  have "k = 0" if "too_many c k"
  proof -
    have "too_many (evictToFit c) (length (unpinned (evictToFit c)))"
      using that kp by (simp add: too_many_def frame flip: k(2))
    then have "over_cap (evictToFit c)"
      using over_cap_parts[OF evictToFit_inv[OF assms]] by simp
    then have "unpinned (evictToFit c) = []"
      using evictToFit_fits[OF assms] by (simp add: unpinned_def filter_empty_conv)
    then show "k = 0" using k by auto
  qed
  then show ?thesis using k kp by blast
qed

text \<open>Four entries, the second of them pinned, in a cache for two.\<close>

definition entry_at :: "nat \<Rightarrow> string \<Rightarrow> bool \<Rightarrow> cache_entry" where
  "entry_at a k p = \<lparr>addr = a, key = k, val = ''v'', n_bytes = Suc (length k), hits = 0, last_used = 0, created = 0, pinned = p\<rparr>"

definition crowded :: cache where
  "crowded = new_cache\<lparr>lru := [entry_at 3 ''d'' False, entry_at 2 ''c'' True, entry_at 1 ''b'' False, entry_at 0 ''a'' False],
     map_of_keys := [''a'' \<mapsto> 0, ''b'' \<mapsto> 1, ''c'' \<mapsto> 2, ''d'' \<mapsto> 3], bytes := 8, next_addr := 4, cap_entries := 2\<rparr>"

lemma crowded_inv: "cache_inv crowded"
  by (auto simp: cache_inv_def cache_ok_def crowded_def new_cache_def entry_at_def)

theorem evictToFit_exact_witness:
  "map key (kept (evictToFit crowded)) = [''c''] \<and> map key (unpinned (evictToFit crowded)) = [''d'']"
proof -
  have parts: "kept crowded = [entry_at 2 ''c'' True]"
    "unpinned crowded = [entry_at 3 ''d'' False, entry_at 1 ''b'' False, entry_at 0 ''a'' False]"
    by (simp_all add: kept_def unpinned_def crowded_def entry_at_def)
  have many: "too_many crowded j \<longleftrightarrow> 2 \<le> j" for j
    by (simp add: too_many_def parts) (auto simp: crowded_def new_cache_def entry_at_def take_Cons' split: if_splits)
  obtain k where k: "unpinned (evictToFit crowded) = take k (unpinned crowded)"
    "\<forall>j. k < j \<and> j \<le> length (unpinned crowded) \<longrightarrow> too_many crowded j" "too_many crowded k \<longrightarrow> k = 0"
    using evictToFit_exact[OF crowded_inv] by blast
  have "k = 1"
  proof -
    have "\<not> k < 1" using k(2) many[of 1] by (auto simp: parts)
    moreover have "\<not> 2 \<le> k" using k(3) many[of k] by auto
    ultimately show ?thesis by simp
  qed
  moreover have "kept (evictToFit crowded) = kept crowded" using evictToFit_exact[OF crowded_inv] by blast
  ultimately show ?thesis using k(1) by (simp add: parts) (simp add: entry_at_def)
qed

section \<open>Reading back\<close>

lemma evictToFit_front:
  assumes "cache_inv c" and "lru c = n # rest" and "\<not> pinned n" and "\<not> too_many c 1"
  shows "n \<in> set (lru (evictToFit c))"
proof -
  obtain k where k: "k \<le> length (unpinned c)" "unpinned (evictToFit c) = take k (unpinned c)"
      "\<forall>j. k < j \<and> j \<le> length (unpinned c) \<longrightarrow> too_many c j"
    using evictToFit_trimmed[OF assms(1)] unfolding trimmed_def by blast
  have u: "unpinned c = n # filter (\<lambda>n. \<not> pinned n) rest" using assms(2,3) by (simp add: unpinned_def)
  then have "k \<noteq> 0" using k(3) assms(4) by (metis One_nat_def Suc_leI length_greater_0_conv list.distinct(1) less_one)
  then have "n \<in> set (unpinned (evictToFit c))" using k(2) u by (cases k) simp_all
  then show ?thesis by (simp add: unpinned_def)
qed

lemma getAt_fresh:
  assumes "cache_inv c" and "n \<in> set (lru c)" and "later - created n \<le> ttl c \<or> ttl c \<le> 0"
  shows "\<exists>c'. getAt (key n) later c = Some (Some (val n), c')"
proof -
  have ok: "cache_ok (lru c) (map_of_keys c) (bytes c) (next_addr c)"
    using assms(1) by (simp add: cache_inv_def)
  have m: "map_of_keys c (key n) = Some (addr n)" using cache_okD(3)[OF ok] assms(2) by blast
  have "deref (addr n) (lru c) = Some n" using deref_member[OF cache_okD(1)[OF ok] assms(2)] .
  then show ?thesis using m assms(3) by (auto simp: getAt_def)
qed

text \<open>
  Read after write: a value put is read back until its TTL has passed, provided it fits
  the caps together with the pinned entries of the other keys, whatever else the cache held.
\<close>

theorem put_then_get:
  assumes "cache_inv c"
    and "length (filter (\<lambda>n. pinned n \<and> key n \<noteq> k) (lru c)) + 1 \<le> cap_entries c"
    and "sum_list (map n_bytes (filter (\<lambda>n. pinned n \<and> key n \<noteq> k) (lru c))) + length k + length v \<le> cap_bytes c"
    and "later - now \<le> ttl c"
  shows "\<exists>c' c''. putAt k v now c = Some c' \<and> getAt k later c' = Some (Some v, c'')"
proof -
  obtain d where d: "drop_key k c = Some d" "cache_inv d" "lru d = filter (\<lambda>n. key n \<noteq> k) (lru c)"
      "map_of_keys d k = None" "cap_entries d = cap_entries c" "cap_bytes d = cap_bytes c" "ttl d = ttl c"
    using drop_key_safe[OF assms(1)] by blast
  let ?n = "\<lparr>addr = next_addr d, key = k, val = v, n_bytes = length k + length v, hits = 0,
               last_used = now, created = now, pinned = False\<rparr>"
  let ?p = "push_new k v now d"
  have "cache_inv ?p" by (rule push_new_inv[OF d(2,4)])
  moreover have "lru ?p = ?n # lru d" "cap_entries ?p = cap_entries c"
    "cap_bytes ?p = cap_bytes c" "ttl ?p = ttl c"
    using d by (simp_all add: push_new_def Let_def)
  ultimately have p: "cache_inv ?p" "lru ?p = ?n # lru d" "cap_entries ?p = cap_entries c"
    "cap_bytes ?p = cap_bytes c" "ttl ?p = ttl c" by blast+
  have "\<not> too_many ?p 1"
    using assms(2,3) by (simp add: too_many_def kept_def unpinned_def p d filter_filter conj_commute)
  then have "?n \<in> set (lru (evictToFit ?p))" using evictToFit_front[OF p(1,2)] by simp
  then have "\<exists>c''. getAt k later (evictToFit ?p) = Some (Some v, c'')"
    using getAt_fresh[OF evictToFit_inv[OF p(1)], of ?n later] assms(4) by (simp add: frame p)
  then show ?thesis using d(1) by (simp add: putAt_def)
qed

theorem put_then_get_witness:
  "\<exists>c' c''. putAt ''k'' ''value'' 1000 new_cache = Some c' \<and> getAt ''k'' 1300 c' = Some (Some ''value'', c'')"
  using put_then_get[OF new_cache_inv, of "''k''" "''value''" 1300 1000] by (simp add: new_cache_def)

text \<open>
  The governor forgets explicit pins: one tick re-pins the hottest 16 entries only, so
  an entry pinned with \<open>pin\<close> loses its pin as soon as it is not among them.
\<close>

theorem governor_unpins:
  assumes "cache_inv c"
  shows "\<forall>n \<in> set (lru (runGovernorOnce srt avail_mb total_mb c)).
    pinned n \<longrightarrow> addr n \<in> addr ` set (take 16 (srt (map (\<lambda>n. n\<lparr>pinned := False\<rparr>) (lru c))))"
proof (intro ballI impI)
  fix n
  assume n: "n \<in> set (lru (runGovernorOnce srt avail_mb total_mb c))" "pinned n"
  let ?c1 = "pinHot srt 16 c"
  obtain e b where r: "runGovernorOnce srt avail_mb total_mb c = evictToFit (?c1\<lparr>cap_entries := e, cap_bytes := b\<rparr>)"
    by (simp add: runGovernorOnce_def setCap_def Let_def)
  have "cache_inv (?c1\<lparr>cap_entries := e, cap_bytes := b\<rparr>)"
    using pinHot_inv[OF assms] by (simp add: frame)
  then have "kept (evictToFit (?c1\<lparr>cap_entries := e, cap_bytes := b\<rparr>)) = kept ?c1"
    using evictToFit_trimmed unfolding trimmed_def by (fastforce simp: kept_def)
  moreover have "n \<in> set (kept (evictToFit (?c1\<lparr>cap_entries := e, cap_bytes := b\<rparr>)))"
    using n r by (simp add: kept_def)
  ultimately have "n \<in> set (kept ?c1)" by simp
  then show "addr n \<in> addr ` set (take 16 (srt (map (\<lambda>n. n\<lparr>pinned := False\<rparr>) (lru c))))"
    by (auto simp: kept_def pinHot_def Let_def)
qed

definition seventeen :: cache where
  "seventeen = new_cache\<lparr>lru := map (\<lambda>i. \<lparr>addr = i, key = replicate i (CHR ''k''), val = [], n_bytes = i,
       hits = 1, last_used = 0, created = 0, pinned = (i = 16)\<rparr>) [0..<17],
     map_of_keys := (\<lambda>k. if k = replicate (length k) (CHR ''k'') \<and> length k < 17 then Some (length k) else None),
     bytes := sum_list [0..<17], next_addr := 17\<rparr>"

lemma seventeen_inv: "cache_inv seventeen"
  unfolding cache_inv_def cache_ok_def
proof (intro conjI)
  show "distinct (map key (lru seventeen))"
    by (auto simp: seventeen_def distinct_map inj_on_def dest: arg_cong[where f = length])
  show "\<forall>k a. (map_of_keys seventeen k = Some a) = (\<exists>n \<in> set (lru seventeen). key n = k \<and> addr n = a)"
    by (auto simp: seventeen_def)
qed (auto simp: seventeen_def distinct_map inj_on_def comp_def)

theorem governor_unpins_witness:
  "(\<exists>n \<in> set (lru seventeen). pinned n \<and> addr n = 16) \<and>
   (\<forall>n \<in> set (lru (runGovernorOnce (\<lambda>x. x) 0 0 seventeen)). addr n = 16 \<longrightarrow> \<not> pinned n)"
proof
  show "\<exists>n \<in> set (lru seventeen). pinned n \<and> addr n = 16" by (auto simp: seventeen_def)
  have "16 \<notin> addr ` set (take 16 (map (\<lambda>n. n\<lparr>pinned := False\<rparr>) (lru seventeen)))"
    by (auto simp: seventeen_def take_map)
  then show "\<forall>n \<in> set (lru (runGovernorOnce (\<lambda>x. x) 0 0 seventeen)). addr n = 16 \<longrightarrow> \<not> pinned n"
    using governor_unpins[OF seventeen_inv, of "\<lambda>x. x" 0 0] by metis
qed

end
