(* ===== verification/Fnv.thy ===== *)
theory Fnv
  imports CxxString
begin

text \<open>
  The 64-bit FNV-1a hash, which several components of the program carry a copy of, and its
  printed forms: the caches and the write expander name a content by it. Words wrap at 64 bits
  as the code's \<open>uint64_t\<close> does.
\<close>

unbundle bit_operations_syntax

definition fnv_step :: "64 word \<Rightarrow> char \<Rightarrow> 64 word" where
  "fnv_step h c = (h XOR word_of_nat (ccode c)) * 1099511628211"

definition fnv_fold :: "64 word \<Rightarrow> string \<Rightarrow> 64 word" where
  "fnv_fold h0 s = foldl fnv_step h0 s"

definition fnv1a :: "string \<Rightarrow> 64 word" where
  "fnv1a s = fnv_fold 14695981039346656037 s"

definition hex_digit :: "nat \<Rightarrow> char" where
  "hex_digit d = (if d < 10 then digit_char d else char_of (87 + d))"

fun hex_pad :: "nat \<Rightarrow> nat \<Rightarrow> string" where
  "hex_pad 0 n = []"
| "hex_pad (Suc w) n = hex_pad w (n div 16) @ [hex_digit (n mod 16)]"

definition byte_of :: "nat \<Rightarrow> 64 word \<Rightarrow> nat" where
  "byte_of i h = unat (drop_bit (8 * i) h AND 255)"

lemma fnv_fold_append: "fnv_fold h (s @ t) = fnv_fold (fnv_fold h s) t"
  by (simp add: fnv_fold_def)

lemma length_hex_pad [simp]: "length (hex_pad w n) = w"
  by (induction w arbitrary: n) simp_all

lemma byte_of_less: "byte_of i h < 256"
proof -
  have "drop_bit (8 * i) h AND 255 \<le> (255 :: 64 word)" by (rule word_and_le1)
  then show ?thesis by (simp add: byte_of_def word_le_nat_alt)
qed

text \<open>The prime is odd, so a step loses nothing: it can be undone, and so can the printing of a word.\<close>

lemma mult_prime_cancel: "x * 1099511628211 = y * 1099511628211 \<longleftrightarrow> x = (y :: 64 word)"
proof
  assume eq: "x * 1099511628211 = y * 1099511628211"
  have unit: "(1099511628211 :: 64 word) * 14886173955864302971 = 1" by simp
  have "x = (x * 1099511628211) * 14886173955864302971" by (simp only: mult.assoc unit mult_1_right)
  also have "\<dots> = (y * 1099511628211) * 14886173955864302971" by (simp only: eq)
  also have "\<dots> = y" by (simp only: mult.assoc unit mult_1_right)
  finally show "x = y" .
qed (rule arg_cong[where f = "\<lambda>z. z * 1099511628211"])

lemma xor_cancel: "x XOR y = x XOR z \<longleftrightarrow> y = (z :: 64 word)"
proof
  assume eq: "x XOR y = x XOR z"
  have "y = x XOR (x XOR y)" by (simp only: xor.assoc[symmetric] xor_self_eq xor.left_neutral)
  also have "\<dots> = z" by (simp only: eq xor.assoc[symmetric] xor_self_eq xor.left_neutral)
  finally show "y = z" .
qed (rule arg_cong[where f = "\<lambda>u. x XOR u"])

lemma fnv_step_state: "fnv_step h c = fnv_step h' c \<longleftrightarrow> h = h'"
  unfolding fnv_step_def mult_prime_cancel xor.commute[of _ "word_of_nat (ccode c)"] xor_cancel ..

lemma fnv_step_char: "fnv_step h c = fnv_step h d \<longleftrightarrow> c = d"
proof
  assume "fnv_step h c = fnv_step h d"
  then have "(word_of_nat (ccode c) :: 64 word) = word_of_nat (ccode d)"
    unfolding fnv_step_def mult_prime_cancel xor_cancel .
  moreover have "ccode c < 256" "ccode d < 256" by (simp_all add: ccode_def)
  ultimately have "ccode c = ccode d" by (simp add: word_of_nat_eq_iff take_bit_nat_eq_self)
  then show "c = d" by (simp add: ccode_def)
qed simp

lemma fnv_fold_state: "fnv_fold h s = fnv_fold h' s \<longleftrightarrow> h = h'"
  by (induction s arbitrary: h h') (simp_all add: fnv_fold_def fnv_step_state)

text \<open>Changing one character always changes the hash.\<close>

lemma fnv_one_change: "fnv_fold h (s @ c # t) = fnv_fold h (s @ d # t) \<longleftrightarrow> c = d"
proof -
  have "fnv_fold h (s @ x # t) = fnv_fold (fnv_step (fnv_fold h s) x) t" for x by (simp add: fnv_fold_def)
  then show ?thesis by (simp add: fnv_fold_state fnv_step_char)
qed

lemma ccode_hex_digit: "d < 16 \<Longrightarrow> ccode (hex_digit d) = (if d < 10 then 48 + d else 87 + d)"
  by (simp add: hex_digit_def digit_char_def ccode_char_of)

lemma hex_digit_inj: "a < 16 \<Longrightarrow> b < 16 \<Longrightarrow> hex_digit a = hex_digit b \<Longrightarrow> a = b"
proof -
  assume ab: "a < 16" "b < 16" "hex_digit a = hex_digit b"
  have "(if a < 10 then 48 + a else 87 + a) = (if b < 10 then 48 + b else 87 + b)"
    using arg_cong[OF ab(3), of ccode] unfolding ccode_hex_digit[OF ab(1)] ccode_hex_digit[OF ab(2)] .
  then show "a = b" using ab(1,2) by (cases "a < 10"; cases "b < 10") simp_all
qed

lemma hex_pad_inj: "m < 16 ^ w \<Longrightarrow> n < 16 ^ w \<Longrightarrow> hex_pad w m = hex_pad w n \<longleftrightarrow> m = n"
proof (induction w arbitrary: m n)
  case (Suc w)
  have "m div 16 < 16 ^ w" "n div 16 < 16 ^ w" using Suc.prems by (simp_all add: less_mult_imp_div_less mult.commute)
  then have "hex_pad w (m div 16) = hex_pad w (n div 16) \<longleftrightarrow> m div 16 = n div 16" by (rule Suc.IH)
  moreover have "hex_digit (m mod 16) = hex_digit (n mod 16) \<longleftrightarrow> m mod 16 = n mod 16"
    using hex_digit_inj[of "m mod 16" "n mod 16"] by auto
  ultimately show ?case by (simp, metis div_mult_mod_eq)
qed simp

lemma hex16_inj: "hex_pad 16 (unat a) = hex_pad 16 (unat b) \<longleftrightarrow> a = (b :: 64 word)"
proof -
  have "unat x < 16 ^ 16" for x :: "64 word" using unsigned_less[of x] by simp
  then show ?thesis using hex_pad_inj[of "unat a" 16 "unat b"] by (simp add: word_eq_iff_unsigned[where 'a = nat])
qed

end
