(* ===== verification/WriteExpander.thy ===== *)
theory WriteExpander
  imports Fnv
begin

text \<open>
  Compressed writes: \<open>compress/write_expander.cpp\<close> (the four magic headers, the unified-diff
  applier, the base hash, the glossary map), \<open>compress/template_engine.cpp\<close> (slot filling) and
  the decision of the PreToolUse:Write hook in \<open>cli/commands/hook_cmd.cpp\<close>. The file system, the
  pattern table and the JSON parser are arguments. The lemmas show that the applier inverts
  the standard form of a patch, what it does to a final newline and to an insertion-only hunk,
  and what reaches the disk when an expansion fails.
\<close>

section \<open>Lines and hashes\<close>

definition fnv10 :: "string \<Rightarrow> string" where
  "fnv10 s = concat (map (\<lambda>i. hex_pad 2 (byte_of i (fnv1a s))) [0..<5])"

definition splitLines :: "string \<Rightarrow> string list" where
  "splitLines s = map chop_cr (getlines s)"

definition joinLines :: "string list \<Rightarrow> string" where
  "joinLines v = join [nl] v"

definition readFile :: "(string \<Rightarrow> string option) \<Rightarrow> string \<Rightarrow> string" where
  "readFile fs path = (case fs path of None \<Rightarrow> [] | Some s \<Rightarrow> s)"

section \<open>Unified diffs\<close>

text \<open>\<open>atoi\<close>; a value outside the range of \<open>int\<close> is undefined in C and is 0 here.\<close>

definition atoi :: "string \<Rightarrow> int" where
  "atoi p = (case stoi p of Some v \<Rightarrow> v | None \<Rightarrow> 0)"

definition at_at :: "string \<Rightarrow> bool" where
  "at_at l \<longleftrightarrow> prefix ''@@'' l"

text \<open>
  The header scan of a hunk over the C string of the line. The code reads four numbers and uses
  only the first.
\<close>

definition old_start :: "string \<Rightarrow> int" where
  "old_start line =
     (let p = dropWhile (\<lambda>c. c \<noteq> CHR ''-'') (takeWhile (\<lambda>c. c \<noteq> CHR 0x00) line)
      in if p = [] then 0 else atoi (tl p))"

definition copy_to :: "string list \<Rightarrow> int \<Rightarrow> nat \<Rightarrow> nat" where
  "copy_to base start bi =
     max bi (min (if 0 < start then nat (start - 1) else 0) (length base))"

definition context_error :: "string \<Rightarrow> nat \<Rightarrow> string" where
  "context_error what bi = what @ '' mismatch at base line '' @ nat_str (bi + 1)"

text \<open>
  The two nested loops of the applier over the remaining diff lines: \<open>inh\<close> says whether the
  inner loop, the body of a hunk, runs; \<open>bi\<close> is the cursor into the base lines.
\<close>

fun diff_loop :: "string list \<Rightarrow> bool \<Rightarrow> nat \<Rightarrow> string list \<Rightarrow> string list \<Rightarrow> string + (nat \<times> string list)" where
  "diff_loop base inh bi out [] = Inr (bi, out)"
| "diff_loop base inh bi out (l # ls) =
     (if at_at l \<and> 4 \<le> length l then
        (let bi' = copy_to base (old_start l) bi
         in diff_loop base True bi' (out @ take (bi' - bi) (drop bi base)) ls)
      else if \<not> inh \<or> at_at l then diff_loop base False bi out ls
      else
        (let tag = (if l = [] then CHR '' '' else hd l);
             body = tl l in
         if tag = CHR '' '' then
           (if length base \<le> bi \<or> base ! bi \<noteq> body then Inl (context_error ''context'' bi)
            else diff_loop base True (bi + 1) (out @ [body]) ls)
         else if tag = CHR ''-'' then
           (if length base \<le> bi \<or> base ! bi \<noteq> body then Inl (context_error ''removal'' bi)
            else diff_loop base True (bi + 1) out ls)
         else if tag = CHR ''+'' then diff_loop base True bi (out @ [body]) ls
         else if tag = bs then diff_loop base True bi out ls
         else Inl ''unknown diff line tag''))"

definition applyUnifiedDiff :: "string \<Rightarrow> string list \<Rightarrow> string + string" where
  "applyUnifiedDiff base diff_lines =
     (case diff_loop (splitLines base) False 0 [] diff_lines of
        Inl e \<Rightarrow> Inl e
      | Inr (bi, out) \<Rightarrow> Inr (joinLines (out @ drop bi (splitLines base))))"

section \<open>Templates and glossaries\<close>

text \<open>
  The JSON slot map: a parse error with its text, a value that is no object, or an object that
  gives each key the text it is filled with.
\<close>

datatype slots = Slots_Error string | Not_Object | Slots "string \<Rightarrow> string option"

definition trim_blanks :: "string \<Rightarrow> string" where
  "trim_blanks k =
     (let blank = (\<lambda>c. c = CHR '' '' \<or> c = tab)
      in rev (dropWhile blank (rev (dropWhile blank k))))"

function fill_slots :: "(string \<Rightarrow> string option) \<Rightarrow> string \<Rightarrow> string" where
  "fill_slots look s =
     (case s of
        [] \<Rightarrow> []
      | c # cs \<Rightarrow>
          if prefix ''<%'' s then
            (case find_sub ''%>'' (drop 2 s) of
               None \<Rightarrow> s
             | Some e \<Rightarrow>
                 (case look (trim_blanks (take e (drop 2 s))) of
                    Some t \<Rightarrow> t
                  | None \<Rightarrow> take (e + 4) s) @ fill_slots look (drop (e + 4) s))
          else c # fill_slots look cs)"
  by pat_completeness auto
termination
  by (relation "measure (\<lambda>(_, s). length s)") auto

declare fill_slots.simps [simp del]

definition applyTemplate :: "(string \<Rightarrow> slots) \<Rightarrow> string \<Rightarrow> string \<Rightarrow> string \<times> string" where
  "applyTemplate parse_json layout_tree slots_json =
     (case parse_json slots_json of
        Slots_Error e \<Rightarrow> (layout_tree, ''slots JSON parse failed: '' @ e)
      | Not_Object \<Rightarrow> (layout_tree, ''slots JSON must be an object'')
      | Slots look \<Rightarrow> (fill_slots look layout_tree, []))"

function glossary_pairs :: "string \<Rightarrow> (string \<times> string) list" where
  "glossary_pairs s =
     (case cut_at dq s of None \<Rightarrow> [] | Some (_, r1) \<Rightarrow>
      (case cut_at dq r1 of None \<Rightarrow> [] | Some (k, r2) \<Rightarrow>
      (case cut_at (CHR '':'') r2 of None \<Rightarrow> [] | Some (_, r3) \<Rightarrow>
      (case cut_at dq r3 of None \<Rightarrow> [] | Some (_, r4) \<Rightarrow>
      (case cut_at dq r4 of None \<Rightarrow> [] | Some (v, r5) \<Rightarrow> (k, v) # glossary_pairs r5)))))"
  by pat_completeness auto
termination
  by (relation "measure length") (auto dest!: cut_at_shorter)

declare glossary_pairs.simps [simp del]

text \<open>The search-and-replace loop; the searched token is never empty.\<close>

function subst_token :: "string \<Rightarrow> string \<Rightarrow> string \<Rightarrow> string" where
  "subst_token tok v s =
     (if tok = [] then s else
      (case find_sub tok s of
         None \<Rightarrow> s
       | Some i \<Rightarrow> take i s @ v @ subst_token tok v (drop (i + length tok) s)))"
  by pat_completeness auto
termination
  by (relation "measure (\<lambda>(_, _, s). length s)") (auto dest!: find_sub_Some intro!: diff_less)

declare subst_token.simps [simp del]

definition expand_glossary :: "(string \<times> string) list \<Rightarrow> string \<Rightarrow> string" where
  "expand_glossary kv body =
     fold (\<lambda>(k, v) b. subst_token (''<%'' @ k @ ''%>'') v b) kv body"

section \<open>Expansion\<close>

record expand_result =
  ok :: bool
  mode :: string
  content :: string
  error :: string
  bytes_in :: int
  bytes_out :: int

text \<open>What the expander reads of its surroundings: files, the pattern table, JSON.\<close>

record expand_env =
  files :: "string \<Rightarrow> string option"
  layouts :: "string \<Rightarrow> string option"
  parse_json :: "string \<Rightarrow> slots"

definition done_with :: "string \<Rightarrow> string \<Rightarrow> string \<Rightarrow> expand_result" where
  "done_with m ai body = \<lparr>ok = True, mode = m, content = body, error = [],
     bytes_in = int (length ai), bytes_out = int (length body)\<rparr>"

definition failed :: "string \<Rightarrow> string \<Rightarrow> string \<Rightarrow> expand_result" where
  "failed m ai e = \<lparr>ok = False, mode = m, content = ai, error = e,
     bytes_in = int (length ai), bytes_out = int (length ai)\<rparr>"

definition header_field :: "string \<Rightarrow> string \<Rightarrow> string" where
  "header_field name first =
     (case find_sub name first of
        None \<Rightarrow> []
      | Some e \<Rightarrow> takeWhile (\<lambda>c. c \<noteq> CHR '' '' \<and> c \<noteq> CHR ''@'') (drop (e + length name) first))"

definition expand_diff :: "expand_env \<Rightarrow> string \<Rightarrow> string list \<Rightarrow> string \<Rightarrow> expand_result" where
  "expand_diff env ai lines base_path =
     (if base_path = [] then failed ''diff'' ai ''ICMG-DIFF requires base file path''
      else
        (let expected = header_field ''base='' (hd lines);
             base = readFile (files env) base_path;
             actual = fnv10 base in
         if expected \<noteq> [] \<and> actual \<noteq> expected then
           failed ''diff'' ai (''base SHA mismatch (expected '' @ expected @ '', got '' @ actual @ '')'')
         else
           (case applyUnifiedDiff base (tl lines) of
              Inl e \<Rightarrow> failed ''diff'' ai e
            | Inr body \<Rightarrow> done_with ''diff'' ai body)))"

definition expand_gloss :: "string \<Rightarrow> string list \<Rightarrow> expand_result" where
  "expand_gloss ai lines =
     (if length lines < 3 then failed ''glossary'' ai ''GLOSS mode requires map line + body''
      else done_with ''glossary'' ai
        (expand_glossary (glossary_pairs (lines ! 1)) (joinLines (drop 2 lines))))"

definition expand_template :: "expand_env \<Rightarrow> string \<Rightarrow> string list \<Rightarrow> expand_result" where
  "expand_template env ai lines =
     (let tpl = header_field ''id='' (hd lines) in
      if tpl = [] then failed ''template'' ai ''ICMG-TPL requires id=<name> in header''
      else
        (case layouts env tpl of
           None \<Rightarrow> failed ''template'' ai (''ICMG-TPL DB lookup failed for id='' @ tpl)
         | Some layout_tree \<Rightarrow>
             if layout_tree = [] then failed ''template'' ai (''ICMG-TPL pattern not found: '' @ tpl)
             else
               (let (body, e) = applyTemplate (parse_json env) layout_tree (joinLines (tl lines))
                in (done_with ''template'' ai body)\<lparr>ok := (e = []), error := e\<rparr>)))"

definition expandCompressedWrite :: "expand_env \<Rightarrow> string \<Rightarrow> string \<Rightarrow> expand_result" where
  "expandCompressedWrite env ai base_path =
     (let lines = splitLines ai in
      if lines = [] then done_with ''raw'' ai ai
      else if prefix ''@@ICMG-RAW@@'' (hd lines) then done_with ''raw'' ai (joinLines (tl lines))
      else if prefix ''@@ICMG-DIFF'' (hd lines) then expand_diff env ai lines base_path
      else if prefix ''@@ICMG-GLOSS@@'' (hd lines) then expand_gloss ai lines
      else if prefix ''@@ICMG-TPL'' (hd lines) then expand_template env ai lines
      else done_with ''raw'' ai ai)"

text \<open>
  The hook rewrites a Write only when the expansion succeeds and is not raw; otherwise the
  tool writes what it was given. \<open>disk_after\<close> is the content the Write leaves on disk.
\<close>

definition preToolUseWrite :: "expand_env \<Rightarrow> bool \<Rightarrow> string \<Rightarrow> string \<Rightarrow> string option" where
  "preToolUseWrite env flag file_path ai =
     (if \<not> flag \<or> ai = [] \<or> \<not> prefix ''@@ICMG-'' ai then None
      else
        (let r = expandCompressedWrite env ai file_path in
         if \<not> ok r \<or> mode r = ''raw'' then None else Some (content r)))"

definition disk_after :: "expand_env \<Rightarrow> bool \<Rightarrow> string \<Rightarrow> string \<Rightarrow> string" where
  "disk_after env flag file_path ai =
     (case preToolUseWrite env flag file_path ai of None \<Rightarrow> ai | Some s \<Rightarrow> s)"

section \<open>Patches in standard form\<close>

text \<open>
  A patch is a sequence of hunks, each a gap of untouched lines and a list of edits; \<open>render\<close>
  prints it the way \<open>diff -u\<close> does. \<open>old_side\<close> and \<open>new_side\<close> are the lines before and after.
\<close>

datatype edit = Keep string | Del string | Add string

type_synonym hunk = "string list \<times> edit list"

fun old_of :: "edit list \<Rightarrow> string list" where
  "old_of [] = []"
| "old_of (Keep l # es) = l # old_of es"
| "old_of (Del l # es) = l # old_of es"
| "old_of (Add l # es) = old_of es"

fun new_of :: "edit list \<Rightarrow> string list" where
  "new_of [] = []"
| "new_of (Keep l # es) = l # new_of es"
| "new_of (Del l # es) = new_of es"
| "new_of (Add l # es) = l # new_of es"

fun edit_line :: "edit \<Rightarrow> string" where
  "edit_line (Keep l) = CHR '' '' # l"
| "edit_line (Del l) = CHR ''-'' # l"
| "edit_line (Add l) = CHR ''+'' # l"

definition old_side :: "hunk list \<Rightarrow> string list" where
  "old_side hs = concat (map (\<lambda>(g, es). g @ old_of es) hs)"

definition new_side :: "hunk list \<Rightarrow> string list" where
  "new_side hs = concat (map (\<lambda>(g, es). g @ new_of es) hs)"

definition hunk_header :: "nat \<Rightarrow> nat \<Rightarrow> nat \<Rightarrow> nat \<Rightarrow> string" where
  "hunk_header a b c d = ''@@ -'' @ nat_str a @ '','' @ nat_str b @ '' +'' @ nat_str c @ '','' @ nat_str d @ '' @@''"

text \<open>A side with no lines is numbered by the line before it, as \<open>diff -u\<close> numbers it.\<close>

definition start_of :: "nat \<Rightarrow> string list \<Rightarrow> nat" where
  "start_of n ls = (if ls = [] then n else n + 1)"

fun render :: "nat \<Rightarrow> nat \<Rightarrow> hunk list \<Rightarrow> string list" where
  "render n m [] = []"
| "render n m ((g, es) # hs) =
     hunk_header (start_of (n + length g) (old_of es)) (length (old_of es))
                 (start_of (m + length g) (new_of es)) (length (new_of es))
     # map edit_line es
     @ render (n + length g + length (old_of es)) (m + length g + length (new_of es)) hs"

lemma old_side_simps [simp]: "old_side [] = []" "old_side ((g, es) # hs) = g @ old_of es @ old_side hs"
  by (simp_all add: old_side_def)

lemma new_side_simps [simp]: "new_side [] = []" "new_side ((g, es) # hs) = g @ new_of es @ new_side hs"
  by (simp_all add: new_side_def)

lemma hunk_header_at [simp]: "at_at (hunk_header a b c d)" "4 \<le> length (hunk_header a b c d)"
  by (simp_all add: hunk_header_def at_at_def)

lemma nat_str_sto_int:
  assumes "int n < 2 ^ 31" and "rest = [] \<or> \<not> is_digit (hd rest)"
  shows "sto_int 32 (nat_str n @ rest) = Some (int n)"
  using sto_int_int_str[of 32 "int n" rest] assms by (simp add: int_str_def)

lemma nat_str_no_nul: "CHR 0x00 \<notin> set (nat_str n)"
  using nat_str_digits[of n] by (auto simp: is_digit_def ccode_def)

lemma old_start_header:
  assumes "int a < 2 ^ 31"
  shows "old_start (hunk_header a b c d) = int a"
proof -
  have c: "takeWhile (\<lambda>c. c \<noteq> CHR 0x00) (hunk_header a b c d) = hunk_header a b c d"
    using nat_str_no_nul by (auto simp: takeWhile_eq_all_conv hunk_header_def)
  have "sto_int 32 (nat_str a @ '','' @ nat_str b @ '' +'' @ nat_str c @ '','' @ nat_str d @ '' @@'') = Some (int a)"
    by (rule nat_str_sto_int[OF assms]) (simp add: char_class_defs)
  then show ?thesis
    unfolding old_start_def c by (simp add: hunk_header_def atoi_def stoi_def Let_def)
qed

lemma edit_line_not_header: "\<not> at_at (edit_line e)"
  by (cases e) (simp_all add: at_at_def)

lemma body_loop:
  assumes "drop bi base = old_of es @ rest"
  shows "diff_loop base True bi out (map edit_line es @ ls) =
         diff_loop base True (bi + length (old_of es)) (out @ new_of es) ls"
  using assms
proof (induction es arbitrary: bi out)
  case (Cons e es)
  have at: "bi < length base \<and> base ! bi = l \<and> drop (bi + 1) base = old_of es @ rest"
    if "old_of (e # es) = l # old_of es" for l
  proof -
    have d: "drop bi base = l # old_of es @ rest" using Cons.prems that by simp
    then have "bi < length base" by (metis drop_all list.distinct(1) not_less)
    then show ?thesis using d by (metis Cons_nth_drop_Suc Suc_eq_plus1 list.inject)
  qed
  show ?case
  proof (cases e)
    case (Keep l)
    then show ?thesis using at[of l] Cons.IH[of "bi + 1"] edit_line_not_header[of e]
      by (simp add: Let_def)
  next
    case (Del l)
    then show ?thesis using at[of l] Cons.IH[of "bi + 1"] edit_line_not_header[of e]
      by (simp add: Let_def)
  next
    case (Add l)
    then show ?thesis using Cons edit_line_not_header[of e] by (simp add: Let_def)
  qed
qed simp

lemma hunks_loop:
  assumes "drop n base = old_side hs @ rest" and "length base < 2 ^ 31 - 1" and "n \<le> length base"
    and "\<forall>(g, es) \<in> set hs. old_of es \<noteq> []"
  shows "diff_loop base inh n out (render n m hs) = Inr (n + length (old_side hs), out @ new_side hs)"
  using assms
proof (induction hs arbitrary: n m out inh)
  case (Cons h hs)
  obtain g es where h: "h = (g, es)" by (cases h)
  let ?l = "hunk_header (start_of (n + length g) (old_of es)) (length (old_of es))
                 (start_of (m + length g) (new_of es)) (length (new_of es))"
  have d: "drop n base = g @ old_of es @ old_side hs @ rest" using Cons.prems(1) h by simp
  then have len: "length base = n + length g + length (old_of es) + length (old_side hs) + length rest"
    using Cons.prems(3) by (metis add.assoc length_append length_drop le_add_diff_inverse)
  have st: "start_of (n + length g) (old_of es) = n + length g + 1"
    using Cons.prems(4) h by (simp add: start_of_def)
  have bi: "copy_to base (old_start ?l) n = n + length g"
    using len Cons.prems(2) unfolding st by (simp add: old_start_header copy_to_def)
  have dg: "drop (n + length g) base = old_of es @ old_side hs @ rest"
    using d by (metis add.commute append_eq_conv_conj drop_drop)
  have de: "drop (n + length g + length (old_of es)) base = old_side hs @ rest"
    using dg by (metis add.commute append_eq_conv_conj drop_drop)
  have "diff_loop base inh n out (render n m (h # hs)) =
      diff_loop base True (n + length g) (out @ take (length g) (drop n base)) (map edit_line es @
        render (n + length g + length (old_of es)) (m + length g + length (new_of es)) hs)"
    by (simp add: h bi Let_def)
  also have "\<dots> = diff_loop base True (n + length g + length (old_of es)) (out @ g @ new_of es)
        (render (n + length g + length (old_of es)) (m + length g + length (new_of es)) hs)"
    using body_loop[OF dg] by (simp add: d)
  also have "\<dots> = Inr (n + length g + length (old_of es) + length (old_side hs), (out @ g @ new_of es) @ new_side hs)"
    by (rule Cons.IH[OF de]) (use Cons.prems len in auto)
  finally show ?case by (simp add: h add.assoc)
qed simp

text \<open>
  Property C1. The applier inverts \<open>diff -u\<close>: on a base whose lines are the old side of a patch, the
  printed patch produces the new side, for any number of hunks, each of which has a context or
  removed line.
\<close>

theorem applyUnifiedDiff_patch:
  assumes "splitLines base = old_side hs @ rest" and "length (splitLines base) < 2 ^ 31 - 1"
    and "\<forall>(g, es) \<in> set hs. old_of es \<noteq> []"
  shows "applyUnifiedDiff base (render 0 0 hs) = Inr (joinLines (new_side hs @ rest))"
proof -
  have "diff_loop (splitLines base) False 0 [] (render 0 0 hs) =
      Inr (0 + length (old_side hs), [] @ new_side hs)"
    by (rule hunks_loop) (use assms in auto)
  then show ?thesis by (simp add: applyUnifiedDiff_def assms(1))
qed

theorem applyUnifiedDiff_patch_witness:
  "applyUnifiedDiff ''a\<newline>b\<newline>c\<newline>d''
     (render 0 0 [([''a''], [Keep ''b'', Del ''c'', Add ''x'']), ([], [Del ''d''])]) =
   Inr (joinLines [''a'', ''b'', ''x''])"
proof -
  have "splitLines ''a\<newline>b\<newline>c\<newline>d'' = [''a'', ''b'', ''c'', ''d'']" by code_simp
  then show ?thesis
    using applyUnifiedDiff_patch[of "''a\<newline>b\<newline>c\<newline>d''"
        "[([''a''], [Keep ''b'', Del ''c'', Add ''x'']), ([], [Del ''d''])]" "[]"] by simp
qed

lemma splitLines_unlines:
  assumes "\<forall>l \<in> set ls. nl \<notin> set l \<and> cr \<notin> set l"
  shows "splitLines (unlines ls) = ls"
proof -
  have "map chop_cr ls = ls"
    by (rule map_idI) (use assms in \<open>auto simp: chop_cr_def dest: last_in_set\<close>)
  then show ?thesis using assms by (simp add: splitLines_def getlines_unlines)
qed

text \<open>
  Every diff write drops the final newline: on a file that ends in a newline even the
  empty patch gives the file without it.
\<close>

theorem diff_drops_final_newline:
  assumes "ls \<noteq> []" and "\<forall>l \<in> set ls. nl \<notin> set l \<and> cr \<notin> set l"
  shows "\<exists>s. applyUnifiedDiff (unlines ls) [] = Inr s \<and> unlines ls = s @ [nl]"
proof -
  have "applyUnifiedDiff (unlines ls) [] = Inr (joinLines ls)"
    using assms(2) by (simp add: applyUnifiedDiff_def splitLines_unlines)
  then show ?thesis using unlines_join[OF assms(1)] by (simp add: joinLines_def)
qed

theorem diff_drops_final_newline_witness:
  "\<exists>s. applyUnifiedDiff (unlines [''int x;'', ''int y;'']) [] = Inr s \<and> unlines [''int x;'', ''int y;''] = s @ [nl]"
  by (rule diff_drops_final_newline) simp_all

text \<open>
  A hunk that only inserts is placed one line too early: \<open>diff -u\<close> numbers its empty old
  side by the line before it, and the applier, which ignores the count, copies one line less.
\<close>

theorem insertion_hunk_misplaced:
  assumes "splitLines base = ls" and "0 < k" and "k \<le> length ls" and "k < 2 ^ 31"
  shows "applyUnifiedDiff base (render 0 0 [(take k ls, [Add x])]) =
    Inr (joinLines (take (k - 1) ls @ x # drop (k - 1) ls))"
proof -
  have h: "old_start (hunk_header k 0 (Suc k) (Suc 0)) = int k"
    using assms(4) by (intro old_start_header) (simp flip: of_nat_power_less_of_nat_cancel_iff)
  have r: "render 0 0 [(take k ls, [Add x])] = [hunk_header k 0 (k + 1) 1, CHR ''+'' # x]"
    using assms(3) by (simp add: start_of_def min_def)
  have "copy_to ls (int k) 0 = k - 1" using assms(2,3) by (auto simp: copy_to_def nat_diff_distrib)
  then show ?thesis
    unfolding r applyUnifiedDiff_def assms(1)
    using hunk_header_at[of k 0 "Suc k" "Suc 0"] by (simp add: h Let_def at_at_def[of "_ # _"])
qed

theorem insertion_hunk_misplaced_witness:
  "applyUnifiedDiff ''a\<newline>b'' (render 0 0 [(take 1 [''a'', ''b''], [Add ''x''])]) =
    Inr (joinLines (take (1 - 1) [''a'', ''b''] @ ''x'' # drop (1 - 1) [''a'', ''b'']))"
proof (rule insertion_hunk_misplaced)
  show "splitLines ''a\<newline>b'' = [''a'', ''b'']" by code_simp
qed simp_all

lemma failed_passes_through:
  "\<not> ok (expandCompressedWrite env ai p) \<Longrightarrow> mode (expandCompressedWrite env ai p) \<noteq> ''template'' \<Longrightarrow>
   content (expandCompressedWrite env ai p) = ai"
  by (auto simp: expandCompressedWrite_def expand_diff_def expand_gloss_def expand_template_def
      done_with_def failed_def Let_def split: sum.splits option.splits prod.splits if_splits)

text \<open>
  The raw marker reaches the disk: the expander strips the header line of an
  \<open>@@ICMG-RAW@@\<close> write, but the hook ignores a raw result, so that the tool writes the header
  into the file.
\<close>

theorem raw_header_reaches_disk:
  "content (expandCompressedWrite env (''@@ICMG-RAW@@'' @ nl # body) p) = joinLines (splitLines body) \<and>
   disk_after env flag p (''@@ICMG-RAW@@'' @ nl # body) = ''@@ICMG-RAW@@'' @ nl # body"
proof -
  have s: "splitLines (''@@ICMG-RAW@@'' @ nl # body) = ''@@ICMG-RAW@@'' # splitLines body"
    unfolding splitLines_def by (subst getlines_on_Cons) (simp_all add: chop_cr_def)
  have e: "expandCompressedWrite env (''@@ICMG-RAW@@'' @ nl # body) p =
      done_with ''raw'' (''@@ICMG-RAW@@'' @ nl # body) (joinLines (splitLines body))"
    unfolding expandCompressedWrite_def s Let_def by simp
  show ?thesis unfolding disk_after_def preToolUseWrite_def e by (simp add: done_with_def Let_def)
qed

end
