(* ===== verification/FuzzyEdit.thy ===== *)
theory FuzzyEdit
  imports CxxString
begin

text \<open>
  The whitespace-tolerant edit helper, \<open>cli/fuzzy_edit.hpp\<close>: the cascade of an exact match at a
  line boundary, a match of lines up to surrounding blanks, and an anchor-line match; the
  diff and the hint. The similarity percentage the hint prints, which the code truncates from
  a floating-point product, is an argument. The lemmas characterise the exact level, and show
  what the other two do to the end of the file.
\<close>

section \<open>Lines and blanks\<close>

definition stripCR :: "string \<Rightarrow> string" where
  "stripCR s = filter (\<lambda>c. c \<noteq> cr) s"

definition splitLinesKeep :: "string \<Rightarrow> string list" where
  "splitLinesKeep s = getlines s @ (if s \<noteq> [] \<and> last s = nl then [[]] else [])"

definition ws :: "char \<Rightarrow> bool" where
  "ws c \<longleftrightarrow> c = CHR '' '' \<or> c = tab \<or> c = cr \<or> c = nl"

definition stripWS :: "string \<Rightarrow> string" where
  "stripWS s = rev (dropWhile ws (rev (dropWhile ws s)))"

definition drop_trailing_empty :: "string list \<Rightarrow> string list" where
  "drop_trailing_empty ls = rev (dropWhile (\<lambda>l. l = []) (rev ls))"

definition indent_of :: "string \<Rightarrow> string" where
  "indent_of l = takeWhile (\<lambda>c. c = CHR '' '' \<or> c = tab) l"

definition normLines :: "string \<Rightarrow> string" where
  "normLines s =
     rev (dropWhile (\<lambda>c. c = nl) (rev (concat (map (\<lambda>l. stripWS l @ [nl]) (splitLinesKeep (stripCR s))))))"

section \<open>Similarity\<close>

text \<open>The score as a fraction, a numerator and a denominator.\<close>

definition jaccard :: "string \<Rightarrow> string \<Rightarrow> nat \<times> nat" where
  "jaccard a b =
     (let wa = remdups (words_go [] a); wb = remdups (words_go [] b);
          inter = filter (\<lambda>w. w \<in> set wb) wa; uni = remdups (wa @ wb)
      in if uni = [] then (0, 1) else (length inter, length uni))"

definition makeDiff :: "string \<Rightarrow> string \<Rightarrow> nat \<Rightarrow> string" where
  "makeDiff old_str new_str level =
     (let olines = splitLinesKeep (stripCR old_str); nlines = splitLinesKeep (stripCR new_str)
      in ''--- old (level '' @ nat_str level @ '' match)'' @ [nl] @ ''+++ new'' @ [nl] @
         concat (map (\<lambda>i.
             (if i < length olines then ''- '' @ olines ! i @ [nl] else []) @
             (if i < length nlines then ''+ '' @ nlines ! i @ [nl] else []))
           [0..<max (length olines) (length nlines)]))"

section \<open>The cascade\<close>

record fuzzy_result =
  ok :: bool
  level :: nat
  content :: string
  diff :: string
  hint :: string

text \<open>Level 1: the first occurrence that starts a line.\<close>

function bol_match :: "string \<Rightarrow> string \<Rightarrow> nat \<Rightarrow> nat option" where
  "bol_match old s pos =
     (case find_from old pos s of
        None \<Rightarrow> None
      | Some p \<Rightarrow> if p \<noteq> 0 \<and> s ! (p - 1) \<noteq> nl then bol_match old s (p + 1) else Some p)"
  by pat_completeness auto
termination
  by (relation "measure (\<lambda>(_, s, pos). Suc (length s) - pos)")
     (auto simp: find_from_def split: if_splits dest!: find_sub_Some)

declare bol_match.simps [simp del]

definition window_at :: "string list \<Rightarrow> string list \<Rightarrow> nat \<Rightarrow> bool" where
  "window_at file_lines old_lines i \<longleftrightarrow>
     map stripWS (take (length old_lines) (drop i file_lines)) = map stripWS old_lines"

definition first_window :: "string list \<Rightarrow> string list \<Rightarrow> nat option" where
  "first_window file_lines old_lines =
     find (window_at file_lines old_lines) [0..<Suc (length file_lines) - length old_lines]"

definition reindent :: "string \<Rightarrow> string list \<Rightarrow> nat \<Rightarrow> string \<Rightarrow> string" where
  "reindent base_indent old_lines k l =
     (let old_indent = (if k < length old_lines then indent_of (old_lines ! k) else []);
          new_indent = indent_of l;
          body = stripWS l;
          extra = (if length old_indent < length new_indent then length new_indent - length old_indent else 0)
      in if body = [] then [] else base_indent @ replicate extra (CHR '' '') @ body)"

definition splice :: "string list \<Rightarrow> nat \<Rightarrow> nat \<Rightarrow> string list \<Rightarrow> string list" where
  "splice file_lines i n new_lines = take i file_lines @ new_lines @ drop (i + n) file_lines"

definition write_lines :: "string \<Rightarrow> string list \<Rightarrow> string" where
  "write_lines file_lf ls = join [nl] ls @ (if file_lf \<noteq> [] \<and> last file_lf = nl then [nl] else [])"

definition level2 :: "string \<Rightarrow> string \<Rightarrow> string \<Rightarrow> string option" where
  "level2 file_lf old_lf new_lf =
     (let file_lines = splitLinesKeep file_lf;
          old_lines = drop_trailing_empty (splitLinesKeep old_lf) in
      if old_lines = [] then None
      else
        (case first_window file_lines old_lines of
           None \<Rightarrow> None
         | Some i \<Rightarrow>
             (let new_lines = drop_trailing_empty (splitLinesKeep new_lf);
                  adjusted = map (\<lambda>k. reindent (indent_of (file_lines ! i)) old_lines k (new_lines ! k))
                               [0..<length new_lines]
              in Some (write_lines file_lf (splice file_lines i (length old_lines) adjusted)))))"

definition anchor_of :: "string list \<Rightarrow> string" where
  "anchor_of ls = (case find (\<lambda>l. l \<noteq> []) (map stripWS ls) of None \<Rightarrow> [] | Some a \<Rightarrow> a)"

definition level3 :: "string \<Rightarrow> string \<Rightarrow> string \<Rightarrow> string option" where
  "level3 file_lf old_lf new_lf =
     (let file_lines = splitLinesKeep file_lf;
          old_lines = drop_trailing_empty (splitLinesKeep old_lf);
          anchor = anchor_of old_lines in
      if anchor = [] then None
      else
        (case find (\<lambda>i. stripWS (file_lines ! i) = anchor \<and> i + length old_lines \<le> length file_lines)
                [0..<length file_lines] of
           None \<Rightarrow> None
         | Some i \<Rightarrow>
             (let new_lines = drop_trailing_empty (splitLinesKeep new_lf);
                  adjusted = map (\<lambda>l. if stripWS l = [] then [] else indent_of (file_lines ! i) @ stripWS l) new_lines
              in Some (write_lines file_lf (splice file_lines i (length old_lines) adjusted)))))"

definition better :: "nat \<times> nat \<Rightarrow> (nat \<times> nat) option \<Rightarrow> bool" where
  "better x best = (case best of None \<Rightarrow> True | Some b \<Rightarrow> fst b * snd x < fst x * snd b)"

definition closest :: "string \<Rightarrow> string list \<Rightarrow> (nat \<times> nat) option \<times> nat" where
  "closest anchor file_lines =
     foldl (\<lambda>(best, bi) i. let sc = jaccard anchor (file_lines ! i)
              in if better sc best then (Some sc, i) else (best, bi))
           (None, 0) [0..<length file_lines]"

definition make_hint :: "(nat \<times> nat \<Rightarrow> int) \<Rightarrow> string \<Rightarrow> string \<Rightarrow> string" where
  "make_hint percent file_lf old_lf =
     (let file_lines = splitLinesKeep file_lf;
          anchor = anchor_of (splitLinesKeep old_lf);
          (best, bi) = closest anchor file_lines
      in ''old_string not found (tried exact, ws-normalised, anchor).'' @ [nl]
         @ ''Anchor: '' @ anchor @ [nl]
         @ (case best of None \<Rightarrow> []
            | Some sc \<Rightarrow>
                ''Closest line ('' @ int_str (percent sc) @ ''% similarity) L'' @ nat_str (bi + 1)
                @ '': '' @ file_lines ! bi @ [nl]
                @ ''Tip: re-read with `icmg context <file> --lines '' @ nat_str (if 3 < bi then bi - 3 else 1)
                @ ''-'' @ nat_str (bi + 5) @ ''` then fix old_string.''))"

definition fuzzyEdit :: "(nat \<times> nat \<Rightarrow> int) \<Rightarrow> string \<Rightarrow> string \<Rightarrow> string \<Rightarrow> bool \<Rightarrow> fuzzy_result" where
  "fuzzyEdit percent file_content old_str new_str dry_run =
     (let file_lf = stripCR file_content; old_lf = stripCR old_str; new_lf = stripCR new_str;
          hit = (\<lambda>lv s. \<lparr>ok = True, level = lv, content = (if dry_run then file_content else s),
                   diff = makeDiff old_str new_str lv, hint = []\<rparr>)
      in case bol_match old_lf file_lf 0 of
           Some pos \<Rightarrow> hit 1 (take pos file_lf @ new_lf @ drop (pos + length old_lf) file_lf)
         | None \<Rightarrow>
             (case level2 file_lf old_lf new_lf of
                Some s \<Rightarrow> hit 2 s
              | None \<Rightarrow>
                  (case level3 file_lf old_lf new_lf of
                     Some s \<Rightarrow> hit 3 s
                   | None \<Rightarrow> \<lparr>ok = False, level = 0, content = [], diff = [],
                               hint = make_hint percent file_lf old_lf\<rparr>)))"

section \<open>The exact level\<close>

definition at_bol :: "string \<Rightarrow> string \<Rightarrow> nat \<Rightarrow> bool" where
  "at_bol old s p \<longleftrightarrow> p \<le> length s \<and> prefix old (drop p s) \<and> (p = 0 \<or> s ! (p - 1) = nl)"

lemma find_from_Some:
  "find_from old pos s = Some p \<Longrightarrow>
   pos \<le> p \<and> p \<le> length s \<and> prefix old (drop p s) \<and> (\<forall>j. pos \<le> j \<and> j < p \<longrightarrow> \<not> prefix old (drop j s))"
proof -
  assume "find_from old pos s = Some p"
  then obtain i where i: "find_sub old (drop pos s) = Some i" "p = pos + i" "pos \<le> length s"
    by (auto simp: find_from_def split: if_splits)
  have a: "i + length old \<le> length (drop pos s)" "take (length old) (drop i (drop pos s)) = old"
    using find_sub_Some[OF i(1)] by simp_all
  have "\<not> prefix old (drop j s)" if "pos \<le> j" "j < p" for j
    using find_sub_first[OF i(1), of "j - pos"] that i(2) by simp
  moreover have "prefix old (drop p s)" using a(2) i(2) by (metis add.commute drop_drop take_is_prefix)
  ultimately show ?thesis using a(1) i by auto
qed

lemma find_from_None: "find_from old pos s = None \<Longrightarrow> pos \<le> j \<Longrightarrow> j \<le> length s \<Longrightarrow> \<not> prefix old (drop j s)"
proof
  assume n: "find_from old pos s = None" and j: "pos \<le> j" "j \<le> length s" and p: "prefix old (drop j s)"
  have "sublist old (drop (j - pos) (drop pos s))"
    using p j by (simp add: prefix_imp_sublist)
  then have "sublist old (drop pos s)" by (meson sublist_drop sublist_order.order_trans)
  then show False using n j find_sub_None by (auto simp: find_from_def split: if_splits)
qed

lemma bol_match_Some:
  "bol_match old s pos = Some p \<Longrightarrow> pos \<le> p \<and> at_bol old s p \<and> (\<forall>j. pos \<le> j \<and> j < p \<longrightarrow> \<not> at_bol old s j)"
proof (induction old s pos rule: bol_match.induct)
  case (1 old s pos)
  then obtain q where q: "find_from old pos s = Some q"
    by (subst (asm) (2) bol_match.simps) (auto split: option.splits)
  note f = find_from_Some[OF q]
  show ?case
  proof (cases "q \<noteq> 0 \<and> s ! (q - 1) \<noteq> nl")
    case True
    then have "bol_match old s (q + 1) = Some p"
      using "1.prems" q by (subst (asm) bol_match.simps) simp
    then have IH: "q + 1 \<le> p \<and> at_bol old s p \<and> (\<forall>j. q + 1 \<le> j \<and> j < p \<longrightarrow> \<not> at_bol old s j)"
      using "1.IH"[OF q True] by simp
    have "\<not> at_bol old s j" if "pos \<le> j" "j < p" for j
      using that f IH True by (cases j q rule: linorder_cases) (auto simp: at_bol_def)
    then show ?thesis using IH f by auto
  next
    case False
    then have "p = q" using "1.prems" q by (subst (asm) bol_match.simps) (auto split: if_splits)
    then show ?thesis using f False by (auto simp: at_bol_def)
  qed
qed

lemma bol_match_None: "bol_match old s pos = None \<Longrightarrow> pos \<le> j \<Longrightarrow> \<not> at_bol old s j"
proof (induction old s pos rule: bol_match.induct)
  case (1 old s pos)
  show ?case
  proof (cases "find_from old pos s")
    case None
    then show ?thesis using find_from_None[OF None "1.prems"(2)] by (auto simp: at_bol_def)
  next
    case (Some q)
    note f = find_from_Some[OF Some]
    have q: "q \<noteq> 0 \<and> s ! (q - 1) \<noteq> nl" and n: "bol_match old s (q + 1) = None"
      using "1.prems"(1) Some by (subst (asm) bol_match.simps, auto split: if_splits)+
    show ?thesis
    proof (cases j q rule: linorder_cases)
      case greater
      then show ?thesis using "1.IH"[OF Some q n] by simp
    qed (use f q "1.prems"(2) in \<open>auto simp: at_bol_def\<close>)
  qed
qed

lemma at_bol_append: "a = [] \<or> last a = nl \<Longrightarrow> at_bol old (a @ old @ b) (length a)"
  by (cases a rule: rev_cases) (auto simp: at_bol_def nth_append)

lemma at_bol_split:
  "at_bol old s p \<Longrightarrow> \<exists>a b. s = a @ old @ b \<and> length a = p \<and> (a = [] \<or> last a = nl)"
proof -
  assume p: "at_bol old s p"
  then obtain b where b: "drop p s = old @ b" by (auto simp: at_bol_def prefix_def)
  have "s = take p s @ old @ b" using b by (metis append_take_drop_id)
  moreover have "take p s = [] \<or> last (take p s) = nl"
    using p by (cases p) (auto simp: at_bol_def take_Suc_conv_app_nth)
  ultimately show ?thesis using p by (intro exI[of _ "take p s"] exI[of _ b]) (simp add: at_bol_def)
qed

text \<open>
  An exact match is never missed: if the old text occurs at the start of a line, up to
  carriage returns, the edit succeeds at level 1 and replaces the first such occurrence.
\<close>

theorem exact_match_replaced:
  assumes "stripCR s = a @ stripCR old @ b" and "a = [] \<or> last a = nl"
  shows "\<exists>a' b'. stripCR s = a' @ stripCR old @ b' \<and> (a' = [] \<or> last a' = nl) \<and> length a' \<le> length a \<and>
    fuzzyEdit percent s old new False =
      \<lparr>ok = True, level = 1, content = a' @ stripCR new @ b', diff = makeDiff old new 1, hint = []\<rparr>"
proof -
  have at: "at_bol (stripCR old) (stripCR s) (length a)" using assms at_bol_append by simp
  then obtain p where p: "bol_match (stripCR old) (stripCR s) 0 = Some p"
    using bol_match_None by blast
  then have "at_bol (stripCR old) (stripCR s) p" "p \<le> length a"
    using bol_match_Some[OF p] at by (auto simp: not_less[symmetric])
  then obtain a' b' where ab: "stripCR s = a' @ stripCR old @ b'" "length a' = p" "a' = [] \<or> last a' = nl"
    using at_bol_split by blast
  then show ?thesis
    using p \<open>p \<le> length a\<close>
    by (intro exI[of _ a'] exI[of _ b']) (simp add: fuzzyEdit_def Let_def)
qed

theorem exact_match_replaced_witness:
  "\<exists>a' b'. stripCR ''x = 1;\<newline>y = 2;\<newline>'' = a' @ stripCR ''y = 2;'' @ b' \<and> (a' = [] \<or> last a' = nl) \<and>
    length a' \<le> length ''x = 1;\<newline>'' \<and>
    fuzzyEdit (\<lambda>_. 0) ''x = 1;\<newline>y = 2;\<newline>'' ''y = 2;'' ''y = 3;'' False =
      \<lparr>ok = True, level = 1, content = a' @ stripCR ''y = 3;'' @ b',
       diff = makeDiff ''y = 2;'' ''y = 3;'' 1, hint = []\<rparr>"
  by (rule exact_match_replaced[where b = "''\<newline>''"]) (simp_all add: stripCR_def)

section \<open>The line levels and the end of the file\<close>

lemma splitLinesKeep_ends:
  assumes "s \<noteq> []" and "last s = nl"
  shows "\<exists>ls. splitLinesKeep s = ls @ [[]] \<and> ls \<noteq> []"
proof -
  have "count_list s nl \<noteq> 0" using assms by (metis count_list_0_iff last_in_set)
  then have "getlines s \<noteq> []"
    using length_split_on[of nl s] by (auto simp: getlines_on_def Let_def simp flip: length_greater_0_conv)
  then show ?thesis using assms by (simp add: splitLinesKeep_def)
qed

lemma drop_trailing_nonempty: "l \<in> set ls \<Longrightarrow> l \<noteq> [] \<Longrightarrow> drop_trailing_empty ls \<noteq> []"
  by (auto simp: drop_trailing_empty_def)

lemma first_window_Some:
  assumes "first_window fl old = Some i"
  shows "i + length old \<le> length fl" and "map stripWS (take (length old) (drop i fl)) = map stripWS old"
proof -
  have "i \<in> set [0..<Suc (length fl) - length old] \<and> window_at fl old i"
    using assms unfolding first_window_def by (rule find_Some_in)
  then show "i + length old \<le> length fl" and "map stripWS (take (length old) (drop i fl)) = map stripWS old"
    by (auto simp: window_at_def)
qed

lemma window_before_end:
  assumes "first_window (ls @ [[]]) old = Some i" and "old \<noteq> []" and "stripWS (last old) \<noteq> []"
  shows "i + length old \<le> length ls"
proof (rule ccontr)
  assume "\<not> ?thesis"
  then have len: "i + length old = Suc (length ls)" using first_window_Some(1)[OF assms(1)] by simp
  then have "take (length old) (drop i (ls @ [[]])) = drop i ls @ [[]]"
    using assms(2) by (cases old) auto
  then have "map stripWS (drop i ls @ [[]]) = map stripWS old"
    using first_window_Some(2)[OF assms(1)] by simp
  then have "stripWS (last old) = stripWS []"
    using assms(2) by (metis last_map last_snoc map_is_Nil_conv snoc_eq_iff_butlast)
  then show False using assms(3) by (simp add: stripWS_def)
qed

lemma join_snoc_empty: "xs \<noteq> [] \<Longrightarrow> join [nl] (xs @ [[]]) = join [nl] xs @ [nl]"
  by (induction xs rule: induct_list012) simp_all

text \<open>
  A whitespace-tolerant edit adds a blank line at the end of the file: the split keeps an
  empty last element for the final newline, and the join writes a second newline for it.
\<close>

theorem ws_edit_adds_blank_line:
  assumes "stripCR s \<noteq> []" and "last (stripCR s) = nl"
    and "level2 (stripCR s) (stripCR old) (stripCR new) = Some t"
    and "stripWS (last (drop_trailing_empty (splitLinesKeep (stripCR old)))) \<noteq> []"
    and "drop_trailing_empty (splitLinesKeep (stripCR new)) \<noteq> []"
  shows "\<exists>u. t = u @ [nl, nl]"
proof -
  obtain ls where ls: "splitLinesKeep (stripCR s) = ls @ [[]]" using splitLinesKeep_ends assms(1,2) by blast
  let ?old = "drop_trailing_empty (splitLinesKeep (stripCR old))"
  let ?new = "drop_trailing_empty (splitLinesKeep (stripCR new))"
  obtain i where i: "first_window (ls @ [[]]) ?old = Some i" "?old \<noteq> []"
    using assms(3) unfolding level2_def Let_def ls by (auto split: if_splits option.splits)
  let ?adj = "map (\<lambda>k. reindent (indent_of ((ls @ [[]]) ! i)) ?old k (?new ! k)) [0..<length ?new]"
  have t: "t = write_lines (stripCR s) (splice (ls @ [[]]) i (length ?old) ?adj)"
    using assms(3) i unfolding level2_def Let_def ls by simp
  have le: "i + length ?old \<le> length ls" using window_before_end[OF i(1,2) assms(4)] .
  then have sp: "splice (ls @ [[]]) i (length ?old) ?adj = (take i ls @ ?adj @ drop (i + length ?old) ls) @ [[]]"
    by (simp add: splice_def)
  have "take i ls @ ?adj @ drop (i + length ?old) ls \<noteq> []" using assms(5) by simp
  then have "t = join [nl] (take i ls @ ?adj @ drop (i + length ?old) ls) @ [nl, nl]"
    using assms(1,2) unfolding t sp write_lines_def by (subst join_snoc_empty) simp_all
  then show ?thesis by blast
qed

theorem ws_edit_adds_blank_line_witness:
  "level2 ''  foo();\<newline>'' ''foo();'' ''bar();'' = Some ''  bar();\<newline>\<newline>'' \<and> (\<exists>u. ''  bar();\<newline>\<newline>'' = u @ [nl, nl])"
proof
  show l: "level2 ''  foo();\<newline>'' ''foo();'' ''bar();'' = Some ''  bar();\<newline>\<newline>''" by code_simp
  have f: "stripCR ''  foo();\<newline>'' = ''  foo();\<newline>''" "stripCR ''foo();'' = ''foo();''" "stripCR ''bar();'' = ''bar();''"
    by (simp_all add: stripCR_def)
  show "\<exists>u. ''  bar();\<newline>\<newline>'' = u @ [nl, nl]"
  proof (rule ws_edit_adds_blank_line[where s = "''  foo();\<newline>''" and old = "''foo();''" and new = "''bar();''"])
    show "stripWS (last (drop_trailing_empty (splitLinesKeep (stripCR ''foo();'')))) \<noteq> []" by code_simp
    show "drop_trailing_empty (splitLinesKeep (stripCR ''bar();'')) \<noteq> []" by code_simp
  qed (use l in \<open>simp_all add: f\<close>)
qed

end
