(* ===== verification/RitualGate.thy ===== *)
theory RitualGate
  imports Quoting Cli
begin

text \<open>
  The post-change ritual: \<open>cli/ritual_gate.hpp\<close> (steps, verdict, recognising sync commands in
  a command line, session keys) and \<open>cli/commands/ritual_cmd.cpp\<close> (the per-session state file
  and the actions on it). The state of the command is the map from session keys to state
  files with their modification times. The lemmas show that the state file round-trips, when
  the gate blocks, that sessions do not disturb each other, and that steps taken before a
  change count for it.
\<close>

section \<open>Steps\<close>

datatype ritual_step = Graph | Store | Zone | Wflog | Verify

fun step_rank :: "ritual_step \<Rightarrow> nat" where
  "step_rank Graph = 0"
| "step_rank Store = 1"
| "step_rank Zone = 2"
| "step_rank Wflog = 3"
| "step_rank Verify = 4"

lemma step_rank_inject: "step_rank a = step_rank b \<longleftrightarrow> a = b"
  by (cases a; cases b) simp_all

instantiation ritual_step :: linorder
begin

definition less_eq_ritual_step :: "ritual_step \<Rightarrow> ritual_step \<Rightarrow> bool" where
  "less_eq_ritual_step a b \<longleftrightarrow> step_rank a \<le> step_rank b"

definition less_ritual_step :: "ritual_step \<Rightarrow> ritual_step \<Rightarrow> bool" where
  "less_ritual_step a b \<longleftrightarrow> step_rank a < step_rank b"

instance
  by standard (auto simp: less_eq_ritual_step_def less_ritual_step_def step_rank_inject)

end

definition all_steps :: "ritual_step list" where
  "all_steps = [Graph, Store, Zone, Wflog, Verify]"

text \<open>The iteration order of a \<open>std::set\<close> of steps.\<close>

definition steps_in :: "ritual_step set \<Rightarrow> ritual_step list" where
  "steps_in d = filter (\<lambda>s. s \<in> d) all_steps"

lemma set_all_steps [simp]: "set all_steps = UNIV"
  using ritual_step.exhaust by (auto simp: all_steps_def)

lemma steps_in_sorted: "steps_in d = sorted_list_of_set d"
proof -
  have d: "finite d" by (metis List.finite_set finite_subset set_all_steps subset_UNIV)
  have "sorted all_steps \<and> distinct all_steps"
    by (simp add: all_steps_def less_eq_ritual_step_def)
  then have "sorted (steps_in d)" "distinct (steps_in d)" "set (steps_in d) = d"
    by (simp_all add: steps_in_def sorted_wrt_filter)
  then show ?thesis using sorted_list_of_set.idem_if_sorted_distinct by force
qed

lemma set_steps_in [simp]: "set (steps_in d) = d"
  by (simp add: steps_in_def)

fun ritualStepName :: "ritual_step \<Rightarrow> string" where
  "ritualStepName Graph = ''graph-update''"
| "ritualStepName Store = ''store''"
| "ritualStepName Zone = ''zone''"
| "ritualStepName Wflog = ''wflog''"
| "ritualStepName Verify = ''verify''"

record ritual_state =
  changed :: bool
  observed :: "ritual_step set"

record ritual_verdict =
  owed :: bool
  missing :: "ritual_step list"

definition ritualRequired :: "ritual_step set" where
  "ritualRequired = {Store, Wflog}"

definition evaluateRitual :: "ritual_state \<Rightarrow> ritual_verdict" where
  "evaluateRitual s =
     (if \<not> changed s then \<lparr>owed = False, missing = []\<rparr>
      else (let m = filter (\<lambda>r. r \<notin> observed s) (steps_in ritualRequired)
            in \<lparr>owed = (m \<noteq> []), missing = m\<rparr>))"

definition stepForCommand :: "string \<Rightarrow> string \<Rightarrow> ritual_step option" where
  "stepForCommand sub arg1 =
     (if sub = ''graph'' \<and> arg1 = ''update'' then Some Graph
      else if sub = ''graph-update'' then Some Graph
      else if sub \<in> {''store'', ''memoir'', ''known-issue'', ''quick-store''} then Some Store
      else if sub = ''wflog'' then Some Wflog
      else if sub = ''verify'' then Some Verify
      else if sub = ''zone'' then Some Zone
      else None)"

section \<open>Recognising sync commands\<close>

definition blank :: "char \<Rightarrow> bool" where
  "blank c \<longleftrightarrow> c = CHR '' '' \<or> c = tab"

definition name_char :: "char \<Rightarrow> bool" where
  "name_char c \<longleftrightarrow> is_alnum c \<or> c = CHR ''_''"

function strip_env :: "string \<Rightarrow> string" where
  "strip_env s =
     (case s of
        [] \<Rightarrow> []
      | c # cs \<Rightarrow>
          if is_alpha c \<or> c = CHR ''_'' then
            (case dropWhile name_char cs of
               [] \<Rightarrow> s
             | e # v \<Rightarrow> if e = CHR ''='' then strip_env (dropWhile blank (dropWhile (\<lambda>c. \<not> blank c) v)) else s)
          else s)"
  by pat_completeness auto
termination
proof (relation "measure length")
  fix s c :: string and x y e v
  assume "dropWhile name_char y = e # v"
  then have "length v < Suc (length y)" using length_dropWhile_le[of name_char y] by simp
  moreover have "length (dropWhile blank (dropWhile (\<lambda>c. \<not> blank c) v)) \<le> length v"
    using length_dropWhile_le[of blank "dropWhile (\<lambda>c. \<not> blank c) v"]
      length_dropWhile_le[of "\<lambda>c. \<not> blank c" v] by linarith
  moreover assume "s = x # y"
  ultimately show "(dropWhile blank (dropWhile (\<lambda>c. \<not> blank c) v), s) \<in> measure length" by simp
qed simp

declare strip_env.simps [simp del]

definition blank_words :: "string \<Rightarrow> string list" where
  "blank_words s = filter (\<lambda>w. w \<noteq> []) (split_on (CHR '' '') (map (\<lambda>c. if blank c then CHR '' '' else c) s))"

definition segment_step :: "string \<Rightarrow> ritual_step option" where
  "segment_step seg =
     (let toks = take 3 (blank_words (strip_env (dropWhile blank seg))) in
      case toks of
        [] \<Rightarrow> None
      | p # args \<Rightarrow>
          if strip_exe (after_last (\<lambda>c. c = CHR ''/'' \<or> c = bs) p) \<noteq> ''icmg'' then None
          else stepForCommand (if args \<noteq> [] then hd args else [])
                 (if 1 < length args then args ! 1 else []))"

definition add_new :: "ritual_step list \<Rightarrow> ritual_step option \<Rightarrow> ritual_step list" where
  "add_new acc s = (case s of None \<Rightarrow> acc | Some x \<Rightarrow> if x \<in> set acc then acc else acc @ [x])"

definition shell_segments :: "string \<Rightarrow> string list" where
  "shell_segments line = split_on nl (map (\<lambda>c. if c \<in> {CHR '';'', nl, CHR ''|'', CHR ''&''} then nl else c) line)"

definition parseSyncStepsFromCommandLine :: "string \<Rightarrow> ritual_step list" where
  "parseSyncStepsFromCommandLine line = foldl add_new [] (map segment_step (shell_segments line))"

definition sanitizeRitualSessionKey :: "string \<Rightarrow> string" where
  "sanitizeRitualSessionKey raw =
     take 64 (filter (\<lambda>c. is_alnum c \<or> c = CHR ''-'' \<or> c = CHR ''_'') raw)"

definition chooseRitualSessionKey :: "string \<Rightarrow> string \<Rightarrow> string \<Rightarrow> string" where
  "chooseRitualSessionKey flagSid hookSid envSid =
     (case find (\<lambda>k. k \<noteq> []) (map sanitizeRitualSessionKey [flagSid, hookSid, envSid]) of
        Some k \<Rightarrow> k | None \<Rightarrow> [])"

section \<open>The state file\<close>

record disk_state =
  changed_count :: int
  steps_done :: "ritual_step set"

definition fresh :: disk_state where
  "fresh = \<lparr>changed_count = 0, steps_done = {}\<rparr>"

definition parseStep :: "string \<Rightarrow> ritual_step option" where
  "parseStep n =
     (if n = ''graph-update'' \<or> n = ''graph'' then Some Graph
      else if n = ''store'' then Some Store
      else if n = ''zone'' then Some Zone
      else if n = ''wflog'' then Some Wflog
      else if n = ''verify'' then Some Verify
      else None)"

definition space_words :: "string \<Rightarrow> string list" where
  "space_words s = filter (\<lambda>w. w \<noteq> []) (split_on (CHR '' '') (map (\<lambda>c. if is_space c then CHR '' '' else c) s))"

definition parse_state :: "string \<Rightarrow> disk_state" where
  "parse_state text =
     (let ls = getlines text in
      \<lparr>changed_count = (case ls of [] \<Rightarrow> 0 | l # _ \<Rightarrow> (case stoi l of Some n \<Rightarrow> n | None \<Rightarrow> 0)),
       steps_done = (if 1 < length ls then set (List.map_filter parseStep (space_words (ls ! 1))) else {})\<rparr>)"

definition state_text :: "disk_state \<Rightarrow> string" where
  "state_text d =
     int_str (changed_count d) @ [nl] @ join '' '' (map ritualStepName (steps_in (steps_done d))) @ [nl]"

text \<open>Each session key has its file with a modification time; the empty key is the shared file.\<close>

type_synonym ritual_files = "string \<Rightarrow> (string \<times> int) option"

definition load :: "string \<Rightarrow> ritual_files \<Rightarrow> disk_state" where
  "load key fs = (case fs key of None \<Rightarrow> fresh | Some (text, _) \<Rightarrow> parse_state text)"

definition save :: "string \<Rightarrow> int \<Rightarrow> disk_state \<Rightarrow> ritual_files \<Rightarrow> ritual_files" where
  "save key now d fs = fs(key \<mapsto> (state_text d, now))"

definition pruneStaleSessions :: "int \<Rightarrow> ritual_files \<Rightarrow> ritual_files" where
  "pruneStaleSessions now fs =
     (\<lambda>k. case fs k of
            Some (text, t) \<Rightarrow> if k \<noteq> [] \<and> t < now - 7 * 24 * 3600 then None else Some (text, t)
          | None \<Rightarrow> None)"

definition toCore :: "disk_state \<Rightarrow> ritual_state" where
  "toCore d = \<lparr>changed = (0 < changed_count d), observed = steps_done d\<rparr>"

text \<open>What \<open>saw\<close>, \<open>saw-line\<close> and \<open>did\<close> share: record steps, and reset once nothing is owed.\<close>

definition record_steps :: "ritual_step list \<Rightarrow> disk_state \<Rightarrow> disk_state \<times> bool" where
  "record_steps ss d =
     (let d' = d\<lparr>steps_done := steps_done d \<union> set ss\<rparr> in
      if \<not> owed (evaluateRitual (toCore d')) \<and> 0 < changed_count d' then (fresh, True) else (d', False))"

section \<open>The command\<close>

definition ritual_usage :: string where
  "ritual_usage = unlines
    [''Usage: icmg ritual <action>'', [],
     ''  touch                 Mark a code change happened (Edit/Write hook)'',
     ''  saw <sub> [arg1]      Feed an invoked icmg cmd; record sync step; auto-clear'',
     ''  did <step>            Mark a step done (graph|store|zone|wflog|verify)'',
     ''  status                Show state + missing required steps'',
     ''  check                 Exit 0 = satisfied, 2 = owed (for scripting)'',
     ''  gate                  If owed, print Stop-hook block JSON (else nothing)'',
     ''  clear                 Reset state (ritual completed)'', [],
     ''State is per session: --session <id> > hook JSON session_id (gate, on'',
     ''stdin) > env ICMG_SESSION_ID > legacy shared .icmg/ritual.state.'', [],
     ''Required after a change: store + wflog (the judgment steps). Graph auto-'',
     ''scans at turn end; graph/zone/verify are advisory (tracked, never block).'',
     ''Opt out of the gate: ICMG_NO_RITUAL_GATE=1.'']"

definition answer :: "int \<Rightarrow> string \<Rightarrow> outcome" where
  "answer code text0 = \<lparr>exit_code = code, out = text0, err = []\<rparr>"

definition complaint :: "string \<Rightarrow> outcome" where
  "complaint text0 = \<lparr>exit_code = 2, out = [], err = text0\<rparr>"

definition record_and_save ::
  "string \<Rightarrow> int \<Rightarrow> ritual_step list \<Rightarrow> ritual_files \<Rightarrow> outcome \<times> ritual_files" where
  "record_and_save key now ss fs =
     (let (d, cleared) = record_steps ss (load key fs) in
      (answer 0 (if cleared then ''icmg ritual: 5-sync complete '' @ em_dash @ '' gate cleared'' @ [nl] else []),
       save key now d fs))"

definition status_text :: "string \<Rightarrow> disk_state \<Rightarrow> ritual_verdict \<Rightarrow> string" where
  "status_text key d v =
     ''icmg ritual ['' @ (if key = [] then ''shared'' else key) @ '']: ''
     @ (if changed_count d = 0 then ''no pending change'' else if owed v then ''OWED'' else ''satisfied'')
     @ '' ('' @ int_str (changed_count d) @ '' edit(s) since last sync)'' @ [nl]
     @ (if steps_done d \<noteq> {}
        then ''  done:    '' @ concat (map (\<lambda>s. ritualStepName s @ '' '') (steps_in (steps_done d))) @ [nl] else [])
     @ (if owed v
        then ''  missing: '' @ concat (map (\<lambda>s. ritualStepName s @ '' '') (missing v)) @ [nl]
             @ ''  run: icmg store --topic decisions-... '' @ [dq] @ ''...'' @ [dq] @ '' && icmg wflog save --goal ''
             @ [dq] @ ''...'' @ [dq] @ [nl] else [])"

definition block_json :: "ritual_step list \<Rightarrow> string" where
  "block_json ms =
     ''{'' @ [dq] @ ''decision'' @ [dq] @ '':'' @ [dq] @ ''block'' @ [dq] @ '','' @ [dq] @ ''reason'' @ [dq] @ '':''
     @ [dq] @ ''[icmg ritual] you edited code this session but the post-change sync is incomplete. Run the missing step(s): ''
     @ join '', '' (map ritualStepName ms)
     @ ''. (icmg store --topic decisions-<area> '' @ [bs, dq] @ ''what+why'' @ [bs, dq] @ ''; icmg wflog save --goal ''
     @ [bs, dq] @ ''...'' @ [bs, dq] @ '' --decisions '' @ [bs, dq] @ ''...'' @ [bs, dq]
     @ ''). Graph auto-scans at turn end. Set ICMG_NO_RITUAL_GATE=1 to disable.'' @ [dq] @ ''}''"

definition session_key :: "string list \<Rightarrow> string \<Rightarrow> string \<Rightarrow> string" where
  "session_key args hook_sid env_sid =
     (let flagSid = flagValue args ''--session'' [] in
      chooseRitualSessionKey flagSid
        (if flagSid = [] \<and> hd args = ''gate'' then hook_sid else []) env_sid)"

definition ritual_action :: "string \<Rightarrow> string list \<Rightarrow> bool \<Rightarrow> int \<Rightarrow> ritual_files \<Rightarrow> outcome \<times> ritual_files" where
  "ritual_action key args no_gate now fs =
     (let action = hd args; arg = (\<lambda>i. if i < length args then args ! i else []);
          d = load key fs; v = evaluateRitual (toCore d) in
      if action = ''touch'' then
        (let fs' = pruneStaleSessions now fs; d' = (load key fs')\<lparr>changed_count := changed_count (load key fs') + 1\<rparr> in
         (answer 0 (''icmg ritual: change recorded ('' @ int_str (changed_count d') @ '' since last sync) ''
            @ em_dash @ '' owe store + wflog'' @ [nl]), save key now d' fs'))
      else if action = ''saw'' then
        (if length args < 2 then (answer 0 [], fs)
         else (case stepForCommand (arg 1) (arg 2) of
                 None \<Rightarrow> (answer 0 [], fs) | Some s \<Rightarrow> record_and_save key now [s] fs))
      else if action = ''saw-line'' then
        (if length args < 2 \<or> arg 1 = ''--session'' then (answer 0 [], fs)
         else (let ss = parseSyncStepsFromCommandLine (arg 1) in
               if ss = [] then (answer 0 [], fs) else record_and_save key now ss fs))
      else if action = ''did'' then
        (if length args < 2 then (complaint (''did requires a step name'' @ [nl]), fs)
         else (case parseStep (arg 1) of
                 None \<Rightarrow> (complaint (''unknown step '' @ [sq] @ arg 1 @ [sq, nl]), fs)
               | Some s \<Rightarrow> record_and_save key now [s] fs))
      else if action = ''clear'' then (answer 0 (''icmg ritual: state cleared'' @ [nl]), save key now fresh fs)
      else if action = ''status'' then (answer 0 (status_text key d v), fs)
      else if action = ''check'' then (answer (if owed v then 2 else 0) [], fs)
      else if action = ''gate'' then
        (answer 0 (if no_gate \<or> \<not> owed v then [] else block_json (missing v)), fs)
      else (answer 1 ritual_usage, fs))"

definition ritual_run ::
  "string list \<Rightarrow> string \<Rightarrow> string \<Rightarrow> bool \<Rightarrow> int \<Rightarrow> ritual_files \<Rightarrow> outcome \<times> ritual_files" where
  "ritual_run args hook_sid env_sid no_gate now fs =
     (if args = [] \<or> hasFlag args ''--help'' then (answer 0 ritual_usage, fs)
      else ritual_action (session_key args hook_sid env_sid) args no_gate now fs)"

section \<open>The state file round-trips\<close>

lemma parseStep_name [simp]: "parseStep (ritualStepName s) = Some s"
  by (cases s) (simp_all add: parseStep_def)

lemma step_name_word: "ritualStepName s \<noteq> []" "\<forall>c \<in> set (ritualStepName s). \<not> is_space c"
  by (cases s; simp add: char_class_defs)+

lemma no_space_id: "\<forall>c \<in> set w. \<not> is_space c \<Longrightarrow> map (\<lambda>c. if is_space c then CHR '' '' else c) w = w"
  by (simp add: map_idI)

lemma space_is_space [simp]: "is_space (CHR '' '')" "is_space nl"
  by (simp_all add: char_class_defs)

lemma space_words_join:
  assumes "\<forall>w \<in> set ws. w \<noteq> [] \<and> (\<forall>c \<in> set w. \<not> is_space c)"
  shows "space_words (join '' '' ws) = ws"
proof (cases "ws = []")
  case False
  have m: "map (\<lambda>c. if is_space c then CHR '' '' else c) (join '' '' ws) = join '' '' ws"
    using assms by (induction ws rule: induct_list012) (simp_all add: no_space_id)
  have "\<forall>w \<in> set ws. CHR '' '' \<notin> set w" using assms space_is_space(1) by blast
  then have "split_on (CHR '' '') (join '' '' ws) = ws" using False by (intro split_on_join) simp_all
  then show ?thesis using assms by (simp add: space_words_def m)
qed (simp add: space_words_def)

lemma parse_print_state:
  assumes "- (2 ^ 31) \<le> changed_count d" and "changed_count d < 2 ^ 31"
  shows "parse_state (state_text d) = d"
proof -
  let ?names = "map ritualStepName (steps_in (steps_done d))"
  have w: "\<forall>w \<in> set ?names. w \<noteq> [] \<and> (\<forall>c \<in> set w. \<not> is_space c)" using step_name_word by auto
  have "nl \<notin> set (join '' '' ?names)"
    by (rule join_no_char, simp, use w space_is_space(2) in blast)
  then have ls: "getlines (state_text d) = [int_str (changed_count d), join '' '' ?names]"
    using getlines_unlines[of "[int_str (changed_count d), join '' '' ?names]"] by (simp add: state_text_def int_str_no_sep)
  have n: "stoi (int_str (changed_count d)) = Some (changed_count d)"
    using sto_int_int_str[of 32 "changed_count d" "[]"] assms by (simp add: stoi_def)
  have "List.map_filter parseStep ?names = steps_in (steps_done d)"
    by (simp add: List.map_filter_def comp_def)
  then show ?thesis unfolding parse_state_def ls by (simp add: n space_words_join[OF w] Let_def)
qed

section \<open>Properties\<close>

definition in_range :: "disk_state \<Rightarrow> bool" where
  "in_range d \<longleftrightarrow> 0 \<le> changed_count d \<and> changed_count d < 2 ^ 31"

lemma load_save [simp]: "in_range d \<Longrightarrow> load key (save key now d fs) = d"
  by (simp add: load_def save_def in_range_def parse_print_state)

lemma save_other [frame]: "k \<noteq> key \<Longrightarrow> save key now d fs k = fs k"
  by (simp add: save_def)

lemma owed_iff: "owed (evaluateRitual (toCore d)) \<longleftrightarrow> 0 < changed_count d \<and> \<not> {Store, Wflog} \<subseteq> steps_done d"
  by (auto simp: evaluateRitual_def toCore_def ritualRequired_def Let_def filter_empty_conv)

lemma did_action:
  "snd (ritual_action key [''did'', ritualStepName s] ng now fs) =
   save key now (fst (record_steps [s] (load key fs))) fs"
  by (simp add: ritual_action_def Let_def record_and_save_def split: prod.split)

lemma check_action:
  "exit_code (fst (ritual_action key [''check''] ng now fs)) = (if owed (evaluateRitual (toCore (load key fs))) then 2 else 0)"
  by (simp add: ritual_action_def Let_def answer_def)

definition after_did :: "string \<Rightarrow> ritual_step list \<Rightarrow> int \<Rightarrow> ritual_files \<Rightarrow> ritual_files" where
  "after_did key ss now fs = foldl (\<lambda>g s. snd (ritual_action key [''did'', ritualStepName s] False now g)) fs ss"

lemma after_did_load:
  assumes "load key fs = \<lparr>changed_count = 1, steps_done = {}\<rparr>"
  shows "if {Store, Wflog} \<subseteq> set ss then changed_count (load key (after_did key ss now fs)) = 0
    else load key (after_did key ss now fs) = \<lparr>changed_count = 1, steps_done = set ss\<rparr>"
proof (induction ss rule: rev_induct)
  case Nil
  then show ?case using assms by (simp add: after_did_def)
next
  case (snoc s ss)
  let ?d = "load key (after_did key ss now fs)"
  let ?r = "fst (record_steps [s] ?d)"
  have step: "after_did key (ss @ [s]) now fs = save key now ?r (after_did key ss now fs)"
    by (simp add: after_did_def did_action)
  show ?case
  proof (cases "{Store, Wflog} \<subseteq> set ss")
    case True
    then have c: "changed_count ?d = 0" using snoc.IH by simp
    then have "changed_count ?r = 0" by (simp add: record_steps_def Let_def)
    then show ?thesis using True unfolding step by (simp add: in_range_def)
  next
    case False
    then have "?d = \<lparr>changed_count = 1, steps_done = set ss\<rparr>" using snoc.IH by simp
    then have "?r = (if {Store, Wflog} \<subseteq> insert s (set ss) then fresh
        else \<lparr>changed_count = 1, steps_done = insert s (set ss)\<rparr>)"
      by (simp add: record_steps_def owed_iff Let_def)
    then show ?thesis unfolding step by (simp add: in_range_def fresh_def)
  qed
qed

text \<open>
  Property C6. The gate is owed exactly until the judgment steps are done: after an edit of a clean
  session, \<open>check\<close> answers 2 unless \<open>store\<close> and \<open>wflog\<close> are both among the steps recorded
  since, in whatever order and number.
\<close>

theorem gate_owed_until_done:
  assumes "load key (pruneStaleSessions t_edit fs) = fresh"
    and "edited = snd (ritual_action key [''touch''] False t_edit fs)"
  shows "exit_code (fst (ritual_action key [''check''] False t2 (after_did key ss t1 edited))) =
    (if Store \<in> set ss \<and> Wflog \<in> set ss then 0 else 2)"
proof -
  have "load key edited = \<lparr>changed_count = 1, steps_done = {}\<rparr>"
    using assms by (simp add: ritual_action_def Let_def fresh_def in_range_def)
  note l = after_did_load[OF this, of ss t1]
  show ?thesis using l by (auto simp: check_action owed_iff split: if_splits)
qed

theorem gate_owed_until_done_witness:
  "exit_code (fst (ritual_action ''s1'' [''check''] False 30 (after_did ''s1'' [Graph, Wflog] 20
     (snd (ritual_action ''s1'' [''touch''] False 10 (\<lambda>_. None)))))) =
   (if Store \<in> set [Graph, Wflog] \<and> Wflog \<in> set [Graph, Wflog] then 0 else 2)"
  by (rule gate_owed_until_done[where t_edit = 10 and fs = "\<lambda>_. None"])
     (simp_all add: pruneStaleSessions_def load_def)

text \<open>
  Sessions are isolated: no action of one session changes the state file of another
  that was written within the last seven days.
\<close>

theorem sessions_isolated:
  assumes "other \<noteq> key" and "fs other = Some (text0, t)" and "now - 7 * 24 * 3600 \<le> t"
  shows "snd (ritual_action key args ng now fs) other = Some (text0, t)"
proof -
  have "pruneStaleSessions now fs other = Some (text0, t)"
    using assms(2,3) by (simp add: pruneStaleSessions_def)
  moreover have "snd (record_and_save key now ss fs) other = Some (text0, t)" for ss
    using assms(1,2) by (simp add: record_and_save_def frame split: prod.split)
  ultimately show ?thesis
    unfolding ritual_action_def Let_def if_distrib[where f = snd] snd_conv
    using assms(1,2) by (auto simp: frame split: option.split)
qed

theorem sessions_isolated_witness:
  "snd (ritual_action ''a'' [''touch''] False 1000 ((\<lambda>_. None)(''b'' \<mapsto> (state_text fresh, 900)))) ''b'' =
   Some (state_text fresh, 900)"
  by (rule sessions_isolated) simp_all

text \<open>
  Steps taken before the change count for it: a session that stores and logs first and
  edits afterwards owes nothing, although no step was observed since the change.
\<close>

theorem steps_before_change_count:
  assumes "load key fs = fresh"
    and "synced = snd (ritual_action key [''saw'', ''wflog''] False t2
           (snd (ritual_action key [''saw'', ''store''] False t1 fs)))"
    and "t3 \<le> t2 + 7 * 24 * 3600"
  shows "exit_code (fst (ritual_action key [''check''] False t4
    (snd (ritual_action key [''touch''] False t3 synced)))) = 0"
proof -
  have s: "synced = save key t2 \<lparr>changed_count = 0, steps_done = {Store, Wflog}\<rparr>
      (save key t1 \<lparr>changed_count = 0, steps_done = {Store}\<rparr> fs)"
    using assms(1,2)
    by (simp add: ritual_action_def stepForCommand_def record_and_save_def record_steps_def owed_iff
        in_range_def fresh_def Let_def insert_commute)
  have p: "load key (pruneStaleSessions t3 synced) = \<lparr>changed_count = 0, steps_done = {Store, Wflog}\<rparr>"
    using assms(3) unfolding s by (simp add: load_def pruneStaleSessions_def save_def parse_print_state)
  show ?thesis
    by (simp add: ritual_action_def[of _ "[''touch'']"] p check_action owed_iff in_range_def Let_def)
qed

theorem steps_before_change_count_witness:
  "exit_code (fst (ritual_action ''s'' [''check''] False 40 (snd (ritual_action ''s'' [''touch''] False 30
    (snd (ritual_action ''s'' [''saw'', ''wflog''] False 20
      (snd (ritual_action ''s'' [''saw'', ''store''] False 10 (\<lambda>_. None))))))))) = 0"
  by (rule steps_before_change_count[OF _ refl]) (simp add: load_def, arith)

end
