(* ===== verification/Sentinel.thy ===== *)
theory Sentinel
  imports CxxString "HOL-Library.List_Lexorder" "HOL-Library.Char_ord"
begin

text \<open>
  The guards against repair loops: \<open>cli/sentinel_guard.hpp\<close> (the per-project ledger of
  ineffective reactions and its JSON form), the reacting checks of
  \<open>cli/commands/sentinel_cmd.cpp\<close> and \<open>core/repair_counter.cpp\<close> (the log of repair attempts).
  Measurements and the outcome of a reaction are arguments. The lemmas show that the ledger
  round-trips and bounds the reactions of a check, and that the repair counter cannot read
  back what it writes.
\<close>

section \<open>The ledger\<close>

definition kMaxIneffective :: int where "kMaxIneffective = 2"
definition kMinRunIntervalS :: int where "kMinRunIntervalS = 300"

text \<open>A \<open>std::map\<close> from strings: an association list sorted by key.\<close>

fun map_put :: "string \<Rightarrow> 'v \<Rightarrow> (string \<times> 'v) list \<Rightarrow> (string \<times> 'v) list" where
  "map_put k v [] = [(k, v)]"
| "map_put k v (x # xs) =
     (if k = fst x then (k, v) # xs else if k < fst x then (k, v) # x # xs else x # map_put k v xs)"

record guard_state =
  last_run_ts :: int
  ineffective :: "(string \<times> int) list"

definition quoted :: "string \<Rightarrow> string" where
  "quoted s = dq # s @ [dq]"

definition num_char :: "char \<Rightarrow> bool" where
  "num_char c \<longleftrightarrow> is_digit c \<or> c = CHR ''-''"

definition parse_last_run :: "string \<Rightarrow> int" where
  "parse_last_run json =
     (case find_sub (quoted ''last_run_ts'') json of
        None \<Rightarrow> 0
      | Some p \<Rightarrow>
          (case cut_at (CHR '':'') (drop p json) of
             None \<Rightarrow> 0
           | Some (_, r) \<Rightarrow>
               (case stoll (takeWhile num_char (dropWhile is_space r)) of Some v \<Rightarrow> v | None \<Rightarrow> 0)))"

function parse_counts :: "string \<Rightarrow> (string \<times> int) list \<Rightarrow> (string \<times> int) list" where
  "parse_counts body acc =
     (case cut_at dq body of None \<Rightarrow> acc | Some (_, r1) \<Rightarrow>
      (case cut_at dq r1 of None \<Rightarrow> acc | Some (k, r2) \<Rightarrow>
      (case cut_at (CHR '':'') r2 of None \<Rightarrow> acc | Some (_, r3) \<Rightarrow>
         (let r = dropWhile is_space r3 in
          parse_counts (dropWhile is_digit r)
            (case stoi (takeWhile is_digit r) of Some n \<Rightarrow> map_put k n acc | None \<Rightarrow> acc)))))"
  by pat_completeness auto
termination
proof (relation "measure (\<lambda>(body, _). length body)")
  fix body :: string and acc :: "(string \<times> int) list" and a b x r1 c d k r2 e f y r3 r
  assume "cut_at dq body = Some a" "(x, r1) = a" "cut_at dq r1 = Some c" "(k, r2) = c"
    "cut_at (CHR '':'') r2 = Some e" "(y, r3) = e" "r = dropWhile is_space r3"
  then have "length r3 < length body" "length r \<le> length r3"
    by (auto dest!: cut_at_shorter simp: length_dropWhile_le)
  then show "((dropWhile is_digit r, case stoi (takeWhile is_digit r) of Some n \<Rightarrow> map_put k n acc | None \<Rightarrow> acc),
      body, acc) \<in> measure (\<lambda>(body, _). length body)"
    using length_dropWhile_le[of is_digit r] by simp
qed simp

declare parse_counts.simps [simp del]

definition parse_ineffective :: "string \<Rightarrow> (string \<times> int) list" where
  "parse_ineffective json =
     (case find_sub (quoted ''ineffective'') json of
        None \<Rightarrow> []
      | Some p \<Rightarrow>
          (case cut_at (CHR ''{'') (drop p json) of
             None \<Rightarrow> []
           | Some (_, r) \<Rightarrow>
               (case cut_at (CHR ''}'') r of
                  None \<Rightarrow> []
                | Some (body, _) \<Rightarrow> parse_counts body [])))"

definition parseGuardState :: "string \<Rightarrow> guard_state" where
  "parseGuardState json = \<lparr>last_run_ts = parse_last_run json, ineffective = parse_ineffective json\<rparr>"

definition count_json :: "string \<times> int \<Rightarrow> string" where
  "count_json e = quoted (fst e) @ '':'' @ int_str (snd e)"

definition serializeGuardState :: "guard_state \<Rightarrow> string" where
  "serializeGuardState st =
     ''{'' @ quoted ''last_run_ts'' @ '':'' @ int_str (last_run_ts st) @ '','' @ quoted ''ineffective'' @ '':{''
     @ join '','' (map count_json (filter (\<lambda>e. 0 < snd e) (ineffective st))) @ ''}}''"

definition shouldSkipRun :: "int \<Rightarrow> int \<Rightarrow> int \<Rightarrow> bool" where
  "shouldSkipRun last_ts now min_interval_s \<longleftrightarrow>
     \<not> last_ts \<le> 0 \<and> \<not> now < last_ts \<and> now - last_ts < min_interval_s"

definition shouldSuppress :: "guard_state \<Rightarrow> string \<Rightarrow> int \<Rightarrow> bool" where
  "shouldSuppress st check max_ineffective =
     (case map_of (ineffective st) check of None \<Rightarrow> False | Some n \<Rightarrow> max_ineffective \<le> n)"

definition recordOutcome :: "guard_state \<Rightarrow> string \<Rightarrow> bool \<Rightarrow> guard_state" where
  "recordOutcome st check still_warn =
     (let n = (case map_of (ineffective st) check of None \<Rightarrow> 0 | Some n \<Rightarrow> n)
      in st\<lparr>ineffective := map_put check (if still_warn then n + 1 else 0) (ineffective st)\<rparr>)"

section \<open>The reacting checks of a run\<close>

datatype check_outcome = Healthy | Suppressed | Reacted | Withheld

text \<open>
  A check that reacts under the ledger: whether it warns, and whether it still would after the
  reaction. The run has three of them, in this order.
\<close>

definition guarded_check ::
  "bool \<Rightarrow> bool \<Rightarrow> string \<Rightarrow> bool \<Rightarrow> bool \<Rightarrow> guard_state \<Rightarrow> check_outcome \<times> guard_state" where
  "guarded_check can_react dry check warn still gs =
     (if \<not> warn then (Healthy, recordOutcome gs check False)
      else if shouldSuppress gs check kMaxIneffective then (Suppressed, gs)
      else if can_react \<and> \<not> dry then (Reacted, recordOutcome gs check still)
      else (Withheld, gs))"

record measures =
  disk :: "bool \<times> bool"
  snapshot_age :: "bool \<times> bool"
  mirror :: "bool \<times> bool"

record sentinel_input =
  force :: bool
  dry_run :: bool
  now_ts :: int
  repairs_last_hour :: nat
  measured :: measures

definition read_guard :: "string option \<Rightarrow> guard_state" where
  "read_guard guard_file =
     (case guard_file of None \<Rightarrow> \<lparr>last_run_ts = 0, ineffective = []\<rparr> | Some s \<Rightarrow> parseGuardState s)"

definition sentinel_run :: "sentinel_input \<Rightarrow> string option \<Rightarrow> check_outcome list \<times> string option" where
  "sentinel_run i guard_file =
     (let gs = read_guard guard_file in
      if \<not> force i \<and> \<not> dry_run i \<and> shouldSkipRun (last_run_ts gs) (now_ts i) kMinRunIntervalS
      then ([], guard_file)
      else
        (let can_react = repairs_last_hour i < 3; m = measured i;
             (o1, gs1) = guarded_check can_react (dry_run i) ''disk'' (fst (disk m)) (snd (disk m)) gs;
             (o2, gs2) = guarded_check can_react (dry_run i) ''snapshot_age''
                           (fst (snapshot_age m)) (snd (snapshot_age m)) gs1;
             (o3, gs3) = guarded_check can_react (dry_run i) ''mirror'' (fst (mirror m)) (snd (mirror m)) gs2
         in ([o1, o2, o3],
             if dry_run i then guard_file
             else Some (serializeGuardState (gs3\<lparr>last_run_ts := now_ts i\<rparr>) @ [nl]))))"

section \<open>The repair counter\<close>

type_synonym repair_event = "int \<times> string"

function load_events :: "string \<Rightarrow> repair_event list" where
  "load_events s =
     (case find_sub (quoted ''ts'') s of
        None \<Rightarrow> []
      | Some k \<Rightarrow>
          (let m = drop k s in
           case cut_at (CHR '':'') m of
             None \<Rightarrow> []
           | Some (_, r) \<Rightarrow>
               (let r1 = dropWhile is_space r; r2 = dropWhile num_char r1 in
                case stoll (takeWhile num_char r1) of
                  None \<Rightarrow> load_events (tl m)
                | Some t \<Rightarrow>
                    (case find_sub (quoted ''kind'') r2 of
                       None \<Rightarrow> load_events (tl m)
                     | Some kp \<Rightarrow>
                         (case cut_at dq (drop (kp + 6) r2) of None \<Rightarrow> load_events (tl m) | Some (_, r4) \<Rightarrow>
                          (case cut_at dq r4 of None \<Rightarrow> load_events (tl m) | Some (_, r5) \<Rightarrow>
                          (case cut_at dq r5 of None \<Rightarrow> load_events (tl m) | Some (kd, r6) \<Rightarrow>
                             (t, kd) # load_events r6)))))))"
  by pat_completeness auto
termination
proof (relation "measure length", goal_cases)
  case 1
  show ?case by simp
next
  case (2 s k m)
  then show ?case by (auto dest!: find_sub_Some simp: quoted_def)
next
  case (3 s k m)
  then show ?case by (auto dest!: find_sub_Some simp: quoted_def)
next
  case (4 s k m)
  then show ?case by (auto dest!: find_sub_Some simp: quoted_def)
next
  case (5 s k m)
  then show ?case by (auto dest!: find_sub_Some simp: quoted_def)
next
  case (6 s k m)
  then show ?case by (auto dest!: find_sub_Some simp: quoted_def)
next
  case (7 s k m p x r)
  then show ?case
    using length_dropWhile2[of num_char is_space r] by (auto dest!: cut_at_shorter)
qed

declare load_events.simps [simp del]

definition event_json :: "repair_event \<Rightarrow> string" where
  "event_json e = ''{'' @ quoted ''ts'' @ '':'' @ int_str (fst e) @ '','' @ quoted ''kind'' @ '':'' @ quoted (snd e) @ ''}''"

definition save_events :: "repair_event list \<Rightarrow> string" where
  "save_events es = ''{'' @ quoted ''events'' @ '':['' @ join '','' (map event_json es) @ '']}'' @ [nl]"

definition load_file :: "string option \<Rightarrow> repair_event list" where
  "load_file repair_file = (case repair_file of None \<Rightarrow> [] | Some s \<Rightarrow> load_events s)"

definition recent :: "int \<Rightarrow> int \<Rightarrow> string option \<Rightarrow> repair_event list" where
  "recent now seconds repair_file = filter (\<lambda>e. \<not> fst e < now - seconds) (load_file repair_file)"

definition tryRepair :: "string \<Rightarrow> nat \<Rightarrow> int \<Rightarrow> string option \<Rightarrow> bool \<times> string option" where
  "tryRepair kind max_per_hour now repair_file =
     (let events = recent now 3600 repair_file;
          kind_count = length (filter (\<lambda>e. snd e = kind) events)
      in (kind_count < max_per_hour, Some (save_events (events @ [(now, kind)]))))"

definition countLastHour :: "string \<Rightarrow> int \<Rightarrow> string option \<Rightarrow> nat" where
  "countLastHour kind now repair_file =
     length (filter (\<lambda>e. now - 3600 \<le> fst e \<and> snd e = kind) (load_file repair_file))"

definition totalLastHour :: "int \<Rightarrow> string option \<Rightarrow> nat" where
  "totalLastHour now repair_file = length (filter (\<lambda>e. now - 3600 \<le> fst e) (load_file repair_file))"

definition reset_repairs :: "string option" where
  "reset_repairs = Some (save_events [])"

text \<open>A sequence of attempts, each with its kind, limit and time: which were allowed, and the file after.\<close>

fun attempts :: "(string \<times> nat \<times> int) list \<Rightarrow> string option \<Rightarrow> bool list \<times> string option" where
  "attempts [] repair_file = ([], repair_file)"
| "attempts ((kind, limit, now) # calls) repair_file =
     (let (allowed, f1) = tryRepair kind limit now repair_file; (rest, f2) = attempts calls f1
      in (allowed # rest, f2))"

section \<open>The counter cannot read what it writes\<close>

lemma find_sub_skip:
  "c \<notin> set x \<Longrightarrow> find_sub (c # p) (x @ y) = map_option (\<lambda>i. length x + i) (find_sub (c # p) y)"
  by (cases "find_sub (c # p) y"; induction x) auto

lemma find_sub_skip_None: "dq \<notin> set x \<Longrightarrow> find_sub (dq # p) (x @ y) = None \<longleftrightarrow> find_sub (dq # p) y = None"
  by (simp add: find_sub_skip)

lemma load_no_ts: "find_sub (quoted ''ts'') s = None \<Longrightarrow> load_events s = []"
  by (subst load_events.simps) simp

lemma int_str_num: "\<forall>c \<in> set (int_str i). num_char c"
  using int_str_chars by (auto simp: num_char_def)

lemma int_str_clean: "dq \<notin> set (int_str i)" "CHR '':'' \<notin> set (int_str i)"
  using int_str_num[of i] by (auto simp: num_char_def char_class_defs)

lemma int_str_no_space: "dropWhile is_space (int_str i @ rest) = int_str i @ rest"
proof -
  obtain c cs where c: "int_str i = c # cs" by (cases "int_str i") (auto simp: int_str_def split: if_splits)
  then have "num_char c" using int_str_num[of i] by simp
  then show ?thesis using c by (auto simp: num_char_def char_class_defs)
qed

lemma takeWhile_int_str:
  assumes "rest = [] \<or> \<not> num_char (hd rest)"
  shows "takeWhile num_char (int_str i @ rest) = int_str i" "dropWhile num_char (int_str i @ rest) = rest"
proof -
  have "takeWhile num_char rest = []" "dropWhile num_char rest = rest" using assms by (cases rest; auto)+
  then show "takeWhile num_char (int_str i @ rest) = int_str i" "dropWhile num_char (int_str i @ rest) = rest"
    using int_str_num[of i] by simp_all
qed

lemma load_save_single:
  assumes "dq \<notin> set k" and "k \<noteq> ''ts''"
  shows "load_events (save_events [(t, k)]) = []"
proof -
  let ?tl = "dq # ''}]}'' @ [nl]"
  let ?r2 = "'','' @ quoted ''kind'' @ '':'' @ dq # k @ ?tl"
  let ?m = "quoted ''ts'' @ '':'' @ int_str t @ ?r2"
  have s: "save_events [(t, k)] = ''{'' @ quoted ''events'' @ '':[{'' @ ?m"
    by (simp add: save_events_def event_json_def quoted_def)
  have f: "find_sub (quoted ''ts'') (save_events [(t, k)]) = Some 12"
    unfolding s by (simp add: quoted_def)
  have d: "drop 12 (save_events [(t, k)]) = ?m" unfolding s by (simp add: quoted_def)
  have c: "cut_at (CHR '':'') ?m = Some (quoted ''ts'', int_str t @ ?r2)" by (simp add: quoted_def)
  have r: "dropWhile is_space (int_str t @ ?r2) = int_str t @ ?r2"
    "dropWhile num_char (int_str t @ ?r2) = ?r2"
    by (rule int_str_no_space, rule takeWhile_int_str) (simp add: num_char_def char_class_defs)
  have kd: "find_sub (quoted ''kind'') ?r2 = Some 1" by (simp add: quoted_def)
  have dd: "drop (1 + 6) ?r2 = '':'' @ dq # k @ ?tl" by (simp add: quoted_def)
  have k1: "cut_at dq ('':'' @ dq # k @ ?tl) = Some ('':'', k @ ?tl)" by simp
  have k2: "cut_at dq (k @ ?tl) = Some (k, ''}]}'' @ [nl])"
    by (simp add: cut_at_append assms(1))
  have k3: "cut_at dq (''}]}'' @ [nl]) = None" by simp
  have "\<not> prefix (''ts'' @ [dq]) (k @ ?tl)"
    using assms by (cases k; cases "tl k"; cases "tl (tl k)") auto
  then have "find_sub (quoted ''ts'') (dq # k @ ?tl) = None"
    using find_sub_skip_None[OF assms(1), of "''ts'' @ [dq]" ?tl] by (simp add: quoted_def)
  then have "find_sub (quoted ''ts'') ?r2 = None" by (simp add: quoted_def)
  then have "find_sub (quoted ''ts'') (int_str t @ ?r2) = None"
    using find_sub_skip_None[OF int_str_clean(1)] by (simp add: quoted_def)
  then have "find_sub (quoted ''ts'') (tl ?m) = None" by (simp add: quoted_def)
  then have rest: "load_events (tl ?m) = []" by (rule load_no_ts)
  show ?thesis
    by (subst load_events.simps)
       (simp only: f d c r kd dd k1 k2 k3 rest option.case prod.case Let_def split: option.split, simp)
qed

definition repair_idle :: "string option \<Rightarrow> bool" where
  "repair_idle f \<longleftrightarrow> load_file f = []"

lemma tryRepair_idle:
  assumes "repair_idle f" and "0 < limit" and "dq \<notin> set kind" and "kind \<noteq> ''ts''"
  shows "fst (tryRepair kind limit now f)" and "repair_idle (snd (tryRepair kind limit now f))"
  using assms load_save_single
  by (simp_all add: tryRepair_def recent_def repair_idle_def load_file_def[of "Some _"])

text \<open>
  The repair-loop guard never trips: the reader takes the closing quote of a kind for
  its opening quote and finds no event in a log of one, so that every attempt in any sequence
  is allowed, whatever its limit, and the total of the last hour stays 0.
\<close>

theorem repair_guard_never_trips:
  assumes "\<forall>(kind, limit, now) \<in> set calls. dq \<notin> set kind \<and> kind \<noteq> ''ts'' \<and> 0 < limit"
  shows "fst (attempts calls None) = replicate (length calls) True \<and>
    totalLastHour now (snd (attempts calls None)) = 0"
proof -
  have "fst (attempts calls f) = replicate (length calls) True \<and> repair_idle (snd (attempts calls f))"
    if "repair_idle f" for f
    using assms that
  proof (induction calls arbitrary: f)
    case (Cons c calls)
    obtain kind limit now where c: "c = (kind, limit, now)" by (cases c)
    have a: "fst (tryRepair kind limit now f)" "repair_idle (snd (tryRepair kind limit now f))"
      using tryRepair_idle Cons.prems c by auto
    then show ?case using Cons.IH[OF _ a(2)] Cons.prems(1) by (simp add: c split_def)
  qed simp
  from this[of None] show ?thesis by (simp add: repair_idle_def load_file_def[of None] totalLastHour_def)
qed

theorem repair_guard_never_trips_witness:
  "fst (attempts [(''db'', 1, 100), (''db'', 1, 101), (''db'', 1, 102)] None) =
     replicate (length [(''db'', 1::nat, 100::int), (''db'', 1, 101), (''db'', 1, 102)]) True \<and>
   totalLastHour 103 (snd (attempts [(''db'', 1, 100), (''db'', 1, 101), (''db'', 1, 102)] None)) = 0"
  by (rule repair_guard_never_trips) simp

section \<open>The ledger round-trips\<close>

lemma map_of_put: "map_of (map_put k v xs) = (map_of xs)(k \<mapsto> v)"
  by (induction xs) auto

lemma map_put_keys: "fst ` set (map_put k v xs) = insert k (fst ` set xs)"
  by (induction xs) auto

lemma map_put_snoc:
  "\<forall>x \<in> set xs. fst x < k \<Longrightarrow> map_put k v xs = xs @ [(k, v)]"
  by (induction xs) auto

lemma map_put_sorted:
  "sorted_wrt (<) (map fst xs) \<Longrightarrow> sorted_wrt (<) (map fst (map_put k v xs))"
proof (induction xs)
  case (Cons x xs)
  have "fst ` set (map_put k v xs) = insert k (fst ` set xs)" by (rule map_put_keys)
  then show ?case using Cons by auto
qed simp

definition ledger_ok :: "(string \<times> int) list \<Rightarrow> bool" where
  "ledger_ok xs \<longleftrightarrow> sorted_wrt (<) (map fst xs) \<and>
     (\<forall>(k, v) \<in> set xs. dq \<notin> set k \<and> CHR ''}'' \<notin> set k \<and> 0 \<le> v \<and> v < 2 ^ 31)"

lemma stoi_digits:
  assumes "0 \<le> v" and "v < 2 ^ 31" and "rest = [] \<or> \<not> is_digit (hd rest)"
  shows "takeWhile is_digit (int_str v @ rest) = int_str v" "dropWhile is_digit (int_str v @ rest) = rest"
    "stoi (int_str v) = Some v" "dropWhile is_space (int_str v @ rest) = int_str v @ rest"
proof -
  have d: "\<forall>c \<in> set (int_str v). is_digit c" using assms(1) nat_str_digits by (simp add: int_str_def)
  have "takeWhile is_digit rest = []" "dropWhile is_digit rest = rest" using assms(3) by (cases rest; auto)+
  then show "takeWhile is_digit (int_str v @ rest) = int_str v" "dropWhile is_digit (int_str v @ rest) = rest"
    using d by simp_all
  show "stoi (int_str v) = Some v" using sto_int_int_str[of 32 v "[]"] assms by (simp add: stoi_def)
  show "dropWhile is_space (int_str v @ rest) = int_str v @ rest" by (rule int_str_no_space)
qed

lemma parse_counts_entry:
  assumes "dq \<notin> set k" and "0 \<le> v" and "v < 2 ^ 31" and "rest = [] \<or> \<not> is_digit (hd rest)"
    and "dq \<notin> set sep"
  shows "parse_counts (sep @ count_json (k, v) @ rest) acc = parse_counts rest (map_put k v acc)"
proof -
  note s = stoi_digits[OF assms(2-4)]
  have 1: "cut_at dq (sep @ count_json (k, v) @ rest) = Some (sep, k @ dq # '':'' @ int_str v @ rest)"
    using assms(5) by (simp add: count_json_def quoted_def cut_at_append)
  have 2: "cut_at dq (k @ dq # '':'' @ int_str v @ rest) = Some (k, '':'' @ int_str v @ rest)"
    by (rule cut_at_append[OF assms(1)])
  have 3: "cut_at (CHR '':'') ('':'' @ int_str v @ rest) = Some ([], int_str v @ rest)" by simp
  show ?thesis by (subst parse_counts.simps) (simp only: 1 2 3 s option.case prod.case Let_def)
qed

lemma parse_counts_list:
  assumes "ledger_ok (acc @ es)"
  shows "parse_counts (join '','' (map count_json es)) acc = acc @ es"
proof -
  have "\<forall>e \<in> set acc. fst e < fst x" if "ledger_ok (acc @ x # es)" for acc x es
    using that by (simp add: ledger_ok_def sorted_wrt_append)
  note snoc = map_put_snoc[OF this]
  have "parse_counts (sep @ join '','' (map count_json es)) acc = acc @ es"
    if "ledger_ok (acc @ es)" "dq \<notin> set sep" for sep
    using that
  proof (induction es arbitrary: acc sep)
    case Nil
    then have "cut_at dq sep = None" by (simp add: cut_at_None)
    then show ?case by (subst parse_counts.simps) simp
  next
    case (Cons e es)
    obtain k v where e: "e = (k, v)" by (cases e)
    have ok: "dq \<notin> set k" "0 \<le> v" "v < 2 ^ 31" using Cons.prems(1) e by (auto simp: ledger_ok_def)
    have p: "map_put k v acc = acc @ [e]" using snoc[OF Cons.prems(1)] e by simp
    show ?case
    proof (cases "es = []")
      case True
      have "parse_counts [] (acc @ [e]) = acc @ [e]" by (subst parse_counts.simps) simp
      then show ?thesis using parse_counts_entry[OF ok _ Cons.prems(2), of "[]"] p e True by simp
    next
      case False
      have "parse_counts (sep @ count_json (k, v) @ '','' @ join '','' (map count_json es)) acc =
          parse_counts ('','' @ join '','' (map count_json es)) (map_put k v acc)"
        by (rule parse_counts_entry[OF ok _ Cons.prems(2)]) (simp add: char_class_defs)
      also have "\<dots> = (acc @ [e]) @ es"
        unfolding p by (rule Cons.IH) (use Cons.prems(1) in simp_all)
      finally show ?thesis using False e by (simp add: join_Cons)
    qed
  qed
  from this[of "[]"] assms show ?thesis by simp
qed

lemma drop_prefix: "drop (length a) (a @ b) = b"
  by simp

lemma parse_serialize:
  assumes "ledger_ok (ineffective st)" and "fits64 (last_run_ts st)"
  shows "parseGuardState (serializeGuardState st @ rest) =
    \<lparr>last_run_ts = last_run_ts st, ineffective = filter (\<lambda>e. 0 < snd e) (ineffective st)\<rparr>"
proof -
  let ?es = "filter (\<lambda>e. 0 < snd e) (ineffective st)"
  let ?body = "join '','' (map count_json ?es)"
  let ?A = "''{'' @ quoted ''last_run_ts'' @ '':'' @ int_str (last_run_ts st) @ '',''"
  let ?B = "quoted ''ineffective'' @ '':{'' @ ?body @ ''}}'' @ rest"
  have s: "serializeGuardState st @ rest = ?A @ ?B" by (simp add: serializeGuardState_def)
  have l: "parse_last_run (?A @ ?B) = last_run_ts st"
  proof -
    have "cut_at (CHR '':'') (drop 1 (?A @ ?B)) = Some (quoted ''last_run_ts'', int_str (last_run_ts st) @ '','' @ ?B)"
      by (simp add: quoted_def)
    moreover have "find_sub (quoted ''last_run_ts'') (?A @ ?B) = Some 1" by (simp add: quoted_def)
    moreover have "takeWhile num_char (int_str (last_run_ts st) @ '','' @ ?B) = int_str (last_run_ts st)"
      by (rule takeWhile_int_str) (simp add: num_char_def char_class_defs)
    ultimately show ?thesis
      by (simp only: parse_last_run_def option.case prod.case int_str_no_space stoll_int_str[OF assms(2)])
  qed
  have "find_sub (quoted ''ineffective'') (int_str (last_run_ts st) @ '','' @ ?B) =
      Some (length (int_str (last_run_ts st)) + 1)"
    using find_sub_skip[OF int_str_clean(1)] by (simp add: quoted_def)
  then have f: "find_sub (quoted ''ineffective'') (?A @ ?B) = Some (length ?A)"
    by (simp add: quoted_def)
  have c: "cut_at (CHR ''{'') ?B = Some (quoted ''ineffective'' @ '':'', ?body @ ''}}'' @ rest)"
    by (simp add: quoted_def)
  have ok: "ledger_ok ?es" using assms(1) by (auto simp: ledger_ok_def sorted_wrt_filter sorted_wrt_map)
  then have "\<forall>w \<in> set (map count_json ?es). CHR ''}'' \<notin> set w"
    using int_str_num by (fastforce simp: ledger_ok_def count_json_def quoted_def num_char_def char_class_defs)
  then have "CHR ''}'' \<notin> set ?body" by (intro join_no_char) simp_all
  then have e: "cut_at (CHR ''}'') (?body @ ''}}'' @ rest) = Some (?body, ''}'' @ rest)"
    using cut_at_append[of "CHR ''}''" ?body "''}'' @ rest"] by simp
  have "parse_ineffective (?A @ ?B) = parse_counts ?body []"
    by (simp only: parse_ineffective_def f drop_prefix c e option.case prod.case)
  also have "\<dots> = ?es" using parse_counts_list[of "[]" ?es] ok by simp
  finally show ?thesis unfolding s parseGuardState_def l by simp
qed

section \<open>The ledger bounds the reactions\<close>

definition count_of :: "guard_state \<Rightarrow> string \<Rightarrow> int" where
  "count_of gs c = (case map_of (ineffective gs) c of None \<Rightarrow> 0 | Some n \<Rightarrow> n)"

definition small_ledger :: "guard_state \<Rightarrow> bool" where
  "small_ledger gs \<longleftrightarrow> ledger_ok (ineffective gs) \<and> (\<forall>(k, v) \<in> set (ineffective gs). v \<le> 2)"

text \<open>The printed ledger leaves out the zero counts, which read back as zero.\<close>

lemma positive_counts:
  assumes "sorted_wrt (<) (map fst es)" and "\<forall>n. (c, n) \<in> set es \<longrightarrow> 0 \<le> n"
  shows "count_of \<lparr>last_run_ts = t, ineffective = filter (\<lambda>e. 0 < snd e) es\<rparr> c =
    count_of \<lparr>last_run_ts = t, ineffective = es\<rparr> c"
  using assms
proof (induction es)
  case (Cons e es)
  obtain k v where e: "e = (k, v)" by (cases e)
  have k: "k \<notin> fst ` set es" using Cons.prems(1) by (auto simp: e)
  then have "map_of es k = None" "map_of (filter (\<lambda>e. 0 < snd e) es) k = None"
    by (auto simp: map_of_eq_None_iff)
  moreover have "0 \<le> v" if "c = k" using Cons.prems(2) that by (simp add: e)
  ultimately show ?case
    using Cons.IH Cons.prems by (cases "c = k"; cases "0 < v") (auto simp: count_of_def e)
qed simp

lemma count_of_put: "count_of (gs\<lparr>ineffective := map_put c n (ineffective gs)\<rparr>) c' = (if c' = c then n else count_of gs c')"
  by (simp add: count_of_def map_of_put)

lemma small_put:
  assumes "small_ledger gs" and "0 \<le> n" and "n \<le> 2" and "dq \<notin> set c" and "CHR ''}'' \<notin> set c"
  shows "small_ledger (gs\<lparr>ineffective := map_put c n (ineffective gs)\<rparr>)"
proof -
  have "set (map_put c n xs) \<subseteq> insert (c, n) (set xs)" for xs by (induction xs) auto
  then show ?thesis
    using assms map_put_sorted[of "ineffective gs" c n] unfolding small_ledger_def ledger_ok_def
    by (auto simp: subset_iff) fastforce+
qed

lemma count_of_range: "small_ledger gs \<Longrightarrow> 0 \<le> count_of gs c \<and> count_of gs c \<le> 2"
  by (auto simp: count_of_def small_ledger_def ledger_ok_def dest!: map_of_SomeD split: option.split)

lemma guarded_check_count:
  assumes "small_ledger gs" and "dq \<notin> set c" and "CHR ''}'' \<notin> set c"
  shows "small_ledger (snd (guarded_check can_react dry c warn still gs))"
    and "count_of (snd (guarded_check can_react dry c warn still gs)) c' =
      (if c' \<noteq> c then count_of gs c'
       else if \<not> warn then 0
       else if count_of gs c < 2 \<and> can_react \<and> \<not> dry then (if still then count_of gs c + 1 else 0)
       else count_of gs c)"
    and "fst (guarded_check can_react dry c warn still gs) = Reacted \<longleftrightarrow>
      warn \<and> count_of gs c < 2 \<and> can_react \<and> \<not> dry"
proof -
  have r: "recordOutcome gs c b = gs\<lparr>ineffective := map_put c (if b then count_of gs c + 1 else 0) (ineffective gs)\<rparr>" for b
    by (simp add: recordOutcome_def count_of_def Let_def)
  have s: "shouldSuppress gs c kMaxIneffective \<longleftrightarrow> \<not> count_of gs c < 2"
    by (auto simp: shouldSuppress_def kMaxIneffective_def count_of_def split: option.split)
  note range = count_of_range[OF assms(1), of c]
  show "small_ledger (snd (guarded_check can_react dry c warn still gs))"
    using range assms by (simp add: guarded_check_def s r small_put)
  show "count_of (snd (guarded_check can_react dry c warn still gs)) c' =
      (if c' \<noteq> c then count_of gs c'
       else if \<not> warn then 0
       else if count_of gs c < 2 \<and> can_react \<and> \<not> dry then (if still then count_of gs c + 1 else 0)
       else count_of gs c)"
    by (simp add: guarded_check_def s r count_of_put)
  show "fst (guarded_check can_react dry c warn still gs) = Reacted \<longleftrightarrow>
      warn \<and> count_of gs c < 2 \<and> can_react \<and> \<not> dry"
    by (simp add: guarded_check_def s)
qed

lemma read_written:
  assumes "small_ledger gs" and "fits64 (last_run_ts gs)"
  shows "small_ledger (read_guard (Some (serializeGuardState gs @ [nl])))"
    and "count_of (read_guard (Some (serializeGuardState gs @ [nl]))) c = count_of gs c"
proof -
  have ok: "ledger_ok (ineffective gs)" using assms(1) by (simp add: small_ledger_def)
  have p: "read_guard (Some (serializeGuardState gs @ [nl])) =
      \<lparr>last_run_ts = last_run_ts gs, ineffective = filter (\<lambda>e. 0 < snd e) (ineffective gs)\<rparr>"
    using parse_serialize[OF ok assms(2)] by (simp add: read_guard_def)
  show "small_ledger (read_guard (Some (serializeGuardState gs @ [nl])))"
    using assms(1) unfolding p by (auto simp: small_ledger_def ledger_ok_def sorted_wrt_filter sorted_wrt_map)
  show "count_of (read_guard (Some (serializeGuardState gs @ [nl]))) c = count_of gs c"
    using positive_counts[of "ineffective gs" c "last_run_ts gs"] ok unfolding p
    by (fastforce simp: ledger_ok_def count_of_def)
qed

fun sentinel_runs :: "sentinel_input list \<Rightarrow> string option \<Rightarrow> check_outcome list list \<times> string option" where
  "sentinel_runs [] f = ([], f)"
| "sentinel_runs (i # is) f =
     (let (outs, f1) = sentinel_run i f; (rest, f2) = sentinel_runs is f1 in (outs # rest, f2))"

definition disk_reactions :: "check_outcome list list \<Rightarrow> nat" where
  "disk_reactions os = length (filter (\<lambda>outs. outs \<noteq> [] \<and> hd outs = Reacted) os)"

lemma check_names: "dq \<notin> set ''disk''" "dq \<notin> set ''snapshot_age''" "dq \<notin> set ''mirror''"
    "CHR ''}'' \<notin> set ''disk''" "CHR ''}'' \<notin> set ''snapshot_age''" "CHR ''}'' \<notin> set ''mirror''"
  by simp_all

lemma run_disk_count:
  assumes "small_ledger (read_guard f)" and "fits64 (now_ts i)" and "disk (measured i) = (True, True)"
  shows "small_ledger (read_guard (snd (sentinel_run i f)))"
    and "count_of (read_guard (snd (sentinel_run i f))) ''disk'' =
      count_of (read_guard f) ''disk'' + int (disk_reactions [fst (sentinel_run i f)])"
proof -
  let ?gs = "read_guard f" and ?r = "repairs_last_hour i < 3" and ?d = "dry_run i"
  let ?s = "snapshot_age (measured i)" and ?m = "mirror (measured i)"
  define c1 where "c1 = guarded_check ?r ?d ''disk'' True True ?gs"
  define c2 where "c2 = guarded_check ?r ?d ''snapshot_age'' (fst ?s) (snd ?s) (snd c1)"
  define c3 where "c3 = guarded_check ?r ?d ''mirror'' (fst ?m) (snd ?m) (snd c2)"
  have run: "sentinel_run i f =
      (if \<not> force i \<and> \<not> ?d \<and> shouldSkipRun (last_run_ts ?gs) (now_ts i) kMinRunIntervalS then ([], f)
       else ([fst c1, fst c2, fst c3],
             if ?d then f else Some (serializeGuardState ((snd c3)\<lparr>last_run_ts := now_ts i\<rparr>) @ [nl])))"
    using assms(3) by (simp add: sentinel_run_def Let_def split_def c1_def c2_def c3_def)
  have s1: "small_ledger (snd c1)" unfolding c1_def by (rule guarded_check_count(1)[OF assms(1) check_names(1,4)])
  have s2: "small_ledger (snd c2)" unfolding c2_def by (rule guarded_check_count(1)[OF s1 check_names(2,5)])
  have s3: "small_ledger (snd c3)" unfolding c3_def by (rule guarded_check_count(1)[OF s2 check_names(3,6)])
  have "count_of (snd c3) ''disk'' = count_of (snd c1) ''disk''"
    using guarded_check_count(2)[OF s2 check_names(3,6), of ?r ?d "fst ?m" "snd ?m" "''disk''"]
      guarded_check_count(2)[OF s1 check_names(2,5), of ?r ?d "fst ?s" "snd ?s" "''disk''"]
    by (simp add: c3_def c2_def)
  also have "\<dots> = (if count_of ?gs ''disk'' < 2 \<and> ?r \<and> \<not> ?d then count_of ?gs ''disk'' + 1 else count_of ?gs ''disk'')"
    unfolding c1_def guarded_check_count(2)[OF assms(1) check_names(1,4)] by simp
  finally have c: "count_of (snd c3) ''disk'' =
      (if fst c1 = Reacted then count_of ?gs ''disk'' + 1 else count_of ?gs ''disk'')"
    unfolding c1_def guarded_check_count(3)[OF assms(1) check_names(1,4)] by simp
  have dry: "?d \<Longrightarrow> fst c1 \<noteq> Reacted"
    unfolding c1_def guarded_check_count(3)[OF assms(1) check_names(1,4)] by simp
  have sl: "small_ledger ((snd c3)\<lparr>last_run_ts := now_ts i\<rparr>)" using s3 by (simp add: small_ledger_def)
  have cl: "count_of ((snd c3)\<lparr>last_run_ts := now_ts i\<rparr>) ''disk'' = count_of (snd c3) ''disk''"
    by (simp add: count_of_def)
  have "fits64 (last_run_ts ((snd c3)\<lparr>last_run_ts := now_ts i\<rparr>))" using assms(2) by simp
  note w = read_written[OF sl this]
  show "small_ledger (read_guard (snd (sentinel_run i f)))" using w(1) assms(1) by (simp add: run)
  show "count_of (read_guard (snd (sentinel_run i f))) ''disk'' =
      count_of ?gs ''disk'' + int (disk_reactions [fst (sentinel_run i f)])"
    using w(2)[of "''disk''"] cl c dry by (simp add: run disk_reactions_def)
qed

text \<open>
  Property C5. A reaction that does not help is tried at most twice: over any sequence of sentinel
  runs in which the disk check keeps warning after its reaction, whatever the other checks,
  the clock and the flags, the disk reaction runs at most twice, the ledger going through its
  file between the runs.
\<close>

theorem ineffective_reaction_bounded:
  assumes "\<forall>i \<in> set is. fits64 (now_ts i) \<and> disk (measured i) = (True, True)"
  shows "disk_reactions (fst (sentinel_runs is None)) \<le> 2"
proof -
  have "small_ledger (read_guard (snd (sentinel_runs is f))) \<and>
      count_of (read_guard (snd (sentinel_runs is f))) ''disk'' =
        count_of (read_guard f) ''disk'' + int (disk_reactions (fst (sentinel_runs is f)))"
    if "small_ledger (read_guard f)" for f
    using assms that
  proof (induction "is" arbitrary: f)
    case (Cons i "is")
    note r = run_disk_count[OF Cons.prems(2), of i]
    have "disk_reactions (fst (sentinel_run i f) # os) =
        disk_reactions [fst (sentinel_run i f)] + disk_reactions os" for os
      by (simp add: disk_reactions_def)
    note split = this[of "fst (sentinel_runs is (snd (sentinel_run i f)))"]
    have IH: "small_ledger (read_guard (snd (sentinel_runs is (snd (sentinel_run i f))))) \<and>
        count_of (read_guard (snd (sentinel_runs is (snd (sentinel_run i f))))) ''disk'' =
        count_of (read_guard (snd (sentinel_run i f))) ''disk'' +
          int (disk_reactions (fst (sentinel_runs is (snd (sentinel_run i f)))))"
      using r(1) Cons.prems(1) by (intro Cons.IH) auto
    have run: "sentinel_runs (i # is) f = (fst (sentinel_run i f) # fst (sentinel_runs is (snd (sentinel_run i f))),
        snd (sentinel_runs is (snd (sentinel_run i f))))"
      by (simp add: split_def Let_def)
    have "count_of (read_guard (snd (sentinel_run i f))) ''disk'' =
      count_of (read_guard f) ''disk'' + int (disk_reactions [fst (sentinel_run i f)])"
      by (rule r(2)) (use Cons.prems(1) in auto)
    then show ?case using IH split unfolding run fst_conv snd_conv by linarith
  qed (simp add: disk_reactions_def)
  moreover have n: "small_ledger (read_guard None)" "count_of (read_guard None) ''disk'' = 0"
    by (simp_all add: read_guard_def small_ledger_def ledger_ok_def count_of_def)
  ultimately have s: "small_ledger (read_guard (snd (sentinel_runs is None)))"
    and c: "count_of (read_guard (snd (sentinel_runs is None))) ''disk'' =
        int (disk_reactions (fst (sentinel_runs is None)))" by auto
  show ?thesis using count_of_range[OF s, of "''disk''"] unfolding c by simp
qed

definition disk_full_run :: "int \<Rightarrow> sentinel_input" where
  "disk_full_run t = \<lparr>force = True, dry_run = False, now_ts = t, repairs_last_hour = 0,
     measured = \<lparr>disk = (True, True), snapshot_age = (False, False), mirror = (False, False)\<rparr>\<rparr>"

theorem ineffective_reaction_bounded_witness:
  "disk_reactions (fst (sentinel_runs [disk_full_run 1, disk_full_run 2, disk_full_run 3] None)) \<le> 2"
  by (rule ineffective_reaction_bounded) (simp add: disk_full_run_def fits64_def)

end
