(* ===== verification/TkilDedup.thy ===== *)
theory TkilDedup
  imports CxxString
begin

text \<open>
  The line deduplication of command output, \<open>tkil/dedup_pass.hpp\<close> and
  \<open>tkil/dedup_pass.cpp\<close>. The prefix ratio is compared as an exact fraction, a pair of
  naturals. The lemmas show that the capped Levenshtein routine decides the edit distance it
  stands for, and that no always-verbatim line is ever lost.
\<close>

section \<open>Lines that are always kept\<close>

definition code_word :: "string \<Rightarrow> string \<Rightarrow> bool" where
  "code_word tag w \<longleftrightarrow>
     prefix tag w \<and> list_all is_digit (drop (length tag) w)
     \<and> 3 \<le> length w - length tag \<and> length w - length tag \<le> 5"

text \<open>
  The case-insensitive search for \<open>\b(?:error|fail|FATAL|FAILED)\b\<close> or
  \<open>\b(?:LNK|RC|C)[0-9]{3,5}\b\<close>: both alternatives consist of word characters between word
  boundaries, so that a match is a maximal word of the line.
\<close>

definition isAlwaysVerbatim :: "string \<Rightarrow> bool" where
  "isAlwaysVerbatim line =
     list_ex (\<lambda>w. w \<in> {''error'', ''fail'', ''fatal'', ''failed''}
                \<or> code_word ''lnk'' w \<or> code_word ''rc'' w \<or> code_word ''c'' w)
       (map lower_str (words_go [] line))"

section \<open>Near-duplicates\<close>

record dedup_opts =
  min_run :: nat
  prefix_ratio :: "nat \<times> nat"
  max_levenshtein :: int
  marker_format :: string

definition default_opts :: dedup_opts where
  "default_opts = \<lparr>min_run = 3, prefix_ratio = (4, 5), max_levenshtein = -1,
     marker_format = '' ('' @ [CHR 0xC3, CHR 0x97] @ ''{N})''\<rparr>"

fun common_prefix :: "string \<Rightarrow> string \<Rightarrow> nat" where
  "common_prefix (c # s) (d # t) = (if c = d then Suc (common_prefix s t) else 0)"
| "common_prefix _ _ = 0"

text \<open>Whether the shared prefix over the shorter length reaches \<open>num / den\<close>.\<close>

definition prefix_reaches :: "nat \<times> nat \<Rightarrow> string \<Rightarrow> string \<Rightarrow> bool" where
  "prefix_reaches r a b =
     (let n = min (length a) (length b) in
      if n = 0 then (if a = [] \<and> b = [] then fst r \<le> snd r else fst r = 0)
      else fst r * n \<le> common_prefix a b * snd r)"

text \<open>One row of the distance table, from the row before it: \<open>left\<close> is the cell to the left.\<close>

fun lev_cells :: "char \<Rightarrow> int \<Rightarrow> int list \<Rightarrow> string \<Rightarrow> int list" where
  "lev_cells x left (p0 # p1 # ps) (y # ys) =
     (let v = min (left + 1) (min (p1 + 1) (p0 + (if x = y then 0 else 1)))
      in v # lev_cells x v (p1 # ps) ys)"
| "lev_cells x left _ _ = []"

definition lev_row :: "char \<Rightarrow> int \<Rightarrow> int list \<Rightarrow> string \<Rightarrow> int list" where
  "lev_row x i prev b = i # lev_cells x i prev b"

fun lev_rows :: "int \<Rightarrow> int \<Rightarrow> int list \<Rightarrow> string \<Rightarrow> string \<Rightarrow> int" where
  "lev_rows cap i prev [] b = last prev"
| "lev_rows cap i prev (x # xs) b =
     (let cur = lev_row x i prev b in
      if cap < fold min cur i then cap + 1 else lev_rows cap (i + 1) cur xs b)"

definition levenshteinCapped :: "string \<Rightarrow> string \<Rightarrow> int \<Rightarrow> int" where
  "levenshteinCapped a b cap =
     (if cap < 0 then 0
      else if cap < \<bar>int (length a) - int (length b)\<bar> then cap + 1
      else lev_rows cap 1 (map int [0..<Suc (length b)]) a b)"

definition sameOrNear :: "dedup_opts \<Rightarrow> string \<Rightarrow> string \<Rightarrow> bool" where
  "sameOrNear opts a b \<longleftrightarrow>
     a = b
     \<or> fst (prefix_ratio opts) < snd (prefix_ratio opts) \<and> prefix_reaches (prefix_ratio opts) a b
     \<or> 0 \<le> max_levenshtein opts \<and> levenshteinCapped a b (max_levenshtein opts) \<le> max_levenshtein opts"

section \<open>The pass\<close>

function renderMarker :: "string \<Rightarrow> nat \<Rightarrow> string" where
  "renderMarker fmt n =
     (case fmt of
        [] \<Rightarrow> []
      | c # cs \<Rightarrow> if prefix ''{N}'' fmt then nat_str n @ renderMarker (drop 3 fmt) n else c # renderMarker cs n)"
  by pat_completeness auto
termination
  by (relation "measure (\<lambda>(fmt, _). length fmt)") auto

declare renderMarker.simps [simp del]

function dedup_lines :: "dedup_opts \<Rightarrow> string list \<Rightarrow> string list" where
  "dedup_lines opts [] = []"
| "dedup_lines opts (head # rest) =
     (if isAlwaysVerbatim head then head # dedup_lines opts rest
      else
        (let run = takeWhile (\<lambda>l. sameOrNear opts head l \<and> \<not> isAlwaysVerbatim l) rest;
             run_len = Suc (length run)
         in (if min_run opts \<le> run_len then [head @ renderMarker (marker_format opts) run_len] else head # run)
            @ dedup_lines opts (drop (length run) rest)))"
  by pat_completeness auto
termination
  by (relation "measure (\<lambda>(_, ls). length ls)") auto

declare dedup_lines.simps [simp del]

definition split_input :: "string \<Rightarrow> string list" where
  "split_input s = map chop_cr (getlines s)"

definition dedupPass :: "dedup_opts \<Rightarrow> string \<Rightarrow> string" where
  "dedupPass opts s =
     (if s = [] then s
      else
        (let result = unlines (dedup_lines opts (split_input s))
         in if last s \<noteq> nl \<and> result \<noteq> [] \<and> last result = nl then butlast result else result))"

section \<open>The distance the capped routine decides\<close>

text \<open>
  \<open>edits n a b\<close>: some sequence of insertions, deletions and substitutions turns \<open>a\<close> into
  \<open>b\<close> at cost \<open>n\<close>.
\<close>

inductive edits :: "int \<Rightarrow> string \<Rightarrow> string \<Rightarrow> bool" where
  empty: "edits 0 [] []"
| delete: "edits n a b \<Longrightarrow> edits (n + 1) (a @ [x]) b"
| insert: "edits n a b \<Longrightarrow> edits (n + 1) a (b @ [y])"
| subst: "edits n a b \<Longrightarrow> edits (n + (if x = y then 0 else 1)) (a @ [x]) (b @ [y])"

text \<open>The distance by recursion on the reversed strings, and the table of its values.\<close>

fun rev_dist :: "string \<Rightarrow> string \<Rightarrow> int" where
  "rev_dist [] b = int (length b)"
| "rev_dist a [] = int (length a)"
| "rev_dist (x # a) (y # b) =
     min (rev_dist (x # a) b + 1) (min (rev_dist a (y # b) + 1) (rev_dist a b + (if x = y then 0 else 1)))"

definition dist :: "string \<Rightarrow> string \<Rightarrow> int" where
  "dist a b = rev_dist (rev a) (rev b)"

lemma rev_dist_Nil2 [simp]: "rev_dist a [] = int (length a)"
  by (cases a) simp_all

lemma dist_simps:
  "dist [] b = int (length b)" "dist a [] = int (length a)"
  "dist (a @ [x]) (b @ [y]) =
    min (dist (a @ [x]) b + 1) (min (dist a (b @ [y]) + 1) (dist a b + (if x = y then 0 else 1)))"
  by (simp_all add: dist_def)

lemma dist_step: "dist (a @ [x]) b \<le> dist a b + 1" "dist a (b @ [y]) \<le> dist a b + 1"
proof -
  have r: "rev_dist (x # a) b \<le> rev_dist a b + 1 \<and> rev_dist a (y # b) \<le> rev_dist a b + 1" for x y a b
    by (cases a; cases b) (auto simp: min_def)
  show "dist (a @ [x]) b \<le> dist a b + 1" "dist a (b @ [y]) \<le> dist a b + 1"
    using r by (simp_all add: dist_def)
qed

lemma edits_ge_dist: "edits n a b \<Longrightarrow> dist a b \<le> n"
proof (induction rule: edits.induct)
  case (delete n a b x)
  then show ?case using dist_step(1)[of a x b] by linarith
next
  case (insert n a b y)
  then show ?case using dist_step(2)[of a b y] by linarith
next
  case (subst n a b x y)
  then show ?case by (simp add: dist_simps(3))
qed (simp add: dist_simps)

lemma edits_dist: "edits (dist a b) a b"
proof -
  have "edits (rev_dist a b) (rev a) (rev b)" for a b
  proof (induction a b rule: rev_dist.induct)
    case (1 b)
    show ?case by (induction b) (auto intro: edits.empty dest: edits.insert simp: add.commute)
  next
    case (2 x a)
    have "edits (int (length s)) (rev s) []" for s
      by (induction s) (auto intro: edits.empty dest: edits.delete simp: add.commute)
    from this[of "x # a"] show ?case by simp
  next
    case (3 x a y b)
    then show ?case
      using edits.insert[OF 3(1), of y] edits.delete[OF 3(2), of x] edits.subst[OF 3(3), of x y]
      by (simp add: min_def)
  qed
  from this[of "rev a" "rev b"] show ?thesis by (simp add: dist_def)
qed

section \<open>The table computes the distance\<close>

definition dist_row :: "string \<Rightarrow> string \<Rightarrow> int list" where
  "dist_row a b = map (\<lambda>j. dist a (take j b)) [0..<Suc (length b)]"

lemma dist_nonneg: "0 \<le> dist a b"
proof -
  have "0 \<le> rev_dist x y" for x y by (induction x y rule: rev_dist.induct) simp_all
  then show ?thesis by (simp add: dist_def)
qed

lemma lev_cells_row:
  assumes "left = dist (a @ [x]) (take j b)" and "j \<le> length b"
  shows "lev_cells x left (map (\<lambda>k. dist a (take k b)) [j..<Suc (length b)]) (drop j b) =
    map (\<lambda>k. dist (a @ [x]) (take k b)) [Suc j..<Suc (length b)]"
  using assms
proof (induction "length b - j" arbitrary: j left)
  case 0
  then show ?case by simp
next
  case (Suc n)
  then have j: "j < length b" by simp
  have d: "drop j b = b ! j # drop (Suc j) b" using j by (simp add: Cons_nth_drop_Suc)
  have u: "[j..<Suc (length b)] = j # Suc j # [Suc (Suc j)..<Suc (length b)]"
    "[Suc j..<Suc (length b)] = Suc j # [Suc (Suc j)..<Suc (length b)]"
    using j by (simp_all add: upt_conv_Cons)
  have t: "take (Suc j) b = take j b @ [b ! j]" using j by (simp add: take_Suc_conv_app_nth)
  let ?v = "dist (a @ [x]) (take (Suc j) b)"
  have v: "min (left + 1) (min (dist a (take (Suc j) b) + 1) (dist a (take j b) + (if x = b ! j then 0 else 1))) = ?v"
    using Suc.prems(1) unfolding t by (simp add: dist_simps(3))
  have "lev_cells x ?v (map (\<lambda>k. dist a (take k b)) [Suc j..<Suc (length b)]) (drop (Suc j) b) =
      map (\<lambda>k. dist (a @ [x]) (take k b)) [Suc (Suc j)..<Suc (length b)]"
    by (rule Suc.hyps(1)) (use Suc.hyps(2) j in simp_all)
  then show ?case
    unfolding d u(1) list.map lev_cells.simps v Let_def by (simp add: u(2) del: upt_Suc)
qed

lemma lev_row_dist: "lev_row x (int (length (a @ [x]))) (dist_row a b) b = dist_row (a @ [x]) b"
proof -
  have "dist_row c b = int (length c) # map (\<lambda>k. dist c (take k b)) [1..<Suc (length b)]" for c
    by (simp add: dist_row_def upt_conv_Cons dist_simps del: upt_Suc)
  moreover have "lev_cells x (int (length (a @ [x]))) (dist_row a b) b =
      map (\<lambda>k. dist (a @ [x]) (take k b)) [1..<Suc (length b)]"
    using lev_cells_row[of "int (length (a @ [x]))" a x 0 b]
    by (simp add: dist_row_def dist_simps del: upt_Suc)
  ultimately show ?thesis by (simp add: lev_row_def)
qed

lemma last_dist_row: "last (dist_row a b) = dist a b"
  by (simp add: dist_row_def)

text \<open>
  Every cell of the next row is at least the smallest cell of this one: a script passes
  through every row of the table.
\<close>

lemma fold_min_le: "fold min xs (m::int) \<le> m" "y \<in> set xs \<Longrightarrow> fold min xs m \<le> y"
proof -
  have "fold min xs m \<le> m \<and> (\<forall>y \<in> set xs. fold min xs m \<le> y)"
  proof (induction xs arbitrary: m)
    case (Cons x xs)
    have "fold min xs (min x m) \<le> min x m" "\<forall>y \<in> set xs. fold min xs (min x m) \<le> y"
      using Cons.IH[of "min x m"] by blast+
    then show ?case by auto
  qed simp
  then show "fold min xs m \<le> m" "y \<in> set xs \<Longrightarrow> fold min xs m \<le> y" by auto
qed

lemma fold_min_in: "fold min xs (m::int) = m \<or> fold min xs m \<in> set xs"
proof (induction xs arbitrary: m)
  case (Cons x xs)
  then show ?case using Cons.IH[of "min x m"] by (auto simp: min_def)
qed simp

lemma row_lower_bound:
  assumes "\<forall>j \<le> length b. k \<le> dist a (take j b)"
  shows "\<forall>j \<le> length b. k \<le> dist (a @ c) (take j b)"
proof (induction c rule: rev_induct)
  case Nil
  then show ?case using assms by simp
next
  case (snoc x c)
  show ?case
  proof (intro allI impI)
    fix j
    assume "j \<le> length b"
    then show "k \<le> dist (a @ c @ [x]) (take j b)"
    proof (induction j)
      case 0
      have "k \<le> dist (a @ c) (take 0 b)" using snoc by blast
      then show ?case by (simp add: dist_simps)
    next
      case (Suc j)
      have t: "take (Suc j) b = take j b @ [b ! j]" using Suc.prems by (simp add: take_Suc_conv_app_nth)
      have "k \<le> dist (a @ c @ [x]) (take j b)" using Suc by simp
      moreover have "k \<le> dist (a @ c) (take (Suc j) b)" "k \<le> dist (a @ c) (take j b)"
        using snoc Suc.prems by (blast, simp)
      ultimately show ?case
        using dist_simps(3)[of "a @ c" x "take j b" "b ! j"] by (simp add: t split: if_splits)
    qed
  qed
qed

lemma lev_rows_decides:
  "lev_rows cap (int (length a) + 1) (dist_row a b) c b \<le> cap \<longleftrightarrow> dist (a @ c) b \<le> cap"
proof (induction c arbitrary: a)
  case Nil
  then show ?case by (simp add: last_dist_row)
next
  case (Cons x c)
  let ?cur = "dist_row (a @ [x]) b"
  have row: "lev_row x (int (length a) + 1) (dist_row a b) b = ?cur"
    using lev_row_dist[of x a b] by (simp add: add.commute)
  have IH: "lev_rows cap (int (length a) + 1 + 1) ?cur c b \<le> cap \<longleftrightarrow> dist (a @ x # c) b \<le> cap"
    using Cons.IH[of "a @ [x]"] by (simp add: add.commute)
  show ?case
  proof (cases "cap < fold min ?cur (int (length a) + 1)")
    case True
    have "\<forall>j \<le> length b. cap + 1 \<le> dist (a @ [x]) (take j b)"
    proof (intro allI impI)
      fix j
      assume "j \<le> length b"
      then have "dist (a @ [x]) (take j b) \<in> set ?cur" unfolding dist_row_def by (auto simp del: upt_Suc)
      then show "cap + 1 \<le> dist (a @ [x]) (take j b)"
        using True fold_min_le(2)[of "dist (a @ [x]) (take j b)" ?cur "int (length a) + 1"] by linarith
    qed
    from row_lower_bound[OF this, of c, rule_format, of "length b"]
    have "\<not> dist (a @ x # c) b \<le> cap" by simp
    then show ?thesis using True row by (simp add: Let_def)
  next
    case False
    then show ?thesis using row IH by (simp add: Let_def)
  qed
qed

lemma dist_length_diff: "\<bar>int (length a) - int (length b)\<bar> \<le> dist a b"
proof -
  have "\<bar>int (length x) - int (length y)\<bar> \<le> rev_dist x y" for x y
    by (induction x y rule: rev_dist.induct) auto
  from this[of "rev a" "rev b"] show ?thesis by (simp add: dist_def)
qed

lemma dist_edits: "(\<exists>n \<le> k. edits n a b) \<longleftrightarrow> dist a b \<le> k"
  using edits_dist edits_ge_dist by (meson order_trans)

lemma first_row: "dist_row [] b = map int [0..<Suc (length b)]"
  by (rule nth_equalityI) (simp_all add: dist_row_def dist_simps min_def del: upt_Suc)

lemma table_decides: "lev_rows cap 1 (map int [0..<Suc (length b)]) a b \<le> cap \<longleftrightarrow> dist a b \<le> cap"
  using lev_rows_decides[of cap "[]" b a] by (simp add: first_row)

text \<open>
  Property C8. The capped Levenshtein routine with its early exits decides the edit distance: its
  result is within the cap exactly when some sequence of at most that many insertions,
  deletions and substitutions turns one line into the other.
\<close>

theorem levenshteinCapped_decides:
  assumes "0 \<le> cap"
  shows "levenshteinCapped a b cap \<le> cap \<longleftrightarrow> (\<exists>n \<le> cap. edits n a b)"
proof (cases "cap < \<bar>int (length a) - int (length b)\<bar>")
  case True
  then show ?thesis using assms dist_length_diff[of a b] by (simp add: levenshteinCapped_def dist_edits)
next
  case False
  then show ?thesis using assms table_decides by (simp add: levenshteinCapped_def dist_edits)
qed

theorem levenshteinCapped_decides_witness:
  "levenshteinCapped ''kitten'' ''sitting'' 3 \<le> 3 \<longleftrightarrow> (\<exists>n \<le> 3. edits n ''kitten'' ''sitting'')"
  by (rule levenshteinCapped_decides) simp

section \<open>What deduplication keeps\<close>

lemma dedup_keeps_verbatim: "subseq (filter isAlwaysVerbatim ls) (dedup_lines opts ls)"
proof (induction opts ls rule: dedup_lines.induct)
  case (2 opts head rest)
  show ?case
  proof (cases "isAlwaysVerbatim head")
    case True
    then show ?thesis using 2(1) by (subst dedup_lines.simps) simp
  next
    case False
    define run where "run = takeWhile (\<lambda>l. sameOrNear opts head l \<and> \<not> isAlwaysVerbatim l) rest"
    have r: "rest = run @ drop (length run) rest"
      unfolding run_def by (metis append_eq_conv_conj takeWhile_dropWhile_id)
    have "filter isAlwaysVerbatim run = []"
      unfolding run_def by (auto simp: filter_empty_conv dest: set_takeWhileD)
    then have f: "filter isAlwaysVerbatim (head # rest) = filter isAlwaysVerbatim (drop (length run) rest)"
      using False r by (metis append_Nil filter.simps(2) filter_append)
    have "subseq (filter isAlwaysVerbatim (drop (length run) rest)) (dedup_lines opts (drop (length run) rest))"
      using 2(2)[OF False run_def refl] .
    then show ?thesis
      unfolding f using False by (subst dedup_lines.simps) (simp add: Let_def run_def list_emb_append2)
  qed
qed (simp add: dedup_lines.simps)

lemma renderMarker_no_nl: "nl \<notin> set fmt \<Longrightarrow> nl \<notin> set (renderMarker fmt n)"
proof (induction fmt n rule: renderMarker.induct)
  case (1 fmt n)
  have d: "nl \<notin> set (nat_str n)" using nat_str_digits[of n] by (auto simp: char_class_defs)
  show ?case
  proof (cases fmt)
    case (Cons c cs)
    then show ?thesis
      using 1 d by (subst renderMarker.simps) (auto dest: in_set_dropD)
  qed (simp add: renderMarker.simps)
qed

lemma dedup_lines_no_nl:
  "nl \<notin> set (marker_format opts) \<Longrightarrow> \<forall>l \<in> set ls. nl \<notin> set l \<Longrightarrow> \<forall>l \<in> set (dedup_lines opts ls). nl \<notin> set l"
proof (induction opts ls rule: dedup_lines.induct)
  case (2 opts head rest)
  show ?case
  proof (cases "isAlwaysVerbatim head")
    case True
    then show ?thesis using 2 by (subst dedup_lines.simps) simp
  next
    case False
    define run where "run = takeWhile (\<lambda>l. sameOrNear opts head l \<and> \<not> isAlwaysVerbatim l) rest"
    have "set run \<subseteq> set rest" unfolding run_def by (auto dest: set_takeWhileD)
    moreover have "\<forall>l \<in> set (dedup_lines opts (drop (length run) rest)). nl \<notin> set l"
      using 2(2)[OF False run_def refl 2(3)] 2(4) by (meson in_set_dropD list.set_intros(2))
    ultimately show ?thesis
      using 2(3,4) False renderMarker_no_nl[of "marker_format opts"]
      by (subst dedup_lines.simps) (auto simp: Let_def run_def[symmetric])
  qed
qed (simp add: dedup_lines.simps)

lemma verbatim_nonempty: "isAlwaysVerbatim l \<Longrightarrow> l \<noteq> []"
  by (auto simp: isAlwaysVerbatim_def)

text \<open>
  Property C9. No always-verbatim line is lost: the lines of the input that carry an error word or
  a tool code are, in order, lines of the output, whatever the options, provided the marker
  holds no newline.
\<close>

theorem dedupPass_keeps_verbatim:
  assumes "nl \<notin> set (marker_format opts)"
  shows "subseq (filter isAlwaysVerbatim (split_input s)) (getlines (dedupPass opts s))"
proof (cases "s = []")
  case False
  let ?ls = "dedup_lines opts (split_input s)" and ?P = "\<lambda>l::string. l \<noteq> []"
  have "\<forall>l \<in> set (split_input s). nl \<notin> set l"
    by (auto simp: split_input_def chop_cr_def dest: getlines_on_no_sep in_set_butlastD split: if_splits)
  note no_nl = dedup_lines_no_nl[OF assms this]
  have out: "getlines (dedupPass opts s) = ?ls \<or> getlines (dedupPass opts s) = getlines (join [nl] ?ls)"
  proof (cases "last s \<noteq> nl \<and> unlines ?ls \<noteq> [] \<and> last (unlines ?ls) = nl")
    case True
    then have "?ls \<noteq> []" by auto
    then have "butlast (unlines ?ls) = join [nl] ?ls" by (simp add: unlines_join)
    then show ?thesis using True False by (simp add: dedupPass_def Let_def)
  next
    case False': False
    then have "dedupPass opts s = unlines ?ls" using False unfolding dedupPass_def Let_def by (simp only: if_False)
    then show ?thesis using getlines_unlines[OF no_nl] by simp
  qed
  have f: "filter ?P (getlines (dedupPass opts s)) = filter ?P ?ls"
    using out getlines_join_nonempty[OF no_nl] by auto
  have "filter isAlwaysVerbatim (split_input s) = filter ?P (filter isAlwaysVerbatim (split_input s))"
    unfolding filter_filter by (rule filter_cong) (use verbatim_nonempty in auto)
  moreover have "subseq (filter ?P (filter isAlwaysVerbatim (split_input s))) (filter ?P ?ls)"
    by (intro subseq_filter dedup_keeps_verbatim)
  moreover have "subseq (filter ?P (getlines (dedupPass opts s))) (getlines (dedupPass opts s))"
    by (rule subseq_filter_left)
  ultimately show ?thesis unfolding f by (metis subseq_order.order_trans)
qed (simp add: split_input_def dedupPass_def)

theorem dedupPass_keeps_verbatim_witness:
  "subseq (filter isAlwaysVerbatim (split_input ''ok\<newline>ok\<newline>ok\<newline>x.c: error C2065\<newline>''))
     (getlines (dedupPass default_opts ''ok\<newline>ok\<newline>ok\<newline>x.c: error C2065\<newline>''))"
  by (rule dedupPass_keeps_verbatim) (simp add: default_opts_def)

end
