(* ===== verification/TkilOutput.thy ===== *)
theory TkilOutput
  imports CxxString
begin

text \<open>
  How \<open>icmg run\<close> shows a command's output: \<open>tkil/output_tier.hpp\<close> (the urgency tiers and the
  warning summary), \<open>tkil/output_delta.hpp\<close> (the lines that changed since the last run) and
  the branch of \<open>tkil/tkil.cpp\<close> that composes them. The lemmas show when the full output is
  printed, what the one-character answer means, and what the size cap hides.
\<close>

section \<open>Tiers\<close>

datatype output_tier = Tier_Error | Tier_Warning | Tier_Success

definition has_any :: "string list \<Rightarrow> string \<Rightarrow> bool" where
  "has_any kws s = list_ex (\<lambda>kw. contains kw s) kws"

definition tierHasErrorKeyword :: "string \<Rightarrow> bool" where
  "tierHasErrorKeyword s =
     has_any [''error'', ''fatal'', ''failed'', ''panic'', ''segfault'', ''abort'', ''assertion''] s"

definition tierHasWarnKeyword :: "string \<Rightarrow> bool" where
  "tierHasWarnKeyword s = has_any [''warning'', ''warn:'', '' warn '', ''deprecated''] s"

definition tierIsBenignNotice :: "string \<Rightarrow> bool" where
  "tierIsBenignNotice line \<longleftrightarrow>
     prefix ''warning: '' line \<and>
     (contains (''in the working copy of '' @ [sq]) line \<and>
        (contains ''LF will be replaced by CRLF'' line \<or> contains ''CRLF will be replaced by LF'' line)
      \<or> contains ''unable to find all commit-graph files'' line)"

text \<open>The lines of an output with their newlines.\<close>

fun raw_lines :: "string \<Rightarrow> string list" where
  "raw_lines [] = []"
| "raw_lines (c # cs) =
     (if c = nl then [c] # raw_lines cs
      else (case raw_lines cs of
              [] \<Rightarrow> [[c]]
            | l # ls \<Rightarrow> (c # l) # ls))"

definition bare_line :: "string \<Rightarrow> string" where
  "bare_line l = rev (dropWhile (\<lambda>c. c = nl \<or> c = cr) (rev l))"

definition stripBenignNotices :: "string \<Rightarrow> string \<times> nat" where
  "stripBenignNotices s =
     (let ls = raw_lines s
      in (concat (filter (\<lambda>l. \<not> tierIsBenignNotice (bare_line l)) ls),
          length (filter (\<lambda>l. tierIsBenignNotice (bare_line l)) ls)))"

fun classify_lines :: "bool \<Rightarrow> string list \<Rightarrow> output_tier" where
  "classify_lines any_warn [] = (if any_warn then Tier_Warning else Tier_Success)"
| "classify_lines any_warn (l # ls) =
     (if tierIsBenignNotice l then classify_lines any_warn ls
      else if tierHasErrorKeyword (lower_str l) then Tier_Error
      else classify_lines (any_warn \<or> tierHasWarnKeyword (lower_str l)) ls)"

definition classifyTier :: "int \<Rightarrow> string \<Rightarrow> output_tier" where
  "classifyTier exit_code full_output =
     (if exit_code \<noteq> 0 then Tier_Error else classify_lines False (getlines full_output))"

record tier_summary =
  summary_text :: string
  total_lines :: nat
  shown_lines :: nat

definition renderWarningSummary :: "string \<Rightarrow> int \<Rightarrow> tier_summary" where
  "renderWarningSummary full_output head_lines =
     (let lines = getlines full_output;
          shown = min (length lines) (nat head_lines);
          remaining = length lines - shown
      in \<lparr>summary_text = unlines (take shown lines)
            @ (if 0 < remaining
               then ''[... '' @ nat_str remaining @ '' more line(s); --no-tier for full]'' @ [nl] else []),
          total_lines = length lines, shown_lines = shown\<rparr>)"

section \<open>The delta\<close>

definition kDeltaOutputCapBytes :: nat where
  "kDeltaOutputCapBytes = 64 * 1024"

definition isSacredLine :: "string \<Rightarrow> bool" where
  "isSacredLine line =
     has_any [''error'', ''fatal'', ''failed'', ''assert'', ''panic'', ''segfault''] (lower_str line)"

record delta_result =
  delta_text :: string
  added_lines :: nat
  removed_lines :: nat
  total_cur :: nat
  identical :: bool
  hash_only :: bool
  first_run :: bool

definition delta_lines :: "string \<Rightarrow> string list" where
  "delta_lines s = map bare_line (getlines s)"

definition delta0 :: delta_result where
  "delta0 = \<lparr>delta_text = [], added_lines = 0, removed_lines = 0, total_cur = 0,
     identical = False, hash_only = False, first_run = False\<rparr>"

definition computeOutputDelta :: "string \<Rightarrow> string \<Rightarrow> bool \<Rightarrow> bool \<Rightarrow> delta_result" where
  "computeOutputDelta prev cur exit_ok sacred_always =
     (if prev = [] then delta0\<lparr>first_run := True, delta_text := cur\<rparr>
      else if \<not> exit_ok then delta0\<lparr>delta_text := cur\<rparr>
      else if kDeltaOutputCapBytes < length cur \<or> kDeltaOutputCapBytes < length prev
        then delta0\<lparr>hash_only := True\<rparr>
      else
        (let prev_lines = delta_lines prev; cur_lines = delta_lines cur;
             is_new = (\<lambda>l. l \<notin> set prev_lines);
             sacred = (\<lambda>l. sacred_always \<and> isSacredLine l);
             added = length (filter (\<lambda>l. l \<noteq> [] \<and> is_new l) cur_lines);
             removed = length (filter (\<lambda>l. l \<noteq> [] \<and> l \<notin> set cur_lines) (remdups prev_lines));
             base = delta0\<lparr>added_lines := added, removed_lines := removed, total_cur := length cur_lines\<rparr>
         in if added = 0 \<and> removed = 0 \<and> \<not> list_ex (\<lambda>l. l \<noteq> [] \<and> sacred l) cur_lines
            then base\<lparr>identical := True\<rparr>
            else base\<lparr>delta_text := unlines (filter (\<lambda>l. l \<noteq> [] \<and> (is_new l \<or> sacred l)) cur_lines)\<rparr>))"

section \<open>What is printed\<close>

record filtered =
  f_output :: string
  f_lines :: nat
  f_original :: nat
  f_truncated :: bool

definition emit_full :: "bool \<Rightarrow> filtered \<Rightarrow> string" where
  "emit_full raw fr =
     f_output fr @ (if \<not> raw \<and> f_truncated fr
       then ''['' @ nat_str (f_lines fr) @ ''/'' @ nat_str (f_original fr) @ '' lines shown]'' @ [nl] else [])"

text \<open>The output after the notices are hidden, and the standard output of the branch.\<close>

definition hide_notices :: "bool \<Rightarrow> filtered \<Rightarrow> filtered" where
  "hide_notices use_tier fr =
     (if use_tier then fr\<lparr>f_output := fst (stripBenignNotices (f_output fr))\<rparr> else fr)"

definition print_success :: "bool \<Rightarrow> bool \<Rightarrow> string \<Rightarrow> filtered \<Rightarrow> string" where
  "print_success raw use_delta prev fr =
     (if \<not> use_delta then emit_full raw fr
      else
        (let d = computeOutputDelta prev (f_output fr) True False in
         if first_run d then emit_full raw fr
         else if hash_only d then
           ''[tier:ok] output too large for delta. Use --no-delta for full output.'' @ [nl]
         else if identical d then ''.'' @ [nl]
         else ''~ ok ('' @ nat_str (f_lines fr) @ '' lines, +'' @ nat_str (added_lines d)
              @ (if 0 < removed_lines d then '' -'' @ nat_str (removed_lines d) else [])
              @ '' changed)'' @ [nl] @ delta_text d
              @ (if delta_text d \<noteq> [] \<and> last (delta_text d) \<noteq> nl then [nl] else [])
              @ ''[icmg run --no-delta] for full output'' @ [nl]))"

definition run_output :: "bool \<Rightarrow> bool \<Rightarrow> bool \<Rightarrow> int \<Rightarrow> string \<Rightarrow> filtered \<Rightarrow> string" where
  "run_output use_tier use_delta raw code prev fr0 =
     (let fr = hide_notices use_tier fr0 in
      case (if use_tier then classifyTier code (f_output fr) else Tier_Error) of
        Tier_Error \<Rightarrow> emit_full raw fr
      | Tier_Warning \<Rightarrow>
          (let w = renderWarningSummary (f_output fr) 3
           in ''[tier:warn '' @ nat_str (shown_lines w) @ ''/'' @ nat_str (total_lines w) @ '' lines]'' @ [nl]
              @ summary_text w)
      | Tier_Success \<Rightarrow> print_success raw use_delta prev fr)"

section \<open>Properties\<close>

lemma classify_error_iff:
  "classify_lines w ls = Tier_Error \<longleftrightarrow>
   (\<exists>l \<in> set ls. \<not> tierIsBenignNotice l \<and> tierHasErrorKeyword (lower_str l))"
  by (induction ls arbitrary: w) auto

lemma raw_lines_concat: "concat (raw_lines s) = s"
proof (induction s)
  case (Cons c cs)
  then show ?case by (cases "raw_lines cs") auto
qed simp

text \<open>
  An error is never summarised away: when the command fails, or a line of its output
  that is no benign notice carries an error keyword in any case, the output is printed in full,
  whatever the previous run printed.
\<close>

theorem errors_print_in_full:
  assumes "code \<noteq> 0 \<or> (\<exists>l \<in> set (getlines (f_output (hide_notices use_tier fr))).
      \<not> tierIsBenignNotice l \<and> tierHasErrorKeyword (lower_str l))"
  shows "run_output use_tier use_delta raw code prev fr = emit_full raw (hide_notices use_tier fr)"
proof -
  have "use_tier \<Longrightarrow> classifyTier code (f_output (hide_notices use_tier fr)) = Tier_Error"
    using assms unfolding classifyTier_def by (simp add: classify_error_iff)
  then show ?thesis by (cases use_tier) (simp_all add: run_output_def Let_def)
qed

theorem errors_print_in_full_witness:
  "run_output True True False 0 ''ok'' \<lparr>f_output = ''x.c: ERROR'', f_lines = 1, f_original = 1, f_truncated = False\<rparr> =
   emit_full False (hide_notices True \<lparr>f_output = ''x.c: ERROR'', f_lines = 1, f_original = 1, f_truncated = False\<rparr>)"
proof (rule errors_print_in_full)
  have "getlines (f_output (hide_notices True \<lparr>f_output = ''x.c: ERROR'', f_lines = 1, f_original = 1,
      f_truncated = False\<rparr>)) = [''x.c: ERROR'']" by code_simp
  moreover have "\<not> tierIsBenignNotice ''x.c: ERROR''" by code_simp
  moreover have "tierHasErrorKeyword (lower_str ''x.c: ERROR'')" by code_simp
  ultimately show "(0::int) \<noteq> 0 \<or> (\<exists>l \<in> set (getlines (f_output (hide_notices True
      \<lparr>f_output = ''x.c: ERROR'', f_lines = 1, f_original = 1, f_truncated = False\<rparr>))).
      \<not> tierIsBenignNotice l \<and> tierHasErrorKeyword (lower_str l))" by simp
qed

text \<open>
  The delta is faithful: when it reports no change, the two outputs have the same
  non-empty lines; otherwise its text has exactly the new lines, in order.
\<close>

theorem delta_faithful:
  assumes "prev \<noteq> []" and "length prev \<le> kDeltaOutputCapBytes" and "length cur \<le> kDeltaOutputCapBytes"
  shows "if identical (computeOutputDelta prev cur True False)
    then set (delta_lines prev) - {[]} = set (delta_lines cur) - {[]}
    else getlines (delta_text (computeOutputDelta prev cur True False)) =
           filter (\<lambda>l. l \<noteq> [] \<and> l \<notin> set (delta_lines prev)) (delta_lines cur)"
proof -
  have n: "nl \<notin> set l" if "l \<in> set (delta_lines cur)" for l
  proof -
    from that obtain k where "k \<in> set (getlines cur)" "l = bare_line k"
      unfolding delta_lines_def set_map by blast
    moreover have "set (bare_line k) \<subseteq> set k"
      using set_dropWhileD[of _ _ "rev k"] by (fastforce simp: bare_line_def)
    ultimately show ?thesis using getlines_on_no_sep[of k nl cur] by blast
  qed
  have "getlines (unlines (filter (\<lambda>l. l \<noteq> [] \<and> l \<notin> set (delta_lines prev)) (delta_lines cur))) =
      filter (\<lambda>l. l \<noteq> [] \<and> l \<notin> set (delta_lines prev)) (delta_lines cur)"
    by (rule getlines_unlines) (use n in auto)
  then show ?thesis
    using assms by (auto simp: computeOutputDelta_def delta0_def Let_def list_ex_iff filter_empty_conv not_less)
qed

theorem delta_faithful_witness:
  "if identical (computeOutputDelta ''a\<newline>b'' ''a\<newline>c'' True False)
    then set (delta_lines ''a\<newline>b'') - {[]} = set (delta_lines ''a\<newline>c'') - {[]}
    else getlines (delta_text (computeOutputDelta ''a\<newline>b'' ''a\<newline>c'' True False)) =
           filter (\<lambda>l. l \<noteq> [] \<and> l \<notin> set (delta_lines ''a\<newline>b'')) (delta_lines ''a\<newline>c'')"
  by (rule delta_faithful) (simp_all add: kDeltaOutputCapBytes_def)

lemma large_output_hidden:
  "prev \<noteq> [] \<Longrightarrow> kDeltaOutputCapBytes < length (f_output fr) \<Longrightarrow>
   print_success raw True prev fr =
     ''[tier:ok] output too large for delta. Use --no-delta for full output.'' @ [nl]"
  by (simp add: print_success_def computeOutputDelta_def delta0_def Let_def)

end
