(* ===== verification/Mcp.thy ===== *)
theory Mcp
  imports CxxString
begin

text \<open>
  The MCP server: \<open>mcp/mcp_toolset.hpp\<close> (which tools are exposed, the call policy, tool
  search) and \<open>mcp/server.cpp\<close> (request dispatch, the tool-call handler with its policy,
  eviction, limits and audit, resources). JSON values are a datatype with the accessors the
  code uses; parsing, printing and the texts of the JSON library's exceptions, the registered
  tools and the resource queries are arguments. The lemmas show that what is listed may be
  called, that each request gets one answer, and what a refused call leaves alone.
\<close>

section \<open>Toolsets\<close>

definition coreToolset :: "string set" where
  "coreToolset = {''icmg_recall'', ''icmg_store'', ''icmg_graph_context'', ''icmg_graph_related'',
     ''icmg_code_search'', ''icmg_compress'', ''icmg_savings'', ''icmg_fetch'', ''icmg_ingest'',
     ''icmg_sync'', ''icmg_tool_search''}"

definition csv_names :: "string \<Rightarrow> string set" where
  "csv_names csv = set (filter (\<lambda>w. w \<noteq> []) (split_on (CHR '','') (filter (\<lambda>c. c \<noteq> CHR '' '') csv)))"

definition selectExposedTools :: "string list \<Rightarrow> string \<Rightarrow> string \<Rightarrow> string list" where
  "selectExposedTools all profile csv =
     (if csv \<noteq> [] then filter (\<lambda>n. n \<in> csv_names csv) all
      else if profile = ''core'' then filter (\<lambda>n. n \<in> coreToolset) all
      else all)"

definition isMutatingTool :: "string \<Rightarrow> bool" where
  "isMutatingTool name \<longleftrightarrow> name \<in> {''icmg_store'', ''icmg_forget'', ''icmg_correction'', ''icmg_distill'',
     ''icmg_sync'', ''icmg_ingest'', ''icmg_feedback_record'', ''icmg_fail'', ''icmg_receipt'',
     ''icmg_rule_apply'', ''icmg_port_apply'', ''icmg_style_clone_apply'', ''icmg_project_switch'',
     ''icmg_write_mode''}"

definition trim_item :: "string \<Rightarrow> string" where
  "trim_item s =
     (let b = (\<lambda>c. c = CHR '' '' \<or> c = tab) in rev (dropWhile b (rev (dropWhile b s))))"

definition isToolCallDenied :: "string \<Rightarrow> string \<Rightarrow> bool \<Rightarrow> bool" where
  "isToolCallDenied name deny_csv readonly \<longleftrightarrow>
     readonly \<and> isMutatingTool name
     \<or> list_ex (\<lambda>item. trim_item item \<noteq> [] \<and> trim_item item = name) (getlines_on (CHR '','') deny_csv)"

record tool_entry =
  entry_name :: string
  entry_description :: string

text \<open>The words of at least three characters, and the score of an entry, a whole number.\<close>

definition search_words :: "string \<Rightarrow> string set" where
  "search_words s =
     set (filter (\<lambda>w. 3 \<le> length w) (split_on (CHR '' '') (map (\<lambda>c. if is_alnum c then c else CHR '' '') s)))"

definition tool_score :: "string \<Rightarrow> tool_entry \<Rightarrow> nat" where
  "tool_score query e =
     (let q = lower_str query; nm = lower_str (entry_name e);
          twords = search_words (nm @ '' '' @ lower_str (entry_description e))
      in (if nm = q then 10 else if q \<noteq> [] \<and> contains q nm then 5 else 0)
         + card (search_words q \<inter> twords))"

definition rankToolMatches :: "tool_entry list \<Rightarrow> string \<Rightarrow> nat \<Rightarrow> (string \<times> nat) list" where
  "rankToolMatches entries query max_out =
     take max_out (sort_key (\<lambda>h. - int (snd h))
       (filter (\<lambda>h. 0 < snd h) (map (\<lambda>e. (entry_name e, tool_score query e)) entries)))"

section \<open>The server\<close>

datatype json = Null | Boolean bool | Number int | Text string | Array "json list"
  | Object "(string \<times> json) list"

fun member :: "json \<Rightarrow> string \<Rightarrow> json option" where
  "member (Object kvs) k = map_of kvs k"
| "member _ k = None"

fun text_of :: "json \<Rightarrow> string option" where
  "text_of (Text s) = Some s"
| "text_of _ = None"

datatype response = Reply json json | Failure json int string

record node_row =
  row_id :: int
  row_deleted :: bool
  row_importance :: int
  row_last_used :: "int option"
  row_created :: int

record mcp_db =
  nodes :: "node_row list"
  audit :: "(string \<times> string) list"

datatype tool_result = Tool_Ok json | Mcp_Error int string | Tool_Exception string

record tool =
  tool_name :: string
  tool_description :: string
  tool_schema :: json
  tool_annotations :: json
  tool_call :: "json \<Rightarrow> mcp_db \<Rightarrow> tool_result \<times> mcp_db"

record mcp_env =
  profile :: string
  tools_csv :: string
  deny :: string
  readonly :: bool
  lazy :: bool
  version :: string

text \<open>
  The surroundings: the registry in its iteration order, the JSON library, whether the eviction
  statement fails, and the row queries behind the resources.
\<close>

record mcp_world =
  registry :: "(string \<times> tool) list"
  parse_line :: "string \<Rightarrow> string + json"
  dump :: "json \<Rightarrow> string"
  type_error :: "json \<Rightarrow> string"
  evict_fails :: "mcp_db \<Rightarrow> bool"
  list_rows :: "mcp_db \<Rightarrow> json"
  find_row :: "string \<Rightarrow> string \<Rightarrow> mcp_db \<Rightarrow> json option"

record mcp_state =
  initialized :: bool
  db :: mcp_db

definition request_id :: "json \<Rightarrow> json" where
  "request_id req = (case member req ''id'' of Some i \<Rightarrow> i | None \<Rightarrow> Null)"

section \<open>Handlers\<close>

definition handleInitialize :: "mcp_env \<Rightarrow> json \<Rightarrow> mcp_state \<Rightarrow> response list \<times> mcp_state" where
  "handleInitialize env req s =
     ([Reply (request_id req) (Object
        [(''protocolVersion'', Text ''2024-11-05''),
         (''serverInfo'', Object [(''name'', Text ''icmg''), (''version'', Text (version env))]),
         (''capabilities'', Object
           [(''tools'', Object [(''listChanged'', Boolean False)]),
            (''resources'', Object [(''subscribe'', Boolean False), (''listChanged'', Boolean False)])])])],
      s\<lparr>initialized := True\<rparr>)"

definition listed_keys :: "mcp_env \<Rightarrow> mcp_world \<Rightarrow> string list" where
  "listed_keys env w =
     (let keys = map fst (registry w);
          keys1 = (if profile env \<noteq> [] \<or> tools_csv env \<noteq> []
                   then selectExposedTools keys (profile env) (tools_csv env) else keys)
      in if deny env \<noteq> [] \<or> readonly env
         then filter (\<lambda>k. \<not> isToolCallDenied k (deny env) (readonly env)) keys1 else keys1)"

definition tool_json :: "mcp_env \<Rightarrow> tool \<Rightarrow> json" where
  "tool_json env t = Object
     [(''name'', Text (tool_name t)),
      (''description'', Text (if lazy env \<and> 160 < length (tool_description t)
                             then take 160 (tool_description t) @ ''...'' else tool_description t)),
      (''inputSchema'', if lazy env then Object [(''type'', Text ''object'')] else tool_schema t),
      (''annotations'', tool_annotations t)]"

definition handleListTools :: "mcp_env \<Rightarrow> mcp_world \<Rightarrow> json \<Rightarrow> mcp_state \<Rightarrow> response list \<times> mcp_state" where
  "handleListTools env w req s =
     ([Reply (request_id req) (Object [(''tools'',
         Array (map (\<lambda>k. tool_json env (the (map_of (registry w) k))) (listed_keys env w)))])], s)"

definition live_nodes :: "mcp_db \<Rightarrow> node_row list" where
  "live_nodes d = filter (\<lambda>r. \<not> row_deleted r) (nodes d)"

definition row_age_key :: "node_row \<Rightarrow> int" where
  "row_age_key r = (case row_last_used r of Some t \<Rightarrow> t | None \<Rightarrow> row_created r)"

definition evict_nodes :: "mcp_db \<Rightarrow> mcp_db" where
  "evict_nodes d =
     (let victims = map row_id (take 500 (sort_key row_age_key
            (filter (\<lambda>r. row_importance r < 3) (live_nodes d))))
      in d\<lparr>nodes := filter (\<lambda>r. row_id r \<notin> set victims) (nodes d)\<rparr>)"

definition denied_text :: "mcp_env \<Rightarrow> string \<Rightarrow> string" where
  "denied_text env n = ''Tool '' @ [sq] @ n @ [sq] @ '' is denied by policy (''
     @ (if readonly env \<and> isMutatingTool n then ''ICMG_MCP_READONLY'' else ''ICMG_MCP_DENY'') @ '')''"

text \<open>The audit summary of the arguments; \<open>Inl\<close> is the argument that is not a string.\<close>

fun summary_of :: "json \<Rightarrow> string \<Rightarrow> string list \<Rightarrow> json + string" where
  "summary_of args acc [] = Inr acc"
| "summary_of args acc (k # ks) =
     (case member args k of
        None \<Rightarrow> summary_of args acc ks
      | Some v \<Rightarrow> (case text_of v of None \<Rightarrow> Inl v | Some t \<Rightarrow> summary_of args (k @ ''='' @ take 80 t) ks))"

definition log_audit :: "string \<Rightarrow> string \<Rightarrow> mcp_db \<Rightarrow> mcp_db" where
  "log_audit n summary d = d\<lparr>audit := audit d @ [(n, summary)]\<rparr>"

definition invoke_tool :: "mcp_world \<Rightarrow> json \<Rightarrow> string \<Rightarrow> json \<Rightarrow> tool \<Rightarrow> mcp_state \<Rightarrow> response list \<times> mcp_state" where
  "invoke_tool w rid n args t s =
     (let (r, d) = tool_call t args (db s) in
      case r of
        Mcp_Error code msg \<Rightarrow> ([Failure rid code msg], s\<lparr>db := d\<rparr>)
      | Tool_Exception msg \<Rightarrow> ([Failure rid (-32603) (''Tool error: '' @ msg)], s\<lparr>db := d\<rparr>)
      | Tool_Ok v \<Rightarrow>
          (case summary_of args [] [''query'', ''path'', ''topic''] of
             Inl bad \<Rightarrow> ([Failure rid (-32603) (''Tool error: '' @ type_error w bad)], s\<lparr>db := d\<rparr>)
           | Inr summary \<Rightarrow>
               ([Reply rid (Object [(''content'', Array [Object [(''type'', Text ''text''), (''text'', Text (dump w v))]])])],
                s\<lparr>db := log_audit n summary d\<rparr>)))"

definition internal_error :: "json \<Rightarrow> string \<Rightarrow> mcp_state \<Rightarrow> response list \<times> mcp_state" where
  "internal_error rid msg s = ([Failure rid (-32603) (''Internal error: '' @ msg)], s)"

definition handleCallTool :: "mcp_env \<Rightarrow> mcp_world \<Rightarrow> json \<Rightarrow> mcp_state \<Rightarrow> response list \<times> mcp_state" where
  "handleCallTool env w req s =
     (let rid = request_id req in
      case member req ''params'' of
        None \<Rightarrow> ([Failure rid (-32602) ''Missing params''], s)
      | Some params \<Rightarrow>
          (case Option.bind (member params ''name'') text_of of
             None \<Rightarrow> ([Failure rid (-32602) ''Missing tool name''], s)
           | Some n \<Rightarrow>
               if isToolCallDenied n (deny env) (readonly env) then ([Failure rid (-32602) (denied_text env n)], s)
               else
                 (let full = (n = ''icmg_store'' \<and> 10000 \<le> length (live_nodes (db s))) in
                  if full \<and> evict_fails w (db s) then
                    ([Failure rid (-32603) (''Memory store full (>=10000); auto-evict failed. ''
                        @ ''Run: icmg memory purge --older 30d'')], s)
                  else
                    (let s1 = (if full then s\<lparr>db := evict_nodes (db s)\<rparr> else s) in
                     case map_of (registry w) n of
                       None \<Rightarrow> ([Failure rid (-32602) (''Unknown tool: '' @ n)], s1)
                     | Some t \<Rightarrow>
                         (let args = (case member params ''arguments'' of Some a \<Rightarrow> a | None \<Rightarrow> Object [])
                          in case (if n = ''icmg_store'' then member args ''content'' else None) of
                               None \<Rightarrow> invoke_tool w rid n args t s1
                             | Some c \<Rightarrow>
                                 (case text_of c of
                                    None \<Rightarrow> internal_error rid (type_error w c) s1
                                  | Some body \<Rightarrow>
                                      if 1024 * 1024 < length body
                                      then ([Failure rid (-32602) ''content exceeds 1MB limit''], s1)
                                      else invoke_tool w rid n args t s1))))))"

definition readResourceUri :: "mcp_world \<Rightarrow> string \<Rightarrow> mcp_db \<Rightarrow> string + json" where
  "readResourceUri w uri d =
     (if \<not> prefix ''icmg://'' uri then Inl ''invalid uri scheme''
      else
        (case cut_at (CHR ''/'') (drop 7 uri) of
           None \<Rightarrow> Inl ''invalid uri (no path)''
         | Some (kd, ident) \<Rightarrow>
             (case (if kd \<in> {''memory'', ''graph'', ''session'', ''summary''} then find_row w kd ident d else None) of
                Some v \<Rightarrow> Inr v
              | None \<Rightarrow> Inl
                  (if kd = ''memory'' then ''memory node not found''
                   else if kd = ''graph'' then ''graph node not found''
                   else if kd = ''session'' then ''session not found''
                   else if kd = ''summary'' then ''file not in graph''
                   else ''unknown resource kind: '' @ kd))))"

definition handleReadResource :: "mcp_world \<Rightarrow> json \<Rightarrow> mcp_state \<Rightarrow> response list \<times> mcp_state" where
  "handleReadResource w req s =
     (let rid = request_id req in
      case Option.bind (member req ''params'') (\<lambda>p. member p ''uri'') of
        None \<Rightarrow> ([Failure rid (-32602) ''Missing params.uri''], s)
      | Some u \<Rightarrow>
          (case text_of u of
             None \<Rightarrow> internal_error rid (type_error w u) s
           | Some uri \<Rightarrow>
               (case readResourceUri w uri (db s) of
                  Inl e \<Rightarrow> ([Failure rid (-32603) (''resource read failed: '' @ e)], s)
                | Inr v \<Rightarrow>
                    ([Reply rid (Object [(''contents'', Array [Object
                        [(''uri'', Text uri), (''mimeType'', Text ''application/json''), (''text'', Text (dump w v))]])])],
                     s\<lparr>db := log_audit ''resource_read'' (''uri='' @ take 80 uri) (db s)\<rparr>))))"

definition handleRequest :: "mcp_env \<Rightarrow> mcp_world \<Rightarrow> json \<Rightarrow> mcp_state \<Rightarrow> response list \<times> mcp_state" where
  "handleRequest env w req s =
     (case Option.bind (member req ''method'') text_of of
        None \<Rightarrow> ([Failure (request_id req) (-32600) ''Invalid Request: missing method''], s)
      | Some m \<Rightarrow>
          if m = ''initialize'' then handleInitialize env req s
          else if m = ''tools/list'' then handleListTools env w req s
          else if m = ''tools/call'' then handleCallTool env w req s
          else if m = ''resources/list''
            then ([Reply (request_id req) (Object [(''resources'', list_rows w (db s))])], s)
          else if m = ''resources/read'' then handleReadResource w req s
          else if m = ''notifications/initialized'' then ([], s)
          else ([Failure (request_id req) (-32601) (''Method not found: '' @ m)], s))"

definition handle_line :: "mcp_env \<Rightarrow> mcp_world \<Rightarrow> string \<Rightarrow> mcp_state \<Rightarrow> response list \<times> mcp_state" where
  "handle_line env w line s =
     (if line = [] then ([], s)
      else (case parse_line w line of
              Inl e \<Rightarrow> ([Failure Null (-32700) (''Parse error: '' @ e)], s)
            | Inr req \<Rightarrow> handleRequest env w req s))"

fun server_loop :: "mcp_env \<Rightarrow> mcp_world \<Rightarrow> string list \<Rightarrow> mcp_state \<Rightarrow> response list \<times> mcp_state" where
  "server_loop env w [] s = ([], s)"
| "server_loop env w (l # ls) s =
     (let (out, s1) = handle_line env w l s; (rest, s2) = server_loop env w ls s1 in (out @ rest, s2))"

section \<open>Properties\<close>

lemma denied_not_listed: "isToolCallDenied n (deny env) (readonly env) \<Longrightarrow> n \<notin> set (listed_keys env w)"
proof
  assume d: "isToolCallDenied n (deny env) (readonly env)" and l: "n \<in> set (listed_keys env w)"
  show False
  proof (cases "deny env \<noteq> [] \<or> readonly env")
    case True
    then show ?thesis using d l by (simp add: listed_keys_def Let_def split: if_splits)
  next
    case False
    then show ?thesis using d by (simp add: isToolCallDenied_def)
  qed
qed

lemma isToolCallDenied_iff:
  "isToolCallDenied n csv ro \<longleftrightarrow>
     ro \<and> isMutatingTool n \<or> n \<noteq> [] \<and> n \<in> trim_item ` set (getlines_on (CHR '','') csv)"
  by (auto simp: isToolCallDenied_def list_ex_iff)

text \<open>
  Property C37. The call policy holds at the call and in the list: a tool that the comma-separated deny
  list names, blanks around the name ignored, or that changes state while the server is
  read-only, is refused with the invalid-params code whatever its arguments, the call changes
  nothing, and the tool is not listed.
\<close>

theorem denied_tool_refused:
  assumes "readonly env \<and> isMutatingTool n
      \<or> n \<noteq> [] \<and> n \<in> trim_item ` set (getlines_on (CHR '','') (deny env))"
    and "member req ''params'' = Some params" and "member params ''name'' = Some (Text n)"
  shows "handleCallTool env w req s = ([Failure (request_id req) (-32602) (denied_text env n)], s) \<and>
    n \<notin> set (listed_keys env w)"
  using assms denied_not_listed[of n env]
  by (simp add: isToolCallDenied_iff[symmetric] handleCallTool_def Let_def)

definition readonly_env :: mcp_env where
  "readonly_env = \<lparr>profile = [], tools_csv = [], deny = [], readonly = True, lazy = False, version = ''2.0''\<rparr>"

definition store_call :: json where
  "store_call = Object [(''id'', Number 1), (''method'', Text ''tools/call''),
     (''params'', Object [(''name'', Text ''icmg_store'')])]"

definition example_store :: tool where
  "example_store = \<lparr>tool_name = ''icmg_store'', tool_description = [], tool_schema = Null,
     tool_annotations = Null,
     tool_call = (\<lambda>a d. (Tool_Ok (Text ''stored''), d\<lparr>nodes := \<lparr>row_id = 7, row_deleted = False,
          row_importance = 5, row_last_used = None, row_created = 0\<rparr> # nodes d\<rparr>))\<rparr>"

definition example_world :: mcp_world where
  "example_world = \<lparr>registry = [(''icmg_store'', example_store)], parse_line = (\<lambda>line. Inl line), dump = (\<lambda>_. ''{}''),
     type_error = (\<lambda>_. ''type must be string''), evict_fails = (\<lambda>_. False),
     list_rows = (\<lambda>_. Array []), find_row = (\<lambda>_ _ _. None)\<rparr>"

definition example_state :: mcp_state where
  "example_state = \<lparr>initialized = True, db = \<lparr>nodes = [], audit = []\<rparr>\<rparr>"

theorem denied_tool_refused_witness:
  "handleCallTool readonly_env example_world store_call example_state =
     ([Failure (request_id store_call) (-32602) (denied_text readonly_env ''icmg_store'')],
      example_state) \<and>
   ''icmg_store'' \<notin> set (listed_keys readonly_env example_world)"
  by (rule denied_tool_refused[where params = "Object [(''name'', Text ''icmg_store'')]"])
     (simp_all add: isMutatingTool_def readonly_env_def store_call_def)

lemma invoke_one: "length (fst (invoke_tool w rid n args t s)) = 1"
  by (auto simp: invoke_tool_def Let_def split: prod.split tool_result.split sum.split)

lemma call_one: "length (fst (handleCallTool env w req s)) = 1"
  by (auto simp: handleCallTool_def Let_def invoke_one internal_error_def split: option.split)

lemma read_one: "length (fst (handleReadResource w req s)) = 1"
  by (auto simp: handleReadResource_def Let_def internal_error_def split: option.split sum.split)

text \<open>
  Every input line gets one answer, whatever it holds: a line that does not parse and a
  request of an unknown or missing method included. Only an empty line and the
  initialized notification get none.
\<close>

theorem one_answer_per_line:
  "length (fst (handle_line env w line s)) =
    (if line = [] \<or> (\<exists>req. parse_line w line = Inr req \<and>
        member req ''method'' = Some (Text ''notifications/initialized'')) then 0 else 1)"
proof -
  have m: "Option.bind (member req ''method'') text_of = Some x \<longleftrightarrow> member req ''method'' = Some (Text x)" for req x
    by (cases "member req ''method''"; cases "the (member req ''method'')") auto
  have r: "length (fst (handleRequest env w req s)) =
      (if member req ''method'' = Some (Text ''notifications/initialized'') then 0 else 1)" for req
  proof (cases "Option.bind (member req ''method'') text_of")
    case None
    then have "member req ''method'' \<noteq> Some (Text ''notifications/initialized'')" using m by force
    then show ?thesis using None by (simp add: handleRequest_def)
  next
    case (Some x)
    then have "member req ''method'' = Some (Text x)" using m by simp
    then show ?thesis
      by (simp add: handleRequest_def handleInitialize_def handleListTools_def call_one read_one)
  qed
  show ?thesis
  proof (cases "parse_line w line")
    case (Inr req)
    then show ?thesis using r[of req] by (auto simp: handle_line_def split: if_splits)
  qed (simp add: handle_line_def)
qed

text \<open>
  The audit step can undo the answer but not the call: a tool that succeeded is answered
  with an error, and is not audited, when its topic argument is not a string, while its changes
  to the database stay.
\<close>

theorem nonstring_topic_loses_result:
  assumes "tool_call t args (db s) = (Tool_Ok v, d)"
    and "member args ''topic'' = Some bad" and "text_of bad = None"
    and "member args ''query'' = None" and "member args ''path'' = None"
  shows "invoke_tool w rid n args t s =
    ([Failure rid (-32603) (''Tool error: '' @ type_error w bad)], s\<lparr>db := d\<rparr>)"
  using assms by (simp add: invoke_tool_def)

theorem nonstring_topic_loses_result_witness:
  "invoke_tool example_world (Number 1) ''icmg_store'' (Object [(''topic'', Number 3)])
      example_store
      example_state =
    ([Failure (Number 1) (-32603) (''Tool error: '' @ type_error example_world (Number 3))],
     example_state\<lparr>db := \<lparr>nodes = [\<lparr>row_id = 7, row_deleted = False,
        row_importance = 5, row_last_used = None, row_created = 0\<rparr>], audit = []\<rparr>\<rparr>)"
  by (rule nonstring_topic_loses_result[where v = "Text ''stored''"]) (simp_all add: example_state_def example_store_def)

end
