(* ===== verification/TtlCaches.thy ===== *)
theory TtlCaches
  imports Fnv
begin

text \<open>
  The session caches: \<open>core/turn_cache.cpp\<close> (references to results already shown),
  \<open>core/query_cache.cpp\<close> (results of text queries), \<open>core/inject_dedup.cpp\<close> (injected
  contents) and \<open>core/tool_call_cache.cpp\<close> (the table of tool results). The clock and the
  environment variables are arguments. The locale \<open>ttl_store\<close> is the contract the three
  stores with a lifetime share; its client lemma says that any lookups in between do not
  change what a lookup returns.
\<close>

unbundle bit_operations_syntax

section \<open>The contract\<close>

locale ttl_store =
  fixes put :: "int \<Rightarrow> 'k \<Rightarrow> 'v \<Rightarrow> 's \<Rightarrow> 's"
    and get :: "int \<Rightarrow> 'k \<Rightarrow> 's \<Rightarrow> 'v option \<times> 's"
    and fresh :: "int \<Rightarrow> bool"
    and storable :: "'k \<Rightarrow> 'v \<Rightarrow> bool"
  assumes get_put: "storable k v \<Longrightarrow> fst (get t k (put t0 k v s)) = (if fresh (t - t0) then Some v else None)"
    and put_other: "k' \<noteq> k \<Longrightarrow> fst (get t k' (put t0 k v s)) = fst (get t k' s)"
    and get_get: "t' \<le> t \<Longrightarrow> fst (get t k (snd (get t' k' s))) = fst (get t k s)"
begin

definition gets :: "(int \<times> 'k) list \<Rightarrow> 's \<Rightarrow> 's" where
  "gets qs s = foldl (\<lambda>s (t, k). snd (get t k s)) s qs"

lemma get_after_gets:
  "\<forall>(t', k') \<in> set qs. t' \<le> t \<Longrightarrow> fst (get t k (gets qs s)) = fst (get t k s)"
proof (induction qs rule: rev_induct)
  case (snoc q qs)
  then show ?case by (cases q) (simp add: gets_def get_get)
qed (simp add: gets_def)

lemma put_gets_get:
  "storable k v \<Longrightarrow> \<forall>(t', k') \<in> set qs. t' \<le> t \<Longrightarrow>
   fst (get t k (gets qs (put t0 k v s))) = (if fresh (t - t0) then Some v else None)"
  by (simp add: get_after_gets get_put)

lemma put_put_get:
  "storable k v \<Longrightarrow> fst (get t k (put t1 k v (put t0 k' v' s))) = (if fresh (t - t1) then Some v else None)"
  by (rule get_put)

end

text \<open>The lifetime in seconds, 300 unless the environment gives a number.\<close>

definition ttlSeconds :: "string option \<Rightarrow> int" where
  "ttlSeconds env =
     (case env of None \<Rightarrow> 300
      | Some e \<Rightarrow> if e = [] then 300 else (case stoll e of Some v \<Rightarrow> v | None \<Rightarrow> 300))"

section \<open>The turn cache\<close>

record turn_entry =
  ref :: string
  recorded_at :: int
  mtime :: int

record turn_cache =
  turns :: "64 word \<Rightarrow> turn_entry option"
  turn_hits :: nat
  turn_misses :: nat

definition hashKey :: "string \<Rightarrow> string \<Rightarrow> 64 word" where
  "hashKey cmd args = fnv1a (cmd @ [CHR 0x00] @ args)"

definition refToken :: "64 word \<Rightarrow> string" where
  "refToken h = ''<icmg-cached:'' @ hex_pad 8 (unat (h AND 0xffffffff)) @ ''>''"

definition turn_miss :: "64 word \<Rightarrow> turn_cache \<Rightarrow> string \<times> turn_cache" where
  "turn_miss k c = ([], c\<lparr>turns := (turns c)(k := None), turn_misses := turn_misses c + 1\<rparr>)"

definition turn_lookup :: "int \<Rightarrow> int \<Rightarrow> string \<Rightarrow> string \<Rightarrow> int \<Rightarrow> turn_cache \<Rightarrow> string \<times> turn_cache" where
  "turn_lookup ttl n cmd args file_mtime c =
     (let k = hashKey cmd args in
      case turns c k of
        None \<Rightarrow> ([], c\<lparr>turn_misses := turn_misses c + 1\<rparr>)
      | Some e \<Rightarrow>
          if ttl < n - recorded_at e then turn_miss k c
          else if 0 < file_mtime \<and> file_mtime \<noteq> mtime e then turn_miss k c
          else (ref e, c\<lparr>turn_hits := turn_hits c + 1\<rparr>))"

definition recordResult :: "int \<Rightarrow> string \<Rightarrow> string \<Rightarrow> int \<Rightarrow> string \<Rightarrow> turn_cache \<Rightarrow> turn_cache" where
  "recordResult n cmd args file_mtime content c =
     (if content = [] then c
      else (let k = hashKey cmd args
            in c\<lparr>turns := (turns c)(k \<mapsto> \<lparr>ref = refToken k, recorded_at = n, mtime = file_mtime\<rparr>)\<rparr>))"

definition turn_reset :: "turn_cache \<Rightarrow> turn_cache" where
  "turn_reset c = \<lparr>turns = (\<lambda>_. None), turn_hits = 0, turn_misses = 0\<rparr>"

section \<open>The query cache\<close>

record query_entry =
  result :: string
  stored_at :: int

record query_cache =
  queries :: "string \<Rightarrow> query_entry option"
  query_hits :: nat
  query_misses :: nat

definition query_lookup :: "int \<Rightarrow> int \<Rightarrow> string \<Rightarrow> query_cache \<Rightarrow> string \<times> query_cache" where
  "query_lookup ttl n k c =
     (case queries c k of
        None \<Rightarrow> ([], c\<lparr>query_misses := query_misses c + 1\<rparr>)
      | Some e \<Rightarrow>
          if ttl < n - stored_at e
          then ([], c\<lparr>queries := (queries c)(k := None), query_misses := query_misses c + 1\<rparr>)
          else (result e, c\<lparr>query_hits := query_hits c + 1\<rparr>))"

definition query_store :: "int \<Rightarrow> string \<Rightarrow> string \<Rightarrow> query_cache \<Rightarrow> query_cache" where
  "query_store n k r c =
     (if k = [] \<or> r = [] then c
      else c\<lparr>queries := (queries c)(k \<mapsto> \<lparr>result = r, stored_at = n\<rparr>)\<rparr>)"

definition query_reset :: "query_cache \<Rightarrow> query_cache" where
  "query_reset c = \<lparr>queries = (\<lambda>_. None), query_hits = 0, query_misses = 0\<rparr>"

section \<open>Injected contents\<close>

definition seenBefore :: "string \<Rightarrow> 64 word set \<Rightarrow> bool \<times> 64 word set" where
  "seenBefore content seen =
     (if content = [] then (False, seen)
      else (let h = fnv1a content in (h \<in> seen, insert h seen)))"

definition uniqueCount :: "64 word set \<Rightarrow> nat" where
  "uniqueCount seen = card seen"

section \<open>The table of tool results\<close>

record tool_row =
  t_id :: nat
  t_cmd :: string
  t_hash :: string
  t_result :: string
  t_hits :: int
  t_created :: int
  t_expires :: int

record tool_table =
  rows :: "tool_row list"
  next_id :: nat

definition tool_fnv :: "string \<Rightarrow> string" where
  "tool_fnv s = hex_pad 16 (unat (fnv_fold 1469598103934665603 s))"

definition makeKey :: "string option \<Rightarrow> string \<Rightarrow> string \<Rightarrow> string" where
  "makeKey agent cmd args =
     tool_fnv ((case agent of None \<Rightarrow> [] | Some a \<Rightarrow> a) @ [CHR 0x00] @ cmd @ [CHR 0x00] @ args)"

definition valid_row :: "string \<Rightarrow> int \<Rightarrow> tool_row \<Rightarrow> bool" where
  "valid_row h n r \<longleftrightarrow> t_hash r = h \<and> n < t_expires r"

definition tool_lookup :: "string \<Rightarrow> int \<Rightarrow> tool_table \<Rightarrow> string option \<times> tool_table" where
  "tool_lookup h n tb =
     (case find (valid_row h n) (rev (rows tb)) of
        None \<Rightarrow> (None, tb)
      | Some r \<Rightarrow> (Some (t_result r),
          tb\<lparr>rows := map (\<lambda>x. if t_id x = t_id r then x\<lparr>t_hits := t_hits x + 1\<rparr> else x) (rows tb)\<rparr>))"

definition tool_store :: "string \<Rightarrow> string \<Rightarrow> string \<Rightarrow> int \<Rightarrow> int \<Rightarrow> tool_table \<Rightarrow> tool_table" where
  "tool_store cmd h r ttl n tb =
     tb\<lparr>rows := filter (\<lambda>x. t_hash x \<noteq> h) (rows tb)
          @ [\<lparr>t_id = next_id tb, t_cmd = cmd, t_hash = h, t_result = r, t_hits = 0, t_created = n,
              t_expires = n + ttl\<rparr>],
        next_id := next_id tb + 1\<rparr>"

definition tool_prune :: "int \<Rightarrow> tool_table \<Rightarrow> nat \<times> tool_table" where
  "tool_prune n tb =
     (length (filter (\<lambda>r. t_expires r \<le> n) (rows tb)), tb\<lparr>rows := filter (\<lambda>r. \<not> t_expires r \<le> n) (rows tb)\<rparr>)"

text \<open>Total, hits and hit rate in percent over the window.\<close>

definition tool_summary :: "int \<Rightarrow> int \<Rightarrow> tool_table \<Rightarrow> int \<times> int \<times> int" where
  "tool_summary window n tb =
     (let rs = filter (\<lambda>r. n - window < t_created r) (rows tb);
          total = int (length rs); hs = sum_list (map t_hits rs)
      in (total, hs, if 0 < total + hs then 100 * hs div (hs + total) else 0))"

section \<open>The stores keep the contract\<close>

text \<open>The turn cache under its hash keys, for lookups without a file time; an empty answer is a miss.\<close>

definition turn_put :: "int \<Rightarrow> 64 word \<Rightarrow> string \<Rightarrow> turn_cache \<Rightarrow> turn_cache" where
  "turn_put n k r c = c\<lparr>turns := (turns c)(k \<mapsto> \<lparr>ref = r, recorded_at = n, mtime = 0\<rparr>)\<rparr>"

definition turn_get :: "int \<Rightarrow> int \<Rightarrow> 64 word \<Rightarrow> turn_cache \<Rightarrow> string option \<times> turn_cache" where
  "turn_get ttl n k c =
     (case turns c k of
        None \<Rightarrow> (None, c\<lparr>turn_misses := turn_misses c + 1\<rparr>)
      | Some e \<Rightarrow> if ttl < n - recorded_at e then (None, snd (turn_miss k c))
                  else (if ref e = [] then None else Some (ref e), c\<lparr>turn_hits := turn_hits c + 1\<rparr>))"

lemma refToken_nonempty [simp]: "refToken k \<noteq> []"
  by (simp add: refToken_def)

lemma turn_put_record: "content \<noteq> [] \<Longrightarrow> recordResult n cmd args 0 content c = turn_put n (hashKey cmd args) (refToken (hashKey cmd args)) c"
  by (simp add: recordResult_def turn_put_def Let_def)

lemma turn_get_lookup:
  "turn_lookup ttl n cmd args 0 c =
    (case turn_get ttl n (hashKey cmd args) c of (r, c') \<Rightarrow> (case r of None \<Rightarrow> [] | Some x \<Rightarrow> x, c'))"
  by (auto simp: turn_lookup_def turn_get_def turn_miss_def Let_def split: option.split)

interpretation turn: ttl_store turn_put "turn_get ttl" "\<lambda>age. age \<le> ttl" "\<lambda>_ r. r \<noteq> []" for ttl
proof
  show "t' \<le> t \<Longrightarrow> fst (turn_get ttl t k (snd (turn_get ttl t' k' s))) = fst (turn_get ttl t k s)" for t t' k k' s
    by (auto simp: turn_get_def turn_miss_def split: option.split)
qed (auto simp: turn_get_def turn_put_def split: option.split)

definition query_get :: "int \<Rightarrow> int \<Rightarrow> string \<Rightarrow> query_cache \<Rightarrow> string option \<times> query_cache" where
  "query_get ttl n k c = (case query_lookup ttl n k c of (r, c') \<Rightarrow> (if r = [] then None else Some r, c'))"

interpretation query: ttl_store query_store "query_get ttl" "\<lambda>age. age \<le> ttl" "\<lambda>k r. k \<noteq> [] \<and> r \<noteq> []" for ttl
proof
  show "t' \<le> t \<Longrightarrow> fst (query_get ttl t k (snd (query_get ttl t' k' s))) = fst (query_get ttl t k s)" for t t' k k' s
    by (auto simp: query_get_def query_lookup_def split: option.split)
qed (auto simp: query_get_def query_lookup_def query_store_def split: option.split)

definition tool_put :: "int \<Rightarrow> int \<Rightarrow> string \<Rightarrow> string \<Rightarrow> tool_table \<Rightarrow> tool_table" where
  "tool_put ttl n h r tb = tool_store [] h r ttl n tb"

definition tool_get :: "int \<Rightarrow> string \<Rightarrow> tool_table \<Rightarrow> string option \<times> tool_table" where
  "tool_get n h tb = tool_lookup h n tb"

lemma find_filter_imp: "(\<And>x. P x \<Longrightarrow> Q x) \<Longrightarrow> find P (filter Q xs) = find P xs"
  by (induction xs) auto

lemma find_map_stable: "(\<And>x. P (f x) \<longleftrightarrow> P x) \<Longrightarrow> find P (map f xs) = map_option f (find P xs)"
  by (induction xs) auto

lemma tool_lookup_result: "fst (tool_lookup h n tb) = map_option t_result (find (valid_row h n) (rev (rows tb)))"
  by (simp add: tool_lookup_def split: option.split)

lemma tool_lookup_rows:
  "\<exists>f. rows (snd (tool_lookup h n tb)) = map f (rows tb) \<and>
    (\<forall>x. t_hash (f x) = t_hash x \<and> t_expires (f x) = t_expires x \<and> t_result (f x) = t_result x)"
proof (cases "find (valid_row h n) (rev (rows tb))")
  case None
  then show ?thesis by (intro exI[of _ "\<lambda>x. x"]) (simp add: tool_lookup_def)
next
  case (Some r)
  then show ?thesis
    by (intro exI[of _ "\<lambda>x. if t_id x = t_id r then x\<lparr>t_hits := t_hits x + 1\<rparr> else x"]) (simp add: tool_lookup_def)
qed

interpretation tools: ttl_store "tool_put ttl" tool_get "\<lambda>age. age < ttl" "\<lambda>_ _. True" for ttl
proof
  show "fst (tool_get t k (tool_put ttl t0 k v s)) = (if t - t0 < ttl then Some v else None)" for t k t0 v s
  proof -
    have "find (valid_row k t) (rev (filter (\<lambda>x. t_hash x \<noteq> k) (rows s))) = None"
      by (auto simp: find_None_iff valid_row_def)
    then show ?thesis by (auto simp: tool_get_def tool_put_def tool_store_def tool_lookup_result valid_row_def)
  qed
  show "fst (tool_get t k' (tool_put ttl t0 k v s)) = fst (tool_get t k' s)" if "k' \<noteq> k" for k' k t t0 v s
  proof -
    have "find (valid_row k' t) (rev (filter (\<lambda>x. t_hash x \<noteq> k) (rows s))) = find (valid_row k' t) (rev (rows s))"
      using that unfolding rev_filter by (intro find_filter_imp) (auto simp: valid_row_def)
    then show ?thesis
      using that by (simp add: tool_get_def tool_put_def tool_store_def tool_lookup_result valid_row_def)
  qed
  show "fst (tool_get t k (snd (tool_get t' k' s))) = fst (tool_get t k s)" for t t' k k' s
  proof -
    obtain f where f: "rows (snd (tool_lookup k' t' s)) = map f (rows s)"
      "\<And>x. t_hash (f x) = t_hash x \<and> t_expires (f x) = t_expires x \<and> t_result (f x) = t_result x"
      using tool_lookup_rows by blast
    have "find (valid_row k t) (rev (map f (rows s))) = map_option f (find (valid_row k t) (rev (rows s)))"
      unfolding rev_map by (rule find_map_stable) (simp add: valid_row_def f(2))
    then show ?thesis by (simp add: tool_get_def tool_lookup_result f option.map_comp comp_def)
  qed
qed

section \<open>Properties\<close>

definition turn_lookups :: "int \<Rightarrow> (int \<times> string \<times> string) list \<Rightarrow> turn_cache \<Rightarrow> turn_cache" where
  "turn_lookups ttl qs c = foldl (\<lambda>c (t, cmd, args). snd (turn_lookup ttl t cmd args 0 c)) c qs"

lemma turn_lookups_gets:
  "turn_lookups ttl qs c = turn.gets ttl (map (\<lambda>(t, cmd, args). (t, hashKey cmd args)) qs) c"
  unfolding turn_lookups_def turn.gets_def
  by (induction qs arbitrary: c) (auto simp: turn_get_lookup split: prod.split)

text \<open>
  The turn cache remembers for exactly its lifetime: after a result is recorded, and
  whatever lookups come in between, a lookup of the same command and arguments answers with
  its reference until the lifetime has passed, and with nothing from then on.
\<close>

theorem turn_cache_remembers:
  assumes "content \<noteq> []" and "\<forall>(t', q) \<in> set qs. t' \<le> t"
  shows "fst (turn_lookup ttl t cmd args 0 (turn_lookups ttl qs (recordResult t0 cmd args 0 content c))) =
    (if t - t0 \<le> ttl then refToken (hashKey cmd args) else [])"
proof -
  let ?k = "hashKey cmd args"
  let ?qs = "map (\<lambda>(t, cmd, args). (t, hashKey cmd args)) qs"
  have "\<forall>(t', k') \<in> set ?qs. t' \<le> t" using assms(2) by auto
  then have "fst (turn_get ttl t ?k (turn.gets ttl ?qs (turn_put t0 ?k (refToken ?k) c))) =
      (if t - t0 \<le> ttl then Some (refToken ?k) else None)"
    by (intro turn.put_gets_get) simp_all
  then show ?thesis
    using assms(1) by (simp add: turn_get_lookup turn_lookups_gets turn_put_record case_prod_beta)
qed

theorem turn_cache_remembers_witness:
  "fst (turn_lookup 300 1200 ''recall'' ''auth'' 0 (turn_lookups 300 [(1100, ''recall'', ''auth''), (1150, ''pack'', [])]
     (recordResult 1000 ''recall'' ''auth'' 0 ''content'' (turn_reset \<lparr>turns = (\<lambda>_. None), turn_hits = 3, turn_misses = 4\<rparr>)))) =
   (if (1200::int) - 1000 \<le> 300 then refToken (hashKey ''recall'' ''auth'') else [])"
  by (rule turn_cache_remembers) simp_all

lemma seenBefore_second: "content \<noteq> [] \<Longrightarrow> fst (seenBefore content (snd (seenBefore content seen)))"
  by (simp add: seenBefore_def Let_def)

lemma tool_prune_expired: "\<forall>r \<in> set (rows (snd (tool_prune n tb))). n < t_expires r"
  by (auto simp: tool_prune_def)

end
