(* ===== verification/Bpe.thy ===== *)
theory Bpe
  imports CxxString "HOL-Library.AList"
begin

text \<open>
  The exact token counter, \<open>core/bpe_tokenizer.cpp\<close>: the pre-tokenizer that cuts a text into
  chunks, the byte-pair merge of one chunk under a rank table, and the loader of rank files with
  its base64 decoder. The rank table is an association list from byte sequences to ranks, without repeated keys
  when loaded. The lemmas show that
  the chunks are nonempty and put together give the text, that a merge ends in a segmentation of
  the chunk into single bytes and table entries none of whose neighbours can be merged, and that
  the loader reads back every table written in the file format.
\<close>

section \<open>The pre-tokenizer\<close>

text \<open>
  The loop's position is the rest of the text, so that the code's predicates at \<open>i + k\<close> look at
  the character \<open>k\<close> places into it.
\<close>

definition char_at :: "(char \<Rightarrow> bool) \<Rightarrow> string \<Rightarrow> nat \<Rightarrow> bool" where
  "char_at P r k \<longleftrightarrow> k < length r \<and> P (r ! k)"

definition ws_char :: "char \<Rightarrow> bool" where
  "ws_char c \<longleftrightarrow> c \<in> {CHR '' '', tab, nl, cr, CHR 0x0C, CHR 0x0B}"

definition nl_char :: "char \<Rightarrow> bool" where
  "nl_char c \<longleftrightarrow> c = cr \<or> c = nl"

definition punct_char :: "char \<Rightarrow> bool" where
  "punct_char c \<longleftrightarrow> \<not> is_alpha c \<and> \<not> is_digit c \<and> \<not> ws_char c"

definition lower_at :: "string \<Rightarrow> nat \<Rightarrow> char option" where
  "lower_at r k = (if k < length r then Some (to_lower (r ! k)) else None)"

definition contraction :: "string \<Rightarrow> nat option" where
  "contraction r =
     (if hd r = sq then
        (let a = lower_at r 1; b = lower_at r 2 in
         if (a, b) \<in> {(Some CHR ''l'', Some CHR ''l''), (Some CHR ''v'', Some CHR ''e''),
                      (Some CHR ''r'', Some CHR ''e'')} then Some 3
         else if a \<in> {Some CHR ''s'', Some CHR ''t'', Some CHR ''m'', Some CHR ''d''} then Some 2
         else None)
      else None)"

definition word_len :: "string \<Rightarrow> nat option" where
  "word_len r =
     (let j = (if \<not> char_at is_alpha r 0 \<and> \<not> char_at is_digit r 0 \<and> hd r \<noteq> cr \<and> hd r \<noteq> nl
                  \<and> char_at is_alpha r 1 then 1 else 0)
      in if char_at is_alpha r j then Some (j + length (takeWhile is_alpha (drop j r))) else None)"

definition number_len :: "string \<Rightarrow> nat option" where
  "number_len r =
     (if char_at is_digit r 0 then Some (length (takeWhile is_digit (take 3 r))) else None)"

definition punct_len :: "string \<Rightarrow> nat option" where
  "punct_len r =
     (let j = (if hd r = CHR '' '' \<and> char_at punct_char r 1 then 1 else 0) in
      if char_at punct_char r j then
        (let w = j + length (takeWhile punct_char (drop j r))
         in Some (w + length (takeWhile nl_char (drop w r))))
      else None)"

definition space_len :: "string \<Rightarrow> nat" where
  "space_len r =
     (let w = length (takeWhile (\<lambda>c. ws_char c \<and> \<not> nl_char c) r) in
      if char_at nl_char r w then w + 1
      else
        (let e = length (takeWhile ws_char r) in
         if e < length r \<and> \<not> char_at ws_char r e \<and> 0 < e - 1 then e - 1 else e))"

definition chunk_len :: "string \<Rightarrow> nat" where
  "chunk_len r =
     (case contraction r of Some k \<Rightarrow> k
      | None \<Rightarrow> (case word_len r of Some k \<Rightarrow> k
      | None \<Rightarrow> (case number_len r of Some k \<Rightarrow> k
      | None \<Rightarrow> (case punct_len r of Some k \<Rightarrow> k
      | None \<Rightarrow> space_len r))))"

text \<open>Every chunk has a character, so the loop ends.\<close>

lemma takeWhile_pos: "r \<noteq> [] \<Longrightarrow> P (hd r) \<Longrightarrow> 0 < length (takeWhile P r)"
  by (cases r) auto

lemma char_at_0: "r \<noteq> [] \<Longrightarrow> char_at P r 0 = P (hd r)"
  by (simp add: char_at_def hd_conv_nth)

lemma chunk_parts_pos:
  assumes "r \<noteq> []"
  shows "contraction r = Some k \<Longrightarrow> 0 < k"
    and "word_len r = Some k \<Longrightarrow> 0 < k"
    and "number_len r = Some k \<Longrightarrow> 0 < k"
    and "punct_len r = Some k \<Longrightarrow> 0 < k"
    and "ws_char (hd r) \<Longrightarrow> 0 < space_len r"
proof -
  have at: "0 < length (takeWhile P (drop j r))" if "char_at P r j" for P j
    using that takeWhile_pos[of "drop j r" P] by (simp add: char_at_def hd_drop_conv_nth)
  show "contraction r = Some k \<Longrightarrow> 0 < k"
    by (auto simp: contraction_def Let_def split: if_splits)
  show "word_len r = Some k \<Longrightarrow> 0 < k"
    using at[of is_alpha 0] by (auto simp: word_len_def Let_def split: if_splits)
  show "number_len r = Some k \<Longrightarrow> 0 < k"
    using assms by (cases r) (auto simp: number_len_def char_at_def split: if_splits)
  show "punct_len r = Some k \<Longrightarrow> 0 < k"
    using at[of punct_char 0] by (auto simp: punct_len_def Let_def split: if_splits)
  assume "ws_char (hd r)"
  then have "0 < length (takeWhile ws_char r)" using takeWhile_pos[of r ws_char] assms by simp
  then show "0 < space_len r" by (simp add: space_len_def Let_def)
qed

lemma chunk_len_pos:
  assumes "r \<noteq> []"
  shows "0 < chunk_len r"
proof -
  have "ws_char (hd r)" if "word_len r = None" "number_len r = None" "punct_len r = None"
  proof -
    have "\<not> punct_char (hd r)"
      using that(3) assms by (auto simp: punct_len_def char_at_0 Let_def split: if_splits)
    moreover have "\<not> is_digit (hd r)"
      using that(2) assms by (auto simp: number_len_def char_at_0 split: if_splits)
    moreover have "\<not> is_alpha (hd r)"
      using that(1) assms by (auto simp: word_len_def char_at_0 Let_def split: if_splits)
    ultimately show ?thesis by (simp add: punct_char_def)
  qed
  then show ?thesis
    using chunk_parts_pos[OF assms] by (auto simp: chunk_len_def split: option.split)
qed

lemma contraction_le: "contraction r = Some k \<Longrightarrow> k \<le> length r"
  by (auto simp: contraction_def lower_at_def Let_def split: if_splits)

function preTokenize :: "string \<Rightarrow> string list" where
  "preTokenize r =
     (if r = [] then [] else take (chunk_len r) r # preTokenize (drop (chunk_len r) r))"
  by pat_completeness auto
termination
  by (relation "measure length") (auto simp: chunk_len_pos)

declare preTokenize.simps [simp del]

section \<open>Merging one chunk\<close>

text \<open>
  The state of the merge is the list of part boundaries. The scan returns the lowest rank found,
  below the starting \<open>INT_MAX\<close>, and the first position that has it.
\<close>

type_synonym rank_table = "(string \<times> int) list"

definition INT_MAX :: int where
  "INT_MAX = 2 ^ 31 - 1"

fun best_pair :: "rank_table \<Rightarrow> string \<Rightarrow> nat list \<Rightarrow> nat \<Rightarrow> int \<Rightarrow> nat option \<Rightarrow> nat option" where
  "best_pair ranks piece (a # b # c # starts) i best_rank best_i =
     (case map_of ranks (substr a (c - a) piece) of
        Some r \<Rightarrow>
          if r < best_rank then best_pair ranks piece (b # c # starts) (i + 1) r (Some i)
          else best_pair ranks piece (b # c # starts) (i + 1) best_rank best_i
      | None \<Rightarrow> best_pair ranks piece (b # c # starts) (i + 1) best_rank best_i)"
| "best_pair ranks piece starts i best_rank best_i = best_i"

definition erase_nth :: "nat \<Rightarrow> 'a list \<Rightarrow> 'a list" where
  "erase_nth i xs = take i xs @ drop (i + 1) xs"

lemma erase_nth_simps [simp]:
  "erase_nth 0 (x # xs) = xs" "erase_nth (Suc i) (x # xs) = x # erase_nth i xs" "erase_nth i [] = []"
  by (simp_all add: erase_nth_def)

lemma set_erase_nth: "set (erase_nth i xs) \<subseteq> set xs"
  by (auto simp: erase_nth_def dest: in_set_takeD in_set_dropD)

lemma sorted_erase_nth: "sorted_wrt R xs \<Longrightarrow> sorted_wrt R (erase_nth i xs)"
proof (induction xs arbitrary: i)
  case (Cons x xs)
  then show ?case using set_erase_nth by (cases i) fastforce+
qed simp

lemma length_erase_nth: "i < length xs \<Longrightarrow> length (erase_nth i xs) = length xs - 1"
  by (simp add: erase_nth_def)

lemma erase_nth_ends:
  "0 < i \<Longrightarrow> i + 1 < length xs \<Longrightarrow> hd (erase_nth i xs) = hd xs \<and> last (erase_nth i xs) = last xs"
  by (simp add: erase_nth_def hd_append hd_take last_drop)

lemma best_pair_bound:
  "best_pair ranks piece starts i br bi = Some k \<Longrightarrow>
   bi = Some k \<or> i \<le> k \<and> k + 2 < i + length starts"
  by (induction ranks piece starts i br bi rule: best_pair.induct)
     (fastforce split: option.splits if_splits)+

function merge_loop :: "rank_table \<Rightarrow> string \<Rightarrow> nat list \<Rightarrow> nat list" where
  "merge_loop ranks piece starts =
     (if 2 < length starts then
        (case best_pair ranks piece starts 0 INT_MAX None of
           None \<Rightarrow> starts
         | Some i \<Rightarrow> merge_loop ranks piece (erase_nth (i + 1) starts))
      else starts)"
  by pat_completeness auto
termination
  by (relation "measure (\<lambda>(_, _, starts). length starts)")
     (auto simp: erase_nth_def dest!: best_pair_bound)

declare merge_loop.simps [simp del]

definition mergeCount :: "rank_table \<Rightarrow> string \<Rightarrow> nat" where
  "mergeCount ranks piece =
     (let n = length piece in
      if n = 0 then 0 else if n = 1 then 1
      else length (merge_loop ranks piece [0..<n + 1]) - 1)"

text \<open>A tokenizer without ranks is not ready.\<close>

definition countTokens :: "rank_table \<Rightarrow> string \<Rightarrow> nat" where
  "countTokens ranks input =
     (if ranks = [] \<or> input = [] then 0
      else sum_list (map (mergeCount ranks) (preTokenize input)))"

section \<open>Rank files\<close>

definition b64_alphabet :: string where
  "b64_alphabet = ''ABCDEFGHIJKLMNOPQRSTUVWXYZabcdefghijklmnopqrstuvwxyz0123456789+/''"

text \<open>
  The accumulator \<open>val\<close> is an \<open>int\<close> that the code shifts without masking: 32 bits, of which
  the bytes taken out are read. \<open>bits\<close> counts up from \<open>-8\<close>.
\<close>

fun b64_loop :: "nat \<Rightarrow> int \<Rightarrow> string \<Rightarrow> string" where
  "b64_loop acc bits [] = []"
| "b64_loop acc bits (c # cs) =
     (if c = CHR ''='' then []
      else (case index_of (\<lambda>x. x = c) b64_alphabet of
              None \<Rightarrow> b64_loop acc bits cs
            | Some pos \<Rightarrow>
                (let acc' = (acc * 64 + pos) mod 2 ^ 32; bits' = bits + 6 in
                 if 0 \<le> bits' then
                   char_of (acc' div 2 ^ nat bits' mod 256) # b64_loop acc' (bits' - 8) cs
                 else b64_loop acc' bits' cs)))"

definition b64decode :: "string \<Rightarrow> string" where
  "b64decode s = b64_loop 0 (- 8) s"

text \<open>A line holds two words; a line with fewer, or whose second is no number, is skipped.\<close>

definition next_word :: "string \<Rightarrow> string \<times> string" where
  "next_word s = (let t = dropWhile is_space s in (takeWhile (\<lambda>c. \<not> is_space c) t, dropWhile (\<lambda>c. \<not> is_space c) t))"

definition rank_line :: "string \<Rightarrow> (string \<times> int) option" where
  "rank_line line =
     (let (b64, rest) = next_word line; (rank_str, _) = next_word rest in
      if b64 = [] \<or> rank_str = [] then None
      else (case stoi rank_str of
              None \<Rightarrow> None
            | Some rank \<Rightarrow> (let bytes = b64decode b64 in if bytes \<noteq> [] then Some (bytes, rank) else None)))"

definition loadRanks :: "string \<Rightarrow> rank_table \<Rightarrow> rank_table" where
  "loadRanks file ranks =
     foldl (\<lambda>m line. case rank_line line of None \<Rightarrow> m | Some (k, r) \<Rightarrow> AList.update k r m) ranks (getlines file)"

section \<open>The chunks put together give the text\<close>

lemma preTokenize_Nil [simp]: "preTokenize [] = []"
  by (simp add: preTokenize.simps)

lemma concat_preTokenize: "concat (preTokenize s) = s"
proof (induction s rule: preTokenize.induct)
  case (1 r)
  then show ?case by (cases "r = []") (simp_all add: preTokenize.simps[of r])
qed

lemma preTokenize_nonempty: "c \<in> set (preTokenize s) \<Longrightarrow> c \<noteq> []"
proof (induction s rule: preTokenize.induct)
  case (1 r)
  then show ?case
    using chunk_len_pos[of r] by (cases "r = []") (auto simp: preTokenize.simps[of r])
qed

section \<open>The merge ends in a segmentation that cannot be merged further\<close>

fun parts :: "string \<Rightarrow> nat list \<Rightarrow> string list" where
  "parts s (a # b # starts) = substr a (b - a) s # parts s (b # starts)"
| "parts s starts = []"

definition mergeable :: "rank_table \<Rightarrow> int \<Rightarrow> string \<Rightarrow> bool" where
  "mergeable ranks br x \<longleftrightarrow> (\<exists>r. map_of ranks x = Some r \<and> r < br)"

fun no_merge :: "rank_table \<Rightarrow> int \<Rightarrow> string list \<Rightarrow> bool" where
  "no_merge ranks br (x # y # ps) \<longleftrightarrow> \<not> mergeable ranks br (x @ y) \<and> no_merge ranks br (y # ps)"
| "no_merge ranks br ps \<longleftrightarrow> True"

lemma length_parts [simp]: "length (parts s starts) = length starts - 1"
  by (induction s starts rule: parts.induct) auto

lemma substr_join: "a \<le> b \<Longrightarrow> b \<le> c \<Longrightarrow> substr a (b - a) s @ substr b (c - b) s = substr a (c - a) s"
proof -
  assume "a \<le> b" "b \<le> c"
  then have "c - a = (b - a) + (c - b)" "b = a + (b - a)" by simp_all
  then show ?thesis unfolding substr_def by (metis add.commute drop_drop take_add)
qed

lemma concat_parts:
  "sorted starts \<Longrightarrow> starts \<noteq> [] \<Longrightarrow> concat (parts s starts) = substr (hd starts) (last starts - hd starts) s"
proof (induction s starts rule: parts.induct)
  case (1 s a b starts)
  have "b \<le> last (b # starts)" using 1(2) by (cases starts rule: rev_cases) auto
  then show ?case using 1 substr_join[of a b "last (b # starts)" s] by simp
qed (simp_all add: substr_def)

lemma best_pair_None:
  "sorted starts \<Longrightarrow> best_pair ranks s starts i br bi = None \<Longrightarrow> bi = None \<and> no_merge ranks br (parts s starts)"
proof (induction ranks s starts i br bi rule: best_pair.induct)
  case (1 ranks s a b c starts i br bi)
  have j: "substr a (b - a) s @ substr b (c - b) s = substr a (c - a) s"
    using 1(4) by (intro substr_join) auto
  show ?case
    using 1 by (auto simp: j mergeable_def split: option.splits if_splits)
qed auto

definition pair_at :: "rank_table \<Rightarrow> string \<Rightarrow> nat list \<Rightarrow> nat \<Rightarrow> bool" where
  "pair_at ranks s starts j \<longleftrightarrow> j + 2 < length starts \<and>
     map_of ranks (substr (starts ! j) (starts ! (j + 2) - starts ! j) s) \<noteq> None"

lemma best_pair_Some:
  "best_pair ranks s starts i br bi = Some k \<Longrightarrow>
   bi = Some k \<or> (\<exists>j. k = i + j \<and> pair_at ranks s starts j)"
proof (induction ranks s starts i br bi rule: best_pair.induct)
  case (1 ranks s a b c starts i br bi)
  have Suc: "pair_at ranks s (b # c # starts) j \<Longrightarrow> pair_at ranks s (a # b # c # starts) (Suc j)" for j
    by (simp add: pair_at_def)
  have zero: "map_of ranks (substr a (c - a) s) \<noteq> None \<Longrightarrow> pair_at ranks s (a # b # c # starts) 0"
    by (simp add: pair_at_def)
  have "bi = Some k \<or> k = i \<and> map_of ranks (substr a (c - a) s) \<noteq> None \<or>
      (\<exists>j. k = i + 1 + j \<and> pair_at ranks s (b # c # starts) j)"
    using 1 by (auto split: option.splits if_splits)
  then show ?case using Suc zero by (metis add.assoc add.right_neutral plus_1_eq_Suc)
qed auto

text \<open>Erasing the boundary between two parts fuses them.\<close>

lemma set_parts_erase:
  "pair_at ranks s starts j \<Longrightarrow> set (parts s (erase_nth (j + 1) starts)) \<subseteq>
     insert (substr (starts ! j) (starts ! (j + 2) - starts ! j) s) (set (parts s starts))"
proof (induction starts arbitrary: j)
  case (Cons a starts)
  show ?case
  proof (cases j)
    case 0
    then obtain b c rest where "starts = b # c # rest"
      using Cons.prems by (cases starts; cases "tl starts") (auto simp: pair_at_def)
    then show ?thesis using 0 by (auto simp: erase_nth_def)
  next
    case (Suc i)
    have p: "pair_at ranks s starts i" using Cons.prems Suc by (simp add: pair_at_def)
    then obtain b rest where r: "erase_nth (i + 1) starts = b # rest" and s: "starts ! 0 = b" "starts \<noteq> []"
      by (cases starts) (auto simp: pair_at_def)
    have "parts s (erase_nth (j + 1) (a # starts)) = substr a (b - a) s # parts s (erase_nth (i + 1) starts)"
      using r by (simp add: Suc)
    moreover have "substr a (b - a) s \<in> set (parts s (a # starts))"
      using s by (cases starts) auto
    moreover have "set (parts s starts) \<subseteq> set (parts s (a # starts))"
      by (cases starts) auto
    ultimately show ?thesis
      using Cons.IH[OF p] unfolding Suc by (simp only: nth_Cons_Suc add_Suc list.set) blast
  qed
qed (simp add: pair_at_def)

definition segment :: "rank_table \<Rightarrow> string \<Rightarrow> bool" where
  "segment ranks x \<longleftrightarrow> length x = 1 \<or> map_of ranks x \<noteq> None"

definition boundaries :: "rank_table \<Rightarrow> string \<Rightarrow> nat list \<Rightarrow> bool" where
  "boundaries ranks s starts \<longleftrightarrow> sorted_wrt (<) starts \<and> 2 \<le> length starts \<and> hd starts = 0 \<and>
     last starts = length s \<and> (\<forall>x \<in> set (parts s starts). segment ranks x)"

lemma boundaries_erase:
  assumes "boundaries ranks s starts" "pair_at ranks s starts i"
  shows "boundaries ranks s (erase_nth (i + 1) starts)"
proof -
  have i: "i + 2 < length starts" using assms(2) by (simp add: pair_at_def)
  then show ?thesis using assms set_parts_erase[OF assms(2)] erase_nth_ends[of "i + 1" starts]
    by (auto simp: boundaries_def segment_def pair_at_def sorted_erase_nth length_erase_nth)
qed

lemma merge_loop_ok:
  "boundaries ranks s starts \<Longrightarrow> boundaries ranks s (merge_loop ranks s starts) \<and>
     no_merge ranks INT_MAX (parts s (merge_loop ranks s starts))"
proof (induction ranks s starts rule: merge_loop.induct)
  case (1 ranks s starts)
  show ?case
  proof (cases "2 < length starts")
    case False
    then have "length starts = Suc (Suc 0)" using 1(2) by (simp add: boundaries_def)
    then obtain a b where "starts = [a, b]" by (metis length_0_conv length_Suc_conv)
    then show ?thesis using 1(2) by (simp add: merge_loop.simps)
  next
    case long: True
    show ?thesis
    proof (cases "best_pair ranks s starts 0 INT_MAX None")
      case None
      then show ?thesis using 1(2) long best_pair_None[OF _ None]
        by (simp add: merge_loop.simps[of ranks s starts] boundaries_def strict_sorted_imp_sorted)
    next
      case (Some i)
      have p: "pair_at ranks s starts i" using best_pair_Some[OF Some] by simp
      from boundaries_erase[OF 1(2) p] show ?thesis using 1(1)[OF long Some] long Some
        by (simp add: merge_loop.simps[of ranks s starts])
    qed
  qed
qed

lemma parts_bytes:
  "k \<le> length s + 1 \<Longrightarrow> x \<in> set (parts s [m..<k]) \<Longrightarrow> length x = 1"
proof (induction "k - m" arbitrary: m)
  case (Suc d)
  then have m: "m < k" by simp
  show ?case
  proof (cases "m + 1 < k")
    case True
    then have "[m..<k] = m # (m + 1) # [m + 2..<k]" by (simp add: upt_conv_Cons del: upt_Suc)
    moreover have "[m + 1..<k] = (m + 1) # [m + 2..<k]" using True by (simp add: upt_conv_Cons del: upt_Suc)
    ultimately have "x = substr m 1 s \<or> x \<in> set (parts s [m + 1..<k])" using Suc.prems by auto
    then show ?thesis using Suc.hyps(1)[of "m + 1"] Suc.hyps(2) Suc.prems(1) True by (auto simp: substr_def)
  next
    case False
    then have "[m..<k] = [m]" using m by (simp add: upt_conv_Cons del: upt_Suc)
    then show ?thesis using Suc.prems by simp
  qed
qed simp

lemma parts_nonempty:
  "sorted_wrt (<) starts \<Longrightarrow> starts \<noteq> [] \<Longrightarrow> last starts \<le> length s \<Longrightarrow> x \<in> set (parts s starts) \<Longrightarrow> x \<noteq> []"
proof (induction s starts rule: parts.induct)
  case (1 s a b starts)
  have "b \<le> last (b # starts)"
    using 1(2) by (cases starts rule: rev_cases) auto
  then show ?case using 1 by (auto simp: substr_def)
qed simp_all

lemma boundaries_bytes:
  assumes "2 \<le> length s"
  shows "boundaries ranks s [0..<length s + 1]"
proof -
  have "hd [0..<length s + 1] = 0" by (simp add: upt_conv_Cons del: upt_Suc)
  moreover have "segment ranks x" if "x \<in> set (parts s [0..<length s + 1])" for x
    using parts_bytes[OF _ that] by (simp add: segment_def)
  ultimately show ?thesis using assms sorted_wrt_upt[of 0 "length s + 1"]
    by (simp add: boundaries_def del: upt_Suc)
qed

lemma boundaries_segments:
  assumes "boundaries ranks s starts"
  shows "concat (parts s starts) = s" "length (parts s starts) = length starts - 1"
    "\<forall>p \<in> set (parts s starts). p \<noteq> [] \<and> segment ranks p"
proof -
  have "starts \<noteq> []" using assms by (auto simp: boundaries_def)
  then show "concat (parts s starts) = s" "length (parts s starts) = length starts - 1"
    "\<forall>p \<in> set (parts s starts). p \<noteq> [] \<and> segment ranks p"
    using assms concat_parts[of starts s] parts_nonempty[of starts s]
    by (auto simp: boundaries_def substr_def strict_sorted_imp_sorted)
qed

lemma merge_segments:
  "\<exists>ps. concat ps = piece \<and> length ps = mergeCount ranks piece \<and>
     (\<forall>p \<in> set ps. p \<noteq> [] \<and> segment ranks p) \<and> no_merge ranks INT_MAX ps"
proof (cases "2 \<le> length piece")
  case True
  let ?starts = "merge_loop ranks piece [0..<length piece + 1]"
  have b: "boundaries ranks piece ?starts" "no_merge ranks INT_MAX (parts piece ?starts)"
    using merge_loop_ok[OF boundaries_bytes[OF True]] by simp_all
  moreover have "mergeCount ranks piece = length ?starts - 1"
    using True by (auto simp: mergeCount_def Let_def simp del: upt_Suc)
  ultimately show ?thesis using boundaries_segments[OF b(1)] by metis
next
  case False
  then consider "piece = []" | c where "piece = [c]" by (cases piece; cases "tl piece") auto
  then show ?thesis
  proof cases
    case 1
    then show ?thesis by (intro exI[of _ "[]"]) (simp add: mergeCount_def)
  next
    case 2
    then show ?thesis by (intro exI[of _ "[piece]"]) (simp add: mergeCount_def segment_def)
  qed
qed

lemma length_concat_ge: "\<forall>x \<in> set xs. x \<noteq> [] \<Longrightarrow> length xs \<le> length (concat xs)"
proof (induction xs)
  case (Cons x xs)
  then show ?case by (cases x) auto
qed simp

section \<open>The merges are those of byte-pair encoding\<close>

text \<open>
  The reference: of all neighbours in a list of parts that have a rank, the pair of the lowest
  rank is merged, the leftmost of several.
\<close>

definition ranked_at :: "rank_table \<Rightarrow> string list \<Rightarrow> nat \<Rightarrow> int \<Rightarrow> bool" where
  "ranked_at ranks ps i r \<longleftrightarrow> i + 1 < length ps \<and> map_of ranks (ps ! i @ ps ! (i + 1)) = Some r"

definition first_lowest :: "rank_table \<Rightarrow> string list \<Rightarrow> int \<Rightarrow> nat \<Rightarrow> bool" where
  "first_lowest ranks ps br i \<longleftrightarrow> (\<exists>r < br. ranked_at ranks ps i r \<and>
     (\<forall>j t. ranked_at ranks ps j t \<longrightarrow> r \<le> t \<and> (t = r \<longrightarrow> i \<le> j)))"

definition fuse :: "nat \<Rightarrow> string list \<Rightarrow> string list" where
  "fuse i ps = take i ps @ (ps ! i @ ps ! (i + 1)) # drop (i + 2) ps"

inductive bpe_step :: "rank_table \<Rightarrow> string list \<Rightarrow> string list \<Rightarrow> bool" for ranks where
  "first_lowest ranks ps INT_MAX i \<Longrightarrow> bpe_step ranks ps (fuse i ps)"

lemma first_lowest_unique: "first_lowest ranks ps br i \<Longrightarrow> first_lowest ranks ps br j \<Longrightarrow> i = j"
  unfolding first_lowest_def by (meson le_antisym nle_le)

lemma bpe_step_deterministic: "bpe_step ranks ps qs \<Longrightarrow> bpe_step ranks ps qs' \<Longrightarrow> qs = qs'"
  by (auto elim!: bpe_step.cases dest: first_lowest_unique)

lemma bpe_normal_form_unique:
  assumes "rtranclp (bpe_step ranks) ps us" "rtranclp (bpe_step ranks) ps vs"
    "\<not> Domainp (bpe_step ranks) us" "\<not> Domainp (bpe_step ranks) vs"
  shows "us = vs"
  using assms
proof (induction rule: converse_rtranclp_induct)
  case base
  then show ?case by (auto elim: converse_rtranclpE)
next
  case (step ps qs)
  from step.prems(1) show ?case
  proof (cases rule: converse_rtranclpE)
    case base
    then show ?thesis using step by auto
  next
    case (step qs')
    then have "qs' = qs" using \<open>bpe_step ranks ps qs\<close> by (metis bpe_step_deterministic)
    then show ?thesis using step step.IH step.prems by blast
  qed
qed

text \<open>The scan over the boundaries finds the pair the reference merges.\<close>

lemma ranked_at_Cons:
  "ranked_at ranks (x # y # ps) 0 r \<longleftrightarrow> map_of ranks (x @ y) = Some r"
  "ranked_at ranks (x # ps) (Suc j) r \<longleftrightarrow> ranked_at ranks ps j r"
  "\<not> ranked_at ranks [] j r" "\<not> ranked_at ranks [x] j r"
  by (simp_all add: ranked_at_def)

lemma ranked_at_cases:
  "ranked_at ranks (x # y # ps) j r \<longleftrightarrow> j = 0 \<and> map_of ranks (x @ y) = Some r \<or> (\<exists>k. j = Suc k \<and> ranked_at ranks (y # ps) k r)"
  by (cases j) (simp_all add: ranked_at_Cons)

definition scan_result :: "rank_table \<Rightarrow> string list \<Rightarrow> nat \<Rightarrow> int \<Rightarrow> nat option \<Rightarrow> nat option \<Rightarrow> bool" where
  "scan_result ranks ps i br bi res \<longleftrightarrow>
     (\<exists>j. res = Some (i + j) \<and> first_lowest ranks ps br j) \<or> (res = bi \<and> (\<forall>j r. ranked_at ranks ps j r \<longrightarrow> br \<le> r))"

lemma scan_skip:
  assumes "scan_result ranks (y # ps) (i + 1) br bi res" "\<forall>r. map_of ranks (x @ y) = Some r \<longrightarrow> br \<le> r"
  shows "scan_result ranks (x # y # ps) i br bi res"
proof (cases "\<exists>j. res = Some (i + 1 + j) \<and> first_lowest ranks (y # ps) br j")
  case True
  then obtain j r where j: "res = Some (i + 1 + j)" "r < br" "ranked_at ranks (y # ps) j r"
    "\<forall>k t. ranked_at ranks (y # ps) k t \<longrightarrow> r \<le> t \<and> (t = r \<longrightarrow> j \<le> k)" by (auto simp: first_lowest_def)
  then have "first_lowest ranks (x # y # ps) br (Suc j)"
    using assms(2) unfolding first_lowest_def ranked_at_cases by (intro exI[of _ r]) force
  then show ?thesis using j(1) by (simp add: scan_result_def)
next
  case False
  then show ?thesis using assms by (auto simp: scan_result_def ranked_at_cases)
qed

lemma scan_take:
  assumes "scan_result ranks (y # ps) (i + 1) r (Some i) res" "map_of ranks (x @ y) = Some r" "r < br"
  shows "scan_result ranks (x # y # ps) i br bi res"
proof (cases "\<exists>j. res = Some (i + 1 + j) \<and> first_lowest ranks (y # ps) r j")
  case True
  then obtain j q where j: "res = Some (i + 1 + j)" "q < r" "ranked_at ranks (y # ps) j q"
    "\<forall>k t. ranked_at ranks (y # ps) k t \<longrightarrow> q \<le> t \<and> (t = q \<longrightarrow> j \<le> k)" by (auto simp: first_lowest_def)
  then have "first_lowest ranks (x # y # ps) br (Suc j)"
    using assms(2,3) unfolding first_lowest_def ranked_at_cases by (intro exI[of _ q]) force
  then show ?thesis using j(1) by (simp add: scan_result_def)
next
  case False
  then have "res = Some i" "\<forall>j t. ranked_at ranks (y # ps) j t \<longrightarrow> r \<le> t" using assms(1) by (auto simp: scan_result_def)
  moreover from this have "first_lowest ranks (x # y # ps) br 0"
    using assms(2,3) unfolding first_lowest_def ranked_at_cases by (intro exI[of _ r]) force
  ultimately show ?thesis by (simp add: scan_result_def)
qed

lemma best_pair_scans: "sorted starts \<Longrightarrow> scan_result ranks (parts s starts) i br bi (best_pair ranks s starts i br bi)"
proof (induction ranks s starts i br bi rule: best_pair.induct)
  case (1 ranks s a b c starts i br bi)
  have j: "substr a (b - a) s @ substr b (c - b) s = substr a (c - a) s" using 1(4) by (intro substr_join) auto
  have srt: "sorted (b # c # starts)" using 1(4) by simp
  show ?case
  proof (cases "map_of ranks (substr a (c - a) s)")
    case None
    then show ?thesis using scan_skip[OF 1(1)[OF None srt, unfolded parts.simps(1)]] by (simp add: j)
  next
    case (Some r)
    show ?thesis
    proof (cases "r < br")
      case True
      then show ?thesis using scan_take[OF 1(2)[OF Some True srt, unfolded parts.simps(1)]] Some by (simp add: j)
    next
      case False
      then show ?thesis using scan_skip[OF 1(3)[OF Some False srt, unfolded parts.simps(1)]] Some by (simp add: j)
    qed
  qed
qed (simp_all add: scan_result_def ranked_at_Cons)

text \<open>Erasing a boundary fuses the two parts beside it, so every round of the loop is a step of the reference.\<close>

lemma parts_erase: "sorted starts \<Longrightarrow> j + 2 < length starts \<Longrightarrow> parts s (erase_nth (j + 1) starts) = fuse j (parts s starts)"
proof (induction j arbitrary: starts)
  case 0
  then obtain a b c rest where "starts = a # b # c # rest"
    by (cases starts; cases "tl starts"; cases "tl (tl starts)") auto
  then show ?case using 0 substr_join[of a b c s] by (simp add: fuse_def)
next
  case (Suc j)
  then obtain a b rest where st: "starts = a # b # rest" by (cases starts; cases "tl starts") auto
  have "parts s (erase_nth (j + 1) (b # rest)) = fuse j (parts s (b # rest))" using Suc.IH[of "b # rest"] Suc.prems st by simp
  then show ?case by (simp add: st fuse_def)
qed

lemma merge_loop_steps:
  "boundaries ranks s starts \<Longrightarrow> rtranclp (bpe_step ranks) (parts s starts) (parts s (merge_loop ranks s starts)) \<and>
     \<not> Domainp (bpe_step ranks) (parts s (merge_loop ranks s starts))"
proof (induction ranks s starts rule: merge_loop.induct)
  case (1 ranks s starts)
  have srt: "sorted starts" using 1(2) by (simp add: boundaries_def strict_sorted_imp_sorted)
  have stop: "\<not> Domainp (bpe_step ranks) ps" if "\<forall>j r. ranked_at ranks ps j r \<longrightarrow> INT_MAX \<le> r" for ps
    using that by (fastforce simp: first_lowest_def elim!: bpe_step.cases)
  show ?case
  proof (cases "2 < length starts")
    case False
    then have "\<forall>j r. ranked_at ranks (parts s starts) j r \<longrightarrow> INT_MAX \<le> r" by (auto simp: ranked_at_def)
    then show ?thesis using False stop[of "parts s starts"] by (simp add: merge_loop.simps[of ranks s starts])
  next
    case long: True
    note scan = best_pair_scans[OF srt, of ranks s 0 INT_MAX None]
    show ?thesis
    proof (cases "best_pair ranks s starts 0 INT_MAX None")
      case None
      then show ?thesis using long stop[of "parts s starts"] scan by (simp add: merge_loop.simps[of ranks s starts] scan_result_def)
    next
      case (Some i)
      then have low: "first_lowest ranks (parts s starts) INT_MAX i" using scan by (simp add: scan_result_def)
      have p: "pair_at ranks s starts i" using best_pair_Some[OF Some] by simp
      then have i: "i + 2 < length starts" by (simp add: pair_at_def)
      have "boundaries ranks s (erase_nth (i + 1) starts)" using boundaries_erase[OF 1(2) p] .
      from 1(1)[OF long Some this] have "rtranclp (bpe_step ranks) (fuse i (parts s starts)) (parts s (merge_loop ranks s starts)) \<and>
        \<not> Domainp (bpe_step ranks) (parts s (merge_loop ranks s starts))"
        using long Some parts_erase[OF srt i, of s] by (simp add: merge_loop.simps[of ranks s starts])
      then show ?thesis using bpe_step.intros[OF low] by (meson converse_rtranclp_into_rtranclp)
    qed
  qed
qed

lemma parts_single: "parts s [m..<length s + 1] = map (\<lambda>c. [c]) (drop m s)"
proof (induction "length s - m" arbitrary: m)
  case 0
  then have "[m..<length s + 1] = [] \<or> [m..<length s + 1] = [m]" by (auto simp: upt_conv_Cons)
  then show ?case using 0 by auto
next
  case (Suc d)
  then have m: "m < length s" by simp
  then have "[m..<length s + 1] = m # (m + 1) # [m + 2..<length s + 1]" "[m + 1..<length s + 1] = (m + 1) # [m + 2..<length s + 1]"
    by (simp_all add: upt_conv_Cons del: upt_Suc)
  moreover have "substr m 1 s = [s ! m]" using m by (simp add: substr_def take_Suc_conv_app_nth take_Suc hd_drop_conv_nth)
  moreover have "drop m s = s ! m # drop (m + 1) s" using m by (simp add: Cons_nth_drop_Suc)
  ultimately show ?case using Suc.hyps(1)[of "m + 1"] Suc.hyps(2) by simp
qed

lemma merge_reference:
  "\<exists>ps. rtranclp (bpe_step ranks) (map (\<lambda>c. [c]) piece) ps \<and> \<not> Domainp (bpe_step ranks) ps \<and> length ps = mergeCount ranks piece \<and>
     concat ps = piece \<and> (\<forall>p \<in> set ps. p \<noteq> [] \<and> segment ranks p)"
proof (cases "2 \<le> length piece")
  case True
  let ?starts = "merge_loop ranks piece [0..<length piece + 1]"
  note b = boundaries_bytes[OF True, of ranks]
  have "rtranclp (bpe_step ranks) (map (\<lambda>c. [c]) piece) (parts piece ?starts) \<and> \<not> Domainp (bpe_step ranks) (parts piece ?starts)"
    using merge_loop_steps[OF b] parts_single[of piece 0] by simp
  moreover have "mergeCount ranks piece = length ?starts - 1"
    using True by (auto simp: mergeCount_def Let_def simp del: upt_Suc)
  ultimately show ?thesis using boundaries_segments[of ranks piece ?starts] merge_loop_ok[OF b] by metis
next
  case False
  then have len: "length piece \<le> 1" by simp
  have "\<not> Domainp (bpe_step ranks) (map (\<lambda>c. [c]) piece)"
    using len by (auto simp: first_lowest_def ranked_at_def elim!: bpe_step.cases)
  moreover have "mergeCount ranks piece = length piece" using len by (cases piece) (simp_all add: mergeCount_def)
  moreover have "concat (map (\<lambda>c. [c]) piece) = piece" by (induction piece) simp_all
  ultimately show ?thesis by (intro exI[of _ "map (\<lambda>c. [c]) piece"]) (auto simp: segment_def)
qed

text \<open>
  Property C33. The byte-pair merge of a chunk is byte-pair encoding: from the chunk's bytes, merging
  again and again the leftmost pair of neighbours of the lowest rank ends in exactly one list of
  parts; it counts these, and they are a segmentation of the chunk into single bytes and entries
  of the rank table.
\<close>

theorem mergeCount_segmentation:
  "\<exists>ps. {qs. rtranclp (bpe_step ranks) (map (\<lambda>c. [c]) piece) qs \<and> \<not> Domainp (bpe_step ranks) qs} = {ps} \<and>
     length ps = mergeCount ranks piece \<and> concat ps = piece \<and> list_all (\<lambda>p. p \<noteq> [] \<and> segment ranks p) ps"
proof -
  obtain ps where ps: "rtranclp (bpe_step ranks) (map (\<lambda>c. [c]) piece) ps" "\<not> Domainp (bpe_step ranks) ps"
    "length ps = mergeCount ranks piece" "concat ps = piece" "\<forall>p \<in> set ps. p \<noteq> [] \<and> segment ranks p"
    using merge_reference[of ranks piece] by blast
  then have "{qs. rtranclp (bpe_step ranks) (map (\<lambda>c. [c]) piece) qs \<and> \<not> Domainp (bpe_step ranks) qs} = {ps}"
    using bpe_normal_form_unique[of ranks] by auto
  with ps show ?thesis by (intro exI[of _ ps]) (simp add: list_all_iff)
qed

lemma mergeCount_bounds:
  assumes "piece \<noteq> []"
  shows "1 \<le> mergeCount ranks piece" "mergeCount ranks piece \<le> length piece"
proof -
  obtain ps where ps: "concat ps = piece" "length ps = mergeCount ranks piece" "\<forall>p \<in> set ps. p \<noteq> []"
    using merge_segments by blast
  show "1 \<le> mergeCount ranks piece" using ps assms by (cases ps) auto
  show "mergeCount ranks piece \<le> length piece" using ps length_concat_ge by metis
qed

text \<open>
  The pre-tokenizer loses and invents nothing: its chunks are nonempty, put together they
  give the text, and the token count of the text, once a rank table is loaded, lies between
  the number of chunks and the number of bytes.
\<close>

theorem countTokens_bounds:
  assumes "ranks \<noteq> []"
  shows "concat (preTokenize input) = input \<and> [] \<notin> set (preTokenize input) \<and>
    length (preTokenize input) \<le> countTokens ranks input \<and> countTokens ranks input \<le> length input"
proof -
  have "length cs \<le> sum_list (map (mergeCount ranks) cs) \<and>
      sum_list (map (mergeCount ranks) cs) \<le> length (concat cs)" if "\<forall>c \<in> set cs. c \<noteq> []" for cs
    using that
  proof (induction cs)
    case (Cons c cs)
    then show ?case using mergeCount_bounds[of c ranks] by simp
  qed simp
  from this[of "preTokenize input"] show ?thesis
    using assms preTokenize_nonempty[of _ input] concat_preTokenize[of input]
    by (auto simp: countTokens_def)
qed

theorem countTokens_bounds_witness:
  "concat (preTokenize ''item 1234'') = ''item 1234'' \<and> [] \<notin> set (preTokenize ''item 1234'') \<and>
   length (preTokenize ''item 1234'') \<le> countTokens [(''it'', 0)] ''item 1234'' \<and>
   countTokens [(''it'', 0)] ''item 1234'' \<le> length ''item 1234''"
  by (rule countTokens_bounds) simp

section \<open>A written rank file is read back\<close>

text \<open>The standard encoding: three bytes in four characters, padded with \<open>=\<close>.\<close>

definition b64_char :: "nat \<Rightarrow> char" where
  "b64_char p = b64_alphabet ! p"

fun b64encode :: "string \<Rightarrow> string" where
  "b64encode [] = []"
| "b64encode [a] = [b64_char (ccode a div 4), b64_char (ccode a mod 4 * 16), CHR ''='', CHR ''='']"
| "b64encode [a, b] =
     [b64_char (ccode a div 4), b64_char (ccode a mod 4 * 16 + ccode b div 16),
      b64_char (ccode b mod 16 * 4), CHR ''='']"
| "b64encode (a # b # c # rest) =
     [b64_char (ccode a div 4), b64_char (ccode a mod 4 * 16 + ccode b div 16),
      b64_char (ccode b mod 16 * 4 + ccode c div 64), b64_char (ccode c mod 64)] @ b64encode rest"

lemma alphabet_distinct: "distinct b64_alphabet" "length b64_alphabet = 64"
  by (simp_all add: b64_alphabet_def)

lemma alphabet_clean: "\<forall>x \<in> set b64_alphabet. x \<noteq> CHR ''='' \<and> \<not> is_space x"
  by (simp add: b64_alphabet_def is_space_def ccode_def)

lemma index_of_distinct: "distinct xs \<Longrightarrow> i < length xs \<Longrightarrow> index_of (\<lambda>x. x = xs ! i) xs = Some i"
proof (induction xs arbitrary: i)
  case (Cons x xs)
  then show ?case by (cases i) auto
qed simp

lemma b64_char:
  assumes "p < 64"
  shows "index_of (\<lambda>x. x = b64_char p) b64_alphabet = Some p" "b64_char p \<noteq> CHR ''=''"
    "\<not> is_space (b64_char p)"
  using index_of_distinct[OF alphabet_distinct(1), of p] alphabet_clean assms
  by (auto simp: b64_char_def alphabet_distinct(2) dest: nth_mem)

lemma byte_of_acc: "(x::nat) mod 2 ^ 32 div d mod 256 = x div d mod 256" if "d \<in> {1, 4, 16}"
proof -
  have "x mod (d * (256 * m)) div d mod 256 = x div d mod 256" if "0 < d" for m
    using that by (simp add: mod_mult2_eq[of x d "256 * m"] mod_mult2_eq[of "x div d" 256 m])
  from this[of 16777216] this[of 4194304] this[of 1048576] show ?thesis using that by auto
qed

lemma low_digits: "q < m \<Longrightarrow> a < 256 \<Longrightarrow> x = m * (256 * k + a) + q \<Longrightarrow> x div m mod 256 = (a::nat)"
  by (simp add: div_mult_self4)

lemma sextet_sums:
  "q * 4 + r = (a::nat) \<Longrightarrow> (acc * 64 + q) * 64 + (r * 16 + h) = 16 * (256 * acc + a) + h"
  "q * 16 + r = (b::nat) \<Longrightarrow> (acc * 64 + (m * 16 + q)) * 64 + (r * 4 + h) = 4 * (256 * (4 * acc + m) + b) + h"
  "q * 64 + r = (c::nat) \<Longrightarrow> (acc * 64 + (m * 4 + q)) * 64 + r = 1 * (256 * (16 * acc + m) + c) + 0"
  by auto

lemma sextets:
  fixes acc :: nat and x y z :: char
  defines "a \<equiv> ccode x" and "b \<equiv> ccode y" and "c \<equiv> ccode z"
  shows "((acc * 64 + a div 4) * 64 + (a mod 4 * 16 + b div 16)) div 16 mod 256 = a"
    and "((acc * 64 + (a mod 4 * 16 + b div 16)) * 64 + (b mod 16 * 4 + c div 64)) div 4 mod 256 = b"
    and "((acc * 64 + (b mod 16 * 4 + c div 64)) * 64 + c mod 64) mod 256 = c"
    and "((acc * 64 + a div 4) * 64 + a mod 4 * 16) div 16 mod 256 = a"
    and "((acc * 64 + (a mod 4 * 16 + b div 16)) * 64 + b mod 16 * 4) div 4 mod 256 = b"
proof -
  have less: "a < 256" "b < 256" "c < 256" by (simp_all add: a_def b_def c_def)
  have "b div 16 < 16" "c div 64 < 4" using less by (simp_all add: less_mult_imp_div_less)
  note less = less this
  note sums = sextet_sums[OF div_mult_mod_eq]
  have "(acc * 64 + a div 4) * 64 + (a mod 4 * 16 + b div 16) = 16 * (256 * acc + a) + b div 16"
    using sums by simp
  from low_digits[OF _ less(1) this]
  show "((acc * 64 + a div 4) * 64 + (a mod 4 * 16 + b div 16)) div 16 mod 256 = a"
    using less by simp
  have "(acc * 64 + (a mod 4 * 16 + b div 16)) * 64 + (b mod 16 * 4 + c div 64) =
      4 * (256 * (4 * acc + a mod 4) + b) + c div 64"
    using sums by simp
  from low_digits[OF _ less(2) this]
  show "((acc * 64 + (a mod 4 * 16 + b div 16)) * 64 + (b mod 16 * 4 + c div 64)) div 4 mod 256 = b"
    using less by simp
  have "(acc * 64 + (b mod 16 * 4 + c div 64)) * 64 + c mod 64 = 1 * (256 * (16 * acc + b mod 16) + c) + 0"
    using sums by simp
  from low_digits[OF _ less(3) this]
  show "((acc * 64 + (b mod 16 * 4 + c div 64)) * 64 + c mod 64) mod 256 = c" by simp
  have "(acc * 64 + a div 4) * 64 + a mod 4 * 16 = 16 * (256 * acc + a) + 0"
    using sums by simp
  from low_digits[OF _ less(1) this]
  show "((acc * 64 + a div 4) * 64 + a mod 4 * 16) div 16 mod 256 = a" by simp
  have "(acc * 64 + (a mod 4 * 16 + b div 16)) * 64 + b mod 16 * 4 = 4 * (256 * (4 * acc + a mod 4) + b) + 0"
    using sums by simp
  from low_digits[OF _ less(2) this]
  show "((acc * 64 + (a mod 4 * 16 + b div 16)) * 64 + b mod 16 * 4) div 4 mod 256 = b" by simp
qed

lemma acc_mod: "((acc mod 2 ^ 32) * 64 + p) mod 2 ^ 32 = ((acc * 64 + p) mod 2 ^ 32 :: nat)"
  by (metis mod_add_left_eq mod_mult_left_eq)

lemma b64_loop_cong: "acc mod 2 ^ 32 = acc' mod 2 ^ 32 \<Longrightarrow> b64_loop acc bits s = b64_loop acc' bits s"
proof (induction s)
  case (Cons c cs)
  have "(acc * 64 + q) mod 2 ^ 32 = (acc' * 64 + q) mod 2 ^ 32" for q
    by (metis acc_mod Cons.prems)
  then show ?case using Cons by (simp add: Let_def split: option.split)
qed simp

lemma sextet_less:
  "ccode c div 4 < 64" "ccode c mod 4 * 16 + ccode d div 16 < 64" "ccode c mod 4 * 16 < 64"
  "ccode c mod 16 * 4 + ccode d div 64 < 64" "ccode c mod 16 * 4 < 64" "ccode c mod 64 < 64"
proof -
  have "ccode c mod 4 < 4" "ccode c mod 16 < 16" "ccode c div 4 < 64" "ccode d div 16 < 16"
    "ccode d div 64 < 4" "ccode c mod 64 < 64"
    using ccode_less[of c] ccode_less[of d] by (simp_all add: less_mult_imp_div_less)
  then show "ccode c div 4 < 64" "ccode c mod 4 * 16 + ccode d div 16 < 64" "ccode c mod 4 * 16 < 64"
    "ccode c mod 16 * 4 + ccode d div 64 < 64" "ccode c mod 16 * 4 < 64" "ccode c mod 64 < 64"
    by linarith+
qed

lemma b64_loop_mod: "b64_loop (acc mod 2 ^ 32) bits s = b64_loop acc bits s"
  by (rule b64_loop_cong) simp

lemma b64_step:
  assumes "p < 64"
  shows "b64_loop acc (- 8) (b64_char p # cs) = b64_loop (acc * 64 + p) (- 2) cs"
    and "b64_loop acc (- 2) (b64_char p # cs) =
      char_of ((acc * 64 + p) div 16 mod 256) # b64_loop (acc * 64 + p) (- 4) cs"
    and "b64_loop acc (- 4) (b64_char p # cs) =
      char_of ((acc * 64 + p) div 4 mod 256) # b64_loop (acc * 64 + p) (- 6) cs"
    and "b64_loop acc (- 6) (b64_char p # cs) =
      char_of ((acc * 64 + p) mod 256) # b64_loop (acc * 64 + p) (- 8) cs"
  using b64_char[OF assms] byte_of_acc[of 16 "acc * 64 + p"] byte_of_acc[of 4 "acc * 64 + p"]
    byte_of_acc[of 1 "acc * 64 + p"] b64_loop_mod[of "acc * 64 + p"]
  by (simp_all add: Let_def)

declare b64_loop.simps(2) [simp del]

lemma char_of_ccode [simp]: "char_of (ccode c) = c"
  by (simp add: ccode_def)

lemma b64_pad: "b64_loop acc bits (CHR ''='' # cs) = []"
  by (simp add: b64_loop.simps(2))

lemma b64_decode_encode: "b64_loop acc (- 8) (b64encode s) = s"
proof (induction s arbitrary: acc rule: b64encode.induct)
  case (4 a b c rest)
  show ?case
    by (simp only: b64encode.simps append.simps b64_step sextet_less sextets char_of_ccode 4)
qed (simp_all only: b64encode.simps append.simps b64_step b64_pad sextet_less sextets
    char_of_ccode b64_loop.simps(1))

lemma b64encode_clean: "c \<in> set (b64encode s) \<Longrightarrow> \<not> is_space c"
proof -
  have "\<not> is_space (CHR ''='')" by (simp add: is_space_def ccode_def)
  then show "c \<in> set (b64encode s) \<Longrightarrow> \<not> is_space c"
    by (induction s rule: b64encode.induct) (auto simp: b64_char(3) sextet_less)
qed

lemma b64encode_Nil: "b64encode s = [] \<longleftrightarrow> s = []"
  by (cases s rule: b64encode.cases) auto

definition rank_text :: "string \<times> int \<Rightarrow> string" where
  "rank_text e = b64encode (fst e) @ '' '' @ int_str (snd e)"

lemma int_str_not_space: "c \<in> set (int_str i) \<Longrightarrow> \<not> is_space c"
  by (auto dest!: int_str_chars simp: is_space_def is_digit_def ccode_def)

lemma next_word_append:
  assumes "w \<noteq> []" and "\<forall>c \<in> set w. \<not> is_space c" and "rest = [] \<or> is_space (hd rest)"
  shows "next_word (w @ rest) = (w, rest)"
proof -
  have "dropWhile is_space (w @ rest) = w @ rest" using assms by (cases w) auto
  moreover have "takeWhile (\<lambda>c. \<not> is_space c) (w @ rest) = w" "dropWhile (\<lambda>c. \<not> is_space c) (w @ rest) = rest"
    using assms by (cases rest; simp)+
  ultimately show ?thesis by (simp add: next_word_def)
qed

lemma next_word_space: "next_word (CHR '' '' # s) = next_word s"
  by (simp add: next_word_def is_space_def ccode_def)

lemma rank_line_text:
  assumes "k \<noteq> []" and "- (2 ^ 31) \<le> r" and "r < 2 ^ 31"
  shows "rank_line (rank_text (k, r)) = Some (k, r)"
proof -
  have w: "next_word (rank_text (k, r)) = (b64encode k, CHR '' '' # int_str r)"
    using next_word_append[of "b64encode k" "CHR '' '' # int_str r"] assms(1) b64encode_clean[of _ k]
    by (auto simp: rank_text_def b64encode_Nil is_space_def ccode_def)
  have n: "next_word (CHR '' '' # int_str r) = (int_str r, [])"
    using next_word_append[of "int_str r" "[]"] int_str_not_space by (simp add: next_word_space)
  have "stoi (int_str r) = Some r"
    using sto_int_int_str[of 32 r "[]"] assms by (simp add: stoi_def)
  then show ?thesis
    using assms(1) b64_decode_encode[of 0 k]
    by (simp add: rank_line_def w n b64encode_Nil b64decode_def)
qed

lemma update_fresh: "k \<notin> fst ` set m \<Longrightarrow> AList.update k r m = m @ [(k, r)]"
  by (induction m) auto

text \<open>
  A rank table written in the tiktoken file format, one line per entry with the standard
  base64 text of its bytes and its rank, is read back entry by entry by the loader.
\<close>

theorem loadRanks_reads_table:
  assumes "distinct (map fst table)"
    and "\<forall>(k, r) \<in> set table. k \<noteq> [] \<and> - (2 ^ 31) \<le> r \<and> r < 2 ^ 31"
  shows "loadRanks (unlines (map rank_text table)) [] = table"
proof -
  have "nl \<notin> set (rank_text e)" for e
    using b64encode_clean[of nl] int_str_not_space[of nl]
    by (auto simp: rank_text_def is_space_def ccode_def)
  then have g: "getlines (unlines (map rank_text table)) = map rank_text table"
    by (intro getlines_unlines) auto
  have "foldl (\<lambda>m line. case rank_line line of None \<Rightarrow> m | Some (k, r) \<Rightarrow> AList.update k r m) m
      (map rank_text es) = m @ es"
    if "distinct (map fst (m @ es))" "set es \<subseteq> set table" for m es
    using that
  proof (induction es arbitrary: m)
    case (Cons e es)
    obtain k r where e: "e = (k, r)" by (cases e)
    have "rank_line (rank_text e) = Some (k, r)"
      using Cons.prems(2) assms(2) unfolding e by (intro rank_line_text) auto
    moreover have "AList.update k r m = m @ [e]"
      using Cons.prems(1) unfolding e by (intro update_fresh) auto
    ultimately show ?case using Cons.IH[of "m @ [e]"] Cons.prems by simp
  qed simp
  from this[of "[]" table] show ?thesis using assms(1) by (simp add: loadRanks_def g)
qed

theorem loadRanks_reads_table_witness:
  "loadRanks (unlines (map rank_text [(''a'', 0), (''ab'', 1), (''abcd'', 259)])) [] =
     [(''a'', 0), (''ab'', 1), (''abcd'', 259)]"
  by (rule loadRanks_reads_table) auto

end
