(* ===== verification/Selection.thy ===== *)
theory Selection
  imports CxxString Complex_Main "HOL-Library.Multiset"
begin

text \<open>
  What is kept when a context is cut to a budget: \<open>core/working_set.hpp\<close> (the working set and
  its ordering), \<open>core/compress_select.hpp\<close> (the spans of a compressed text) and
  \<open>core/dangling_guard.hpp\<close> (the definition lines pulled back). Scores that the code holds as
  doubles are exact rationals here. The lemmas show that the selections stay within their
  budgets and leave nothing out that would still fit, that the ordering is a permutation that
  falls and then rises, and which lines are pulled back.
\<close>

section \<open>The working set\<close>

record source =
  src_id :: string
  src_text :: string
  tokens :: int
  relevance :: rat
  priority :: int
  pinned_src :: bool

definition default_source :: source where
  "default_source = \<lparr>src_id = [], src_text = [], tokens = 0, relevance = 0, priority = 1, pinned_src = False\<rparr>"

record working_set =
  ws_items :: "source list"
  totalTokens :: int

definition wsScore :: "source \<Rightarrow> rat" where
  "wsScore s = of_int (priority s) * relevance s"

text \<open>The ranking of pass 2; the library's \<open>sort_key\<close> is stable, as \<open>std::stable_sort\<close> is.\<close>

definition ws_order :: "source list \<Rightarrow> nat list" where
  "ws_order cands =
     sort_key (\<lambda>i. - wsScore (cands ! i)) (filter (\<lambda>i. \<not> pinned_src (cands ! i)) [0..<length cands])"

fun ws_fill :: "source list \<Rightarrow> int \<Rightarrow> nat list \<Rightarrow> bool list \<Rightarrow> int \<Rightarrow> bool list" where
  "ws_fill cands budget [] keep used = keep"
| "ws_fill cands budget (i # is) keep used =
     (if used + tokens (cands ! i) \<le> budget
      then ws_fill cands budget is (keep[i := True]) (used + tokens (cands ! i))
      else ws_fill cands budget is keep used)"

definition kept :: "'a list \<Rightarrow> bool list \<Rightarrow> 'a list" where
  "kept xs keep = map fst (filter snd (zip xs keep))"

definition selectWorkingSet :: "source list \<Rightarrow> int \<Rightarrow> working_set" where
  "selectWorkingSet cands budget =
     (let keep = ws_fill cands budget (ws_order cands) (map pinned_src cands)
                   (sum_list (map tokens (filter pinned_src cands)));
          items = kept cands keep
      in \<lparr>ws_items = items, totalTokens = sum_list (map tokens items)\<rparr>)"

text \<open>The U-shape: the ranked items are placed at the two ends in turn.\<close>

fun u_place :: "source list \<Rightarrow> nat \<Rightarrow> nat \<Rightarrow> bool \<Rightarrow> source list \<Rightarrow> source list" where
  "u_place out lo hi to_front [] = out"
| "u_place out lo hi to_front (x # xs) =
     (if to_front then u_place (out[lo := x]) (lo + 1) hi False xs
      else u_place (out[hi := x]) lo (hi - 1) True xs)"

definition orderUShaped :: "source list \<Rightarrow> source list" where
  "orderUShaped items =
     (let n = length items in
      if n \<le> 1 then items
      else u_place (replicate n default_source) 0 (n - 1) True
             (map (\<lambda>i. items ! i) (sort_key (\<lambda>i. - relevance (items ! i)) [0..<n])))"

section \<open>The spans of a compressed text\<close>

text \<open>
  \<open>infoScore\<close> counts words of at least two characters with a letter in them, and those of at
  least four again; the score is in hundredths, cut to \<open>[0, 1]\<close>.
\<close>

fun info_words :: "string \<Rightarrow> nat \<Rightarrow> bool \<Rightarrow> nat \<times> nat \<Rightarrow> nat \<times> nat" where
  "info_words [] cur alpha (w, r) =
     (if 2 \<le> cur \<and> alpha then (w + 1, if 4 \<le> cur then r + 1 else r) else (w, r))"
| "info_words (c # cs) cur alpha (w, r) =
     (if word_char c then info_words cs (cur + 1) (alpha \<or> is_alpha c) (w, r)
      else info_words cs 0 False
             (if 2 \<le> cur \<and> alpha then (w + 1, if 4 \<le> cur then r + 1 else r) else (w, r)))"

definition infoScore :: "string \<Rightarrow> rat" where
  "infoScore s = (let (w, r) = info_words s 0 False (0, 0)
                  in min 1 (of_nat w * (15 / 100) + of_nat r * (25 / 100)))"

definition score_at :: "rat list \<Rightarrow> nat \<Rightarrow> rat" where
  "score_at scores i = (if i < length scores then scores ! i else 0)"

fun span_fill :: "string list \<Rightarrow> nat \<Rightarrow> nat \<Rightarrow> nat list \<Rightarrow> bool list \<Rightarrow> nat \<Rightarrow> bool list" where
  "span_fill spans budget sep_len [] keep used = keep"
| "span_fill spans budget sep_len (i # is) keep used =
     (let add = length (spans ! i) + (if 0 < used then sep_len else 0) in
      if used + add \<le> budget then span_fill spans budget sep_len is (keep[i := True]) (used + add)
      else span_fill spans budget sep_len is keep used)"

definition span_order :: "rat list \<Rightarrow> nat \<Rightarrow> nat list" where
  "span_order scores n = sort_key (\<lambda>i. - score_at scores i) [0..<n]"

definition selectMaskByBudget :: "string list \<Rightarrow> rat list \<Rightarrow> nat \<Rightarrow> string \<Rightarrow> bool list" where
  "selectMaskByBudget spans scores budget sep =
     (let n = length spans; keep = replicate n False in
      case span_order scores n of
        [] \<Rightarrow> keep
      | i # is \<Rightarrow> span_fill spans budget (length sep) is (keep[i := True]) (length (spans ! i)))"

definition joinKept :: "string list \<Rightarrow> bool list \<Rightarrow> string \<Rightarrow> string" where
  "joinKept spans keep sep =
     foldl (\<lambda>out (s, k). if \<not> k then out else (if out \<noteq> [] then out @ sep else out) @ s) [] (zip spans keep)"

definition selectByBudget :: "string list \<Rightarrow> rat list \<Rightarrow> nat \<Rightarrow> string \<Rightarrow> string" where
  "selectByBudget spans scores budget sep = joinKept spans (selectMaskByBudget spans scores budget sep) sep"

section \<open>Definition lines pulled back\<close>

definition looksLikeEntity :: "string \<Rightarrow> bool" where
  "looksLikeEntity t =
     (if length t < 2 then False
      else
        (let up = list_ex is_upper t; low = list_ex is_lower t; us = CHR ''_'' \<in> set t;
             scope = CHR ''.'' \<in> set t \<or> CHR '':'' \<in> set t
         in up \<and> low \<or> up \<and> \<not> low \<and> 2 \<le> length t \<or> us \<and> low \<or> scope \<and> (low \<or> up)))"

definition entity_char :: "char \<Rightarrow> bool" where
  "entity_char c \<longleftrightarrow> is_alnum c \<or> c = CHR ''_'' \<or> c = CHR ''.'' \<or> c = CHR '':''"

fun entity_go :: "string \<Rightarrow> string \<Rightarrow> string list" where
  "entity_go cur [] = (if looksLikeEntity cur then [cur] else [])"
| "entity_go cur (c # cs) =
     (if entity_char c then entity_go (cur @ [c]) cs
      else (if looksLikeEntity cur then [cur] else []) @ entity_go [] cs)"

definition entityTokens :: "string \<Rightarrow> string list" where
  "entityTokens line = entity_go [] line"

text \<open>The first line of each entity, in the order of the text.\<close>

fun line_mentions :: "nat \<Rightarrow> string list \<Rightarrow> string list \<Rightarrow> (string \<times> nat) list" where
  "line_mentions i seen [] = []"
| "line_mentions i seen (t # ts) =
     (if t \<in> set seen then line_mentions i seen ts else (t, i) # line_mentions i (t # seen) ts)"

fun first_mentions :: "nat \<Rightarrow> string list \<Rightarrow> string list list \<Rightarrow> (string \<times> nat) list" where
  "first_mentions i seen [] = []"
| "first_mentions i seen (ts # rest) = line_mentions i seen ts @ first_mentions (i + 1) (ts @ seen) rest"

definition used_later :: "string list list \<Rightarrow> bool list \<Rightarrow> string \<Rightarrow> nat \<Rightarrow> bool" where
  "used_later toks keep ent d \<longleftrightarrow> list_ex (\<lambda>i. keep ! i \<and> ent \<in> set (toks ! i)) [d + 1..<length toks]"

fun pull_loop :: "string list list \<Rightarrow> bool list \<Rightarrow> nat \<Rightarrow> (string \<times> nat) list \<Rightarrow> nat list \<Rightarrow> nat list" where
  "pull_loop toks keep max_pullback [] pull = pull"
| "pull_loop toks keep max_pullback ((ent, d) # ms) pull =
     (if keep ! d then pull_loop toks keep max_pullback ms pull
      else
        (let pull' = (if used_later toks keep ent d then List.insert d pull else pull) in
         if max_pullback \<le> length pull' then pull' else pull_loop toks keep max_pullback ms pull'))"

definition danglingRepairLines :: "string list \<Rightarrow> bool list \<Rightarrow> nat \<Rightarrow> nat list" where
  "danglingRepairLines lines keep max_pullback =
     (if lines = [] \<or> length keep \<noteq> length lines then []
      else (let toks = map entityTokens lines
            in sort (pull_loop toks keep max_pullback (first_mentions 0 [] toks) [])))"

section \<open>Selecting by index\<close>

lemma kept_simps [simp]: "kept [] ks = []" "kept xs [] = []"
  "kept (x # xs) (k # ks) = (if k then x # kept xs ks else kept xs ks)"
  by (simp_all add: kept_def)

lemma kept_nths: "length keep = length xs \<Longrightarrow> kept xs keep = nths xs {i. i < length keep \<and> keep ! i}"
proof (induction xs arbitrary: keep)
  case (Cons x xs)
  then obtain k ks where k: "keep = k # ks" "length ks = length xs" by (cases keep) auto
  have "{j. Suc j < length keep \<and> keep ! Suc j} = {i. i < length ks \<and> ks ! i}" using k by simp
  then show ?case using Cons.IH[OF k(2)] k by (simp add: nths_Cons)
qed simp

lemma sum_kept:
  fixes f :: "'a \<Rightarrow> 'b::comm_monoid_add"
  shows "length keep = length xs \<Longrightarrow>
    sum_list (map f (kept xs keep)) = (\<Sum>i < length xs. if keep ! i then f (xs ! i) else 0)"
proof (induction xs arbitrary: keep)
  case (Cons x xs)
  then obtain k ks where k: "keep = k # ks" "length ks = length xs" by (cases keep) auto
  show ?case using Cons.IH[OF k(2)] k by (simp add: sum.lessThan_Suc_shift del: sum.lessThan_Suc cong: if_cong)
qed simp

lemma sum_flip:
  fixes f :: "nat \<Rightarrow> 'b::comm_monoid_add"
  assumes "i < n" and "length keep = n" and "\<not> keep ! i"
  shows "(\<Sum>j < n. if keep[i := True] ! j then f j else 0) = f i + (\<Sum>j < n. if keep ! j then f j else 0)"
proof -
  have "(\<Sum>j < n. if keep[i := True] ! j then f j else 0) =
      (\<Sum>j < n. (if j = i then f i else 0) + (if keep ! j then f j else 0))"
    using assms by (intro sum.cong) (auto simp: nth_list_update)
  then show ?thesis using assms(1) by (simp add: sum.distrib)
qed

section \<open>The working set keeps what is pinned and what fits\<close>

definition kept_tokens :: "source list \<Rightarrow> (nat \<Rightarrow> bool) \<Rightarrow> int" where
  "kept_tokens cands P = (\<Sum>j < length cands. if P j then tokens (cands ! j) else 0)"

lemma length_ws_fill [simp]: "length (ws_fill cands budget todo keep used) = length keep"
  by (induction cands budget todo keep used rule: ws_fill.induct) auto

lemma ws_fill_mono: "j < length keep \<Longrightarrow> keep ! j \<Longrightarrow> ws_fill cands budget todo keep used ! j"
proof (induction cands budget todo keep used rule: ws_fill.induct)
  case (2 cands budget i todo keep used)
  then show ?case by (cases "i = j") auto
qed simp

lemma flip_rest:
  assumes "distinct (i # todo)" and "\<forall>j \<in> set (i # todo). j < n \<and> \<not> keep ! j"
  shows "\<forall>j \<in> set todo. j < n \<and> \<not> keep[i := True] ! j"
proof
  fix j assume "j \<in> set todo"
  then have "j < n" "\<not> keep ! j" "j \<noteq> i" using assms by auto
  then show "j < n \<and> \<not> keep[i := True] ! j" by simp
qed

lemma flip_tokens:
  assumes "length keep = length cands" and "i < length cands" and "\<not> keep ! i"
  shows "kept_tokens cands ((!) (keep[i := True])) = kept_tokens cands ((!) keep) + tokens (cands ! i)"
  using assms sum_flip[of i "length cands" keep "\<lambda>j. tokens (cands ! j)"] by (simp add: kept_tokens_def)

lemma ws_fill_total:
  assumes "length keep = length cands" and "used = kept_tokens cands ((!) keep)"
    and "distinct todo" and "\<forall>i \<in> set todo. i < length cands \<and> \<not> keep ! i"
  shows "kept_tokens cands ((!) (ws_fill cands budget todo keep used)) \<le> max budget used"
  using assms
proof (induction cands budget todo keep used rule: ws_fill.induct)
  case (2 cands budget i todo keep used)
  show ?case
  proof (cases "used + tokens (cands ! i) \<le> budget")
    case True
    have "kept_tokens cands ((!) (ws_fill cands budget todo (keep[i := True]) (used + tokens (cands ! i))))
        \<le> max budget (used + tokens (cands ! i))"
    proof (rule 2(1)[OF True])
      show "\<forall>j \<in> set todo. j < length cands \<and> \<not> keep[i := True] ! j" by (rule flip_rest[OF 2(5,6)])
      show "used + tokens (cands ! i) = kept_tokens cands ((!) (keep[i := True]))"
        using flip_tokens[of keep cands i] 2(3,4,6) by simp
    qed (use 2(3,5) in simp_all)
    then show ?thesis using True by simp
  next
    case False
    have "kept_tokens cands ((!) (ws_fill cands budget todo keep used)) \<le> max budget used"
      by (rule 2(2)[OF False]) (use 2(3-6) in simp_all)
    then show ?thesis using False by simp
  qed
qed simp

text \<open>An item is left out only when the pinned ones and those ranked no lower leave no room for it.\<close>

lemma ws_fill_left_out:
  assumes "length keep = length cands" and "used = kept_tokens cands ((!) keep)"
    and "distinct todo" and "\<forall>i \<in> set todo. i < length cands \<and> \<not> keep ! i"
    and "\<forall>c \<in> set cands. 0 \<le> tokens c" and "sorted (map key todo)"
    and "i \<in> set todo" and "\<not> ws_fill cands budget todo keep used ! i"
  shows "budget < kept_tokens cands (\<lambda>j. ws_fill cands budget todo keep used ! j \<and> (keep ! j \<or> key j \<le> key i))
      + tokens (cands ! i)"
  using assms
proof (induction cands budget todo keep used rule: ws_fill.induct)
  case (2 cands budget k ks keep used)
  let ?K = "ws_fill cands budget (k # ks) keep used"
  consider (add) "used + tokens (cands ! k) \<le> budget" | (self) "\<not> used + tokens (cands ! k) \<le> budget" "i = k"
    | (skip) "\<not> used + tokens (cands ! k) \<le> budget" "i \<in> set ks"
    using 2(9) by auto
  then show ?case
  proof cases
    case add
    let ?keep = "keep[k := True]"
    have K: "?K = ws_fill cands budget ks ?keep (used + tokens (cands ! k))" using add by simp
    have "i \<noteq> k" using 2(3,6,10) ws_fill_mono[of k ?keep cands budget ks] unfolding K by auto
    then have i: "i \<in> set ks" "key k \<le> key i" using 2(8,9) by auto
    have "kept_tokens cands (\<lambda>j. ?K ! j \<and> (?keep ! j \<or> key j \<le> key i)) =
        kept_tokens cands (\<lambda>j. ?K ! j \<and> (keep ! j \<or> key j \<le> key i))"
      unfolding kept_tokens_def using i 2(3,6) by (intro sum.cong refl if_cong) (auto simp: nth_list_update)
    moreover have "budget < kept_tokens cands (\<lambda>j. ?K ! j \<and> (?keep ! j \<or> key j \<le> key i)) + tokens (cands ! i)"
      unfolding K
    proof (rule 2(1)[OF add])
      show "\<forall>j \<in> set ks. j < length cands \<and> \<not> ?keep ! j" by (rule flip_rest[OF 2(5,6)])
      show "used + tokens (cands ! k) = kept_tokens cands ((!) ?keep)"
        using flip_tokens[of keep cands k] 2(3,4,6) by simp
      show "\<not> ws_fill cands budget ks ?keep (used + tokens (cands ! k)) ! i" using 2(10) unfolding K .
    qed (use 2(3,5,7,8) i in simp_all)
    ultimately show ?thesis by simp
  next
    case self
    have "used \<le> kept_tokens cands (\<lambda>j. ?K ! j \<and> (keep ! j \<or> key j \<le> key i))"
      unfolding 2(4) kept_tokens_def using 2(3,7) ws_fill_mono[of _ keep cands budget "k # ks"]
      by (intro sum_mono) auto
    then show ?thesis using self by simp
  next
    case skip
    have K: "?K = ws_fill cands budget ks keep used" using skip by simp
    show ?thesis
      unfolding K
    proof (rule 2(2)[OF skip(1)])
      show "\<not> ws_fill cands budget ks keep used ! i" using 2(10) unfolding K .
    qed (use 2(3-8) skip(2) in simp_all)
  qed
qed simp

lemma ws_order_props:
  "distinct (ws_order cands)" "set (ws_order cands) = {i. i < length cands \<and> \<not> pinned_src (cands ! i)}"
  "sorted (map (\<lambda>i. - wsScore (cands ! i)) (ws_order cands))"
  by (auto simp: ws_order_def)

lemma kept_tokens_sum: "kept_tokens cands P = (\<Sum>j \<in> {j. j < length cands \<and> P j}. tokens (cands ! j))"
  unfolding kept_tokens_def by (rule sum.mono_neutral_cong_right) auto

text \<open>
  What the positions of a working set satisfy: every pinned one is among them, and one is left out
  only when the pinned ones and the chosen ones of no lower score leave no room for it.
\<close>

definition greedy_choice :: "source list \<Rightarrow> int \<Rightarrow> nat set \<Rightarrow> bool" where
  "greedy_choice cands budget K \<longleftrightarrow>
     K \<subseteq> {..<length cands} \<and> (\<forall>i < length cands. pinned_src (cands ! i) \<longrightarrow> i \<in> K) \<and>
     (\<forall>i < length cands. i \<notin> K \<longrightarrow>
       budget < (\<Sum>j \<in> {j \<in> K. pinned_src (cands ! j) \<or> wsScore (cands ! i) \<le> wsScore (cands ! j)}.
                  tokens (cands ! j)) + tokens (cands ! i))"

text \<open>
  The working set is a greedy choice within the budget: it holds, in input order, the
  candidates of a set of positions with every pinned one; its tokens are no more than the
  budget or what the pinned ones take; and a candidate is left out only when the pinned ones
  and the chosen ones of no lower score leave no room for it.
\<close>

theorem selectWorkingSet_greedy:
  assumes "\<forall>c \<in> set cands. 0 \<le> tokens c"
  shows "\<exists>K. greedy_choice cands budget K \<and> ws_items (selectWorkingSet cands budget) = nths cands K \<and>
    totalTokens (selectWorkingSet cands budget) = (\<Sum>i \<in> K. tokens (cands ! i)) \<and>
    totalTokens (selectWorkingSet cands budget) \<le> max budget (sum_list (map tokens (filter pinned_src cands)))"
proof -
  let ?n = "length cands" and ?pin = "map pinned_src cands"
  define used where "used = sum_list (map tokens (filter pinned_src cands))"
  define keep where "keep = ws_fill cands budget (ws_order cands) ?pin used"
  let ?K = "{i. i < ?n \<and> keep ! i}"
  note order = ws_order_props[of cands]
  have len: "length keep = ?n" by (simp add: keep_def)
  have "kept cands ?pin = filter pinned_src cands" by (induction cands) auto
  then have used: "used = kept_tokens cands ((!) ?pin)"
    using sum_kept[of ?pin cands tokens] by (simp add: used_def kept_tokens_def)
  have todo: "\<forall>i \<in> set (ws_order cands). i < ?n \<and> \<not> ?pin ! i" using order(2) by auto
  have items: "ws_items (selectWorkingSet cands budget) = kept cands keep"
    "totalTokens (selectWorkingSet cands budget) = sum_list (map tokens (kept cands keep))"
    by (simp_all add: selectWorkingSet_def keep_def used_def Let_def)
  have total: "sum_list (map tokens (kept cands keep)) = kept_tokens cands ((!) keep)"
    using sum_kept[OF len, of tokens] by (simp add: kept_tokens_def)
  have left: "budget < (\<Sum>j \<in> {j \<in> ?K. pinned_src (cands ! j) \<or> wsScore (cands ! i) \<le> wsScore (cands ! j)}. tokens (cands ! j))
        + tokens (cands ! i)" if i: "i < ?n" "i \<notin> ?K" for i
  proof -
    have "\<not> pinned_src (cands ! i)"
      using i ws_fill_mono[of i ?pin cands budget "ws_order cands" used] by (auto simp: keep_def)
    then have "i \<in> set (ws_order cands)" using i order(2) by simp
    then have "budget < kept_tokens cands (\<lambda>j. keep ! j \<and> (?pin ! j \<or> - wsScore (cands ! j) \<le> - wsScore (cands ! i)))
        + tokens (cands ! i)"
      using i ws_fill_left_out[OF _ used order(1) todo assms order(3), of i] by (simp add: keep_def)
    also have "kept_tokens cands (\<lambda>j. keep ! j \<and> (?pin ! j \<or> - wsScore (cands ! j) \<le> - wsScore (cands ! i))) =
        (\<Sum>j \<in> {j \<in> ?K. pinned_src (cands ! j) \<or> wsScore (cands ! i) \<le> wsScore (cands ! j)}. tokens (cands ! j))"
      unfolding kept_tokens_sum by (rule sum.cong) auto
    finally show ?thesis .
  qed
  have "kept_tokens cands ((!) keep) \<le> max budget used"
    unfolding keep_def using ws_fill_total[OF _ used order(1) todo] by simp
  moreover have "greedy_choice cands budget ?K"
    using left ws_fill_mono[of _ ?pin cands budget "ws_order cands" used]
    by (auto simp: greedy_choice_def keep_def)
  moreover have "ws_items (selectWorkingSet cands budget) = nths cands ?K"
    by (simp add: items kept_nths[OF len] len)
  ultimately show ?thesis
    by (intro exI[of _ ?K]) (simp add: items(2) total kept_tokens_sum used_def)
qed

definition example_sources :: "source list" where
  "example_sources =
     [\<lparr>src_id = ''a'', src_text = [], tokens = 6, relevance = 1 / 2, priority = 1, pinned_src = False\<rparr>,
      \<lparr>src_id = ''b'', src_text = [], tokens = 5, relevance = 9 / 10, priority = 2, pinned_src = False\<rparr>,
      \<lparr>src_id = ''c'', src_text = [], tokens = 3, relevance = 0, priority = 1, pinned_src = True\<rparr>]"

theorem selectWorkingSet_greedy_witness:
  "\<exists>K. greedy_choice example_sources 10 K \<and>
    ws_items (selectWorkingSet example_sources 10) = nths example_sources K \<and>
    totalTokens (selectWorkingSet example_sources 10) = (\<Sum>i \<in> K. tokens (example_sources ! i)) \<and>
    totalTokens (selectWorkingSet example_sources 10) \<le>
      max 10 (sum_list (map tokens (filter pinned_src example_sources)))"
  by (rule selectWorkingSet_greedy) (simp add: example_sources_def)

section \<open>The U-shape\<close>

fun evens :: "'a list \<Rightarrow> 'a list" where
  "evens [] = []" | "evens [x] = [x]" | "evens (x # y # zs) = x # evens zs"

definition odds :: "'a list \<Rightarrow> 'a list" where
  "odds xs = evens (tl xs)"

lemma odds_simps [simp]: "odds [] = []" "odds (x # xs) = evens xs"
  by (simp_all add: odds_def)

lemma evens_Cons: "evens (x # xs) = x # odds xs"
  by (cases xs) (simp_all add: odds_def)

lemma u_place_front:
  "u_place (a @ replicate (length xs) d @ b) (length a) (length a + length xs - 1) True xs =
     a @ evens xs @ rev (odds xs) @ b"
  "xs \<noteq> [] \<Longrightarrow> u_place (a @ replicate (length xs) d @ b) (length a) (length a + length xs - 1) False xs =
     a @ odds xs @ rev (evens xs) @ b"
proof (induction xs arbitrary: a b)
  case (Cons x xs)
  { case 1
    show ?case
    proof (cases xs)
      case Nil
      then show ?thesis by simp
    next
      case (Cons y ys)
      then show ?thesis using Cons.IH(2)[of "a @ [x]" b] by (simp add: evens_Cons)
    qed }
  { case 2
    have "(a @ replicate (length (x # xs)) d @ b)[length a + length xs := x] = a @ replicate (length xs) d @ x # b"
      by (simp add: list_update_append replicate_append_same[symmetric])
    then show ?case using Cons.IH(1)[of a "x # b"] by (simp add: evens_Cons) }
qed simp_all

lemma mset_evens_odds: "mset (evens xs) + mset (odds xs) = mset xs"
proof (induction xs)
  case (Cons x xs)
  then show ?case by (simp add: evens_Cons add.commute)
qed simp

lemma set_evens: "set (evens xs) \<subseteq> set xs"
  by (induction xs rule: evens.induct) auto

lemma sorted_evens: "sorted_wrt R xs \<Longrightarrow> sorted_wrt R (evens xs)"
proof (induction xs rule: evens.induct)
  case (3 x y zs)
  then show ?case using set_evens[of zs] by auto
qed simp_all

lemma sorted_odds: "sorted_wrt R xs \<Longrightarrow> sorted_wrt R (odds xs)"
  by (cases xs) (simp_all add: sorted_evens)

definition by_relevance :: "source list \<Rightarrow> source list" where
  "by_relevance items = map (\<lambda>i. items ! i) (sort_key (\<lambda>i. - relevance (items ! i)) [0..<length items])"

lemma by_relevance_sorted: "sorted_wrt (\<lambda>a b. relevance b \<le> relevance a) (by_relevance items)"
proof -
  have "sorted (map (\<lambda>i. - relevance (items ! i)) (sort_key (\<lambda>i. - relevance (items ! i)) [0..<length items]))"
    by simp
  then show ?thesis by (simp add: by_relevance_def sorted_wrt_map)
qed

lemma by_relevance_mset: "mset (by_relevance items) = mset items"
proof -
  have "mset (by_relevance items) = image_mset ((!) items) (mset [0..<length items])"
    by (simp add: by_relevance_def del: mset_upt)
  also have "\<dots> = mset (map ((!) items) [0..<length items])" by simp
  finally show ?thesis by (simp add: map_nth)
qed

lemma orderUShaped_halves: "orderUShaped items = evens (by_relevance items) @ rev (odds (by_relevance items))"
proof (cases "length items \<le> 1")
  case True
  then have "items = [] \<or> (\<exists>x. items = [x])" by (cases items; cases "tl items") auto
  then show ?thesis by (auto simp: orderUShaped_def by_relevance_def)
next
  case False
  have l: "length (by_relevance items) = length items" by (simp add: by_relevance_def)
  show ?thesis
    using False u_place_front(1)[of "[]" "by_relevance items" default_source "[]"]
    by (simp add: orderUShaped_def by_relevance_def Let_def)
qed

text \<open>
  The ordering only permutes the items, and puts the most relevant at the ends: along the
  first half the relevance never rises, along the second it never falls.
\<close>

theorem orderUShaped_falls_then_rises:
  "\<exists>front back. orderUShaped items = front @ back \<and> mset (front @ back) = mset items \<and>
     length back \<le> length front \<and> length front \<le> length back + 1 \<and>
     sorted_wrt (\<lambda>a b. relevance b \<le> relevance a) front \<and>
     sorted_wrt (\<lambda>a b. relevance a \<le> relevance b) back"
proof -
  have "length (odds xs) \<le> length (evens xs) \<and> length (evens xs) \<le> length (odds xs) + 1" for xs :: "source list"
    by (induction xs rule: evens.induct) (auto simp: evens_Cons)
  then show ?thesis
    using sorted_evens[OF by_relevance_sorted] sorted_odds[OF by_relevance_sorted]
      mset_evens_odds[of "by_relevance items"]
    by (intro exI[of _ "evens (by_relevance items)"] exI[of _ "rev (odds (by_relevance items))"])
      (simp add: orderUShaped_halves by_relevance_mset sorted_wrt_rev)
qed

section \<open>The spans kept fit the budget\<close>

text \<open>
  After the first span the fill is that of the working set, with every span paying for a
  separator and the budget one separator larger.
\<close>

definition span_source :: "nat \<Rightarrow> string \<Rightarrow> source" where
  "span_source sep_len s = default_source\<lparr>tokens := int (length s + sep_len)\<rparr>"

lemma tokens_span [simp]: "tokens (span_source k s) = int (length s) + int k"
  by (simp add: span_source_def)

lemma span_fill_ws:
  assumes "0 < used" and "\<forall>i \<in> set todo. i < length spans"
  shows "span_fill spans budget sep_len todo keep used =
    ws_fill (map (span_source sep_len) spans) (int budget + int sep_len) todo keep (int used + int sep_len)"
  using assms
proof (induction spans budget sep_len todo keep used rule: span_fill.induct)
  case (2 spans budget sep_len i todo keep used)
  show ?case using 2 by (auto simp: Let_def algebra_simps)
qed simp

lemma length_join: "xs \<noteq> [] \<Longrightarrow> length (join sep xs) + length sep = (\<Sum>x \<leftarrow> xs. length x + length sep)"
  by (induction sep xs rule: join.induct) auto

lemma join_snoc: "xs \<noteq> [] \<Longrightarrow> join sep (xs @ [x]) = join sep xs @ sep @ x"
  by (induction sep xs rule: join.induct) auto

lemma joinKept_join:
  assumes "length keep = length spans" and "\<forall>s \<in> set spans. s \<noteq> []"
  shows "joinKept spans keep sep = join sep (kept spans keep)"
proof -
  let ?f = "\<lambda>out (s, k). if \<not> k then out else (if out \<noteq> [] then out @ sep else out) @ s"
  have "foldl ?f [] zs = join sep (map fst (filter snd zs)) \<and>
      (foldl ?f [] zs = [] \<longleftrightarrow> filter snd zs = [])" if "\<forall>z \<in> set zs. fst z \<noteq> []" for zs
    using that
  proof (induction zs rule: rev_induct)
    case (snoc z zs)
    then show ?case by (cases "filter snd zs = []") (auto simp: join_snoc split_def)
  qed simp
  moreover have "\<forall>z \<in> set (zip spans keep). fst z \<noteq> []"
    using assms(2) by (auto dest: set_zip_leftD)
  ultimately show ?thesis by (simp add: joinKept_def kept_def)
qed

lemma span_order_props:
  "distinct (span_order scores n)" "set (span_order scores n) = {..<n}"
  "sorted (map (\<lambda>i. - score_at scores i) (span_order scores n))" "span_order scores n = [] \<longleftrightarrow> n = 0"
proof -
  show "set (span_order scores n) = {..<n}" by (auto simp: span_order_def)
  then show "span_order scores n = [] \<longleftrightarrow> n = 0" by (metis lessThan_empty_iff set_empty)
qed (simp_all add: span_order_def)

text \<open>
  A text cut to a budget keeps, in their order, the spans of a set of positions with the
  best-scored one; the result is no longer than the budget or that best span; and a span is
  left out only when it does not fit beside the kept ones of no lower score.
\<close>

theorem selectByBudget_fits:
  assumes "spans \<noteq> []" and "\<forall>s \<in> set spans. s \<noteq> []"
  shows "\<exists>K \<subseteq> {..<length spans}. hd (span_order scores (length spans)) \<in> K \<and>
    selectByBudget spans scores budget sep = join sep (nths spans K) \<and>
    length (selectByBudget spans scores budget sep)
      \<le> max budget (length (spans ! hd (span_order scores (length spans)))) \<and>
    (\<forall>i < length spans. i \<notin> K \<longrightarrow>
      budget < (\<Sum>j \<in> {j \<in> K. score_at scores i \<le> score_at scores j}. length (spans ! j) + length sep)
        + length (spans ! i))"
proof -
  let ?n = "length spans" and ?sl = "length sep" and ?cands = "map (span_source (length sep)) spans"
  obtain t rest where order: "span_order scores ?n = t # rest"
    using span_order_props(4)[of scores ?n] assms(1) by (cases "span_order scores ?n") auto
  note props = span_order_props(1-3)[of scores ?n, unfolded order]
  have t: "t < ?n" using props(2) by auto
  define keep0 where "keep0 = (replicate ?n False)[t := True]"
  define keep where "keep = span_fill spans budget ?sl rest keep0 (length (spans ! t))"
  let ?K = "{i. i < ?n \<and> keep ! i}"
  have rest: "\<forall>i \<in> set rest. i < ?n" using props(2) by auto
  have used: "0 < length (spans ! t)" using assms(2) t nth_mem by blast
  have keep: "keep = ws_fill ?cands (int budget + int ?sl) rest keep0 (int (length (spans ! t)) + int ?sl)"
    unfolding keep_def by (rule span_fill_ws[OF used rest])
  have len: "length keep = ?n" "length keep0 = ?n" by (simp_all add: keep keep0_def)
  have tokens: "tokens (?cands ! j) = int (length (spans ! j) + ?sl)" if "j < ?n" for j
    using that by simp
  have sum: "kept_tokens ?cands P = int (\<Sum>j \<in> {j. j < ?n \<and> P j}. length (spans ! j) + ?sl)" for P
    unfolding kept_tokens_sum of_nat_sum by (rule sum.cong) auto
  have keep0: "keep0 ! j \<longleftrightarrow> j = t" if "j < ?n" for j using that t by (simp add: keep0_def nth_list_update)
  then have "{j. j < ?n \<and> keep0 ! j} = {t}" using t by auto
  then have start: "int (length (spans ! t)) + int ?sl = kept_tokens ?cands ((!) keep0)" by (simp add: sum)
  have todo: "\<forall>i \<in> set rest. i < length ?cands \<and> \<not> keep0 ! i" using rest props(1) keep0 by auto
  have K: "t \<in> ?K"
    using t keep0[OF t] ws_fill_mono[of t keep0 ?cands "int budget + int ?sl" rest] len by (simp add: keep)
  have out: "selectByBudget spans scores budget sep = join sep (nths spans ?K)"
  proof -
    have "selectMaskByBudget spans scores budget sep = keep"
      by (simp add: selectMaskByBudget_def order keep_def keep0_def Let_def)
    then show ?thesis
      using joinKept_join[OF len(1) assms(2)] kept_nths[OF len(1)] by (simp add: selectByBudget_def len)
  qed
  have "spans ! t \<in> set (nths spans ?K)" using K by (auto simp: set_nths)
  then have "nths spans ?K \<noteq> []" by auto
  then have joined: "length (join sep (nths spans ?K)) + ?sl = (\<Sum>j \<in> ?K. length (spans ! j) + ?sl)"
    using length_join[of "nths spans ?K" sep] sum_kept[OF len(1), of "\<lambda>x. length x + ?sl"]
    by (simp add: kept_nths[OF len(1)] len sum.If_cases Int_def lessThan_def)
  have "kept_tokens ?cands ((!) keep) \<le> max (int budget + int ?sl) (int (length (spans ! t)) + int ?sl)"
    unfolding keep using props(1) len by (intro ws_fill_total start todo) simp_all
  then have fits: "length (join sep (nths spans ?K)) \<le> max budget (length (spans ! t))"
    unfolding sum joined[symmetric] by linarith
  have left: "budget < (\<Sum>j \<in> {j \<in> ?K. score_at scores i \<le> score_at scores j}. length (spans ! j) + ?sl)
        + length (spans ! i)" if i: "i < ?n" "i \<notin> ?K" for i
  proof -
    have "i \<noteq> t" using i K by auto
    then have r: "i \<in> set rest" using props(2) i(1) by auto
    have best: "score_at scores i \<le> score_at scores t" using props(3) r by auto
    have "int budget + int ?sl < kept_tokens ?cands (\<lambda>j. keep ! j \<and>
        (keep0 ! j \<or> - score_at scores j \<le> - score_at scores i)) + tokens (?cands ! i)"
      using i r props(1,3) len unfolding keep by (intro ws_fill_left_out start todo) auto
    moreover have e: "{j. j < ?n \<and> keep ! j \<and> (keep0 ! j \<or> - score_at scores j \<le> - score_at scores i)} =
        {j \<in> ?K. score_at scores i \<le> score_at scores j}"
      using keep0 best by auto
    ultimately show ?thesis by (simp only: sum tokens[OF i(1)] e)
  qed
  show ?thesis
    unfolding order out list.sel using K fits left by (intro exI[of _ ?K]) auto
qed

theorem selectByBudget_fits_witness:
  "\<exists>K \<subseteq> {..<length [''aaaa'', ''bb'', ''cccccc'']}.
    hd (span_order [1, 3, 2] (length [''aaaa'', ''bb'', ''cccccc''])) \<in> K \<and>
    selectByBudget [''aaaa'', ''bb'', ''cccccc''] [1, 3, 2] 8 [nl] =
      join [nl] (nths [''aaaa'', ''bb'', ''cccccc''] K) \<and>
    length (selectByBudget [''aaaa'', ''bb'', ''cccccc''] [1, 3, 2] 8 [nl])
      \<le> max 8 (length ([''aaaa'', ''bb'', ''cccccc''] ! hd (span_order [1, 3, 2] (length [''aaaa'', ''bb'', ''cccccc''])))) \<and>
    (\<forall>i < length [''aaaa'', ''bb'', ''cccccc'']. i \<notin> K \<longrightarrow>
      8 < (\<Sum>j \<in> {j \<in> K. score_at [1, 3, 2] i \<le> score_at [1, 3, 2] j}.
            length ([''aaaa'', ''bb'', ''cccccc''] ! j) + length [nl]) + length ([''aaaa'', ''bb'', ''cccccc''] ! i))"
  by (rule selectByBudget_fits) simp_all

section \<open>Exactly the dangling definitions are pulled back\<close>

lemma line_mentions_set:
  "(e, d) \<in> set (line_mentions i seen ts) \<longleftrightarrow> d = i \<and> e \<in> set ts \<and> e \<notin> set seen"
  by (induction i seen ts rule: line_mentions.induct) auto

lemma first_mentions_set:
  "(e, d) \<in> set (first_mentions i seen toks) \<longleftrightarrow>
     (\<exists>k < length toks. d = i + k \<and> e \<in> set (toks ! k) \<and> e \<notin> set seen \<and> (\<forall>j < k. e \<notin> set (toks ! j)))"
  (is "_ \<longleftrightarrow> (\<exists>k < length toks. ?at i seen toks k)")
proof (induction i seen toks rule: first_mentions.induct)
  case (2 i seen ts rest)
  have "(\<exists>k < length (ts # rest). ?at i seen (ts # rest) k) \<longleftrightarrow>
      ?at i seen (ts # rest) 0 \<or> (\<exists>k < length rest. ?at i seen (ts # rest) (Suc k))"
    by (simp only: length_Cons Ex_less_Suc2)
  then show ?case using 2 by (auto simp: line_mentions_set All_less_Suc2)
qed simp

definition pulled :: "string list list \<Rightarrow> bool list \<Rightarrow> (string \<times> nat) list \<Rightarrow> nat set" where
  "pulled toks keep ms = {d. \<exists>e. (e, d) \<in> set ms \<and> \<not> keep ! d \<and> used_later toks keep e d}"

lemma pull_loop_exact:
  assumes "distinct pull" and "length pull < m"
  shows "distinct (pull_loop toks keep m ms pull) \<and> length (pull_loop toks keep m ms pull) \<le> m \<and>
    set (pull_loop toks keep m ms pull) \<subseteq> set pull \<union> pulled toks keep ms \<and>
    (length (pull_loop toks keep m ms pull) < m \<longrightarrow>
      set (pull_loop toks keep m ms pull) = set pull \<union> pulled toks keep ms)"
  using assms
proof (induction ms arbitrary: pull)
  case (Cons x ms)
  obtain e d where x: "x = (e, d)" by (cases x)
  have p: "pulled toks keep ((e, d) # ms) =
      (if \<not> keep ! d \<and> used_later toks keep e d then {d} else {}) \<union> pulled toks keep ms"
    by (auto simp: pulled_def)
  let ?pull = "if used_later toks keep e d then List.insert d pull else pull"
  have l: "distinct ?pull" "length ?pull \<le> Suc (length pull)"
    using Cons.prems(1) by (auto simp: List.insert_def)
  show ?case
  proof (cases "keep ! d")
    case True
    then show ?thesis using Cons.IH[OF Cons.prems] by (simp add: x p)
  next
    case drop: False
    show ?thesis
    proof (cases "m \<le> length ?pull")
      case True
      then show ?thesis using l Cons.prems drop by (auto simp: x p Let_def)
    next
      case False
      then show ?thesis using Cons.IH[OF l(1)] drop by (auto simp: x p Let_def)
    qed
  qed
qed (auto simp: pulled_def)

text \<open>A line dropped by the selection although a kept line uses an entity first named there.\<close>

definition dangling_line :: "string list \<Rightarrow> bool list \<Rightarrow> nat \<Rightarrow> bool" where
  "dangling_line lines keep d \<longleftrightarrow> d < length lines \<and> \<not> keep ! d \<and>
     (\<exists>e \<in> set (entityTokens (lines ! d)). (\<forall>j < d. e \<notin> set (entityTokens (lines ! j))) \<and>
        (\<exists>i. d < i \<and> i < length lines \<and> keep ! i \<and> e \<in> set (entityTokens (lines ! i))))"

text \<open>
  Property C36. The lines pulled back are exactly the dropped lines that name first an entity a later kept
  line uses, as long as there are fewer of them than the cap; there are never more than the
  cap, no line twice, in ascending order, and never a line without that reason.
\<close>

theorem danglingRepairLines_exact:
  assumes "length keep = length lines" and "0 < max_pullback"
  shows "sorted (danglingRepairLines lines keep max_pullback) \<and>
    distinct (danglingRepairLines lines keep max_pullback) \<and>
    length (danglingRepairLines lines keep max_pullback) \<le> max_pullback \<and>
    (\<forall>d \<in> set (danglingRepairLines lines keep max_pullback). dangling_line lines keep d) \<and>
    (length (danglingRepairLines lines keep max_pullback) < max_pullback \<longrightarrow>
      set (danglingRepairLines lines keep max_pullback) = {d. dangling_line lines keep d})"
proof (cases "lines = []")
  case True
  then show ?thesis by (simp add: danglingRepairLines_def dangling_line_def)
next
  case False
  let ?toks = "map entityTokens lines" and ?ms = "first_mentions 0 [] (map entityTokens lines)"
  have u: "used_later ?toks keep e d \<longleftrightarrow>
      (\<exists>i. d < i \<and> i < length lines \<and> keep ! i \<and> e \<in> set (entityTokens (lines ! i)))" for e d
    by (auto simp: used_later_def list_ex_iff Suc_le_eq Bex_def)
  have "pulled ?toks keep ?ms = {d. dangling_line lines keep d}"
    by (auto simp: pulled_def first_mentions_set dangling_line_def u Bex_def)
  then show ?thesis
    using pull_loop_exact[of "[]" max_pullback ?toks keep ?ms] assms False
    by (auto simp: danglingRepairLines_def Let_def)
qed

theorem danglingRepairLines_exact_witness:
  "danglingRepairLines [''let Foo = 1'', ''misc'', ''use Foo''] [False, False, True] 16 = [0] \<and>
   {d. dangling_line [''let Foo = 1'', ''misc'', ''use Foo''] [False, False, True] d} = {0}"
proof -
  have run: "danglingRepairLines [''let Foo = 1'', ''misc'', ''use Foo''] [False, False, True] 16 = [0]" by code_simp
  then show ?thesis
    using danglingRepairLines_exact[of "[False, False, True]" "[''let Foo = 1'', ''misc'', ''use Foo'']" 16] by simp
qed

end
