(* ===== verification/Bisect.thy ===== *)
theory Bisect
  imports Cli
begin

text \<open>
  \<open>icmg bisect\<close>: \<open>cli/bisect_logic.hpp\<close> (the binary search and the estimate of its test runs) and
  \<open>cli/commands/bisect_cmd.cpp\<close> (the command around it). What \<open>git\<close> answers, and the exit code
  of the test at a commit, are arguments; what the command does to the repository is the list
  of its actions. The lemmas show that the search finds the first bad commit, how many tests it
  runs, that a dirty tree is left alone, and that the original \<open>HEAD\<close> is restored.
\<close>

section \<open>The search\<close>

text \<open>The loop variable \<open>cap\<close> is always two to the power of \<open>steps\<close>.\<close>

function steps_loop :: "nat \<Rightarrow> nat \<Rightarrow> nat" where
  "steps_loop steps target = (if 2 ^ steps < target then steps_loop (steps + 1) target else steps)"
  by pat_completeness auto
termination
  by (relation "measure (\<lambda>(steps, target). target - 2 ^ steps)") (auto simp: diff_less_mono2)

declare steps_loop.simps [simp del]

definition bisectStepsEstimate :: "nat \<Rightarrow> nat" where
  "bisectStepsEstimate n = (if n \<le> 2 then 0 else steps_loop 0 (n - 2 + 1))"

text \<open>
  The predicate may act on a state, here of any type: it is called with the index and the state
  and returns the state after it. The result is the index, or \<open>-1\<close>.
\<close>

function bad_loop :: "(nat \<Rightarrow> 's \<Rightarrow> bool \<times> 's) \<Rightarrow> nat \<Rightarrow> nat \<Rightarrow> int \<Rightarrow> 's \<Rightarrow> int \<times> 's" where
  "bad_loop isBad lo hi ans s =
     (if lo < hi then
        (let mid = lo + (hi - lo) div 2; (b, s1) = isBad mid s in
         if b then bad_loop isBad lo mid (int mid) s1 else bad_loop isBad (mid + 1) hi ans s1)
      else (ans, s))"
  by pat_completeness auto
termination
  by (relation "measure (\<lambda>(_, lo, hi, _, _). hi - lo)") auto

declare bad_loop.simps [simp del]

definition firstBadIndex :: "nat \<Rightarrow> (nat \<Rightarrow> 's \<Rightarrow> bool \<times> 's) \<Rightarrow> 's \<Rightarrow> int \<times> 's" where
  "firstBadIndex n isBad s = bad_loop isBad 0 n (- 1) s"

section \<open>The command\<close>

datatype repo_action = Git string | Test string string

record repo =
  git_out :: "string \<Rightarrow> string \<times> int"
  test_exit :: "string \<Rightarrow> string \<Rightarrow> int"

definition git :: "repo \<Rightarrow> string \<Rightarrow> string" where
  "git r args = rtrim (fst (git_out r args))"

definition checkout :: "string \<Rightarrow> repo_action" where
  "checkout sha = Git (''checkout -q '' @ sha)"

text \<open>The state of the predicate is what it has printed and done.\<close>

definition is_bad :: "repo \<Rightarrow> string list \<Rightarrow> string \<Rightarrow> nat \<Rightarrow> string \<times> repo_action list \<Rightarrow>
    bool \<times> (string \<times> repo_action list)" where
  "is_bad r commits test i s =
     (if i = 0 then (False, s)
      else
        (let sha = commits ! i; e = test_exit r sha test; bad_here = (e \<noteq> 0) in
         (bad_here,
          (fst s @ ''  '' @ take 10 sha @ ''  '' @ (if bad_here then ''BAD'' else ''good'')
             @ ''  (exit '' @ int_str e @ '')'' @ [nl],
           snd s @ [checkout sha, Test sha test]))))"

definition bisect_usage :: string where
  "bisect_usage =
     ''Usage: icmg bisect --good <ref> --bad <ref> --test '' @ [dq] @ ''<cmd>'' @ [dq] @ '' [--max N]'' @ [nl, nl] @
     ''  --good <ref>   a known-GOOD commit (test passes)'' @ [nl] @
     ''  --bad  <ref>   a known-BAD commit (test fails); default HEAD'' @ [nl] @
     ''  --test '' @ [dq] @ ''<cmd>'' @ [dq] @ '' shell command; non-zero exit = BAD'' @ [nl] @
     ''  --max  N       cap candidates (safety; default 200)'' @ [nl, nl] @
     ''Binary-searches good..bad, checking out each midpoint and running'' @ [nl] @
     ''the test. Reports the first BAD commit. Refuses a dirty tree;'' @ [nl] @
     ''restores your original HEAD when done.'' @ [nl]"

definition original_head :: "repo \<Rightarrow> string" where
  "original_head r =
     (let orig = git r ''symbolic-ref --short -q HEAD'' in
      if snd (git_out r ''symbolic-ref --short -q HEAD'') \<noteq> 0 \<or> orig = []
      then git r ''rev-parse HEAD'' else orig)"

definition head_actions :: "repo \<Rightarrow> repo_action list" where
  "head_actions r =
     Git ''symbolic-ref --short -q HEAD''
       # (if snd (git_out r ''symbolic-ref --short -q HEAD'') \<noteq> 0 \<or> git r ''symbolic-ref --short -q HEAD'' = []
          then [Git ''rev-parse HEAD''] else [])"

definition commit_list :: "repo \<Rightarrow> string \<Rightarrow> string \<Rightarrow> string list" where
  "commit_list r good revs =
     git r (''rev-parse '' @ good) # filter (\<lambda>l. l \<noteq> []) (map rtrim (getlines revs))"

text \<open>The command once it has its commits: search, restore the original \<open>HEAD\<close>, report.\<close>

definition bisect_search :: "repo \<Rightarrow> string list \<Rightarrow> string \<Rightarrow> string \<Rightarrow> repo_action list \<Rightarrow> outcome \<times> repo_action list" where
  "bisect_search r commits test orig look =
     (let n = length commits;
          head = ''bisect: '' @ nat_str (n - 1) @ '' commits, ~'' @ nat_str (bisectStepsEstimate n)
                 @ '' test runs.'' @ [nl];
          (idx, printed, acts) = firstBadIndex n (is_bad r commits test) (head, look);
          acts = acts @ [checkout orig] in
      if idx \<le> 0 then
        (\<lparr>exit_code = 1, out = printed
            @ ''bisect: no bad commit found in range (range may be all-good or mislabeled).'' @ [nl],
          err = []\<rparr>, acts)
      else
        (let culprit = commits ! nat idx;
             show_cmd = ''show --no-patch --format=%h%x20%s%x20(%an,%ar) '' @ culprit in
         (\<lparr>exit_code = 0,
           out = printed @ [nl] @ ''First BAD commit: '' @ culprit @ [nl] @ git r show_cmd @ [nl]
             @ ''HEAD restored to '' @ orig @ ''.'' @ [nl],
           err = []\<rparr>, acts @ [Git show_cmd])))"

definition rev_range :: "string list \<Rightarrow> string" where
  "rev_range args = flagValue args ''--good'' [] @ ''..'' @ flagValue args ''--bad'' ''HEAD''"

definition rev_list_cmd :: "string list \<Rightarrow> string" where
  "rev_list_cmd args = ''rev-list --reverse '' @ rev_range args"

definition max_candidates :: "string list \<Rightarrow> int" where
  "max_candidates args = (case stoi (flagValue args ''--max'' ''200'') of Some m \<Rightarrow> m | None \<Rightarrow> 200)"

definition bisect_run :: "repo \<Rightarrow> string list \<Rightarrow> outcome \<times> repo_action list" where
  "bisect_run r args =
     (let fail = (\<lambda>code msg. \<lparr>exit_code = code, out = [], err = ''icmg bisect: '' @ msg @ [nl]\<rparr>) in
      if hasFlag args ''--help'' \<or> hasFlag args ''-h'' \<or> args = [] then
        (\<lparr>exit_code = 0, out = bisect_usage, err = []\<rparr>, [])
      else
        (let good = flagValue args ''--good'' []; test = flagValue args ''--test'' [] in
         if good = [] \<or> test = [] then (fail 1 ''--good and --test are required.'', [])
         else if git r ''status --porcelain'' \<noteq> [] then
           (fail 2 ''working tree is dirty. Commit or stash first.'', [Git ''status --porcelain''])
         else
           (let orig = original_head r; look = Git ''status --porcelain'' # head_actions r in
            if orig = [] then (fail 2 ''cannot resolve HEAD.'', look)
            else if snd (git_out r (rev_list_cmd args)) \<noteq> 0 then
              (fail 2 (''git rev-list failed for '' @ rev_range args), look @ [Git (rev_list_cmd args)])
            else
              (let commits = commit_list r good (git r (rev_list_cmd args)); n = length commits;
                   look = look @ [Git (rev_list_cmd args), Git (''rev-parse '' @ good)] in
               if n < 2 then (fail 1 ''no commits between good and bad.'', look)
               else if max_candidates args < int n - 2 then
                 (fail 1 (int_str (int n - 2) @ '' candidates exceed --max '' @ int_str (max_candidates args) @ ''.''), look)
               else bisect_search r commits test orig look))))"

section \<open>The search finds the first bad commit\<close>

section \<open>The search finds the first bad commit\<close>

lemma bad_loop_end: "bad_loop isBad hi hi ans s = (ans, s)"
  by (simp add: bad_loop.simps)

lemma bad_loop_step:
  assumes "lo < hi"
  shows "bad_loop isBad lo hi ans s =
    (let mid = lo + (hi - lo) div 2 in
     if fst (isBad mid s) then bad_loop isBad lo mid (int mid) (snd (isBad mid s))
     else bad_loop isBad (mid + 1) hi ans (snd (isBad mid s)))"
  using assms by (subst bad_loop.simps) (simp add: Let_def split_def)

lemma bad_loop_result:
  assumes "\<And>i s. fst (isBad i s) = bad i" and "\<And>i j. i \<le> j \<Longrightarrow> j < n \<Longrightarrow> bad i \<Longrightarrow> bad j"
    and "\<forall>i < lo. \<not> bad i" and "lo \<le> hi" and "hi \<le> n" and "(ans = - 1 \<and> hi = n) \<or> (ans = int hi \<and> hi < n \<and> bad hi)"
  shows "(fst (bad_loop isBad lo hi ans s) = - 1 \<and> (\<forall>i < n. \<not> bad i)) \<or>
    (\<exists>k < n. fst (bad_loop isBad lo hi ans s) = int k \<and> bad k \<and> (\<forall>i < k. \<not> bad i))"
  using assms(3-)
proof (induction "hi - lo" arbitrary: lo hi ans s rule: less_induct)
  case less
  show ?case
  proof (cases "lo < hi")
    case False
    then have "lo = hi" using less.prems by simp
    then show ?thesis using less.prems by (auto simp: bad_loop_end)
  next
    case True
    let ?mid = "lo + (hi - lo) div 2"
    have mid: "lo \<le> ?mid" "?mid < hi" using True by simp_all
    have step: "bad_loop isBad lo hi ans s =
        (if bad ?mid then bad_loop isBad lo ?mid (int ?mid) (snd (isBad ?mid s))
         else bad_loop isBad (?mid + 1) hi ans (snd (isBad ?mid s)))"
      using assms(1)[of ?mid s] by (simp only: bad_loop_step[OF True] Let_def)
    show ?thesis
    proof (cases "bad ?mid")
      case bad: True
      show ?thesis
        unfolding step if_P[OF bad]
        by (rule less.hyps) (use mid bad less.prems in auto)
    next
      case good: False
      have "\<forall>i < ?mid + 1. \<not> bad i"
        using good assms(2)[of _ ?mid] mid less.prems(3) by (metis Suc_eq_plus1 less_Suc_eq_le order.strict_trans2)
      then show ?thesis
        unfolding step if_not_P[OF good]
        by (intro less.hyps) (use mid less.prems in auto)
    qed
  qed
qed
definition n_tests :: "repo_action list \<Rightarrow> nat" where
  "n_tests acts = length (filter (\<lambda>a. case a of Test _ _ \<Rightarrow> True | Git _ \<Rightarrow> False) acts)"

lemma is_bad_tests: "n_tests (snd (snd (is_bad r cs t i s))) = n_tests (snd s) + (if i = 0 then 0 else 1)"
  by (simp add: is_bad_def n_tests_def checkout_def Let_def)

lemma half_less: "m < 2 ^ Suc k \<Longrightarrow> m div 2 < (2::nat) ^ k"
  by (simp add: less_mult_imp_div_less)

lemma tests_above:
  "hi - lo < 2 ^ k \<Longrightarrow> n_tests (snd (snd (bad_loop (is_bad r cs t) lo hi ans s))) \<le> n_tests (snd s) + k"
proof (induction k arbitrary: lo hi ans s)
  case 0
  then show ?case by (simp add: bad_loop.simps[of _ lo hi])
next
  case (Suc k)
  show ?case
  proof (cases "lo < hi")
    case True
    let ?mid = "lo + (hi - lo) div 2" and ?s = "snd (is_bad r cs t (lo + (hi - lo) div 2) s)"
    have half: "?mid - lo < 2 ^ k" "hi - (?mid + 1) < 2 ^ k"
      using half_less[OF Suc.prems] True by simp_all
    have "n_tests (snd (snd (bad_loop (is_bad r cs t) lo ?mid (int ?mid) ?s))) \<le> n_tests (snd s) + Suc k"
      "n_tests (snd (snd (bad_loop (is_bad r cs t) (?mid + 1) hi ans ?s))) \<le> n_tests (snd s) + Suc k"
      using Suc.IH[OF half(1), of "int ?mid" ?s] Suc.IH[OF half(2), of ans ?s] is_bad_tests[of r cs t ?mid s]
      by (auto split: if_splits)
    then show ?thesis by (simp only: bad_loop_step[OF True] Let_def split: if_split) blast
  qed (simp add: bad_loop.simps[of _ lo hi])
qed

text \<open>From the left end the known-good commit costs no test.\<close>

lemma tests_from_0:
  "hi \<le> 2 ^ k \<Longrightarrow> n_tests (snd (snd (bad_loop (is_bad r cs t) 0 hi ans s))) \<le> n_tests (snd s) + k"
proof (induction k arbitrary: hi ans s)
  case 0
  then have "hi = 0 \<or> hi = 1" by auto
  then show ?case
    by (auto simp: bad_loop_end bad_loop_step[of 0 "Suc 0"] is_bad_def)
next
  case (Suc k)
  show ?case
  proof (cases "2 \<le> hi")
    case True
    let ?mid = "0 + (hi - 0) div 2" and ?s = "snd (is_bad r cs t (0 + (hi - 0) div 2) s)"
    have half: "?mid \<le> 2 ^ k" "hi - (?mid + 1) < 2 ^ k" "0 < ?mid" using Suc.prems True by auto
    have "n_tests (snd (snd (bad_loop (is_bad r cs t) 0 ?mid (int ?mid) ?s))) \<le> n_tests (snd s) + Suc k"
      "n_tests (snd (snd (bad_loop (is_bad r cs t) (?mid + 1) hi ans ?s))) \<le> n_tests (snd s) + Suc k"
      using Suc.IH[OF half(1), of "int ?mid" ?s] tests_above[OF half(2), of r cs t ans ?s]
        is_bad_tests[of r cs t ?mid s] by (auto split: if_splits)
    then show ?thesis using True by (simp only: bad_loop_step[of 0 hi] Let_def split: if_split) auto
  next
    case False
    then have "hi = 0 \<or> hi = 1" by auto
    then show ?thesis by (auto simp: bad_loop_end bad_loop_step[of 0 "Suc 0"] is_bad_def)
  qed
qed

lemma steps_loop_ge: "target \<le> 2 ^ steps_loop steps target"
proof (induction steps target rule: steps_loop.induct)
  case (1 steps target)
  then show ?case
    by (cases "2 ^ steps < target") (simp_all add: steps_loop.simps[of steps target])
qed

lemma estimate_bound: "n \<le> 2 ^ (bisectStepsEstimate n + 1)"
proof (cases "n \<le> 2")
  case False
  then have "n - 2 + 1 \<le> 2 ^ bisectStepsEstimate n"
    using steps_loop_ge[of "n - 2 + 1" 0] by (simp add: bisectStepsEstimate_def)
  then show ?thesis using False by simp
qed (simp add: bisectStepsEstimate_def)

lemma search_result:
  fixes s :: "string \<times> repo_action list"
  assumes "n = length commits" and "0 < n"
    and "\<forall>i j. 0 < i \<and> i \<le> j \<and> j < n \<and> test_exit r (commits ! i) t \<noteq> 0 \<longrightarrow> test_exit r (commits ! j) t \<noteq> 0"
  defines "res \<equiv> firstBadIndex n (is_bad r commits t) s"
  shows "(fst res = - 1 \<and> (\<forall>i. 0 < i \<and> i < n \<longrightarrow> test_exit r (commits ! i) t = 0)) \<or>
    (\<exists>k. 0 < k \<and> k < n \<and> fst res = int k \<and> test_exit r (commits ! k) t \<noteq> 0 \<and>
      (\<forall>i. 0 < i \<and> i < k \<longrightarrow> test_exit r (commits ! i) t = 0))"
    and "n_tests (snd (snd res)) \<le> n_tests (snd s) + (bisectStepsEstimate n + 1)"
proof -
  let ?bad = "\<lambda>i. 0 < i \<and> test_exit r (commits ! i) t \<noteq> 0"
  have "fst (is_bad r commits t i s) = ?bad i" for i s by (simp add: is_bad_def Let_def)
  then have "(fst res = - 1 \<and> (\<forall>i < n. \<not> ?bad i)) \<or>
      (\<exists>k < n. fst res = int k \<and> ?bad k \<and> (\<forall>i < k. \<not> ?bad i))"
    unfolding res_def firstBadIndex_def using assms(1-3) by (intro bad_loop_result) auto
  then show "(fst res = - 1 \<and> (\<forall>i. 0 < i \<and> i < n \<longrightarrow> test_exit r (commits ! i) t = 0)) \<or>
    (\<exists>k. 0 < k \<and> k < n \<and> fst res = int k \<and> test_exit r (commits ! k) t \<noteq> 0 \<and>
      (\<forall>i. 0 < i \<and> i < k \<longrightarrow> test_exit r (commits ! i) t = 0))"
    by auto
  show "n_tests (snd (snd res)) \<le> n_tests (snd s) + (bisectStepsEstimate n + 1)"
    unfolding res_def firstBadIndex_def by (rule tests_from_0[OF estimate_bound])
qed

section \<open>The command\<close>

text \<open>The arguments and the repository let the search start, over these commits.\<close>

definition bisect_ready :: "repo \<Rightarrow> string list \<Rightarrow> string list \<Rightarrow> bool" where
  "bisect_ready r args commits \<longleftrightarrow>
     args \<noteq> [] \<and> \<not> hasFlag args ''--help'' \<and> \<not> hasFlag args ''-h'' \<and> flagValue args ''--good'' [] \<noteq> [] \<and>
     flagValue args ''--test'' [] \<noteq> [] \<and> git r ''status --porcelain'' = [] \<and> original_head r \<noteq> [] \<and>
     snd (git_out r (rev_list_cmd args)) = 0 \<and>
     commit_list r (flagValue args ''--good'' []) (git r (rev_list_cmd args)) = commits \<and> 2 \<le> length commits \<and>
     int (length commits) - 2 \<le> max_candidates args"

lemma bisect_run_ready:
  assumes "bisect_ready r args commits"
  obtains look where "n_tests look = 0"
    "bisect_run r args = bisect_search r commits (flagValue args ''--test'' []) (original_head r) look"
proof -
  let ?look = "(Git ''status --porcelain'' # head_actions r) @
    [Git (rev_list_cmd args), Git (''rev-parse '' @ flagValue args ''--good'' [])]"
  have "bisect_run r args = bisect_search r commits (flagValue args ''--test'' []) (original_head r) ?look"
    using assms by (simp add: bisect_run_def bisect_ready_def Let_def)
  then show ?thesis by (rule that[rotated]) (simp add: n_tests_def head_actions_def)
qed

text \<open>
  Property C34. When the tests pass up to some commit of the range and fail from then on, and the range's
  last commit fails, \<open>icmg bisect\<close> reports that first failing commit with exit code 0, after at
  most one more test run than the estimate it prints.
\<close>

theorem bisect_reports_first_bad:
  assumes "bisect_ready r args commits"
    and "\<forall>i j. 0 < i \<and> i \<le> j \<and> j < length commits \<and>
      test_exit r (commits ! i) (flagValue args ''--test'' []) \<noteq> 0 \<longrightarrow>
      test_exit r (commits ! j) (flagValue args ''--test'' []) \<noteq> 0"
    and "test_exit r (last commits) (flagValue args ''--test'' []) \<noteq> 0"
  shows "exit_code (fst (bisect_run r args)) = 0 \<and>
    n_tests (snd (bisect_run r args)) \<le> bisectStepsEstimate (length commits) + 1 \<and>
    (\<exists>k. 0 < k \<and> k < length commits \<and> test_exit r (commits ! k) (flagValue args ''--test'' []) \<noteq> 0 \<and>
      (\<forall>i. 0 < i \<and> i < k \<longrightarrow> test_exit r (commits ! i) (flagValue args ''--test'' []) = 0) \<and>
      sublist ([nl] @ ''First BAD commit: '' @ commits ! k @ [nl]) (out (fst (bisect_run r args))))"
proof -
  let ?t = "flagValue args ''--test'' []" and ?n = "length commits"
  have n: "2 \<le> ?n" using assms(1) unfolding bisect_ready_def Let_def by blast
  from assms(1) obtain look where look: "n_tests look = 0"
    and run: "bisect_run r args = bisect_search r commits ?t (original_head r) look"
    by (rule bisect_run_ready)
  let ?head = "''bisect: '' @ nat_str (?n - 1) @ '' commits, ~'' @ nat_str (bisectStepsEstimate ?n) @ '' test runs.'' @ [nl]"
  let ?res = "firstBadIndex ?n (is_bad r commits ?t) (?head, look)"
  obtain idx p acts where res: "?res = (idx, p, acts)" by (cases ?res) auto
  note s = search_result[OF refl, of commits r ?t "(?head, look)", unfolded res fst_conv snd_conv]
  have pos: "0 < ?n" "0 < ?n - 1" "?n - 1 < ?n" using n by linarith+
  have "commits \<noteq> []" using pos(1) by auto
  then have bad: "test_exit r (commits ! (?n - 1)) ?t \<noteq> 0" using assms(3) by (simp add: last_conv_nth)
  then have "\<not> (idx = - 1 \<and> (\<forall>i. 0 < i \<and> i < ?n \<longrightarrow> test_exit r (commits ! i) ?t = 0))"
    using pos by blast
  then obtain k where k: "0 < k" "k < ?n" "idx = int k" "test_exit r (commits ! k) ?t \<noteq> 0"
    "\<forall>i. 0 < i \<and> i < k \<longrightarrow> test_exit r (commits ! i) ?t = 0"
    using s(1)[OF pos(1) assms(2)] by blast
  have tests: "n_tests acts \<le> bisectStepsEstimate ?n + 1"
    using s(2)[OF pos(1) assms(2)] look by linarith
  have "sublist ([nl] @ ''First BAD commit: '' @ commits ! k @ [nl])
      (p @ ([nl] @ ''First BAD commit: '' @ commits ! k @ [nl]) @ rest)" for rest
    by (simp only: sublist_appendI)
  then show ?thesis
    using k tests unfolding run bisect_search_def res Let_def
    by (intro conjI exI[of _ k]) (auto simp: n_tests_def checkout_def)
qed

definition example_repo :: repo where
  "example_repo =
     \<lparr>git_out = (\<lambda>c. if c = ''symbolic-ref --short -q HEAD'' then (''main'' @ [nl], 0)
         else if c = ''rev-list --reverse v1..HEAD'' then (unlines [''c1'', ''c2'', ''c3''], 0)
         else if c = ''rev-parse v1'' then (''c0'' @ [nl], 0) else ([], 0)),
      test_exit = (\<lambda>sha test. if sha = ''c2'' \<or> sha = ''c3'' then 1 else 0)\<rparr>"

definition example_args :: "string list" where
  "example_args = [''--good'', ''v1'', ''--test'', ''make check'']"

lemma example_ready: "bisect_ready example_repo example_args [''c0'', ''c1'', ''c2'', ''c3'']"
  by (simp add: bisect_ready_def example_args_def example_repo_def hasFlag_def git_def original_head_def
      rev_list_cmd_def rev_range_def commit_list_def rtrim_def getlines_on_def max_candidates_def
      stoi_def sto_int_def char_class_defs num_of_def digit_val_def)

theorem bisect_reports_first_bad_witness:
  "exit_code (fst (bisect_run example_repo example_args)) = 0 \<and>
   n_tests (snd (bisect_run example_repo example_args)) \<le>
     bisectStepsEstimate (length [''c0'', ''c1'', ''c2'', ''c3'']) + 1 \<and>
   (\<exists>k. 0 < k \<and> k < length [''c0'', ''c1'', ''c2'', ''c3''] \<and>
     test_exit example_repo ([''c0'', ''c1'', ''c2'', ''c3''] ! k) (flagValue example_args ''--test'' []) \<noteq> 0 \<and>
     (\<forall>i. 0 < i \<and> i < k \<longrightarrow>
       test_exit example_repo ([''c0'', ''c1'', ''c2'', ''c3''] ! i) (flagValue example_args ''--test'' []) = 0) \<and>
     sublist ([nl] @ ''First BAD commit: '' @ [''c0'', ''c1'', ''c2'', ''c3''] ! k @ [nl])
       (out (fst (bisect_run example_repo example_args))))"
proof (rule bisect_reports_first_bad[OF example_ready])
  have "j = 3" if "2 \<le> j" "j < 4" "j \<noteq> 2" for j :: nat using that by linarith
  then show "\<forall>i j. 0 < i \<and> i \<le> j \<and> j < length [''c0'', ''c1'', ''c2'', ''c3''] \<and>
      test_exit example_repo ([''c0'', ''c1'', ''c2'', ''c3''] ! i) (flagValue example_args ''--test'' []) \<noteq> 0 \<longrightarrow>
      test_exit example_repo ([''c0'', ''c1'', ''c2'', ''c3''] ! j) (flagValue example_args ''--test'' []) \<noteq> 0"
    by (auto simp: example_repo_def nth_Cons' split: if_splits)
qed (simp add: example_repo_def)

section \<open>The working tree is left as it was\<close>

text \<open>The actions that change what is checked out, or run code in it.\<close>

definition touches :: "repo_action \<Rightarrow> bool" where
  "touches a = (case a of Test _ _ \<Rightarrow> True | Git c \<Rightarrow> prefix ''checkout'' c)"

lemma touches_simps: "touches (Git c) = prefix ''checkout'' c" "touches (Test sha t)" "touches (checkout sha)"
  by (simp_all add: touches_def checkout_def)

lemma look_quiet: "filter touches (head_actions r) = []" "\<not> prefix ''checkout'' (rev_list_cmd args)"
  by (simp_all add: touches_simps head_actions_def rev_list_cmd_def)

text \<open>
  Property C35. Whatever the arguments and whatever git answers, \<open>icmg bisect\<close> either checks out and runs
  nothing, or the last thing it checks out or runs is the checkout of the original \<open>HEAD\<close>; on a
  working tree with changes it checks out and runs nothing.
\<close>

theorem bisect_restores_head:
  "(filter touches (snd (bisect_run r args)) = [] \<or>
     last (filter touches (snd (bisect_run r args))) = checkout (original_head r)) \<and>
   (git r ''status --porcelain'' = [] \<or> filter touches (snd (bisect_run r args)) = [])"
proof -
  have "last (filter touches (snd (bisect_search r cs t o1 look))) = checkout o1" for cs t o1 look
    by (auto simp: bisect_search_def Let_def split_def touches_simps)
  then show ?thesis
    by (auto simp: bisect_run_def Let_def look_quiet touches_simps)
qed

end
