(* ===== verification/Leiden.thy ===== *)
theory Leiden
  imports Prelude Complex_Main "HOL-Library.Multiset"
begin

text \<open>
  Community detection on the code graph, \<open>graph/leiden.cpp\<close>: the adjacency structure, the
  modularity of a partition, the local moving of nodes, the refinement, the aggregation and the
  passes around them. Weights, the resolution and modularities, doubles in the code, are exact
  rationals. The random shuffle and the order in which an \<open>unordered_map\<close> is walked are
  arguments; the lemmas assume of them only that they permute.
  The lemmas show that the computed modularity is the formula of the file's header, that
  every move raises it, that no community joins nodes the edges do not connect, and that the
  aggregation loses half of the weight inside the communities.
\<close>

section \<open>The graph\<close>

record leiden_edge =
  e_u :: int
  e_v :: int
  e_w :: rat

record leiden_options =
  resolution :: rat
  max_iter :: int
  tol_dq :: rat
  seed :: "64 word"
  refine :: bool

record leiden_result =
  communities :: "int list"
  num_clusters :: nat
  modularity :: rat
  passes :: int

text \<open>What the algorithm takes from the standard library.\<close>

record 'r std_lib =
  rng_of :: "64 word \<Rightarrow> 'r"
  shuffle :: "nat list \<Rightarrow> 'r \<Rightarrow> nat list \<times> 'r"
  walk :: "(int \<times> rat) list \<Rightarrow> (int \<times> rat) list"

record adj_graph =
  gN :: nat
  adj :: "(nat \<times> rat) list list"
  strength :: "rat list"
  m2 :: rat

definition rebuild :: "adj_graph \<Rightarrow> adj_graph" where
  "rebuild g =
     (let s = map (\<lambda>i. sum_list (map snd (adj g ! i))) [0..<gN g]
      in g\<lparr>strength := s, m2 := sum_list s\<rparr>)"

definition push :: "nat \<Rightarrow> nat \<times> rat \<Rightarrow> (nat \<times> rat) list list \<Rightarrow> (nat \<times> rat) list list" where
  "push i p ad = ad[i := ad ! i @ [p]]"

definition add_edge :: "nat \<Rightarrow> (nat \<times> rat) list list \<Rightarrow> leiden_edge \<Rightarrow> (nat \<times> rat) list list" where
  "add_edge N ad e =
     (if e_u e < 0 \<or> int N \<le> e_u e \<or> e_v e < 0 \<or> int N \<le> e_v e then ad
      else if e_w e \<le> 0 then ad
      else if e_u e = e_v e then push (nat (e_u e)) (nat (e_v e), e_w e) ad
      else push (nat (e_v e)) (nat (e_u e), e_w e) (push (nat (e_u e)) (nat (e_v e), e_w e) ad))"

definition buildGraph :: "nat \<Rightarrow> leiden_edge list \<Rightarrow> adj_graph" where
  "buildGraph N edges =
     rebuild \<lparr>gN = N, adj = foldl (add_edge N) (replicate N []) edges, strength = [], m2 = 0\<rparr>"

section \<open>Modularity\<close>

definition cluster_strength :: "adj_graph \<Rightarrow> int list \<Rightarrow> int \<Rightarrow> rat" where
  "cluster_strength g cl =
     foldl (\<lambda>cs i. cs(cl ! i := cs (cl ! i) + strength g ! i)) (\<lambda>_. 0) [0..<gN g]"

definition computeModularity :: "adj_graph \<Rightarrow> int list \<Rightarrow> rat \<Rightarrow> rat" where
  "computeModularity g cl gamma =
     (if m2 g \<le> 0 then 0
      else
        (let q_edges = sum_list (map (\<lambda>i. sum_list (map (\<lambda>(j, w). if cl ! i = cl ! j then w else 0) (adj g ! i)))
               [0..<gN g]);
             cs = cluster_strength g cl;
             q_null = sum_list (map (\<lambda>c. cs c * cs c) (remdups (map (\<lambda>i. cl ! i) [0..<gN g])))
         in q_edges / m2 g - gamma * (q_null / (m2 g * m2 g))))"

section \<open>Local moving\<close>

text \<open>\<open>m[k] += w\<close> on an association list in order of insertion.\<close>

fun bump :: "'k \<Rightarrow> rat \<Rightarrow> ('k \<times> rat) list \<Rightarrow> ('k \<times> rat) list" where
  "bump k w [] = [(k, w)]"
| "bump k w ((l, x) # m) = (if k = l then (l, x + w) # m else (l, x) # bump k w m)"

definition weights_to :: "(nat \<Rightarrow> bool) \<Rightarrow> int list \<Rightarrow> nat \<Rightarrow> (nat \<times> rat) list \<Rightarrow> (int \<times> rat) list" where
  "weights_to ok cl i nbrs =
     foldl (\<lambda>m (j, w). if j = i \<or> \<not> ok j then m else bump (cl ! j) w m) [] nbrs"

definition weight_of :: "('k \<times> rat) list \<Rightarrow> 'k \<Rightarrow> rat" where
  "weight_of m k = (case map_of m k of Some w \<Rightarrow> w | None \<Rightarrow> 0)"

definition gain :: "adj_graph \<Rightarrow> rat \<Rightarrow> (int \<Rightarrow> rat) \<Rightarrow> (int \<times> rat) list \<Rightarrow> nat \<Rightarrow> int \<Rightarrow> int \<Rightarrow> rat" where
  "gain g gamma cs w_to i own c =
     (let k = strength g ! i; Kc = cs c - (if c = own then k else 0) in
      weight_of w_to c * (1 / m2 g) - gamma * k * Kc * (1 / (m2 g * m2 g)))"

text \<open>The candidate loop shared by moving and refining; \<open>ok\<close> is the filter of the latter.\<close>

fun best_community :: "(int \<Rightarrow> rat) \<Rightarrow> int \<Rightarrow> (int \<times> rat \<Rightarrow> bool) \<Rightarrow> (int \<times> rat) list \<Rightarrow> rat \<Rightarrow> int \<Rightarrow> int" where
  "best_community gn own ok [] best_dq best_c = best_c"
| "best_community gn own ok (p # ps) best_dq best_c =
     (if fst p = own \<or> \<not> ok p then best_community gn own ok ps best_dq best_c
      else
        (let dq = gn (fst p) - gn own in
         if best_dq + 1 / 10 ^ 12 < dq then best_community gn own ok ps dq (fst p)
         else best_community gn own ok ps best_dq best_c))"

definition move_node :: "'r std_lib \<Rightarrow> adj_graph \<Rightarrow> rat \<Rightarrow> int list \<times> (int \<Rightarrow> rat) \<times> bool \<Rightarrow> nat \<Rightarrow>
    int list \<times> (int \<Rightarrow> rat) \<times> bool" where
  "move_node L g gamma s i =
     (case s of (cl, cs, changed) \<Rightarrow>
       (let own = cl ! i; k = strength g ! i;
            w_to = weights_to (\<lambda>_. True) cl i (adj g ! i);
            best = best_community (gain g gamma cs w_to i own) own (\<lambda>_. True) (walk L w_to) 0 own in
        if best \<noteq> own
        then (cl[i := best], (let cs1 = cs(own := cs own - k) in cs1(best := cs1 best + k)), True)
        else (cl, cs, changed)))"

fun move_sweeps :: "'r std_lib \<Rightarrow> adj_graph \<Rightarrow> rat \<Rightarrow> nat list \<Rightarrow> nat \<Rightarrow> int list \<Rightarrow> (int \<Rightarrow> rat) \<Rightarrow> bool \<Rightarrow>
    int list \<times> bool" where
  "move_sweeps L g gamma order 0 cl cs any_move = (cl, any_move)"
| "move_sweeps L g gamma order (Suc n) cl cs any_move =
     (case foldl (move_node L g gamma) (cl, cs, False) order of (cl', cs', changed) \<Rightarrow>
        if changed then move_sweeps L g gamma order n cl' cs' True else (cl', any_move))"

definition moveNodesFast :: "'r std_lib \<Rightarrow> adj_graph \<Rightarrow> int list \<Rightarrow> rat \<Rightarrow> 'r \<Rightarrow> int list \<times> bool \<times> 'r" where
  "moveNodesFast L g cl gamma r =
     (let (order, r') = shuffle L [0..<gN g] r;
          (cl', any_move) = move_sweeps L g gamma order 64 cl (cluster_strength g cl) False
      in (cl', any_move, r'))"

section \<open>Refinement\<close>

definition refine_node :: "'r std_lib \<Rightarrow> adj_graph \<Rightarrow> int list \<Rightarrow> rat \<Rightarrow> int list \<times> (int \<Rightarrow> rat) \<Rightarrow> nat \<Rightarrow>
    int list \<times> (int \<Rightarrow> rat)" where
  "refine_node L g outer gamma s i =
     (case s of (refined, cs) \<Rightarrow>
       (let own = refined ! i; k = strength g ! i;
            w_to = weights_to (\<lambda>j. outer ! j = outer ! i) refined i (adj g ! i);
            ok = (\<lambda>(c, wc). \<not> wc < gamma * k * cs c * (1 / (m2 g * m2 g)) * m2 g);
            best = best_community (gain g gamma cs w_to i own) own ok (walk L w_to) 0 own in
        if w_to = [] then (refined, cs)
        else if best \<noteq> own
        then (refined[i := best], (let cs1 = cs(own := cs own - k) in cs1(best := cs1 best + k)))
        else (refined, cs)))"

definition refinePartition :: "'r std_lib \<Rightarrow> adj_graph \<Rightarrow> int list \<Rightarrow> rat \<Rightarrow> 'r \<Rightarrow> int list \<times> 'r" where
  "refinePartition L g outer gamma r =
     (let start = map int [0..<gN g];
          (order, r') = shuffle L [0..<gN g] r
      in (fst (foldl (refine_node L g outer gamma) (start, cluster_strength g start) order), r'))"

section \<open>Aggregation\<close>

definition number_ids :: "int list \<Rightarrow> (int \<rightharpoonup> nat) \<times> nat" where
  "number_ids cl =
     foldl (\<lambda>(ids, n) c. if ids c \<noteq> None then (ids, n) else (ids(c \<mapsto> n), n + 1)) (Map.empty, 0) cl"

definition acc_add :: "(nat \<Rightarrow> nat) \<Rightarrow> nat \<Rightarrow> (int \<times> rat) list list \<Rightarrow> nat \<times> rat \<Rightarrow> (int \<times> rat) list list" where
  "acc_add nid i acc p =
     (case p of (j, w) \<Rightarrow> acc[nid i := bump (int (nid j)) w (acc ! nid i)])"

definition accumulate :: "adj_graph \<Rightarrow> (nat \<Rightarrow> nat) \<Rightarrow> nat \<Rightarrow> (int \<times> rat) list list" where
  "accumulate g nid n =
     foldl (\<lambda>acc i. foldl (acc_add nid i) acc (adj g ! i)) (replicate n []) [0..<gN g]"

definition emit_pair :: "nat \<Rightarrow> (nat \<times> rat) list list \<Rightarrow> int \<times> rat \<Rightarrow> (nat \<times> rat) list list" where
  "emit_pair u ad p =
     (case p of (v, w) \<Rightarrow>
        if int u = v then push u (u, w * (1 / 2)) ad
        else if int u < v then push (nat v) (u, w) (push u (nat v, w) ad)
        else ad)"

definition aggregate :: "'r std_lib \<Rightarrow> adj_graph \<Rightarrow> int list \<Rightarrow> adj_graph \<times> (int \<rightharpoonup> nat)" where
  "aggregate L g refined =
     (let (new_id, n) = number_ids (map (\<lambda>i. refined ! i) [0..<gN g]);
          acc = accumulate g (\<lambda>i. the (new_id (refined ! i))) n;
          ad = foldl (\<lambda>ad u. foldl (emit_pair u) ad (walk L (acc ! u))) (replicate n []) [0..<n]
      in (rebuild \<lparr>gN = n, adj = ad, strength = [], m2 = 0\<rparr>, new_id))"

section \<open>The passes\<close>

definition agg_clusters :: "nat \<Rightarrow> (nat \<Rightarrow> nat) \<Rightarrow> nat \<Rightarrow> int list \<Rightarrow> int list" where
  "agg_clusters N nid n cl = foldl (\<lambda>ac i. ac[nid i := cl ! i]) (replicate n (- 1)) [0..<N]"

text \<open>
  The loop over the passes: the first argument is the number of passes left. The result is
  the assignment of the original nodes and the value of \<open>pass\<close> after the loop.
\<close>

fun leiden_loop :: "'r std_lib \<Rightarrow> leiden_options \<Rightarrow> nat \<Rightarrow> int \<Rightarrow> adj_graph \<Rightarrow> int list \<Rightarrow> nat list \<Rightarrow> rat \<Rightarrow> 'r \<Rightarrow>
    int list \<Rightarrow> int list \<times> int" where
  "leiden_loop L opts 0 pass cur cl o2c prev_q r res = (res, pass)"
| "leiden_loop L opts (Suc n) pass cur cl o2c prev_q r res =
     (let (cl1, moved, r1) = moveNodesFast L cur cl (resolution opts) r;
          (refined, r2) = (if refine opts then refinePartition L cur cl1 (resolution opts) r1 else (cl1, r1));
          res1 = map (\<lambda>c. cl1 ! c) o2c in
      if \<not> moved then (res1, pass)
      else
        (let q_now = computeModularity cur cl1 (resolution opts) in
         if q_now - prev_q < tol_dq opts \<and> 0 < pass then (res1, pass)
         else
           (let (agg, new_id) = aggregate L cur refined;
                nid = (\<lambda>i. the (new_id (refined ! i)))
            in leiden_loop L opts n (pass + 1) agg (agg_clusters (gN cur) nid (gN agg) cl1)
                 (map nid o2c) q_now r2 res1)))"

definition compact_ids :: "int list \<Rightarrow> int list \<times> nat" where
  "compact_ids cl =
     (case foldl (\<lambda>(out, remap, n) c. case remap c of
                    None \<Rightarrow> (out @ [int n], remap(c \<mapsto> n), n + 1)
                  | Some k \<Rightarrow> (out @ [int k], remap, n)) ([], Map.empty, 0) cl
      of (out, _, n) \<Rightarrow> (out, n))"

definition leidenCluster :: "'r std_lib \<Rightarrow> int \<Rightarrow> leiden_edge list \<Rightarrow> leiden_options \<Rightarrow> leiden_result" where
  "leidenCluster L num_nodes edges opts =
     (if num_nodes \<le> 0 then \<lparr>communities = [], num_clusters = 0, modularity = 0, passes = 0\<rparr>
      else
        (let N = nat num_nodes;
             g = buildGraph N edges;
             cl = map int [0..<N];
             (res, pass) = leiden_loop L opts (nat (max_iter opts)) 0 g cl [0..<N]
               (computeModularity g cl (resolution opts)) (rng_of L (seed opts)) [];
             (out, n) = compact_ids res
         in \<lparr>communities = out, num_clusters = n, modularity = computeModularity g out (resolution opts),
             passes = pass + 1\<rparr>))"

section \<open>Weights\<close>

definition wt :: "('k \<times> rat) list \<Rightarrow> 'k \<Rightarrow> rat" where
  "wt ps k = sum_list (map (\<lambda>(j, w). if j = k then w else 0) ps)"

lemma wt_simps [simp]:
  "wt [] k = 0" "wt ((j, w) # ps) k = (if j = k then w else 0) + wt ps k" "wt (ps @ qs) k = wt ps k + wt qs k"
  by (simp_all add: wt_def)

lemma wt_sum_set:
  assumes "finite K"
  shows "fst ` set ps \<subseteq> K \<Longrightarrow> sum_list (map (\<lambda>(j, w). f j * w) ps) = (\<Sum>k\<in>K. f k * wt ps k)"
proof (induction ps)
  case (Cons p ps)
  obtain j w where p: "p = (j, w)" by force
  have "(\<Sum>k\<in>K. f k * wt (p # ps) k) = (\<Sum>k\<in>K. (if j = k then f k * w else 0) + f k * wt ps k)"
    by (rule sum.cong) (auto simp: p algebra_simps)
  also have "\<dots> = (\<Sum>k\<in>K. if j = k then f k * w else 0) + (\<Sum>k\<in>K. f k * wt ps k)"
    by (rule sum.distrib)
  finally show ?case using Cons p assms by (auto simp: sum.delta)
qed simp

lemma wt_sum:
  fixes N :: nat
  shows "\<forall>(j, w) \<in> set ps. j < N \<Longrightarrow> sum_list (map (\<lambda>(j, w). f j * w) ps) = (\<Sum>k<N. f k * wt ps k)"
  by (rule wt_sum_set[OF finite_lessThan]) auto

lemma wt_sum_if:
  fixes N :: nat
  assumes "\<forall>(j, w) \<in> set ps. j < N"
  shows "sum_list (map (\<lambda>(j, w). if P j then w else 0) ps) = (\<Sum>k<N. if P k then wt ps k else 0)"
proof -
  have "(\<lambda>(j, w::rat). if P j then w else 0) = (\<lambda>(j, w). (if P j then 1 else 0) * w)" by (auto simp: fun_eq_iff)
  then show ?thesis using wt_sum[OF assms, of "\<lambda>j. if P j then 1 else 0"]
    by (simp add: if_distrib[where f = "\<lambda>x. x * _"] cong: if_cong)
qed

lemma wt_nonneg: "\<forall>(j, w) \<in> set ps. 0 < w \<Longrightarrow> 0 \<le> wt ps k"
  by (induction ps) (auto simp: add_nonneg_nonneg less_imp_le)

lemma wt_pos_iff:
  "\<forall>(j, w) \<in> set ps. 0 < w \<Longrightarrow> 0 < wt ps k \<longleftrightarrow> (\<exists>w. (k, w) \<in> set ps)"
proof (induction ps)
  case (Cons p ps)
  obtain j w where p: "p = (j, w)" by force
  have "0 \<le> wt ps k" using Cons.prems by (intro wt_nonneg) auto
  then show ?case using Cons p by (auto simp: add_pos_nonneg)
qed simp

definition wf_adj :: "nat \<Rightarrow> (nat \<times> rat) list list \<Rightarrow> bool" where
  "wf_adj N ad \<longleftrightarrow> length ad = N \<and> (\<forall>ps \<in> set ad. \<forall>(j, w) \<in> set ps. j < N \<and> 0 < w) \<and>
     (\<forall>i<N. \<forall>j<N. wt (ad ! i) j = wt (ad ! j) i)"

definition wf_graph :: "adj_graph \<Rightarrow> bool" where
  "wf_graph g \<longleftrightarrow> wf_adj (gN g) (adj g) \<and> strength g = map (\<lambda>i. sum_list (map snd (adj g ! i))) [0..<gN g] \<and>
     m2 g = sum_list (strength g)"

lemma wf_rebuild: "wf_adj (gN g) (adj g) \<Longrightarrow> wf_graph (rebuild g)"
  by (simp add: wf_graph_def rebuild_def Let_def)

lemma rebuild_simps [simp]: "gN (rebuild g) = gN g" "adj (rebuild g) = adj g"
  by (simp_all add: rebuild_def Let_def)

lemma wf_adjD:
  assumes "wf_adj N ad" "i < N" "(j, w) \<in> set (ad ! i)"
  shows "j < N" "0 < w"
  using assms by (fastforce simp: wf_adj_def)+

lemma wf_adj_row: "wf_adj N ad \<Longrightarrow> i < N \<Longrightarrow> \<forall>(j, w) \<in> set (ad ! i). j < N \<and> 0 < w"
  using wf_adjD by blast

text \<open>The symmetric weight matrix, and what the fields of a graph are in terms of it.\<close>

abbreviation weight :: "adj_graph \<Rightarrow> nat \<Rightarrow> nat \<Rightarrow> rat" where
  "weight g i j \<equiv> wt (adj g ! i) j"

lemma weight_sym: "wf_graph g \<Longrightarrow> i < gN g \<Longrightarrow> j < gN g \<Longrightarrow> weight g i j = weight g j i"
  by (simp add: wf_graph_def wf_adj_def)

lemma strength_weight:
  assumes "wf_graph g" "i < gN g"
  shows "strength g ! i = (\<Sum>j<gN g. weight g i j)"
proof -
  have "\<forall>(j, w) \<in> set (adj g ! i). j < gN g"
    using wf_adj_row assms by (fastforce simp: wf_graph_def)
  then show ?thesis using assms wt_sum[of "adj g ! i" "gN g" "\<lambda>_. 1"]
    by (simp add: wf_graph_def split_def)
qed

lemma m2_strength: "wf_graph g \<Longrightarrow> m2 g = (\<Sum>i<gN g. strength g ! i)"
  by (simp add: wf_graph_def interv_sum_list_conv_sum_set_nat atLeast0LessThan)

lemma weight_nonneg:
  assumes "wf_graph g" "i < gN g" shows "0 \<le> weight g i j"
  by (rule wt_nonneg) (use wf_adj_row assms in \<open>fastforce simp: wf_graph_def\<close>)

lemma strength_nonneg: "wf_graph g \<Longrightarrow> i < gN g \<Longrightarrow> 0 \<le> strength g ! i"
  by (simp add: strength_weight sum_nonneg weight_nonneg)

lemma m2_nonneg: "wf_graph g \<Longrightarrow> 0 \<le> m2 g"
  unfolding m2_strength by (rule sum_nonneg) (simp add: strength_nonneg)

section \<open>Building a graph\<close>

lemma length_push [simp]: "length (push i p ad) = length ad"
  by (simp add: push_def)

lemma wt_push:
  "a < length ad \<Longrightarrow> wt (push a (b, w) ad ! i) j = wt (ad ! i) j + (if i = a \<and> j = b then w else 0)"
  by (auto simp: push_def nth_list_update)

lemma push_entries:
  assumes "\<forall>ps \<in> set ad. \<forall>(j, w) \<in> set ps. j < N \<and> 0 < w" "b < N" "0 < w" "a < length ad"
  shows "\<forall>ps \<in> set (push a (b, w) ad). \<forall>(j, w) \<in> set ps. j < N \<and> 0 < w"
  using assms set_update_subset_insert[of ad a "ad ! a @ [(b, w)]"] nth_mem[OF assms(4)]
  unfolding push_def by fastforce

lemma wf_push_loop: "wf_adj N ad \<Longrightarrow> a < N \<Longrightarrow> 0 < w \<Longrightarrow> wf_adj N (push a (a, w) ad)"
  using push_entries[of ad N a w a] by (auto simp: wf_adj_def wt_push)

lemma wf_push_pair:
  assumes "wf_adj N ad" "a < N" "b < N" "0 < w" "a \<noteq> b"
  shows "wf_adj N (push b (a, w) (push a (b, w) ad))"
proof -
  have "\<forall>ps \<in> set (push b (a, w) (push a (b, w) ad)). \<forall>(j, w) \<in> set ps. j < N \<and> 0 < w"
    using assms by (intro push_entries) (auto simp: wf_adj_def)
  then show ?thesis using assms by (auto simp: wf_adj_def wt_push)
qed

lemma wf_replicate: "wf_adj N (replicate N [])"
  by (simp add: wf_adj_def)

lemma wf_add_edge: "wf_adj N ad \<Longrightarrow> wf_adj N (add_edge N ad e)"
  by (auto simp: add_edge_def intro!: wf_push_loop wf_push_pair)

lemma wf_foldl:
  assumes "P s" "\<And>s x. x \<in> set xs \<Longrightarrow> P s \<Longrightarrow> P (f s x)"
  shows "P (foldl f s xs)"
  using assms by (induction xs arbitrary: s) auto

lemma wf_buildGraph: "wf_graph (buildGraph N edges)"
  unfolding buildGraph_def
  by (rule wf_rebuild) (auto intro: wf_foldl[where P = "wf_adj N"] wf_replicate wf_add_edge)

text \<open>The weight between two nodes, read off the edge list.\<close>

definition edge_weight :: "nat \<Rightarrow> leiden_edge list \<Rightarrow> nat \<Rightarrow> nat \<Rightarrow> rat" where
  "edge_weight N edges i j =
     sum_list (map (\<lambda>e. if {e_u e, e_v e} = {int i, int j} \<and> 0 < e_w e then e_w e else 0) edges)"

lemma length_add_edge [simp]: "length (add_edge N ad e) = length ad"
  by (simp add: add_edge_def)

lemma wt_add_edge:
  assumes "length ad = N" "i < N" "j < N"
  shows "wt (add_edge N ad e ! i) j =
    wt (ad ! i) j + (if {e_u e, e_v e} = {int i, int j} \<and> 0 < e_w e then e_w e else 0)"
proof (cases "e_u e < 0 \<or> int N \<le> e_u e \<or> e_v e < 0 \<or> int N \<le> e_v e \<or> e_w e \<le> 0")
  case True
  then show ?thesis using assms by (auto simp: add_edge_def doubleton_eq_iff)
next
  case False
  then obtain a b where ab: "e_u e = int a" "e_v e = int b" "a < N" "b < N" "0 < e_w e"
    by (metis not_le not_less zero_le_imp_eq_int of_nat_less_iff)
  then show ?thesis using assms by (auto simp: add_edge_def wt_push doubleton_eq_iff)
qed

lemma weight_buildGraph:
  assumes "i < N" "j < N"
  shows "weight (buildGraph N edges) i j = edge_weight N edges i j"
proof -
  have "wt (foldl (add_edge N) ad edges ! i) j = wt (ad ! i) j + edge_weight N edges i j"
    if "length ad = N" for ad
    using that
  proof (induction edges arbitrary: ad)
    case (Cons e edges)
    then show ?case using assms by (simp add: wt_add_edge edge_weight_def)
  qed (simp add: edge_weight_def)
  then show ?thesis using assms by (simp add: buildGraph_def)
qed

lemma gN_buildGraph [simp]: "gN (buildGraph N edges) = N"
  by (simp add: buildGraph_def)

section \<open>The modularity formula\<close>

lemma cluster_strength_sum:
  "cluster_strength g cl c = (\<Sum>i<gN g. if cl ! i = c then strength g ! i else 0)"
proof -
  have "foldl (\<lambda>cs i. cs(cl ! i := cs (cl ! i) + strength g ! i)) cs xs c =
      cs c + sum_list (map (\<lambda>i. if cl ! i = c then strength g ! i else 0) xs)" for cs xs
    by (induction xs arbitrary: cs) auto
  then show ?thesis
    by (simp add: cluster_strength_def interv_sum_list_conv_sum_set_nat atLeast0LessThan)
qed

text \<open>What joining two nodes in one community contributes.\<close>

definition pair_value :: "adj_graph \<Rightarrow> rat \<Rightarrow> nat \<Rightarrow> nat \<Rightarrow> rat" where
  "pair_value g gamma i j = weight g i j / m2 g - gamma * (strength g ! i * strength g ! j) / (m2 g * m2 g)"

lemma square_by_clusters:
  fixes k :: "nat \<Rightarrow> rat"
  shows "(\<Sum>c \<in> cl ` {..<N}. (\<Sum>i<N. if cl i = c then k i else 0) * (\<Sum>i<N. if cl i = c then k i else 0)) =
     (\<Sum>i<N. \<Sum>j<N. if cl i = cl j then k i * k j else 0)"
proof -
  let ?C = "cl ` {..<N}"
  have "(\<Sum>c\<in>?C. (\<Sum>i<N. if cl i = c then k i else 0) * (\<Sum>i<N. if cl i = c then k i else 0)) =
      (\<Sum>c\<in>?C. \<Sum>i<N. \<Sum>j<N. if cl i = c then (if cl i = cl j then k i * k j else 0) else 0)"
    by (intro sum.cong refl) (simp only: sum_product, intro sum.cong refl, auto)
  also have "\<dots> = (\<Sum>i<N. \<Sum>j<N. \<Sum>c\<in>?C. if cl i = c then (if cl i = cl j then k i * k j else 0) else 0)"
    by (simp add: sum.swap[of _ _ ?C])
  also have "\<dots> = (\<Sum>i<N. \<Sum>j<N. if cl i = cl j then k i * k j else 0)"
    by (intro sum.cong refl) (simp add: sum.delta)
  finally show ?thesis .
qed

lemma modularity_pairs:
  assumes "wf_graph g"
  shows "computeModularity g cl gamma =
    (\<Sum>i<gN g. \<Sum>j<gN g. if cl ! i = cl ! j then pair_value g gamma i j else 0)"
proof (cases "m2 g = 0")
  case True
  then have "pair_value g gamma i j = 0" for i j by (simp add: pair_value_def)
  then show ?thesis using True by (simp add: computeModularity_def cong: if_cong)
next
  case False
  have rows: "\<forall>(j, w) \<in> set (adj g ! i). j < gN g" if "i < gN g" for i
    using wf_adj_row that assms by (fastforce simp: wf_graph_def)
  have e: "sum_list (map (\<lambda>i. sum_list (map (\<lambda>(j, w). if cl ! i = cl ! j then w else 0) (adj g ! i))) [0..<gN g]) =
      (\<Sum>i<gN g. \<Sum>j<gN g. if cl ! i = cl ! j then weight g i j else 0)"
    by (simp add: interv_sum_list_conv_sum_set_nat atLeast0LessThan wt_sum_if[OF rows])
  have n: "sum_list (map (\<lambda>c. cluster_strength g cl c * cluster_strength g cl c) (remdups (map (\<lambda>i. cl ! i) [0..<gN g]))) =
      (\<Sum>i<gN g. \<Sum>j<gN g. if cl ! i = cl ! j then strength g ! i * strength g ! j else 0)"
    using square_by_clusters[where cl = "\<lambda>i. cl ! i" and N = "gN g" and k = "\<lambda>i. strength g ! i"]
    by (simp add: sum.distinct_set_conv_list[symmetric] cluster_strength_sum atLeast0LessThan)
  have "(if b then weight g i j / m2 g - gamma * (strength g ! i * strength g ! j) / (m2 g * m2 g) else 0) =
      (if b then weight g i j else 0) / m2 g -
      gamma * (if b then strength g ! i * strength g ! j else 0) / (m2 g * m2 g)" for b i j
    by simp
  then show ?thesis using False m2_nonneg[OF assms] unfolding computeModularity_def Let_def e n pair_value_def
    by (simp add: sum_subtractf sum_divide_distrib sum_distrib_left)
qed

text \<open>The formula in the header of the file: \<open>m2\<close> there is \<open>2m\<close>.\<close>

definition modularity_formula :: "nat \<Rightarrow> leiden_edge list \<Rightarrow> int list \<Rightarrow> rat \<Rightarrow> rat" where
  "modularity_formula N edges cl gamma =
     (let A = edge_weight N edges; k = (\<lambda>i. \<Sum>j<N. A i j); two_m = (\<Sum>i<N. k i) in
      1 / two_m * (\<Sum>i<N. \<Sum>j<N. (A i j - gamma * (k i * k j) / two_m) * (if cl ! i = cl ! j then 1 else 0)))"

lemma modularity_formula_eq:
  "computeModularity (buildGraph N edges) cl gamma = modularity_formula N edges cl gamma"
proof -
  let ?g = "buildGraph N edges" let ?A = "edge_weight N edges"
  have w: "weight ?g i j = ?A i j" if "i < N" "j < N" for i j using weight_buildGraph that by simp
  have k: "strength ?g ! i = (\<Sum>j<N. ?A i j)" if "i < N" for i
    using strength_weight[OF wf_buildGraph, of i N edges] that by (simp add: w)
  have m: "m2 ?g = (\<Sum>i<N. \<Sum>j<N. ?A i j)" using m2_strength[OF wf_buildGraph, of N edges] by (simp add: k)
  have d: "c * (\<Sum>i<N. \<Sum>j<N. F i j) = (\<Sum>i<N. \<Sum>j<N. c * F i j)" for c :: rat and F
    by (simp add: sum_distrib_left)
  show ?thesis
    unfolding modularity_pairs[OF wf_buildGraph] modularity_formula_def Let_def gN_buildGraph m[symmetric] d
    by (intro sum.cong refl) (simp add: pair_value_def w k diff_divide_distrib)
qed

text \<open>
  Property C32. The modularity the code accumulates from adjacency lists and per-community strengths is the
  formula of the file's header over all pairs of nodes, for every edge list, partition and
  resolution.
\<close>

theorem computeModularity_formula:
  "computeModularity (buildGraph N edges) cl gamma = modularity_formula N edges cl gamma"
  by (rule modularity_formula_eq)

section \<open>Moves\<close>

lemma map_of_bump: "map_of (bump k w m) = (map_of m)(k \<mapsto> weight_of m k + w)"
  by (induction m) (auto simp: weight_of_def fun_eq_iff)

lemma weight_of_bump: "weight_of (bump k w m) l = weight_of m l + (if k = l then w else 0)"
  by (simp add: weight_of_def map_of_bump)

lemma keys_bump: "fst ` set (bump k w m) = insert k (fst ` set m)"
proof (induction m)
  case (Cons p m)
  then show ?case by (cases p) (simp add: insert_commute)
qed simp

lemma weights_to_of:
  "weight_of (weights_to ok cl i nbrs) c =
    sum_list (map (\<lambda>(j, w). if j \<noteq> i \<and> ok j \<and> cl ! j = c then w else 0) nbrs)"
proof -
  have "weight_of (foldl (\<lambda>m (j, w). if j = i \<or> \<not> ok j then m else bump (cl ! j) w m) m nbrs) c =
      weight_of m c + sum_list (map (\<lambda>(j, w). if j \<noteq> i \<and> ok j \<and> cl ! j = c then w else 0) nbrs)" for m
    by (induction nbrs arbitrary: m) (auto simp: weight_of_bump)
  then show ?thesis by (simp add: weights_to_def weight_of_def)
qed

lemma weights_to_keys:
  "fst ` set (weights_to ok cl i nbrs) = (\<lambda>(j, w). cl ! j) ` {p \<in> set nbrs. fst p \<noteq> i \<and> ok (fst p)}"
proof -
  let ?K = "\<lambda>ps. (\<lambda>(j, w). cl ! j) ` {p \<in> set ps. fst p \<noteq> i \<and> ok (fst p)}"
  have "fst ` set (foldl (\<lambda>m (j, w). if j = i \<or> \<not> ok j then m else bump (cl ! j) w m) m nbrs) =
      fst ` set m \<union> ?K nbrs" for m
  proof (induction nbrs arbitrary: m)
    case (Cons p ps)
    obtain j w where p: "p = (j, w)" by force
    have "?K (p # ps) = (if j = i \<or> \<not> ok j then ?K ps else insert (cl ! j) (?K ps))" by (auto simp: p)
    then show ?case by (simp add: Cons p keys_bump)
  qed simp
  then show ?thesis by (simp add: weights_to_def)
qed

text \<open>
  What a library of this kind is relied on for: the shuffle permutes its argument, and the walk
  over a map meets every entry once.
\<close>

definition lib_ok :: "'r std_lib \<Rightarrow> bool" where
  "lib_ok L \<longleftrightarrow> (\<forall>xs r. mset (fst (shuffle L xs r)) = mset xs) \<and> (\<forall>m. mset (walk L m) = mset m)"

lemma lib_okD:
  assumes "lib_ok L"
  shows "set (fst (shuffle L xs r)) = set xs" "set (walk L m) = set m"
  using assms unfolding lib_ok_def by (metis set_mset_mset)+

lemma best_community_cases:
  assumes "best_community gn own ok ps 0 own \<noteq> own"
  shows "best_community gn own ok ps 0 own \<in> fst ` set ps"
    and "gn own < gn (best_community gn own ok ps 0 own)"
proof -
  have "best_community gn own ok ps dq c = c \<or>
      best_community gn own ok ps dq c \<in> fst ` set ps \<and> dq < gn (best_community gn own ok ps dq c) - gn own" for dq c
  proof (induction ps arbitrary: dq c)
    case (Cons p ps)
    show ?case
    proof (cases "fst p = own \<or> \<not> ok p \<or> \<not> dq + 1 / 10 ^ 12 < gn (fst p) - gn own")
      case True
      then show ?thesis using Cons[of dq c] by (auto simp: Let_def)
    next
      case False
      moreover have "0 < (1 :: rat) / 10 ^ 12" by simp
      ultimately have "dq < gn (fst p) - gn own" by linarith
      then show ?thesis using False Cons[of "gn (fst p) - gn own" "fst p"] by (auto simp: Let_def)
    qed
  qed simp
  from this[of 0 own] assms
  show "best_community gn own ok ps 0 own \<in> fst ` set ps" "gn own < gn (best_community gn own ok ps 0 own)"
    by auto
qed

text \<open>The gain of a community is what the node contributes to the modularity by being in it.\<close>

lemma gain_pairs:
  assumes "wf_graph g" "i < gN g" "cs = cluster_strength g cl"
  shows "gain g gamma cs (weights_to (\<lambda>_. True) cl i (adj g ! i)) i (cl ! i) c =
    (\<Sum>j<gN g. if j \<noteq> i \<and> cl ! j = c then pair_value g gamma i j else 0)"
proof -
  have rows: "\<forall>(j, w) \<in> set (adj g ! i). j < gN g"
    using wf_adj_row assms by (fastforce simp: wf_graph_def)
  have w: "weight_of (weights_to (\<lambda>_. True) cl i (adj g ! i)) c =
      (\<Sum>j<gN g. if j \<noteq> i \<and> cl ! j = c then weight g i j else 0)"
    unfolding weights_to_of using wt_sum_if[OF rows] by simp
  have "(\<Sum>j<gN g. if cl ! j = c then strength g ! j else 0) =
      (\<Sum>j<gN g. (if j \<noteq> i \<and> cl ! j = c then strength g ! j else 0) + (if j = i then (if cl ! i = c then strength g ! i else 0) else 0))"
    by (intro sum.cong) auto
  also have "\<dots> = (\<Sum>j<gN g. if j \<noteq> i \<and> cl ! j = c then strength g ! j else 0) + (if cl ! i = c then strength g ! i else 0)"
    using assms(2) by (simp add: sum.distrib sum.delta)
  finally have k: "cs c - (if c = cl ! i then strength g ! i else 0) =
      (\<Sum>j<gN g. if j \<noteq> i \<and> cl ! j = c then strength g ! j else 0)"
    using assms(3) by (auto simp: cluster_strength_sum)
  have s: "(if b then pair_value g gamma i j else 0) = (if b then weight g i j else 0) * (1 / m2 g) -
      gamma * strength g ! i * (if b then strength g ! j else 0) * (1 / (m2 g * m2 g))" for b j
    by (simp add: pair_value_def)
  show ?thesis unfolding gain_def Let_def w k s
    by (simp add: sum_subtractf sum_distrib_left sum_distrib_right sum_divide_distrib)
qed

text \<open>Moving one node changes the value of a partition by twice the difference of its two gains.\<close>

lemma partition_value_move:
  fixes B :: "nat \<Rightarrow> nat \<Rightarrow> rat"
  assumes sym: "\<And>i j. i < N \<Longrightarrow> j < N \<Longrightarrow> B i j = B j i" and x: "x < N"
    and other: "\<And>j. j < N \<Longrightarrow> j \<noteq> x \<Longrightarrow> d j = c j"
  defines "S \<equiv> \<lambda>v. \<Sum>j<N. if j \<noteq> x \<and> c j = v then B x j else 0"
  shows "(\<Sum>i<N. \<Sum>j<N. if d i = d j then B i j else 0) =
    (\<Sum>i<N. \<Sum>j<N. if c i = c j then B i j else 0) + 2 * (S (d x) - S (c x))"
proof -
  let ?R = "\<lambda>e. \<Sum>i\<in>{..<N} - {x}. \<Sum>j\<in>{..<N} - {x}. if e i = e j then B i j else 0"
  have S: "S v = (\<Sum>j\<in>{..<N} - {x}. if c j = v then B x j else 0)" for v
    using x by (simp add: S_def sum.remove[of "{..<N}" x])
  have split: "(\<Sum>i<N. \<Sum>j<N. if e i = e j then B i j else 0) =
      B x x + (\<Sum>j\<in>{..<N} - {x}. if e j = e x then B x j else 0) * 2 + ?R e" for e :: "nat \<Rightarrow> 'a"
  proof -
    have "(\<Sum>i<N. \<Sum>j<N. if e i = e j then B i j else 0) =
        (\<Sum>i<N. (if e i = e x then B i x else 0) + (\<Sum>j\<in>{..<N} - {x}. if e i = e j then B i j else 0))"
      using x by (intro sum.cong refl) (simp add: sum.remove[of "{..<N}" x])
    also have "\<dots> = (\<Sum>i<N. if e i = e x then B i x else 0) +
        ((\<Sum>j\<in>{..<N} - {x}. if e x = e j then B x j else 0) + ?R e)"
      using x by (simp add: sum.distrib sum.remove[of "{..<N}" x "\<lambda>i. \<Sum>j\<in>{..<N} - {x}. _ i j"])
    also have "(\<Sum>i<N. if e i = e x then B i x else 0) =
        B x x + (\<Sum>i\<in>{..<N} - {x}. if e i = e x then B x i else 0)"
      using x sym by (simp add: sum.remove[of "{..<N}" x]) (intro sum.cong refl, auto)
    also have "(\<Sum>j\<in>{..<N} - {x}. if e x = e j then B x j else 0) =
        (\<Sum>j\<in>{..<N} - {x}. if e j = e x then B x j else 0)"
      by (intro sum.cong) auto
    finally show ?thesis by simp
  qed
  have "?R d = ?R c" using other by (intro sum.cong refl) simp
  moreover have "(\<Sum>j\<in>{..<N} - {x}. if d j = d x then B x j else 0) = S (d x)"
    unfolding S using other by (intro sum.cong refl) simp
  ultimately show ?thesis unfolding split by (simp add: S)
qed

lemma cluster_strength_update:
  assumes "i < gN g" "length cl = gN g" "b \<noteq> cl ! i"
  shows "cluster_strength g (cl[i := b]) =
    (let cs1 = (cluster_strength g cl)(cl ! i := cluster_strength g cl (cl ! i) - strength g ! i)
     in cs1(b := cs1 b + strength g ! i))"
proof -
  let ?R = "\<lambda>c. \<Sum>j\<in>{..<gN g} - {i}. if cl ! j = c then strength g ! j else 0"
  have split: "(\<Sum>j<gN g. if e ! j = c then strength g ! j else 0) = (if e ! i = c then strength g ! i else 0) +
      (\<Sum>j\<in>{..<gN g} - {i}. if e ! j = c then strength g ! j else 0)" for e :: "int list" and c
    using assms(1) by (simp add: sum.remove[of "{..<gN g}" i])
  have "(\<Sum>j\<in>{..<gN g} - {i}. if cl[i := b] ! j = c then strength g ! j else 0) = ?R c" for c
    by (intro sum.cong refl) simp
  then have s: "cluster_strength g (cl[i := b]) c = (if b = c then strength g ! i else 0) + ?R c"
      "cluster_strength g cl c = (if cl ! i = c then strength g ! i else 0) + ?R c" for c
    unfolding cluster_strength_sum split using assms by simp_all
  show ?thesis using assms(3) by (auto simp: fun_eq_iff s Let_def)
qed

text \<open>A node joins the community of a neighbour.\<close>

definition joins :: "adj_graph \<Rightarrow> int list \<Rightarrow> int list \<Rightarrow> nat \<Rightarrow> nat \<Rightarrow> bool" where
  "joins g cl cl' i j \<longleftrightarrow> i < gN g \<and> j \<noteq> i \<and> (\<exists>w. (j, w) \<in> set (adj g ! i)) \<and> cl' = cl[i := cl ! j]"

definition move_inv :: "adj_graph \<Rightarrow> int list \<times> (int \<Rightarrow> rat) \<Rightarrow> bool" where
  "move_inv g s \<longleftrightarrow> length (fst s) = gN g \<and> snd s = cluster_strength g (fst s)"

lemma move_node_ok:
  assumes g: "wf_graph g" and L: "lib_ok L" and i: "i < gN g" and inv: "move_inv g (cl, cs)"
    and move: "move_node L g gamma (cl, cs, ch) i = (cl', cs', ch')"
  shows "move_inv g (cl', cs') \<and> (cl' = cl \<and> ch' = ch \<or>
    ch' \<and> computeModularity g cl gamma < computeModularity g cl' gamma \<and> (\<exists>j. joins g cl cl' i j))"
proof -
  let ?w = "weights_to (\<lambda>_. True) cl i (adj g ! i)" and ?own = "cl ! i"
  let ?gain = "gain g gamma cs ?w i ?own"
  define b where "b = best_community ?gain ?own (\<lambda>_. True) (walk L ?w) 0 ?own"
  have len: "length cl = gN g" and cs: "cs = cluster_strength g cl" using inv by (auto simp: move_inv_def)
  show ?thesis
  proof (cases "b = ?own")
    case True
    then show ?thesis using move inv by (auto simp: move_node_def Let_def b_def)
  next
    case False
    then have res: "cl' = cl[i := b]" "ch'" "cs' = cluster_strength g cl'"
      using move cluster_strength_update[OF i len False] by (auto simp: move_node_def Let_def cs b_def)
    obtain j w where j: "(j, w) \<in> set (adj g ! i)" "j \<noteq> i" "b = cl ! j"
      using best_community_cases(1)[OF False[unfolded b_def]] lib_okD(2)[OF L]
        weights_to_keys[of "\<lambda>_. True" cl i "adj g ! i"] by (auto simp: b_def)
    have "computeModularity g cl' gamma = computeModularity g cl gamma + 2 * (?gain (cl' ! i) - ?gain (cl ! i))"
      unfolding modularity_pairs[OF g] gain_pairs[OF g i cs]
      by (rule partition_value_move) (use i res(1) weight_sym[OF g] in \<open>auto simp: pair_value_def mult.commute\<close>)
    moreover have "?gain ?own < ?gain (cl' ! i)"
      using best_community_cases(2)[OF False[unfolded b_def]] res(1) i len by (simp add: b_def)
    ultimately show ?thesis using res j i len by (auto simp: move_inv_def joins_def)
  qed
qed

text \<open>
  One invariant carries every property through the loops: whatever a join keeps is kept, and the
  modularity does not fall.
\<close>

definition kept_by_joins :: "adj_graph \<Rightarrow> (int list \<Rightarrow> bool) \<Rightarrow> bool" where
  "kept_by_joins g P \<longleftrightarrow> (\<forall>cl cl' i j. length cl = gN g \<and> P cl \<and> joins g cl cl' i j \<longrightarrow> P cl')"

lemma sweep_ok:
  assumes g: "wf_graph g" and L: "lib_ok L" and P: "kept_by_joins g P"
  shows "\<lbrakk>set order \<subseteq> {..<gN g}; move_inv g (cl, cs); P cl; foldl (move_node L g gamma) (cl, cs, ch) order = (cl', cs', ch')\<rbrakk> \<Longrightarrow>
    move_inv g (cl', cs') \<and> P cl' \<and> (cl' = cl \<and> ch' = ch \<or>
      ch' \<and> computeModularity g cl gamma < computeModularity g cl' gamma)"
proof (induction order arbitrary: cl cs ch)
  case (Cons i order)
  obtain cl1 cs1 ch1 where one: "move_node L g gamma (cl, cs, ch) i = (cl1, cs1, ch1)" by (metis prod_cases3)
  have ok: "move_inv g (cl1, cs1) \<and> (cl1 = cl \<and> ch1 = ch \<or>
      ch1 \<and> computeModularity g cl gamma < computeModularity g cl1 gamma \<and> (\<exists>j. joins g cl cl1 i j))"
    using Cons.prems by (intro move_node_ok[OF g L _ _ one]) auto
  then have "P cl1" using P Cons.prems by (auto simp: kept_by_joins_def move_inv_def)
  then show ?case using Cons.IH[of cl1 cs1 ch1] Cons.prems ok one by auto
qed simp

lemma move_sweeps_ok:
  assumes g: "wf_graph g" and L: "lib_ok L" and P: "kept_by_joins g P" and order: "set order \<subseteq> {..<gN g}"
  shows "\<lbrakk>move_inv g (cl, cs); P cl; move_sweeps L g gamma order n cl cs any_move = (cl', any')\<rbrakk> \<Longrightarrow>
    length cl' = gN g \<and> P cl' \<and> (cl' = cl \<and> any' = any_move \<or>
      any' \<and> computeModularity g cl gamma < computeModularity g cl' gamma)"
proof (induction n arbitrary: cl cs any_move)
  case 0
  then show ?case by (auto simp: move_inv_def)
next
  case (Suc n)
  obtain cl1 cs1 ch1 where one: "foldl (move_node L g gamma) (cl, cs, False) order = (cl1, cs1, ch1)" by (metis prod_cases3)
  have ok: "move_inv g (cl1, cs1) \<and> P cl1 \<and> (cl1 = cl \<and> ch1 = False \<or>
      ch1 \<and> computeModularity g cl gamma < computeModularity g cl1 gamma)"
    by (rule sweep_ok[OF g L P order Suc.prems(1,2) one])
  show ?case
  proof (cases ch1)
    case True
    then show ?thesis using Suc.IH[of cl1 cs1 True] Suc.prems(3) ok one by auto
  next
    case False
    then show ?thesis using Suc.prems(3) ok one by (auto simp: move_inv_def)
  qed
qed

lemma moveNodesFast_ok:
  assumes "wf_graph g" "lib_ok L" "kept_by_joins g P" "length cl = gN g" "P cl"
    and "moveNodesFast L g cl gamma r = (cl', moved, r')"
  shows "length cl' = gN g \<and> P cl' \<and> (cl' = cl \<and> \<not> moved \<or>
    moved \<and> computeModularity g cl gamma < computeModularity g cl' gamma)"
proof -
  obtain order r1 where o: "shuffle L [0..<gN g] r = (order, r1)" by force
  have s: "set order \<subseteq> {..<gN g}" using lib_okD(1)[OF assms(2), of "[0..<gN g]" r] o by auto
  have run: "move_sweeps L g gamma order 64 cl (cluster_strength g cl) False = (cl', moved)"
    using assms(6) o by (auto simp: moveNodesFast_def split: prod.splits)
  have "move_inv g (cl, cluster_strength g cl)" using assms(4) by (simp add: move_inv_def)
  from move_sweeps_ok[OF assms(1-3) s this assms(5) run] show ?thesis by auto
qed

text \<open>
  Property C29. Local moving climbs: on a graph built from an edge list, whatever the order in which nodes
  and communities are visited, a run that reports a move ends in a partition of strictly
  higher modularity, and a run that reports none has left the partition alone.
\<close>

theorem moveNodesFast_climbs:
  assumes "lib_ok L" and "length cl = N"
    and "moveNodesFast L (buildGraph N edges) cl gamma r = (cl', moved, r')"
  shows "length cl' = N \<and>
    (if moved then modularity_formula N edges cl gamma < modularity_formula N edges cl' gamma else cl' = cl)"
proof -
  have "kept_by_joins (buildGraph N edges) (\<lambda>_. True)" by (simp add: kept_by_joins_def)
  from moveNodesFast_ok[OF wf_buildGraph assms(1) this _ _ assms(3)] assms(2)
  show ?thesis unfolding modularity_formula_eq[symmetric] by auto
qed

section \<open>Connection\<close>

definition arcs :: "adj_graph \<Rightarrow> (nat \<times> nat) set" where
  "arcs g = {(i, j). i < gN g \<and> (\<exists>w. (j, w) \<in> set (adj g ! i))}"

lemma arcs_weight:
  assumes "wf_graph g"
  shows "(i, j) \<in> arcs g \<longleftrightarrow> i < gN g \<and> j < gN g \<and> 0 < weight g i j"
proof -
  have "0 < weight g i j \<longleftrightarrow> (\<exists>w. (j, w) \<in> set (adj g ! i))" if "i < gN g"
    by (rule wt_pos_iff) (use wf_adj_row that assms in \<open>fastforce simp: wf_graph_def\<close>)
  moreover have "j < gN g" if "i < gN g" "(j, w) \<in> set (adj g ! i)" for w
    using wf_adjD(1) that assms by (auto simp: wf_graph_def)
  ultimately show ?thesis by (auto simp: arcs_def)
qed

lemma conn_sym: "wf_graph g \<Longrightarrow> (i, j) \<in> (arcs g)\<^sup>* \<Longrightarrow> (j, i) \<in> (arcs g)\<^sup>*"
  using sym_rtrancl[of "arcs g"] by (auto simp: sym_def arcs_weight weight_sym)

text \<open>Nodes of one community are connected.\<close>

definition linked :: "adj_graph \<Rightarrow> int list \<Rightarrow> bool" where
  "linked g cl \<longleftrightarrow> (\<forall>i<gN g. \<forall>j<gN g. cl ! i = cl ! j \<longrightarrow> (i, j) \<in> (arcs g)\<^sup>*)"

lemma linked_joins:
  assumes g: "wf_graph g" and cl: "linked g cl" "length cl = gN g" and m: "joins g cl cl' x y"
  shows "linked g cl'"
proof -
  have x: "x < gN g" "y < gN g" "(x, y) \<in> arcs g" "y \<noteq> x" "cl' = cl[x := cl ! y]"
    using m arcs_weight[OF g] by (auto simp: joins_def arcs_def)
  have "(x, k) \<in> (arcs g)\<^sup>*" if "k < gN g" "cl ! k = cl ! y" for k
    using cl(1) that x by (auto simp: linked_def intro: converse_rtrancl_into_rtrancl)
  then show ?thesis using cl x conn_sym[OF g]
    by (fastforce simp: linked_def nth_list_update)
qed

lemma linked_kept: "wf_graph g \<Longrightarrow> kept_by_joins g (linked g)"
  by (auto simp: kept_by_joins_def intro: linked_joins)

definition finer :: "adj_graph \<Rightarrow> int list \<Rightarrow> int list \<Rightarrow> bool" where
  "finer g refined outer \<longleftrightarrow> (\<forall>i<gN g. \<forall>j<gN g. refined ! i = refined ! j \<longrightarrow> outer ! i = outer ! j)"

lemma refine_node_cases:
  assumes L: "lib_ok L" and i: "i < gN g" and step: "refine_node L g outer gamma (rf, cs) i = (rf', cs')"
  shows "rf' = rf \<or> (\<exists>j. joins g rf rf' i j \<and> outer ! j = outer ! i)"
proof -
  let ?w = "weights_to (\<lambda>j. outer ! j = outer ! i) rf i (adj g ! i)"
  let ?ok = "\<lambda>(c, wc). \<not> wc < gamma * strength g ! i * cs c * (1 / (m2 g * m2 g)) * m2 g"
  define b where "b = best_community (gain g gamma cs ?w i (rf ! i)) (rf ! i) ?ok (walk L ?w) 0 (rf ! i)"
  have r: "rf' = (if ?w = [] then rf else if b \<noteq> rf ! i then rf[i := b] else rf)"
    using step by (auto simp: refine_node_def Let_def b_def split: if_splits)
  show ?thesis
  proof (cases "rf' = rf")
    case False
    then have b: "b \<noteq> rf ! i" "rf' = rf[i := b]" using r by (auto split: if_splits)
    obtain j w where "(j, w) \<in> set (adj g ! i)" "j \<noteq> i" "outer ! j = outer ! i" "b = rf ! j"
      using best_community_cases(1)[OF b(1)[unfolded b_def]] lib_okD(2)[OF L]
        weights_to_keys[of "\<lambda>j. outer ! j = outer ! i" rf i "adj g ! i"] by (auto simp: b_def)
    then show ?thesis using b i by (auto simp: joins_def)
  qed simp
qed

lemma refinePartition_ok:
  assumes g: "wf_graph g" and L: "lib_ok L" and run: "refinePartition L g outer gamma r = (rf, r')"
  shows "length rf = gN g \<and> linked g rf \<and> finer g rf outer"
proof -
  let ?P = "\<lambda>s. length (fst s) = gN g \<and> linked g (fst s) \<and> finer g (fst s) outer"
  obtain order r1 where o: "shuffle L [0..<gN g] r = (order, r1)" by force
  have s: "set order \<subseteq> {..<gN g}" using lib_okD(1)[OF L, of "[0..<gN g]" r] o by auto
  have step: "?P (refine_node L g outer gamma st i)" if "i \<in> set order" "?P st" for st i
  proof -
    obtain rf0 cs where st: "st = (rf0, cs)" by force
    obtain rf1 cs1 where one: "refine_node L g outer gamma (rf0, cs) i = (rf1, cs1)" by force
    have i: "i < gN g" using that s by auto
    show ?thesis
    proof (cases "rf1 = rf0")
      case False
      then obtain j where j: "joins g rf0 rf1 i j" "outer ! j = outer ! i"
        using refine_node_cases[OF L i one] by auto
      then have "linked g rf1" using linked_joins[OF g] that st by auto
      moreover have "finer g rf1 outer"
      proof -
        define rep where "rep k = (if k = i then j else k)" for k
        have "j < gN g" using j arcs_weight[OF g] by (auto simp: joins_def arcs_def)
        then have rep: "rf1 ! k = rf0 ! rep k" "outer ! rep k = outer ! k" "rep k < gN g" if "k < gN g" for k
          using that j \<open>?P st\<close> st by (auto simp: rep_def joins_def)
        have "outer ! k = outer ! l" if "k < gN g" "l < gN g" "rf1 ! k = rf1 ! l" for k l
        proof -
          have "finer g rf0 outer" using \<open>?P st\<close> st by simp
          moreover have "rf0 ! rep k = rf0 ! rep l" using that(3) unfolding rep(1)[OF that(1)] rep(1)[OF that(2)] .
          ultimately have "outer ! rep k = outer ! rep l"
            using rep(3)[OF that(1)] rep(3)[OF that(2)] unfolding finer_def by blast
          then show ?thesis unfolding rep(2)[OF that(1)] rep(2)[OF that(2)] .
        qed
        then show ?thesis unfolding finer_def by blast
      qed
      ultimately show ?thesis using that j one st by (auto simp: joins_def)
    qed (use that st one in auto)
  qed
  have "?P (foldl (refine_node L g outer gamma) (map int [0..<gN g], cluster_strength g (map int [0..<gN g])) order)"
  proof (rule wf_foldl[where P = ?P])
    show "?P (map int [0..<gN g], cluster_strength g (map int [0..<gN g]))" by (auto simp: linked_def finer_def)
  qed (rule step)
  then show ?thesis using run o by (auto simp: refinePartition_def Let_def)
qed

section \<open>Aggregation\<close>

lemma wt_bump: "wt (bump k w m) l = wt m l + (if k = l then w else 0)"
  by (induction m) auto

lemma number_ids_ok:
  assumes "number_ids xs = (ids, n)"
  shows "dom ids = set xs" "ids x = Some k \<Longrightarrow> ids y = Some k \<Longrightarrow> x = y" "(\<exists>x. ids x = Some k) \<longleftrightarrow> k < n"
proof -
  define ok where "ok s \<longleftrightarrow> (\<forall>x y k. fst s x = Some k \<longrightarrow> fst s y = Some k \<longrightarrow> x = y) \<and>
    (\<forall>k. (\<exists>x. fst s x = Some k) \<longleftrightarrow> k < snd s)" for s :: "(int \<rightharpoonup> nat) \<times> nat"
  have new: "ok (ids(c \<mapsto> n), n + 1)" if "ok (ids, n)" "ids c = None" for ids c n
  proof -
    have less: "k < n" if "ids x = Some k" for x k using \<open>ok (ids, n)\<close> that by (auto simp: ok_def)
    have "(\<exists>x. (ids(c \<mapsto> n)) x = Some k) \<longleftrightarrow> k < n + 1" for k
    proof
      assume "k < n + 1"
      then consider "k = n" | x where "ids x = Some k" using \<open>ok (ids, n)\<close> by (fastforce simp: ok_def less_Suc_eq)
      then show "\<exists>x. (ids(c \<mapsto> n)) x = Some k" using \<open>ids c = None\<close> by cases (auto, metis option.distinct(1))
    qed (use less in \<open>auto split: if_splits simp: less_Suc_eq\<close>)
    then show ?thesis using that less by (auto simp: ok_def split: if_splits)
  qed
  have "ok (foldl (\<lambda>(ids, n) c. if ids c \<noteq> None then (ids, n) else (ids(c \<mapsto> n), n + 1)) s xs) \<and>
      dom (fst (foldl (\<lambda>(ids, n) c. if ids c \<noteq> None then (ids, n) else (ids(c \<mapsto> n), n + 1)) s xs)) = dom (fst s) \<union> set xs"
    if "ok s" for s
    using that
  proof (induction xs arbitrary: s)
    case (Cons c xs)
    obtain ids n where s: "s = (ids, n)" by force
    show ?case
    proof (cases "ids c")
      case None
      then show ?thesis using Cons.IH[of "(ids(c \<mapsto> n), n + 1)"] new[of ids n c] Cons.prems s by auto
    next
      case (Some k)
      then show ?thesis using Cons s by auto
    qed
  qed simp
  from this[of "(Map.empty, 0)"] have "ok (ids, n)" "dom ids = set xs"
    using assms by (auto simp: number_ids_def ok_def)
  then show "dom ids = set xs" "ids x = Some k \<Longrightarrow> ids y = Some k \<Longrightarrow> x = y" "(\<exists>x. ids x = Some k) \<longleftrightarrow> k < n"
    by (auto simp: ok_def)
qed

text \<open>A numbering of the classes of a partition by the nodes of the quotient.\<close>

definition numbering :: "adj_graph \<Rightarrow> int list \<Rightarrow> (nat \<Rightarrow> nat) \<Rightarrow> nat \<Rightarrow> bool" where
  "numbering g refined nid n \<longleftrightarrow> (\<forall>i<gN g. nid i < n) \<and> (\<forall>u<n. \<exists>i<gN g. nid i = u) \<and>
     (\<forall>i<gN g. \<forall>j<gN g. nid i = nid j \<longleftrightarrow> refined ! i = refined ! j)"

lemma number_ids_numbering:
  assumes "number_ids (map (\<lambda>i. refined ! i) [0..<gN g]) = (ids, n)"
  shows "numbering g refined (\<lambda>i. the (ids (refined ! i))) n"
proof -
  note ok = number_ids_ok[OF assms]
  have some: "\<exists>k. ids (refined ! i) = Some k" if "i < gN g" for i
    using that ok(1) by (auto simp: dom_def set_eq_iff)
  have "\<exists>i<gN g. the (ids (refined ! i)) = u" if "u < n" for u
  proof -
    from iffD2[OF ok(3) that] obtain x where x: "ids x = Some u" ..
    then have "x \<in> set (map (\<lambda>i. refined ! i) [0..<gN g])" unfolding ok(1)[symmetric] by (rule domI)
    then obtain i where "i < gN g" "x = refined ! i" by auto
    then show ?thesis using x by (intro exI[of _ i]) simp
  qed
  moreover have "the (ids (refined ! i)) < n" if "i < gN g" for i
  proof -
    from some[OF that] obtain k where k: "ids (refined ! i) = Some k" ..
    then have "k < n" by (intro iffD1[OF ok(3)] exI)
    then show ?thesis using k by simp
  qed
  moreover have "the (ids (refined ! i)) = the (ids (refined ! j)) \<longleftrightarrow> refined ! i = refined ! j" if "i < gN g" "j < gN g" for i j
  proof -
    from some[OF that(1)] obtain k where "ids (refined ! i) = Some k" ..
    moreover from some[OF that(2)] obtain l where "ids (refined ! j) = Some l" ..
    ultimately show ?thesis using ok(2)[of "refined ! i" k "refined ! j"] by auto
  qed
  ultimately show ?thesis by (simp add: numbering_def)
qed

definition block_weight :: "adj_graph \<Rightarrow> (nat \<Rightarrow> nat) \<Rightarrow> nat \<Rightarrow> nat \<Rightarrow> rat" where
  "block_weight g nid u v = (\<Sum>i<gN g. \<Sum>j<gN g. if nid i = u \<and> nid j = v then weight g i j else 0)"

lemma block_weight_sym:
  assumes "wf_graph g" shows "block_weight g nid u v = block_weight g nid v u"
proof -
  have "block_weight g nid u v = (\<Sum>i<gN g. \<Sum>j<gN g. if nid j = u \<and> nid i = v then weight g j i else 0)"
    unfolding block_weight_def by (rule sum.swap)
  then show ?thesis using weight_sym[OF assms]
    by (simp add: block_weight_def conj_commute cong: if_cong)
qed

definition acc_ok :: "nat \<Rightarrow> (int \<times> rat) list list \<Rightarrow> bool" where
  "acc_ok n acc \<longleftrightarrow> length acc = n \<and> (\<forall>row \<in> set acc. \<forall>(k, w) \<in> set row. 0 < w \<and> k \<in> int ` {..<n})"

lemma bump_entries:
  assumes "\<forall>(l, x) \<in> set m. 0 < x \<and> l \<in> K" "0 < w" "k \<in> K"
  shows "\<forall>(l, x) \<in> set (bump k w m). 0 < x \<and> l \<in> K"
  using assms by (induction m) (auto split: if_splits intro: add_pos_pos)

lemma acc_add_row:
  assumes "acc_ok n acc" "nid i < n" "\<forall>(j, w) \<in> set ps. nid j < n \<and> 0 < w"
  shows "acc_ok n (foldl (acc_add nid i) acc ps) \<and>
    wt (foldl (acc_add nid i) acc ps ! u) (int v) =
      wt (acc ! u) (int v) + (if nid i = u then sum_list (map (\<lambda>(j, w). if nid j = v then w else 0) ps) else 0)"
  using assms
proof (induction ps arbitrary: acc)
  case (Cons p ps)
  obtain j w where p: "p = (j, w)" by force
  let ?acc = "acc[nid i := bump (int (nid j)) w (acc ! nid i)]"
  have len: "length acc = n" using Cons.prems by (simp add: acc_ok_def)
  have "\<forall>(k, x) \<in> set (acc ! nid i). 0 < x \<and> k \<in> int ` {..<n}"
    using Cons.prems(1,2) nth_mem[of "nid i" acc] unfolding acc_ok_def by blast
  then have "\<forall>(k, x) \<in> set (bump (int (nid j)) w (acc ! nid i)). 0 < x \<and> k \<in> int ` {..<n}"
    by (rule bump_entries) (use Cons.prems(3) p in auto)
  then have "acc_ok n ?acc" using Cons.prems(1) set_update_subset_insert[of acc "nid i"]
    unfolding acc_ok_def by (metis (no_types, lifting) insertE length_list_update subsetD)
  then show ?case using Cons.IH[of ?acc] Cons.prems p len
    by (simp add: acc_add_def wt_bump nth_list_update)
qed simp

lemma accumulate_ok:
  assumes g: "wf_graph g" and nid: "\<forall>i<gN g. nid i < n"
  shows "acc_ok n (accumulate g nid n)"
    and "u < n \<Longrightarrow> wt (accumulate g nid n ! u) (int v) = block_weight g nid u v"
proof -
  let ?row = "\<lambda>u v i. if nid i = u then sum_list (map (\<lambda>(j, w). if nid j = v then w else 0) (adj g ! i)) else 0"
  have ok: "acc_ok n (foldl (\<lambda>acc i. foldl (acc_add nid i) acc (adj g ! i)) acc is) \<and>
      wt (foldl (\<lambda>acc i. foldl (acc_add nid i) acc (adj g ! i)) acc is ! u) (int v) =
        wt (acc ! u) (int v) + sum_list (map (?row u v) is)"
    if "set is \<subseteq> {..<gN g}" "acc_ok n acc" for acc "is" u v
    using that
  proof (induction "is" arbitrary: acc)
    case (Cons i "is")
    have "\<forall>(j, w) \<in> set (adj g ! i). nid j < n \<and> 0 < w"
      using wf_adj_row[of "gN g" "adj g" i] Cons.prems(1) g nid by (fastforce simp: wf_graph_def)
    then have one: "acc_ok n (foldl (acc_add nid i) acc (adj g ! i)) \<and>
        wt (foldl (acc_add nid i) acc (adj g ! i) ! u) (int v) = wt (acc ! u) (int v) + ?row u v i"
      using Cons.prems nid by (intro acc_add_row) auto
    then show ?case using Cons.IH[of "foldl (acc_add nid i) acc (adj g ! i)"] Cons.prems(1) by simp
  qed simp
  have start: "acc_ok n (replicate n [])" by (auto simp: acc_ok_def)
  have up: "set [0..<gN g] \<subseteq> {..<gN g}" by auto
  show "acc_ok n (accumulate g nid n)"
    unfolding accumulate_def using ok[OF up start] by blast
  show "wt (accumulate g nid n ! u) (int v) = block_weight g nid u v" if "u < n"
  proof -
    have rows: "\<forall>(j, w) \<in> set (adj g ! i). j < gN g" if "i < gN g" for i
      using wf_adj_row that g by (fastforce simp: wf_graph_def)
    have "wt (accumulate g nid n ! u) (int v) = (\<Sum>i<gN g. ?row u v i)"
      using conjunct2[OF ok[OF up start, of u v]] that
      by (simp add: accumulate_def interv_sum_list_conv_sum_set_nat atLeast0LessThan)
    also have "\<dots> = block_weight g nid u v"
      unfolding block_weight_def by (intro sum.cong refl) (simp add: wt_sum_if[OF rows])
    finally show ?thesis .
  qed
qed

definition coef :: "nat \<Rightarrow> nat \<Rightarrow> nat \<Rightarrow> int \<Rightarrow> rat" where
  "coef u a b k =
     (if int u = k then (if a = u \<and> b = u then 1 / 2 else 0)
      else if int u < k then (if a = u \<and> int b = k then 1 else 0) + (if int a = k \<and> b = u then 1 else 0)
      else 0)"

lemma emit_row:
  assumes "wf_adj n ad" "u < n" "\<forall>(k, w) \<in> set ps. 0 < w \<and> k \<in> int ` {..<n}" "a < n" "b < n"
  shows "wf_adj n (foldl (emit_pair u) ad ps) \<and>
    wt (foldl (emit_pair u) ad ps ! a) b = wt (ad ! a) b + sum_list (map (\<lambda>(k, w). coef u a b k * w) ps)"
  using assms
proof (induction ps arbitrary: ad)
  case (Cons p ps)
  obtain v w where p: "p = (int v, w)" "v < n" "0 < w" using Cons.prems(3) by (cases p) auto
  have len: "length ad = n" using Cons.prems(1) by (simp add: wf_adj_def)
  have "wf_adj n (emit_pair u ad p)"
    using Cons.prems(1,2) p by (auto simp: emit_pair_def intro: wf_push_loop wf_push_pair)
  moreover have "wt (emit_pair u ad p ! a) b = wt (ad ! a) b + coef u a b (int v) * w"
    using p len Cons.prems(2,4,5) by (auto simp: emit_pair_def wt_push coef_def)
  ultimately show ?case using Cons.IH[of "emit_pair u ad p"] Cons.prems p by simp
qed simp

lemma coef_pair: "u < n \<Longrightarrow> v < n \<Longrightarrow>
    coef u a b (int v) = (if u = min a b \<and> v = max a b then if a = b then 1 / 2 else 1 else 0)"
  by (auto simp: coef_def min_def max_def)

lemma double_delta:
  fixes x y n :: nat and W :: "nat \<Rightarrow> nat \<Rightarrow> rat"
  assumes "x < n" "y < n"
  shows "(\<Sum>u<n. \<Sum>v<n. (if u = x \<and> v = y then c else 0) * W u v) = c * W x y"
proof -
  have "(\<Sum>v<n. (if u = x \<and> v = y then c else 0) * W u v) = (if u = x then c * W x y else 0)" for u
    using assms(2) by (simp add: if_distrib[where f = "\<lambda>z. z * _"] sum.delta cong: if_cong)
  then show ?thesis using assms(1) by (simp add: sum.delta)
qed

lemma sum_list_mset_eq:
  fixes f :: "'a \<Rightarrow> rat"
  shows "mset xs = mset ys \<Longrightarrow> sum_list (map f xs) = sum_list (map f ys)"
  by (metis mset_map sum_mset_sum_list)

text \<open>
  The quotient graph: its nodes are the classes, and the weight between two of them is the weight
  between their members, but halved within a class.
\<close>

lemma aggregate_ok:
  assumes g: "wf_graph g" and L: "lib_ok L" and run: "aggregate L g refined = (h, ids)"
  defines "nid \<equiv> \<lambda>i. the (ids (refined ! i))"
  shows "wf_graph h" and "numbering g refined nid (gN h)"
    and "a < gN h \<Longrightarrow> b < gN h \<Longrightarrow>
      weight h a b = (if a = b then 1 / 2 else 1) * block_weight g nid a b"
proof -
  obtain n where num: "number_ids (map (\<lambda>i. refined ! i) [0..<gN g]) = (ids, n)"
    using run by (auto simp: aggregate_def split: prod.splits)
  have numb: "numbering g refined nid n" using number_ids_numbering[where ids = ids and n = n] num by (simp add: nid_def)
  define acc where "acc = accumulate g nid n"
  define out where "out ad us = foldl (\<lambda>ad u. foldl (emit_pair u) ad (walk L (acc ! u))) ad us" for ad us
  have h: "h = rebuild \<lparr>gN = n, adj = out (replicate n []) [0..<n], strength = [], m2 = 0\<rparr>"
    using run num by (simp add: aggregate_def acc_def out_def nid_def Let_def)
  have acc: "acc_ok n acc" "\<And>u v. u < n \<Longrightarrow> wt (acc ! u) (int v) = block_weight g nid u v"
    using accumulate_ok[OF g, of nid n] numb by (auto simp: acc_def numbering_def)
  have row: "\<forall>(k, w) \<in> set (acc ! u). 0 < w \<and> k \<in> int ` {..<n}" if "u < n" for u
    using acc(1) that nth_mem[of u acc] unfolding acc_ok_def by metis
  have one: "sum_list (map (\<lambda>(k, w). coef u a b k * w) (walk L (acc ! u))) =
      (\<Sum>v<n. (if u = min a b \<and> v = max a b then if a = b then 1 / 2 else 1 else 0) * block_weight g nid u v)"
    if "u < n" "a < n" "b < n" for u a b
  proof -
    have "sum_list (map (\<lambda>(k, w). coef u a b k * w) (walk L (acc ! u))) =
        sum_list (map (\<lambda>(k, w). coef u a b k * w) (acc ! u))"
      by (rule sum_list_mset_eq) (use L in \<open>simp add: lib_ok_def\<close>)
    also have "\<dots> = (\<Sum>k\<in>int ` {..<n}. coef u a b k * wt (acc ! u) k)"
      by (rule wt_sum_set) (use row[OF that(1)] in auto)
    also have "\<dots> = (\<Sum>v<n. coef u a b (int v) * block_weight g nid u v)"
      by (simp add: sum.reindex acc(2)[OF that(1)])
    finally show ?thesis using coef_pair[of u n] that by simp
  qed
  have out: "wf_adj n (out ad us) \<and> wt (out ad us ! a) b = wt (ad ! a) b +
      sum_list (map (\<lambda>u. sum_list (map (\<lambda>(k, w). coef u a b k * w) (walk L (acc ! u)))) us)"
    if "set us \<subseteq> {..<n}" "wf_adj n ad" "a < n" "b < n" for ad us a b
    using that(1,2)
  proof (induction us arbitrary: ad)
    case (Cons u us)
    have "wf_adj n (foldl (emit_pair u) ad (walk L (acc ! u))) \<and>
        wt (foldl (emit_pair u) ad (walk L (acc ! u)) ! a) b =
          wt (ad ! a) b + sum_list (map (\<lambda>(k, w). coef u a b k * w) (walk L (acc ! u)))"
      using Cons.prems row[of u] that(3,4) by (intro emit_row) (auto simp: lib_okD(2)[OF L])
    then show ?case using Cons.IH[of "foldl (emit_pair u) ad (walk L (acc ! u))"] Cons.prems
      by (simp add: out_def)
  qed (simp add: out_def)
  have up: "set [0..<n] \<subseteq> {..<n}" by auto
  have wf: "wf_adj n (out (replicate n []) [0..<n])"
  proof (cases "n = 0")
    case False
    then show ?thesis using out[OF up wf_replicate, of 0 0] by simp
  qed (simp add: out_def wf_replicate[of 0, simplified])
  show "wf_graph h" unfolding h by (rule wf_rebuild) (simp add: wf)
  show "numbering g refined nid (gN h)" using numb by (simp add: h)
  show "weight h a b = (if a = b then 1 / 2 else 1) * block_weight g nid a b" if "a < gN h" "b < gN h"
  proof -
    have ab: "a < n" "b < n" using that by (simp_all add: h)
    have "weight h a b = (\<Sum>u<n. \<Sum>v<n.
        (if u = min a b \<and> v = max a b then if a = b then 1 / 2 else 1 else 0) * block_weight g nid u v)"
      using conjunct2[OF out[OF up wf_replicate ab]] ab one
      by (simp add: h interv_sum_list_conv_sum_set_nat atLeast0LessThan)
    also have "\<dots> = (if a = b then 1 / 2 else 1) * block_weight g nid (min a b) (max a b)"
      by (rule double_delta) (use ab in auto)
    finally show ?thesis using block_weight_sym[OF g, of nid a b] by (simp add: min_def max_def)
  qed
qed

lemma block_weight_pos:
  assumes g: "wf_graph g"
  shows "0 < block_weight g nid u v \<longleftrightarrow> (\<exists>i j. (i, j) \<in> arcs g \<and> nid i = u \<and> nid j = v)"
proof -
  let ?f = "\<lambda>i j. if nid i = u \<and> nid j = v then weight g i j else 0"
  have nonneg: "0 \<le> ?f i j" if "i < gN g" for i j using weight_nonneg[OF g that] by simp
  have rows: "0 \<le> (\<Sum>j<gN g. ?f i j)" if "i < gN g" for i by (intro sum_nonneg nonneg that)
  show ?thesis
  proof
    assume "0 < block_weight g nid u v"
    then have "(\<Sum>i<gN g. \<Sum>j<gN g. ?f i j) \<noteq> 0" by (simp only: block_weight_def)
    from sum.not_neutral_contains_not_neutral[OF this]
    obtain i where i: "i < gN g" "(\<Sum>j<gN g. ?f i j) \<noteq> 0" by auto
    from sum.not_neutral_contains_not_neutral[OF i(2)] obtain j where "j < gN g" "?f i j \<noteq> 0" by auto
    then show "\<exists>i j. (i, j) \<in> arcs g \<and> nid i = u \<and> nid j = v"
      using i(1) weight_nonneg[OF g i(1), of j] arcs_weight[OF g, of i j] by (auto split: if_splits)
  next
    assume "\<exists>i j. (i, j) \<in> arcs g \<and> nid i = u \<and> nid j = v"
    then obtain i j where ij: "i < gN g" "j < gN g" "0 < weight g i j" "nid i = u" "nid j = v"
      using arcs_weight[OF g] by blast
    have pos: "0 < (\<Sum>j<gN g. ?f i j)"
      by (rule sum_pos2[of _ j]) (use ij nonneg[OF ij(1)] in auto)
    have "0 < (\<Sum>i<gN g. \<Sum>j<gN g. ?f i j)"
      by (rule sum_pos2[of "{..<gN g}" i]) (use pos ij(1) rows in \<open>simp_all only: finite_lessThan lessThan_iff\<close>)
    then show "0 < block_weight g nid u v" by (simp only: block_weight_def)
  qed
qed

text \<open>Connection in the quotient is connection in the graph.\<close>

lemma arcs_aggregate:
  assumes "wf_graph g" "lib_ok L" "aggregate L g refined = (h, ids)"
  shows "(u, v) \<in> arcs h \<longleftrightarrow>
    (\<exists>i j. (i, j) \<in> arcs g \<and> the (ids (refined ! i)) = u \<and> the (ids (refined ! j)) = v)"
proof -
  note agg = aggregate_ok[OF assms]
  have range: "u < gN h \<and> v < gN h" if "(i, j) \<in> arcs g" "the (ids (refined ! i)) = u" "the (ids (refined ! j)) = v" for i j
    using agg(2) that arcs_weight[OF assms(1)] by (auto simp: numbering_def)
  show ?thesis
  proof (cases "u < gN h \<and> v < gN h")
    case True
    then have "0 < weight h u v \<longleftrightarrow> 0 < block_weight g (\<lambda>i. the (ids (refined ! i))) u v"
      using agg(3)[of u v] by simp
    then show ?thesis using True unfolding arcs_weight[OF agg(1)] block_weight_pos[OF assms(1)] by blast
  next
    case False
    then show ?thesis using range unfolding arcs_weight[OF agg(1)] by blast
  qed
qed

lemma conn_aggregate:
  assumes g: "wf_graph g" and L: "lib_ok L" and run: "aggregate L g refined = (h, ids)" and lk: "linked g refined"
    and ab: "a < gN g" "b < gN g"
  defines "nid \<equiv> \<lambda>i. the (ids (refined ! i))"
  shows "(nid a, nid b) \<in> (arcs h)\<^sup>* \<longleftrightarrow> (a, b) \<in> (arcs g)\<^sup>*"
proof
  have arcs: "(u, v) \<in> arcs h \<longleftrightarrow> (\<exists>i j. (i, j) \<in> arcs g \<and> nid i = u \<and> nid j = v)" for u v
    using arcs_aggregate[OF g L run] by (simp add: nid_def)
  have numb: "numbering g refined nid (gN h)" using aggregate_ok(2)[OF g L run] by (simp add: nid_def)
  have same: "(i, j) \<in> (arcs g)\<^sup>*" if "i < gN g" "j < gN g" "nid i = nid j" for i j
    using numb lk that by (auto simp: numbering_def linked_def)
  have "(x, j) \<in> (arcs g)\<^sup>*" if "(u, v) \<in> (arcs h)\<^sup>*" "x < gN g" "nid x = u" "j < gN g" "nid j = v" for u v x j
    using that
  proof (induction arbitrary: j rule: rtrancl_induct)
    case base
    then show ?case using same by simp
  next
    case (step v w)
    from step.hyps(2) obtain k l where kl: "(k, l) \<in> arcs g" "nid k = v" "nid l = w" unfolding arcs by blast
    then have "k < gN g" "l < gN g" using arcs_weight[OF g] by auto
    then have "(x, k) \<in> (arcs g)\<^sup>*" "(l, j) \<in> (arcs g)\<^sup>*" using step kl same by auto
    then show ?case using kl(1) by (meson rtrancl_trans r_into_rtrancl)
  qed
  then show "(nid a, nid b) \<in> (arcs h)\<^sup>* \<Longrightarrow> (a, b) \<in> (arcs g)\<^sup>*" using ab by blast
  show "(nid a, nid b) \<in> (arcs h)\<^sup>*" if "(a, b) \<in> (arcs g)\<^sup>*"
    using that
  proof (induction rule: rtrancl_induct)
    case (step y z)
    then have "(nid y, nid z) \<in> arcs h" unfolding arcs by blast
    then show ?case using step.IH by (rule rtrancl_into_rtrancl[rotated])
  qed simp
qed

lemma agg_clusters_nth:
  assumes nid: "\<And>i. i < N \<Longrightarrow> nid i < n" and same: "\<And>i j. i < N \<Longrightarrow> j < N \<Longrightarrow> nid i = nid j \<Longrightarrow> cl ! i = cl ! j"
  shows "length (agg_clusters N nid n cl) = n" "i < N \<Longrightarrow> agg_clusters N nid n cl ! nid i = cl ! i"
proof -
  let ?ac = "\<lambda>M. foldl (\<lambda>ac i. ac[nid i := cl ! i]) (replicate n (- 1)) [0..<M]"
  have len: "length (?ac M) = n" for M by (induction M) auto
  have "?ac M ! nid i = cl ! i" if "M \<le> N" "i < M" for M i
    using that
  proof (induction M)
    case (Suc M)
    then show ?case using len[of M] nid[of M] same[of M i] by (auto simp: nth_list_update less_Suc_eq)
  qed simp
  then show "length (agg_clusters N nid n cl) = n" "i < N \<Longrightarrow> agg_clusters N nid n cl ! nid i = cl ! i"
    using len by (auto simp: agg_clusters_def)
qed

section \<open>The result\<close>

text \<open>The edges that count: both ends in range and the weight positive.\<close>

definition joined :: "nat \<Rightarrow> leiden_edge list \<Rightarrow> (nat \<times> nat) set" where
  "joined N edges =
     {(i, j). i < N \<and> j < N \<and> (\<exists>e \<in> set edges. {e_u e, e_v e} = {int i, int j} \<and> 0 < e_w e)}"

lemma arcs_buildGraph: "arcs (buildGraph N edges) = joined N edges"
proof -
  have "0 < edge_weight N edges i j \<longleftrightarrow> (\<exists>e \<in> set edges. {e_u e, e_v e} = {int i, int j} \<and> 0 < e_w e)" for i j
  proof (induction edges)
    case (Cons e edges)
    have "0 \<le> edge_weight N edges i j" by (auto simp: edge_weight_def intro!: sum_list_nonneg)
    then show ?case using Cons by (auto simp: edge_weight_def add_pos_nonneg)
  qed (simp add: edge_weight_def)
  then have "(i, j) \<in> arcs (buildGraph N edges) \<longleftrightarrow> (i, j) \<in> joined N edges" for i j
    unfolding arcs_weight[OF wf_buildGraph] joined_def gN_buildGraph mem_Collect_eq case_prod_conv
    using weight_buildGraph by metis
  then show ?thesis by auto
qed

definition sound_labels :: "nat \<Rightarrow> (nat \<times> nat) set \<Rightarrow> int list \<Rightarrow> bool" where
  "sound_labels N E cl \<longleftrightarrow> length cl = N \<and> (\<forall>x<N. \<forall>y<N. cl ! x = cl ! y \<longrightarrow> (x, y) \<in> E\<^sup>*)"

definition pass_inv :: "nat \<Rightarrow> (nat \<times> nat) set \<Rightarrow> adj_graph \<Rightarrow> int list \<Rightarrow> nat list \<Rightarrow> bool" where
  "pass_inv N E cur cl o2c \<longleftrightarrow> wf_graph cur \<and> length cl = gN cur \<and> linked cur cl \<and> length o2c = N \<and>
     (\<forall>x<N. o2c ! x < gN cur) \<and> (\<forall>x<N. \<forall>y<N. (o2c ! x, o2c ! y) \<in> (arcs cur)\<^sup>* \<longrightarrow> (x, y) \<in> E\<^sup>*)"

lemma pass_inv_aggregate:
  assumes L: "lib_ok L" and inv: "pass_inv N E cur cl o2c" and rf: "linked cur rf" "finer cur rf cl"
    and run: "aggregate L cur rf = (h, ids)"
  shows "pass_inv N E h (agg_clusters (gN cur) (\<lambda>i. the (ids (rf ! i))) (gN h) cl) (map (\<lambda>i. the (ids (rf ! i))) o2c)"
proof -
  let ?nid = "\<lambda>i. the (ids (rf ! i))" let ?cl = "agg_clusters (gN cur) ?nid (gN h) cl"
  have g: "wf_graph cur" and cl: "linked cur cl" and o: "length o2c = N" "\<And>x. x < N \<Longrightarrow> o2c ! x < gN cur"
    using inv by (auto simp: pass_inv_def)
  note agg = aggregate_ok[OF g L run] and conn = conn_aggregate[OF g L run rf(1)]
  have nid: "?nid i < gN h" if "i < gN cur" for i using agg(2) that by (simp add: numbering_def)
  have same: "cl ! i = cl ! j" if "i < gN cur" "j < gN cur" "?nid i = ?nid j" for i j
    using agg(2) rf(2) that unfolding numbering_def finer_def by blast
  have labels: "length ?cl = gN h" "\<And>i. i < gN cur \<Longrightarrow> ?cl ! ?nid i = cl ! i"
    using agg_clusters_nth[of "gN cur" ?nid "gN h" cl] nid same by blast+
  have "linked h ?cl"
    unfolding linked_def
  proof (intro allI impI)
    fix u v assume uv: "u < gN h" "v < gN h" "?cl ! u = ?cl ! v"
    then obtain i j where ij: "i < gN cur" "j < gN cur" "?nid i = u" "?nid j = v"
      using agg(2) unfolding numbering_def by blast
    then have "cl ! i = cl ! j" using uv(3) labels(2)[OF ij(1)] labels(2)[OF ij(2)] by simp
    then have "(i, j) \<in> (arcs cur)\<^sup>*" using cl ij by (auto simp: linked_def)
    then show "(u, v) \<in> (arcs h)\<^sup>*" using conn[OF ij(1,2)] ij(3,4) by simp
  qed
  moreover have "(x, y) \<in> E\<^sup>*" if "x < N" "y < N" "(?nid (o2c ! x), ?nid (o2c ! y)) \<in> (arcs h)\<^sup>*" for x y
    using inv that conn[OF o(2)[OF that(1)] o(2)[OF that(2)]] unfolding pass_inv_def by blast
  ultimately show ?thesis using agg(1) labels(1) o nid by (auto simp: pass_inv_def)
qed

lemma sound_labels_project:
  assumes "pass_inv N E cur cl o2c"
  shows "sound_labels N E (map (\<lambda>c. cl ! c) o2c)"
  using assms by (auto simp: pass_inv_def sound_labels_def linked_def)

lemma leiden_loop_sound:
  assumes L: "lib_ok L"
  shows "\<lbrakk>pass_inv N E cur cl o2c; 0 < n \<or> sound_labels N E res;
      leiden_loop L opts n pass cur cl o2c q r res = (res', pass')\<rbrakk> \<Longrightarrow> sound_labels N E res'"
proof (induction n arbitrary: pass cur cl o2c q r res)
  case (Suc n)
  have g: "wf_graph cur" using Suc.prems(1) by (simp add: pass_inv_def)
  obtain cl1 moved r1 where mv: "moveNodesFast L cur cl (resolution opts) r = (cl1, moved, r1)" by (metis prod_cases3)
  obtain rf r2 where rf: "(if refine opts then refinePartition L cur cl1 (resolution opts) r1 else (cl1, r1)) = (rf, r2)" by force
  obtain h ids where agg: "aggregate L cur rf = (h, ids)" by force
  have "length cl1 = gN cur \<and> linked cur cl1"
    using moveNodesFast_ok[OF g L linked_kept[OF g] _ _ mv] Suc.prems(1) by (auto simp: pass_inv_def)
  then have inv: "pass_inv N E cur cl1 o2c" using Suc.prems(1) by (simp add: pass_inv_def)
  have "linked cur cl1 \<and> finer cur cl1 cl1" using inv by (simp add: pass_inv_def finer_def)
  then have "linked cur rf \<and> finer cur rf cl1"
    using rf refinePartition_ok[OF g L, of cl1 "resolution opts" r1 rf r2] by (cases "refine opts") auto
  then have next_inv: "pass_inv N E h (agg_clusters (gN cur) (\<lambda>i. the (ids (rf ! i))) (gN h) cl1)
      (map (\<lambda>i. the (ids (rf ! i))) o2c)"
    using pass_inv_aggregate[OF L inv _ _ agg] by blast
  have res1: "sound_labels N E (map (\<lambda>c. cl1 ! c) o2c)" by (rule sound_labels_project[OF inv])
  note IH = Suc.IH[OF next_inv disjI2[OF res1]]
  show ?case
    using Suc.prems(3) res1 IH by (auto simp: mv rf agg Let_def split: if_splits)
qed simp

text \<open>The last renumbering keeps the partition and numbers it from zero.\<close>

lemma compact_ids_number:
  "compact_ids cl = (map (\<lambda>c. int (the (fst (number_ids cl) c))) cl, snd (number_ids cl))"
proof -
  let ?step = "\<lambda>(out, remap, n) c. case remap c of
      None \<Rightarrow> (out @ [int n], remap(c \<mapsto> n), n + 1) | Some k \<Rightarrow> (out @ [int k], remap, n)"
  have "foldl ?step ([], Map.empty, 0) cl =
      (map (\<lambda>c. int (the (fst (number_ids cl) c))) cl, fst (number_ids cl), snd (number_ids cl))"
  proof (induction cl rule: rev_induct)
    case (snoc c cl)
    obtain ids n where ids: "number_ids cl = (ids, n)" by force
    have dom: "dom ids = set cl" by (rule number_ids_ok(1)[OF ids])
    have step: "number_ids (cl @ [c]) = (if ids c \<noteq> None then (ids, n) else (ids(c \<mapsto> n), n + 1))"
      using ids by (simp add: number_ids_def)
    show ?case
    proof (cases "ids c")
      case None
      then have "c \<notin> set cl" using dom by auto
      then show ?thesis using snoc None by (simp add: ids step fun_upd_def)
    qed (use snoc in \<open>simp add: ids step\<close>)
  qed (simp add: number_ids_def)
  then show ?thesis by (simp add: compact_ids_def split_def)
qed

lemma compact_ids_ok:
  assumes "compact_ids cl = (out, n)"
  shows "length out = length cl" "set out = int ` {..<n}"
    and "i < length cl \<Longrightarrow> j < length cl \<Longrightarrow> out ! i = out ! j \<longleftrightarrow> cl ! i = cl ! j"
proof -
  obtain ids where ids: "number_ids cl = (ids, n)"
    using assms by (cases "number_ids cl") (simp add: compact_ids_number)
  have out: "out = map (\<lambda>c. int (the (ids c))) cl" using assms by (simp add: compact_ids_number ids)
  note ok = number_ids_ok[OF ids]
  show "length out = length cl" by (simp add: out)
  have "(\<lambda>c. the (ids c)) ` set cl = {..<n}"
  proof (intro set_eqI iffI)
    fix k assume "k \<in> {..<n}"
    then obtain x where x: "ids x = Some k" using iffD2[OF ok(3)] by blast
    then have "x \<in> set cl" unfolding ok(1)[symmetric] by (rule domI)
    then show "k \<in> (\<lambda>c. the (ids c)) ` set cl" using x by force
  next
    fix k assume "k \<in> (\<lambda>c. the (ids c)) ` set cl"
    then obtain c where "c \<in> dom ids" "k = the (ids c)" unfolding ok(1) by blast
    then have "ids c = Some k" by auto
    then show "k \<in> {..<n}" using iffD1[OF ok(3)] by blast
  qed
  moreover have "set out = int ` (\<lambda>c. the (ids c)) ` set cl" by (auto simp: out)
  ultimately show "set out = int ` {..<n}" by simp
  assume ij: "i < length cl" "j < length cl"
  then have "cl ! i \<in> dom ids" "cl ! j \<in> dom ids" unfolding ok(1) by auto
  then obtain k l where "ids (cl ! i) = Some k" "ids (cl ! j) = Some l" by auto
  then show "out ! i = out ! j \<longleftrightarrow> cl ! i = cl ! j"
    using ij ok(2)[of "cl ! i" k "cl ! j"] by (auto simp: out)
qed

text \<open>
  Property C28. The clustering is a partition of the nodes into communities numbered from zero, no community
  joins two nodes that the edges do not connect, and the modularity reported is that of the
  partition by the formula of the header. This holds whatever the random order, with and
  without refinement, through every pass of aggregation.
\<close>

theorem leidenCluster_communities:
  assumes "lib_ok L" and "0 < num_nodes" and "0 < max_iter opts" and "R = leidenCluster L num_nodes edges opts"
  defines "N \<equiv> nat num_nodes"
  shows "length (communities R) = N \<and> set (communities R) = int ` {..<num_clusters R} \<and>
    modularity R = modularity_formula N edges (communities R) (resolution opts) \<and>
    (\<forall>x<N. \<forall>y<N. communities R ! x = communities R ! y \<longrightarrow> (x, y) \<in> (joined N edges)\<^sup>*)"
proof -
  let ?g = "buildGraph N edges" let ?cl = "map int [0..<N]"
  let ?q = "computeModularity ?g ?cl (resolution opts)"
  obtain res pass where run: "leiden_loop L opts (nat (max_iter opts)) 0 ?g ?cl [0..<N] ?q (rng_of L (seed opts)) [] = (res, pass)"
    by force
  obtain out n where out: "compact_ids res = (out, n)" by force
  have R: "communities R = out" "num_clusters R = n" "modularity R = computeModularity ?g out (resolution opts)"
    using assms(2,4) run out by (simp_all add: leidenCluster_def N_def Let_def)
  have "pass_inv N (joined N edges) ?g ?cl [0..<N]"
    by (auto simp: pass_inv_def wf_buildGraph linked_def arcs_buildGraph[symmetric])
  then have res: "sound_labels N (joined N edges) res"
    by (rule leiden_loop_sound[OF assms(1) _ _ run]) (use assms(3) in simp)
  have out_eq: "length out = N" "\<And>x y. x < N \<Longrightarrow> y < N \<Longrightarrow> out ! x = out ! y \<longleftrightarrow> res ! x = res ! y"
    using compact_ids_ok(1,3)[OF out] res by (simp_all add: sound_labels_def)
  have sep: "\<forall>x<N. \<forall>y<N. communities R ! x = communities R ! y \<longrightarrow> (x, y) \<in> (joined N edges)\<^sup>*"
  proof (intro allI impI)
    fix x y assume xy: "x < N" "y < N" "communities R ! x = communities R ! y"
    then have "res ! x = res ! y" using out_eq(2) R(1) by simp
    then show "(x, y) \<in> (joined N edges)\<^sup>*" using res xy(1,2) by (simp add: sound_labels_def)
  qed
  show ?thesis
    using sep out_eq(1) compact_ids_ok(2)[OF out] by (simp add: R modularity_formula_eq)
qed

text \<open>A library that leaves every order as it is, and two triangles joined by an edge.\<close>

definition plain_lib :: "unit std_lib" where
  "plain_lib = \<lparr>rng_of = (\<lambda>_. ()), shuffle = (\<lambda>xs r. (xs, r)), walk = (\<lambda>m. m)\<rparr>"

definition unit_edge :: "int \<times> int \<Rightarrow> leiden_edge" where
  "unit_edge p = \<lparr>e_u = fst p, e_v = snd p, e_w = 1\<rparr>"

definition two_triangles :: "leiden_edge list" where
  "two_triangles = map unit_edge [(0, 1), (1, 2), (0, 2), (3, 4), (4, 5), (3, 5), (2, 3)]"

definition default_options :: leiden_options where
  "default_options = \<lparr>resolution = 1, max_iter = 10, tol_dq = 1 / 10 ^ 7, seed = 42, refine = True\<rparr>"

lemma lib_ok_plain: "lib_ok plain_lib"
  by (simp add: lib_ok_def plain_lib_def)

theorem moveNodesFast_climbs_witness:
  "moveNodesFast plain_lib (buildGraph 3 (map unit_edge [(0, 1), (1, 2)])) [0, 1, 2] 1 () = ([1, 1, 1], True, ()) \<and>
   modularity_formula 3 (map unit_edge [(0, 1), (1, 2)]) [0, 1, 2] 1
     < modularity_formula 3 (map unit_edge [(0, 1), (1, 2)]) [1, 1, 1] 1"
proof -
  have run: "moveNodesFast plain_lib (buildGraph 3 (map unit_edge [(0, 1), (1, 2)])) [0, 1, 2] 1 () = ([1, 1, 1], True, ())"
    by code_simp
  from moveNodesFast_climbs[OF lib_ok_plain _ this] run show ?thesis by simp
qed

theorem leidenCluster_communities_witness:
  "communities (leidenCluster plain_lib 6 two_triangles default_options) = [0, 0, 0, 1, 1, 1] \<and>
   modularity (leidenCluster plain_lib 6 two_triangles default_options) =
     modularity_formula 6 two_triangles [0, 0, 0, 1, 1, 1] 1"
proof -
  have run: "communities (leidenCluster plain_lib 6 two_triangles default_options) = [0, 0, 0, 1, 1, 1]"
    by code_simp
  have "0 < max_iter default_options" "resolution default_options = 1" by (simp_all add: default_options_def)
  then show ?thesis
    using leidenCluster_communities[OF lib_ok_plain _ _ refl, of 6 default_options two_triangles] run by simp
qed

section \<open>What aggregation loses\<close>

lemma sum_pick: "(y :: nat) < n \<Longrightarrow> (\<Sum>b<n. if y = b then c else 0) = (c :: rat)"
  by (simp add: sum.delta)

lemma block_weight_total:
  assumes "\<forall>i<gN g. nid i < n"
  shows "(\<Sum>a<n. \<Sum>b<n. block_weight g nid a b) = (\<Sum>i<gN g. \<Sum>j<gN g. weight g i j)"
    and "(\<Sum>a<n. block_weight g nid a a) = (\<Sum>i<gN g. \<Sum>j<gN g. if nid i = nid j then weight g i j else 0)"
proof -
  have inner: "(\<Sum>b<n. block_weight g nid a b) = (\<Sum>i<gN g. \<Sum>j<gN g. if nid i = a then weight g i j else 0)" for a
  proof -
    have "(\<Sum>b<n. block_weight g nid a b) =
        (\<Sum>i<gN g. \<Sum>j<gN g. \<Sum>b<n. if nid j = b then (if nid i = a then weight g i j else 0) else 0)"
      by (simp add: block_weight_def sum.swap[of _ "{..<gN g}" "{..<n}"] if_distrib conj_commute cong: if_cong)
        (intro sum.cong refl, auto)
    also have "\<dots> = (\<Sum>i<gN g. \<Sum>j<gN g. if nid i = a then weight g i j else 0)"
      using assms by (intro sum.cong refl) (simp add: sum_pick)
    finally show ?thesis .
  qed
  have "(\<Sum>a<n. \<Sum>b<n. block_weight g nid a b) =
      (\<Sum>i<gN g. \<Sum>j<gN g. \<Sum>a<n. if nid i = a then weight g i j else 0)"
    by (simp only: inner sum.swap[of _ "{..<gN g}" "{..<n}"])
  also have "\<dots> = (\<Sum>i<gN g. \<Sum>j<gN g. weight g i j)"
    using assms by (intro sum.cong refl) (simp add: sum_pick)
  finally show "(\<Sum>a<n. \<Sum>b<n. block_weight g nid a b) = (\<Sum>i<gN g. \<Sum>j<gN g. weight g i j)" .
  have "(\<Sum>a<n. block_weight g nid a a) =
      (\<Sum>i<gN g. \<Sum>j<gN g. \<Sum>a<n. if nid i = a then (if nid i = nid j then weight g i j else 0) else 0)"
    unfolding block_weight_def sum.swap[of _ "{..<gN g}" "{..<n}"] by (intro sum.cong refl) auto
  also have "\<dots> = (\<Sum>i<gN g. \<Sum>j<gN g. if nid i = nid j then weight g i j else 0)"
    using assms by (intro sum.cong refl) (simp add: sum_pick)
  finally show "(\<Sum>a<n. block_weight g nid a a) = (\<Sum>i<gN g. \<Sum>j<gN g. if nid i = nid j then weight g i j else 0)" .
qed

text \<open>
  Aggregation does not keep the total weight: every community contributes only half of the
  weight inside it, so the quotient graph is lighter than the graph, and modularities computed
  on it, which the loop compares with those of the pass before, are those of another graph.
\<close>

theorem aggregate_loses_weight:
  assumes "lib_ok L"
  shows "m2 (fst (aggregate L (buildGraph N edges) refined)) = m2 (buildGraph N edges) -
    (\<Sum>i<N. \<Sum>j<N. if refined ! i = refined ! j then edge_weight N edges i j else 0) / 2"
proof -
  let ?g = "buildGraph N edges"
  obtain h ids where run: "aggregate L ?g refined = (h, ids)" by force
  let ?nid = "\<lambda>i. the (ids (refined ! i))"
  note agg = aggregate_ok[OF wf_buildGraph assms run]
  have nid: "\<forall>i<gN ?g. ?nid i < gN h" using agg(2) by (simp add: numbering_def)
  have m2: "m2 k = (\<Sum>a<gN k. \<Sum>b<gN k. weight k a b)" if "wf_graph k" for k
    using that by (simp add: m2_strength strength_weight)
  have "weight h a b = block_weight ?g ?nid a b - (if a = b then block_weight ?g ?nid a a / 2 else 0)"
    if "a < gN h" "b < gN h" for a b
    using agg(3)[OF that] by simp
  then have "m2 h = (\<Sum>a<gN h. \<Sum>b<gN h. block_weight ?g ?nid a b) - (\<Sum>a<gN h. block_weight ?g ?nid a a) / 2"
    by (simp add: m2[OF agg(1)] sum_subtractf sum_pick sum_divide_distrib)
  also have "(\<Sum>a<gN h. block_weight ?g ?nid a a) =
      (\<Sum>i<N. \<Sum>j<N. if refined ! i = refined ! j then edge_weight N edges i j else 0)"
    unfolding block_weight_total(2)[OF nid] gN_buildGraph using agg(2)
    by (intro sum.cong refl) (simp add: numbering_def weight_buildGraph)
  also have "(\<Sum>a<gN h. \<Sum>b<gN h. block_weight ?g ?nid a b) = m2 ?g"
    by (simp add: block_weight_total(1)[OF nid] m2[OF wf_buildGraph])
  finally show ?thesis by (simp add: run)
qed

theorem aggregate_loses_weight_witness:
  "m2 (fst (aggregate plain_lib (buildGraph 3 (map unit_edge [(0, 1), (1, 2), (0, 2)])) [0, 0, 2])) =
   m2 (buildGraph 3 (map unit_edge [(0, 1), (1, 2), (0, 2)])) - 1"
proof -
  have "(\<Sum>i<3. \<Sum>j<3. if [0, 0, 2] ! i = ([0, 0, 2] ! j :: int)
      then edge_weight 3 (map unit_edge [(0, 1), (1, 2), (0, 2)]) i j else 0) = 2"
    by code_simp
  then show ?thesis
    using aggregate_loses_weight[OF lib_ok_plain, of 3 "map unit_edge [(0, 1), (1, 2), (0, 2)]" "[0, 0, 2]"] by simp
qed

end
