(* ===== verification/Patch.thy ===== *)
theory Patch
  imports Cli
begin

text \<open>
  The \<open>icmg patch\<close> command, \<open>cli/commands/patch_cmd.cpp\<close>: parsing a unified diff into files and
  hunks, locating and applying a hunk, applying the diff of a file, and the whole command. The
  file system is a map from paths to contents; the reasons the operating system may refuse a
  write or a removal are arguments. The lemmas show that printed diffs are parsed back, what
  applying a hunk does in every case, that a file is written only when all its hunks apply and
  never in a dry run, and where the command does something else than it says.
\<close>

section \<open>The diff data model\<close>

record diff_line =
  kind :: char
  line_text :: string

record hunk =
  old_at :: int
  old_count :: int
  new_at :: int
  new_count :: int
  body :: "diff_line list"

definition empty_hunk :: hunk where
  "empty_hunk = \<lparr>old_at = 0, old_count = 0, new_at = 0, new_count = 0, body = []\<rparr>"

record file_diff =
  old_path :: string
  new_path :: string
  hunks :: "hunk list"

definition empty_file_diff :: file_diff where
  "empty_file_diff = \<lparr>old_path = [], new_path = [], hunks = []\<rparr>"

definition dev_null :: string where
  "dev_null = ''/dev/null''"

section \<open>Parsing\<close>

fun strip_components :: "nat \<Rightarrow> string \<Rightarrow> string" where
  "strip_components 0 s = s"
| "strip_components (Suc n) s =
     (case cut_at (CHR ''/'') s of None \<Rightarrow> s | Some (_, rest) \<Rightarrow> strip_components n rest)"

definition stripPrefix :: "string \<Rightarrow> int \<Rightarrow> string" where
  "stripPrefix raw n =
     (if raw = dev_null then raw
      else strip_components (nat n) (map (\<lambda>c. if c = bs then CHR ''/'' else c) raw))"

definition lineText :: "string \<Rightarrow> string" where
  "lineText raw = (if raw = [] then [] else tl raw)"

text \<open>
  \<open>stream >> i\<close> for an \<open>int\<close>: nothing is stored when only white space is left; otherwise the
  value stored (0 without digits, the nearest value when out of range), whether the extraction
  succeeded, and the rest of the stream.
\<close>

definition stream_int :: "string \<Rightarrow> (bool \<times> int \<times> string) option" where
  "stream_int s =
     (let t = dropWhile is_space s;
          neg = (t \<noteq> [] \<and> hd t = CHR ''-'');
          u = (if t \<noteq> [] \<and> (hd t = CHR ''-'' \<or> hd t = CHR ''+'') then tl t else t);
          ds = takeWhile is_digit u;
          v = (if neg then - int (num_of ds) else int (num_of ds));
          rest = dropWhile is_digit u
      in if t = [] then None
         else if ds = [] then Some (False, 0, rest)
         else if v < - (2 ^ 31) then Some (False, - (2 ^ 31), rest)
         else if 2 ^ 31 \<le> v then Some (False, 2 ^ 31 - 1, rest)
         else Some (True, v, rest))"

text \<open>\<open>A[,B]\<close>; \<open>B\<close> is 1 when it is missing.\<close>

definition parse_range :: "string \<Rightarrow> (int \<times> int) option" where
  "parse_range s =
     (case stream_int s of
        Some (True, v, rest) \<Rightarrow>
          Some (v, if rest \<noteq> [] \<and> hd rest = CHR '',''
                   then (case stream_int (tl rest) of None \<Rightarrow> 1 | Some (_, c, _) \<Rightarrow> c) else 1)
      | _ \<Rightarrow> None)"

definition parseHunkHeader :: "string \<Rightarrow> hunk option" where
  "parseHunkHeader line =
     (case find_sub ''@@'' line of
        None \<Rightarrow> None
      | Some p \<Rightarrow>
          (let q = (case find_from ''@@'' (p + 2) line of None \<Rightarrow> length line | Some q \<Rightarrow> q);
               inner = substr (p + 2) (q - (p + 2)) line
           in case cut_at (CHR ''-'') inner of
                None \<Rightarrow> None
              | Some (_, after_dash) \<Rightarrow>
                  (case parse_range after_dash of
                     None \<Rightarrow> None
                   | Some (os, oc) \<Rightarrow>
                       (case cut_at (CHR ''+'') inner of
                          None \<Rightarrow> None
                        | Some (_, after_plus) \<Rightarrow>
                            (case parse_range after_plus of
                               None \<Rightarrow> None
                             | Some (ns, nc) \<Rightarrow>
                                 Some \<lparr>old_at = os, old_count = oc, new_at = ns, new_count = nc, body = []\<rparr>)))))"

record parser =
  files :: "file_diff list"
  cur_file :: file_diff
  cur_hunk :: hunk
  in_hunk :: bool
  old_rem :: int
  new_rem :: int

definition flush_hunk :: "parser \<Rightarrow> parser" where
  "flush_hunk p =
     (if in_hunk p
      then p\<lparr>cur_file := (cur_file p)\<lparr>hunks := hunks (cur_file p) @ [cur_hunk p]\<rparr>,
             cur_hunk := empty_hunk, in_hunk := False\<rparr>
      else p)"

definition flush_file :: "parser \<Rightarrow> parser" where
  "flush_file p =
     (let p = flush_hunk p in
      if old_path (cur_file p) \<noteq> [] \<or> new_path (cur_file p) \<noteq> []
      then p\<lparr>files := files p @ [cur_file p], cur_file := empty_file_diff\<rparr> else p)"

definition path_token :: "string \<Rightarrow> string" where
  "path_token line = takeWhile (\<lambda>c. c \<noteq> tab) (drop 4 line)"

definition body_line :: "string \<Rightarrow> parser \<Rightarrow> parser" where
  "body_line line p =
     (let k = (if line = [] then CHR '' '' else hd line) in
      if k = CHR '' '' \<or> k = CHR ''-'' \<or> k = CHR ''+'' then
        (let p = p\<lparr>cur_hunk := (cur_hunk p)\<lparr>body := body (cur_hunk p) @ [\<lparr>kind = k, line_text = lineText line\<rparr>]\<rparr>,
                   old_rem := (if k = CHR ''+'' then old_rem p else old_rem p - 1),
                   new_rem := (if k = CHR ''-'' then new_rem p else new_rem p - 1)\<rparr>
         in if old_rem p \<le> 0 \<and> new_rem p \<le> 0 then flush_hunk p else p)
      else flush_hunk p)"

definition diff_step :: "int \<Rightarrow> parser \<Rightarrow> string \<Rightarrow> parser" where
  "diff_step strip p raw =
     (let line = chop_cr raw in
      if prefix ''--- '' line then
        (let p = flush_file p
         in p\<lparr>cur_file := (cur_file p)\<lparr>old_path := stripPrefix (path_token line) strip\<rparr>\<rparr>)
      else if prefix ''+++ '' line then
        p\<lparr>cur_file := (cur_file p)\<lparr>new_path := stripPrefix (path_token line) strip\<rparr>\<rparr>
      else if prefix ''@@'' line then
        (let p = flush_hunk p in
         case parseHunkHeader line of
           None \<Rightarrow> p
         | Some h \<Rightarrow> p\<lparr>cur_hunk := h, in_hunk := True, old_rem := old_count h, new_rem := new_count h\<rparr>)
      else if in_hunk p then body_line line p
      else p)"

definition parser0 :: parser where
  "parser0 = \<lparr>files = [], cur_file = empty_file_diff, cur_hunk = empty_hunk, in_hunk = False, old_rem = 0, new_rem = 0\<rparr>"

definition parseDiff :: "string \<Rightarrow> int \<Rightarrow> file_diff list" where
  "parseDiff diff_text strip = files (flush_file (foldl (diff_step strip) parser0 (getlines diff_text)))"

section \<open>Applying\<close>

definition old_side :: "hunk \<Rightarrow> string list" where
  "old_side h = map line_text (filter (\<lambda>d. kind d = CHR '' '' \<or> kind d = CHR ''-'') (body h))"

text \<open>The first position of the window at which the old side of the hunk occurs.\<close>

definition match_at :: "string list \<Rightarrow> hunk \<Rightarrow> nat option" where
  "match_at lines h =
     (let search_start = old_at h - 1; ctx = old_side h;
          lo = max 0 (search_start - 10);
          hi = min (int (length lines)) (search_start + 10 + 1)
      in List.find (\<lambda>s. s + length ctx \<le> length lines \<and> take (length ctx) (drop s lines) = ctx)
           [nat lo..<nat (hi + 1)])"

fun replacement :: "string list \<Rightarrow> diff_line list \<Rightarrow> nat \<Rightarrow> string list \<times> nat" where
  "replacement lines [] pos = ([], pos)"
| "replacement lines (d # ds) pos =
     (if kind d = CHR '' '' then
        (case replacement lines ds (pos + 1) of (r, e) \<Rightarrow> (lines ! pos # r, e))
      else if kind d = CHR ''-'' then replacement lines ds (pos + 1)
      else if kind d = CHR ''+'' then (case replacement lines ds pos of (r, e) \<Rightarrow> (line_text d # r, e))
      else replacement lines ds pos)"

definition applyHunk :: "string list \<Rightarrow> hunk \<Rightarrow> string + string list" where
  "applyHunk lines h =
     (case match_at lines h of
        None \<Rightarrow> Inl (''hunk @@ -'' @ int_str (old_at h) @ '','' @ int_str (old_count h) @ '' ++'' @ int_str (new_at h)
                     @ '','' @ int_str (new_count h) @ '' @@ context not found near line '' @ int_str (old_at h))
      | Some m \<Rightarrow> (case replacement lines (body h) m of (r, e) \<Rightarrow> Inr (take m lines @ r @ drop e lines)))"

fun applyHunks :: "string list \<Rightarrow> hunk list \<Rightarrow> string + string list" where
  "applyHunks lines [] = Inr lines"
| "applyHunks lines (h # hs) = (case applyHunk lines h of Inl e \<Rightarrow> Inl e | Inr lines' \<Rightarrow> applyHunks lines' hs)"

type_synonym fs = "string \<rightharpoonup> string"

text \<open>What the operating system may answer: the text of an error, and which calls it refuses.\<close>

record os_answers =
  errno_text :: "string \<Rightarrow> string"
  can_write :: "string \<Rightarrow> bool"
  remove_error :: "string \<Rightarrow> string option"

definition hunk_note :: "hunk \<Rightarrow> string" where
  "hunk_note h = ''  applying @@ -'' @ int_str (old_at h) @ '','' @ int_str (old_count h) @ '' +'' @ int_str (new_at h)
     @ '','' @ int_str (new_count h) @ '' @@'' @ [nl]"

text \<open>The hunks the loop reaches, for the notes it prints.\<close>

fun tried_hunks :: "string list \<Rightarrow> hunk list \<Rightarrow> hunk list" where
  "tried_hunks lines [] = []"
| "tried_hunks lines (h # hs) =
     h # (case applyHunk lines h of Inl _ \<Rightarrow> [] | Inr lines' \<Rightarrow> tried_hunks lines' hs)"

definition applyFileDiff :: "os_answers \<Rightarrow> bool \<Rightarrow> bool \<Rightarrow> fs \<Rightarrow> file_diff \<Rightarrow> outcome \<times> fs" where
  "applyFileDiff os dry verbose fs fd =
     (let is_delete = (new_path fd = dev_null); is_create = (old_path fd = dev_null);
          path = (if is_delete then old_path fd else new_path fd);
          fail = (\<lambda>code printed e. (\<lparr>exit_code = code, out = printed, err = ''icmg patch: '' @ e @ [nl]\<rparr>, fs)) in
      if \<not> is_create \<and> fs path = None then
        fail 3 [] (''cannot open '' @ [sq] @ path @ [sq] @ '': '' @ errno_text os path)
      else
        (let lines = (if is_create then [] else map chop_cr (getlines (the (fs path)))) in
         if is_delete then
           (let note = (if verbose \<or> dry then (if dry then ''[dry-run] '' else []) @ ''delete '' @ path @ [nl] else []) in
            if dry then (\<lparr>exit_code = 0, out = note, err = []\<rparr>, fs)
            else (case remove_error os path of
                    Some e \<Rightarrow> fail 3 note (''delete '' @ [sq] @ path @ [sq] @ '' failed: '' @ e)
                  | None \<Rightarrow> (\<lparr>exit_code = 0, out = note, err = []\<rparr>, fs(path := None))))
         else
           (let notes = (if verbose then concat (map hunk_note (tried_hunks lines (hunks fd))) else []) in
            case applyHunks lines (hunks fd) of
              Inl e \<Rightarrow> fail 2 notes (path @ '': '' @ e)
            | Inr lines' \<Rightarrow>
                if dry then
                  (\<lparr>exit_code = 0, out = notes @ ''[dry-run] would write '' @ path @ '' ('' @ nat_str (length lines')
                      @ '' lines)'' @ [nl], err = []\<rparr>, fs)
                else if \<not> can_write os path then
                  fail 3 notes (''cannot write '' @ [sq] @ path @ [sq] @ '': '' @ errno_text os path)
                else
                  (\<lparr>exit_code = 0, out = notes @ (if verbose then ''  wrote '' @ path @ [nl] else []), err = []\<rparr>,
                   fs(path := Some (unlines lines'))))))"

section \<open>The command\<close>

definition patch_usage :: string where
  "patch_usage =
     ''Usage:'' @ [nl] @
     ''  icmg patch <file> --diff <diff_text>   Apply inline diff to one file'' @ [nl] @
     ''  icmg patch --file <difffile>           Apply a .patch/.diff file'' @ [nl, nl] @
     ''Options:'' @ [nl] @
     ''  --diff <text>    Unified diff text (inline)'' @ [nl] @
     ''  --file <path>    Path to unified diff file'' @ [nl] @
     ''  --dry-run        Validate; print what would change; do not write'' @ [nl] @
     ''  --strip <N>      Strip N leading path components (default: 1, -p1)'' @ [nl] @
     ''  --verbose        Print each hunk as it is applied'' @ [nl, nl] @
     ''Exit codes:'' @ [nl] @
     ''  0  success'' @ [nl] @
     ''  1  argument error'' @ [nl] @
     ''  2  hunk mismatch'' @ [nl] @
     ''  3  I/O error'' @ [nl]"

definition target_arg :: "string list \<Rightarrow> string" where
  "target_arg args =
     (case List.find (\<lambda>a. a \<noteq> [] \<and> hd a \<noteq> CHR ''-'') args of None \<Rightarrow> [] | Some a \<Rightarrow> a)"

definition override_path :: "string \<Rightarrow> file_diff \<Rightarrow> file_diff" where
  "override_path target fd =
     (if target = [] then fd
      else fd\<lparr>new_path := (if new_path fd \<noteq> dev_null then target else new_path fd),
             old_path := (if old_path fd \<noteq> dev_null then target else old_path fd)\<rparr>)"

definition apply_step :: "os_answers \<Rightarrow> bool \<Rightarrow> bool \<Rightarrow> outcome \<times> fs \<Rightarrow> file_diff \<Rightarrow> outcome \<times> fs" where
  "apply_step os dry verbose s fd =
     (case s of (r, fs) \<Rightarrow>
       (let display = (if new_path fd \<noteq> dev_null then new_path fd else old_path fd);
            (r', fs') = applyFileDiff os dry verbose fs fd in
        (\<lparr>exit_code = (if exit_code r' \<noteq> 0 then exit_code r' else exit_code r),
          out = out r @ (if verbose then ''patching '' @ display @ [nl] else []) @ out r',
          err = err r @ err r'\<rparr>, fs')))"

definition patch_diffs :: "os_answers \<Rightarrow> string list \<Rightarrow> fs \<Rightarrow> string \<Rightarrow> outcome \<times> fs" where
  "patch_diffs os args fs diff_text =
     (let dry = hasFlag args ''--dry-run''; verbose = hasFlag args ''--verbose'';
          strip = (case stoi (flagValue args ''--strip'' ''1'') of Some n \<Rightarrow> n | None \<Rightarrow> 1);
          fds = parseDiff diff_text strip in
      if fds = [] then
        (\<lparr>exit_code = 1, out = [], err = ''icmg patch: no valid hunks found in diff.'' @ [nl]\<rparr>, fs)
      else
        (let (r, fs') = foldl (apply_step os dry verbose) (\<lparr>exit_code = 0, out = [], err = []\<rparr>, fs)
                          (map (override_path (target_arg args)) fds) in
         (if exit_code r = 0
          then r\<lparr>out := out r @ (if dry then ''icmg patch: dry-run complete, no files modified.''
                                 else ''icmg patch: applied successfully.'') @ [nl]\<rparr>
          else r, fs')))"

definition patch_run :: "os_answers \<Rightarrow> fs \<Rightarrow> string list \<Rightarrow> outcome \<times> fs" where
  "patch_run os fs args =
     (if args = [] \<or> hasFlag args ''--help'' \<or> hasFlag args ''-h'' then
        (\<lparr>exit_code = 0, out = patch_usage, err = []\<rparr>, fs)
      else
        (let diff_text = flagValue args ''--diff'' []; diff_file = flagValue args ''--file'' [];
             no_diff = (\<lparr>exit_code = 1, out = patch_usage,
               err = ''icmg patch: no diff provided. Use --diff <text> or --file <difffile>.'' @ [nl]\<rparr>, fs) in
         if diff_text \<noteq> [] then patch_diffs os args fs diff_text
         else if diff_file \<noteq> [] then
           (case fs diff_file of
              None \<Rightarrow> (\<lparr>exit_code = 3, out = [],
                 err = ''icmg patch: cannot open diff file '' @ [sq] @ diff_file @ [sq] @ '': '' @ errno_text os diff_file @ [nl]\<rparr>, fs)
            | Some t \<Rightarrow> if t = [] then no_diff else patch_diffs os args fs t)
         else no_diff))"

section \<open>What applying a hunk does\<close>

definition new_side :: "hunk \<Rightarrow> string list" where
  "new_side h = map line_text (filter (\<lambda>d. kind d = CHR '' '' \<or> kind d = CHR ''+'') (body h))"

lemma replacement_sides:
  "take (length (map line_text (filter (\<lambda>d. kind d = CHR '' '' \<or> kind d = CHR ''-'') ds))) (drop pos lines) =
     map line_text (filter (\<lambda>d. kind d = CHR '' '' \<or> kind d = CHR ''-'') ds) \<Longrightarrow>
   replacement lines ds pos =
     (map line_text (filter (\<lambda>d. kind d = CHR '' '' \<or> kind d = CHR ''+'') ds),
      pos + length (filter (\<lambda>d. kind d = CHR '' '' \<or> kind d = CHR ''-'') ds))"
proof (induction ds arbitrary: pos)
  case (Cons d ds)
  show ?case
  proof (cases "kind d = CHR '' '' \<or> kind d = CHR ''-''")
    case True
    let ?old = "map line_text (filter (\<lambda>d. kind d = CHR '' '' \<or> kind d = CHR ''-'') ds)"
    have "take (Suc (length ?old)) (drop pos lines) = line_text d # ?old" using Cons.prems True by simp
    moreover from this have "pos < length lines" by (cases "pos < length lines") auto
    ultimately have "lines ! pos = line_text d" "take (length ?old) (drop (pos + 1) lines) = ?old"
      by (simp_all add: Cons_nth_drop_Suc[symmetric])
    then show ?thesis using Cons.IH[of "pos + 1"] True by auto
  qed (use Cons in auto)
qed simp

definition occurs_at :: "string list \<Rightarrow> string list \<Rightarrow> nat \<Rightarrow> bool" where
  "occurs_at ctx lines s \<longleftrightarrow> s + length ctx \<le> length lines \<and> take (length ctx) (drop s lines) = ctx"

lemma occurs_at_split: "occurs_at ctx lines s \<longleftrightarrow> (\<exists>pre post. lines = pre @ ctx @ post \<and> length pre = s)"
proof
  assume "occurs_at ctx lines s"
  then have "lines = take s lines @ ctx @ drop (s + length ctx) lines" "length (take s lines) = s"
    unfolding occurs_at_def by (metis append_take_drop_id drop_drop add.commute, simp)
  then show "\<exists>pre post. lines = pre @ ctx @ post \<and> length pre = s" by blast
qed (auto simp: occurs_at_def)

text \<open>The window: ten lines before the place the header names to eleven lines after it.\<close>

definition near :: "hunk \<Rightarrow> nat \<Rightarrow> bool" where
  "near h s \<longleftrightarrow> old_at h - 11 \<le> int s \<and> int s \<le> old_at h + 10"

lemma find_upt: "List.find P [a..<b] = Some m \<longleftrightarrow> a \<le> m \<and> m < b \<and> P m \<and> (\<forall>k. a \<le> k \<and> k < m \<longrightarrow> \<not> P k)"
proof (induction "b - a" arbitrary: a)
  case (Suc n)
  then have ab: "a < b" "[a..<b] = a # [Suc a..<b]" by (simp_all add: upt_rec[of a b])
  show ?case
  proof (cases "P a")
    case True
    then have "(\<forall>k. a \<le> k \<and> k < m \<longrightarrow> \<not> P k) \<Longrightarrow> \<not> a < m" by blast
    then show ?thesis using True ab by auto
  next
    case False
    then have "(a \<le> m \<and> m < b \<and> P m \<and> (\<forall>k. a \<le> k \<and> k < m \<longrightarrow> \<not> P k)) \<longleftrightarrow>
        (Suc a \<le> m \<and> m < b \<and> P m \<and> (\<forall>k. Suc a \<le> k \<and> k < m \<longrightarrow> \<not> P k))"
      by (metis Suc_leD Suc_leI le_neq_implies_less)
    then show ?thesis using Suc.hyps(1)[of "Suc a"] Suc.hyps(2) False ab by simp
  qed
qed auto

lemma match_at_Some:
  "match_at lines h = Some m \<longleftrightarrow>
     near h m \<and> occurs_at (old_side h) lines m \<and> (\<forall>k<m. near h k \<longrightarrow> \<not> occurs_at (old_side h) lines k)"
proof -
  let ?P = "occurs_at (old_side h) lines"
  define lo where "lo = nat (max 0 (old_at h - 1 - 10))"
  define hi where "hi = nat (min (int (length lines)) (old_at h - 1 + 10 + 1) + 1)"
  have find: "match_at lines h = List.find ?P [lo..<hi]"
    by (simp add: match_at_def Let_def occurs_at_def[abs_def] lo_def hi_def)
  have len: "?P m \<Longrightarrow> m \<le> length lines" by (simp add: occurs_at_def)
  have range: "lo \<le> k \<and> k < hi \<longleftrightarrow> near h k" if "k \<le> length lines" for k
    using that by (auto simp: near_def lo_def hi_def)
  have below: "lo \<le> k \<longleftrightarrow> near h k" if "k < m" "m \<le> length lines" "m < hi" for k
    using range[of k] that by linarith
  show ?thesis unfolding find find_upt using range[of m] len below by blast
qed

lemma match_at_None: "match_at lines h = None \<longleftrightarrow> (\<forall>k. near h k \<longrightarrow> \<not> occurs_at (old_side h) lines k)"
proof
  assume "match_at lines h = None"
  then have none: "\<not> (near h m \<and> occurs_at (old_side h) lines m \<and> (\<forall>k<m. near h k \<longrightarrow> \<not> occurs_at (old_side h) lines k))" for m
    using match_at_Some[of lines h m] by simp
  show "\<forall>k. near h k \<longrightarrow> \<not> occurs_at (old_side h) lines k"
  proof (intro allI)
    fix k show "near h k \<longrightarrow> \<not> occurs_at (old_side h) lines k"
      by (induction k rule: less_induct) (use none in blast)
  qed
next
  assume "\<forall>k. near h k \<longrightarrow> \<not> occurs_at (old_side h) lines k"
  then show "match_at lines h = None" using match_at_Some[of lines h] by (cases "match_at lines h") auto
qed

lemma applyHunk_at:
  assumes "lines = pre @ old_side h @ post" "near h (length pre)"
    and "\<forall>k<length pre. near h k \<longrightarrow> \<not> occurs_at (old_side h) lines k"
  shows "applyHunk lines h = Inr (pre @ new_side h @ post)"
proof -
  have occ: "occurs_at (old_side h) lines (length pre)" using assms(1) by (auto simp: occurs_at_split)
  then have m: "match_at lines h = Some (length pre)" using assms by (simp add: match_at_Some)
  have "take (length (old_side h)) (drop (length pre) lines) = old_side h" using assms(1) by simp
  then have "replacement lines (body h) (length pre) = (new_side h, length pre + length (old_side h))"
    using replacement_sides[of "body h" "length pre" lines] by (simp add: old_side_def new_side_def)
  then show ?thesis using m assms(1) by (simp add: applyHunk_def)
qed

text \<open>
  Applying a hunk, in every case: on success the file's lines are split around an occurrence
  of the hunk's old side that starts between ten lines before and eleven lines after the place
  the header names, there is no earlier one in that window, and the occurrence is replaced by
  the hunk's new side; on failure there is no occurrence in the window at all.
\<close>

theorem applyHunk_spec:
  "case applyHunk lines h of
     Inr res \<Rightarrow> \<exists>pre post. lines = pre @ old_side h @ post \<and> res = pre @ new_side h @ post \<and> near h (length pre) \<and>
       (\<nexists>k. k < length pre \<and> near h k \<and> occurs_at (old_side h) lines k)
   | Inl _ \<Rightarrow> \<nexists>pre post. lines = pre @ old_side h @ post \<and> near h (length pre)"
proof (cases "match_at lines h")
  case None
  then obtain e where "applyHunk lines h = Inl e" by (simp add: applyHunk_def)
  moreover have "\<nexists>pre post. lines = pre @ old_side h @ post \<and> near h (length pre)"
    using None by (auto simp: match_at_None occurs_at_split)
  ultimately show ?thesis by simp
next
  case (Some m)
  then have m: "near h m" "occurs_at (old_side h) lines m" "\<forall>k<m. near h k \<longrightarrow> \<not> occurs_at (old_side h) lines k"
    by (simp_all add: match_at_Some)
  then obtain pre post where pp: "lines = pre @ old_side h @ post" "length pre = m" by (auto simp: occurs_at_split)
  then have "applyHunk lines h = Inr (pre @ new_side h @ post)" using m applyHunk_at by simp
  then show ?thesis using pp m by auto
qed

section \<open>Printed diffs\<close>

definition range_text :: "int \<Rightarrow> int \<Rightarrow> string" where
  "range_text a b = int_str a @ '','' @ int_str b"

definition header_text :: "hunk \<Rightarrow> string" where
  "header_text h = ''@@ -'' @ range_text (old_at h) (old_count h) @ '' +'' @ range_text (new_at h) (new_count h) @ '' @@''"

definition hunk_text :: "hunk \<Rightarrow> string list" where
  "hunk_text h = header_text h # map (\<lambda>d. kind d # line_text d) (body h)"

definition path_text :: "string \<Rightarrow> string \<Rightarrow> string" where
  "path_text side p = (if p = dev_null then p else side @ p)"

definition file_text :: "file_diff \<Rightarrow> string list" where
  "file_text fd =
     (''--- '' @ path_text ''a/'' (old_path fd)) # (''+++ '' @ path_text ''b/'' (new_path fd)) # concat (map hunk_text (hunks fd))"

definition int32 :: "int \<Rightarrow> bool" where
  "int32 i \<longleftrightarrow> - (2 ^ 31) \<le> i \<and> i < 2 ^ 31"

definition plain_line :: "string \<Rightarrow> bool" where
  "plain_line s \<longleftrightarrow> nl \<notin> set s \<and> (s = [] \<or> last s \<noteq> cr)"

definition wf_line :: "diff_line \<Rightarrow> bool" where
  "wf_line d \<longleftrightarrow> plain_line (line_text d) \<and>
     (kind d = CHR '' '' \<or> kind d = CHR ''-'' \<and> \<not> prefix ''-- '' (line_text d) \<or>
      kind d = CHR ''+'' \<and> \<not> prefix ''++ '' (line_text d))"

definition wf_hunk :: "hunk \<Rightarrow> bool" where
  "wf_hunk h \<longleftrightarrow> body h \<noteq> [] \<and> list_all wf_line (body h) \<and> 0 \<le> old_at h \<and> 0 \<le> new_at h \<and>
     old_count h = int (length (old_side h)) \<and> new_count h = int (length (new_side h)) \<and>
     int32 (old_at h) \<and> int32 (new_at h) \<and> int32 (old_count h) \<and> int32 (new_count h)"

definition wf_path :: "string \<Rightarrow> bool" where
  "wf_path p \<longleftrightarrow> p \<noteq> [] \<and> plain_line p \<and> tab \<notin> set p \<and> bs \<notin> set p"

definition wf_file :: "file_diff \<Rightarrow> bool" where
  "wf_file fd \<longleftrightarrow> wf_path (old_path fd) \<and> wf_path (new_path fd) \<and> list_all wf_hunk (hunks fd)"

lemma stream_int_int_str:
  assumes "int32 i" "rest = [] \<or> \<not> is_digit (hd rest)"
  shows "stream_int (int_str i @ rest) = Some (True, i, rest)"
proof -
  define ds where "ds = nat_str (nat \<bar>i\<bar>)"
  have ds: "takeWhile is_digit (ds @ rest) = ds" "dropWhile is_digit (ds @ rest) = rest" "ds \<noteq> []"
    using assms(2) nat_str_digits[of "nat \<bar>i\<bar>"] takeWhile_digits[of ds rest]
    by (auto simp: ds_def dropWhile_append3 dropWhile_append2) (cases rest; auto)
  have num: "num_of ds = nat \<bar>i\<bar>" by (simp add: ds_def)
  have hd: "is_digit (hd ds)" using nat_str_digits[of "nat \<bar>i\<bar>"] ds(3) by (metis ds_def hd_in_set)
  show ?thesis
  proof (cases "i < 0")
    case True
    have "\<not> is_space (CHR ''-'')" by (simp add: is_space_def ccode_def)
    moreover have "int_str i = CHR ''-'' # ds" using True by (simp add: int_str_def ds_def)
    ultimately show ?thesis using True ds num assms(1) by (simp add: stream_int_def int32_def Let_def)
  next
    case False
    have s: "int_str i = ds" using False by (simp add: int_str_def ds_def)
    have "dropWhile is_space (ds @ rest) = ds @ rest" "hd (ds @ rest) = hd ds"
      using digit_not_sign[OF hd] ds(3) by (cases ds; simp)+
    then show ?thesis
      using False s ds num assms(1) digit_not_sign[OF hd] by (simp add: stream_int_def int32_def Let_def)
  qed
qed

lemma parse_range_text:
  assumes "int32 a" "int32 b" "rest = [] \<or> \<not> is_digit (hd rest)"
  shows "parse_range (range_text a b @ rest) = Some (a, b)"
proof -
  have "\<not> is_digit (CHR '','')" by (simp add: is_digit_def ccode_def)
  then have "stream_int (int_str a @ CHR '','' # int_str b @ rest) = Some (True, a, CHR '','' # int_str b @ rest)"
    using stream_int_int_str[OF assms(1), of "CHR '','' # int_str b @ rest"] by simp
  then show ?thesis using stream_int_int_str[OF assms(2,3)] by (simp add: parse_range_def range_text_def)
qed

lemma find_sub_end: "hd pat \<notin> set x \<Longrightarrow> pat \<noteq> [] \<Longrightarrow> find_sub pat (x @ pat) = Some (length x)"
proof (induction x)
  case Nil
  then show ?case by (cases pat) auto
next
  case (Cons c x)
  then have "\<not> prefix pat (c # x @ pat)" by (cases pat) auto
  then show ?case using Cons by simp
qed

lemma range_text_chars: "c \<in> set (range_text a b) \<Longrightarrow> c = CHR ''-'' \<or> c = CHR '','' \<or> is_digit c"
  by (auto simp: range_text_def dest: int_str_chars)

lemma range_text_nonneg: "0 \<le> a \<Longrightarrow> 0 \<le> b \<Longrightarrow> CHR ''-'' \<notin> set (range_text a b) \<and> CHR ''+'' \<notin> set (range_text a b)"
  using nat_str_digits digit_not_sign by (fastforce simp: range_text_def int_str_def)

lemma parse_header_text:
  assumes "0 \<le> old_at h" "0 \<le> old_count h" "int32 (old_at h)" "int32 (old_count h)" "int32 (new_at h)" "int32 (new_count h)"
  shows "parseHunkHeader (header_text h) = Some (h\<lparr>body := []\<rparr>)"
proof -
  let ?r1 = "range_text (old_at h) (old_count h)" and ?r2 = "range_text (new_at h) (new_count h)"
  let ?inner = "'' -'' @ ?r1 @ '' +'' @ ?r2 @ '' ''"
  have hdr: "header_text h = ''@@'' @ ?inner @ ''@@''" by (simp add: header_text_def)
  have no_at: "CHR ''@'' \<notin> set ?inner"
    using range_text_chars[of "CHR ''@''"] by (auto simp: is_digit_def ccode_def)
  have cut: "substr 2 (2 + length x - 2) (''@@'' @ x @ y) = x" for x y by (simp add: substr_def)
  have p: "find_sub ''@@'' (header_text h) = Some 0" by (simp add: header_text_def)
  have q: "find_from ''@@'' 2 (header_text h) = Some (2 + length ?inner)"
    using find_sub_end[of "''@@''" ?inner] no_at by (simp add: find_from_def hdr)
  have inner: "substr 2 (2 + length ?inner - 2) (header_text h) = ?inner"
    unfolding hdr using cut[of ?inner "''@@''"] .
  have dash: "cut_at (CHR ''-'') ?inner = Some ('' '', ?r1 @ '' +'' @ ?r2 @ '' '')" by simp
  have plus: "cut_at (CHR ''+'') ?inner = Some ('' -'' @ ?r1 @ '' '', ?r2 @ '' '')"
    using cut_at_append[of "CHR ''+''" "'' -'' @ ?r1 @ '' ''" "?r2 @ '' ''"] range_text_nonneg[OF assms(1,2)] by simp
  have space: "\<not> is_digit (CHR '' '')" by (simp add: is_digit_def ccode_def)
  have r1: "parse_range (?r1 @ '' +'' @ ?r2 @ '' '') = Some (old_at h, old_count h)"
    using parse_range_text[OF assms(3,4), of "'' +'' @ ?r2 @ '' ''"] space by simp
  have r2: "parse_range (?r2 @ '' '') = Some (new_at h, new_count h)"
    using parse_range_text[OF assms(5,6), of "'' ''"] space by simp
  show ?thesis
    unfolding parseHunkHeader_def p option.case add_0 q Let_def inner dash plus prod.case r1 r2 by simp
qed

lemma chop_cr_plain: "plain_line l \<Longrightarrow> chop_cr l = l" "plain_line l \<Longrightarrow> k \<noteq> cr \<Longrightarrow> chop_cr (k # l) = k # l"
  by (auto simp: plain_line_def chop_cr_def)

lemma diff_step_body:
  assumes "wf_line d" "in_hunk p"
  shows "diff_step strip p (kind d # line_text d) = body_line (kind d # line_text d) p"
proof -
  have "kind d \<noteq> cr" "plain_line (line_text d)" using assms(1) by (auto simp: wf_line_def)
  then have c: "chop_cr (kind d # line_text d) = kind d # line_text d" by (rule chop_cr_plain(2)[rotated])
  have n: "\<not> prefix ''--- '' (kind d # line_text d)" "\<not> prefix ''+++ '' (kind d # line_text d)"
      "\<not> prefix ''@@'' (kind d # line_text d)"
    using assms(1) by (auto simp: wf_line_def)
  show ?thesis by (simp only: diff_step_def c Let_def n assms(2) if_True if_False)
qed

abbreviation old_lines :: "diff_line list \<Rightarrow> nat" where
  "old_lines ds \<equiv> length (filter (\<lambda>d. kind d = CHR '' '' \<or> kind d = CHR ''-'') ds)"

abbreviation new_lines :: "diff_line list \<Rightarrow> nat" where
  "new_lines ds \<equiv> length (filter (\<lambda>d. kind d = CHR '' '' \<or> kind d = CHR ''+'') ds)"

lemma body_lines:
  assumes "list_all wf_line ds" "ds \<noteq> []" "in_hunk p" "old_rem p = int (old_lines ds)" "new_rem p = int (new_lines ds)"
  shows "foldl (diff_step strip) p (map (\<lambda>d. kind d # line_text d) ds) =
    flush_hunk (p\<lparr>cur_hunk := (cur_hunk p)\<lparr>body := body (cur_hunk p) @ ds\<rparr>, old_rem := 0, new_rem := 0\<rparr>)"
  using assms
proof (induction ds arbitrary: p)
  case (Cons d ds)
  have d: "kind d = CHR '' '' \<or> kind d = CHR ''-'' \<or> kind d = CHR ''+''" and wf: "wf_line d"
    using Cons.prems(1) by (auto simp: wf_line_def)
  define q where "q = p\<lparr>cur_hunk := (cur_hunk p)\<lparr>body := body (cur_hunk p) @ [d]\<rparr>,
      old_rem := int (old_lines ds), new_rem := int (new_lines ds)\<rparr>"
  have step: "diff_step strip p (kind d # line_text d) = (if old_lines ds = 0 \<and> new_lines ds = 0 then flush_hunk q else q)"
    unfolding diff_step_body[OF wf Cons.prems(3)] q_def using Cons.prems(4,5) d
    by (cases d) (auto simp: body_line_def lineText_def Let_def)
  show ?case
  proof (cases "ds = []")
    case True
    then show ?thesis using step by (simp add: q_def)
  next
    case False
    then obtain e es where "ds = e # es" by (cases ds) auto
    then have "old_lines ds \<noteq> 0 \<or> new_lines ds \<noteq> 0" using Cons.prems(1) by (auto simp: wf_line_def)
    then show ?thesis
      using step Cons.IH[of q] False Cons.prems(1,3) by (auto simp: q_def)
  qed
qed simp

lemma diff_step_hunk:
  assumes "wf_hunk h"
  shows "foldl (diff_step strip) p (hunk_text h) =
    flush_hunk ((flush_hunk p)\<lparr>cur_hunk := h, in_hunk := True, old_rem := 0, new_rem := 0\<rparr>)"
proof -
  have hdr: "chop_cr (header_text h) = header_text h" by (simp add: chop_cr_def header_text_def)
  have parse: "parseHunkHeader (header_text h) = Some (h\<lparr>body := []\<rparr>)"
    using assms by (intro parse_header_text) (auto simp: wf_hunk_def)
  have "\<not> prefix ''--- '' (header_text h)" "\<not> prefix ''+++ '' (header_text h)" "prefix ''@@'' (header_text h)"
    by (simp_all add: header_text_def)
  then have step: "diff_step strip p (header_text h) = (flush_hunk p)\<lparr>cur_hunk := h\<lparr>body := []\<rparr>,
      in_hunk := True, old_rem := old_count h, new_rem := new_count h\<rparr>"
    by (simp add: diff_step_def hdr parse Let_def)
  show ?thesis
    using assms unfolding hunk_text_def foldl.simps step
    by (subst body_lines; cases "flush_hunk p") (auto simp: wf_hunk_def old_side_def new_side_def)
qed

lemma diff_step_hunks:
  assumes "list_all wf_hunk hs" "\<not> in_hunk p" "cur_hunk p = empty_hunk"
  shows "\<exists>o_r n_r. foldl (diff_step strip) p (concat (map hunk_text hs)) =
    p\<lparr>cur_file := (cur_file p)\<lparr>hunks := hunks (cur_file p) @ hs\<rparr>, old_rem := o_r, new_rem := n_r\<rparr>"
  using assms
proof (induction hs arbitrary: p)
  case Nil
  show ?case by (rule exI[of _ "old_rem p"], rule exI[of _ "new_rem p"]) simp
next
  case (Cons h hs)
  let ?q = "p\<lparr>cur_file := (cur_file p)\<lparr>hunks := hunks (cur_file p) @ [h]\<rparr>, old_rem := 0, new_rem := 0\<rparr>"
  have "foldl (diff_step strip) p (hunk_text h) = ?q"
    using Cons.prems by (simp add: diff_step_hunk flush_hunk_def)
  then show ?case using Cons.IH[of ?q] Cons.prems by simp
qed

lemma stripPrefix_path_text:
  assumes "wf_path p" "side = ''a/'' \<or> side = ''b/''"
  shows "stripPrefix (path_text side p) 1 = p"
proof (cases "p = dev_null")
  case False
  have "map (\<lambda>c. if c = bs then CHR ''/'' else c) p = p"
    using assms(1) by (intro map_idI) (auto simp: wf_path_def)
  then show ?thesis
    using False assms(2) by (auto simp: stripPrefix_def path_text_def dev_null_def eval_nat_numeral)
qed (simp add: path_text_def stripPrefix_def)

lemma plain_path_text: "wf_path p \<Longrightarrow> side = ''a/'' \<or> side = ''b/'' \<Longrightarrow> plain_line (path_text side p)"
  by (auto simp: path_text_def dev_null_def wf_path_def plain_line_def)

lemma path_token_text:
  assumes "wf_path p" "side = ''a/'' \<or> side = ''b/''" "length lead = 4"
  shows "path_token (lead @ path_text side p) = path_text side p"
proof -
  have "tab \<notin> set (path_text side p)" using assms by (auto simp: path_text_def dev_null_def wf_path_def)
  then show ?thesis using assms(3) by (auto simp: path_token_def takeWhile_eq_all_conv)
qed

definition closed_file :: "file_diff \<Rightarrow> file_diff list" where
  "closed_file fd = (if old_path fd \<noteq> [] \<or> new_path fd \<noteq> [] then [fd] else [])"

lemma diff_step_paths:
  assumes "wf_file fd" "\<not> in_hunk p"
  shows "diff_step 1 p (''--- '' @ path_text ''a/'' (old_path fd)) =
      (flush_file p)\<lparr>cur_file := (cur_file (flush_file p))\<lparr>old_path := old_path fd\<rparr>\<rparr>"
    and "diff_step 1 p (''+++ '' @ path_text ''b/'' (new_path fd)) =
      p\<lparr>cur_file := (cur_file p)\<lparr>new_path := new_path fd\<rparr>\<rparr>"
proof -
  have wf: "wf_path (old_path fd)" "wf_path (new_path fd)" using assms(1) by (simp_all add: wf_file_def)
  have chop: "chop_cr (k # l) = k # l" if "plain_line l" "l \<noteq> []" for k l
    using that by (simp add: plain_line_def chop_cr_def)
  have cr: "chop_cr (''--- '' @ path_text ''a/'' (old_path fd)) = ''--- '' @ path_text ''a/'' (old_path fd)"
      "chop_cr (''+++ '' @ path_text ''b/'' (new_path fd)) = ''+++ '' @ path_text ''b/'' (new_path fd)"
    using plain_path_text[OF wf(1), of "''a/''"] plain_path_text[OF wf(2), of "''b/''"]
    by (auto simp: chop_cr_def plain_line_def)
  have tok: "path_token (''--- '' @ path_text ''a/'' (old_path fd)) = path_text ''a/'' (old_path fd)"
      "path_token (''+++ '' @ path_text ''b/'' (new_path fd)) = path_text ''b/'' (new_path fd)"
    using path_token_text[OF wf(1), of "''a/''" "''--- ''"] path_token_text[OF wf(2), of "''b/''" "''+++ ''"] by simp_all
  have pre: "prefix ''--- '' (''--- '' @ s)" "\<not> prefix ''--- '' (''+++ '' @ s)" "prefix ''+++ '' (''+++ '' @ s)" for s
    by simp_all
  show "diff_step 1 p (''--- '' @ path_text ''a/'' (old_path fd)) =
      (flush_file p)\<lparr>cur_file := (cur_file (flush_file p))\<lparr>old_path := old_path fd\<rparr>\<rparr>"
    unfolding diff_step_def cr tok Let_def by (simp only: pre if_True stripPrefix_path_text[OF wf(1)] simp_thms)
  show "diff_step 1 p (''+++ '' @ path_text ''b/'' (new_path fd)) = p\<lparr>cur_file := (cur_file p)\<lparr>new_path := new_path fd\<rparr>\<rparr>"
    unfolding diff_step_def cr tok Let_def by (simp only: pre if_True if_False stripPrefix_path_text[OF wf(2)] simp_thms)
qed

lemma diff_step_file:
  assumes "wf_file fd" "\<not> in_hunk p" "cur_hunk p = empty_hunk" "closed_file (cur_file p) = [] \<longrightarrow> cur_file p = empty_file_diff"
  shows "\<exists>o_r n_r. foldl (diff_step 1) p (file_text fd) =
    \<lparr>files = files p @ closed_file (cur_file p), cur_file = fd, cur_hunk = empty_hunk, in_hunk = False,
     old_rem = o_r, new_rem = n_r\<rparr>"
proof -
  let ?q = "p\<lparr>files := files p @ closed_file (cur_file p),
      cur_file := \<lparr>old_path = old_path fd, new_path = new_path fd, hunks = []\<rparr>\<rparr>"
  have flush: "flush_file p = p\<lparr>files := files p @ closed_file (cur_file p), cur_file := empty_file_diff\<rparr>"
    using assms by (auto simp: flush_file_def flush_hunk_def closed_file_def split: if_splits)
  have two: "foldl (diff_step 1) p (file_text fd) = foldl (diff_step 1) ?q (concat (map hunk_text (hunks fd)))"
    using assms(2) diff_step_paths(1)[OF assms(1,2)]
      diff_step_paths(2)[OF assms(1), of "(flush_file p)\<lparr>cur_file := (cur_file (flush_file p))\<lparr>old_path := old_path fd\<rparr>\<rparr>"]
    by (simp add: file_text_def flush empty_file_diff_def)
  obtain o_r n_r where "foldl (diff_step 1) ?q (concat (map hunk_text (hunks fd))) =
      ?q\<lparr>cur_file := (cur_file ?q)\<lparr>hunks := hunks (cur_file ?q) @ hunks fd\<rparr>, old_rem := o_r, new_rem := n_r\<rparr>"
    using diff_step_hunks[of "hunks fd" ?q 1] assms by (auto simp: wf_file_def)
  then show ?thesis using two assms(2,3) by (cases p) auto
qed

lemma diff_step_files:
  assumes "list_all wf_file fds" "\<not> in_hunk p" "cur_hunk p = empty_hunk" "closed_file (cur_file p) = [] \<longrightarrow> cur_file p = empty_file_diff"
  shows "files (flush_file (foldl (diff_step 1) p (concat (map file_text fds)))) =
    files p @ closed_file (cur_file p) @ fds"
  using assms
proof (induction fds arbitrary: p)
  case Nil
  then show ?case by (auto simp: flush_file_def flush_hunk_def closed_file_def Let_def)
next
  case (Cons fd fds)
  then obtain o_r n_r where one: "foldl (diff_step 1) p (file_text fd) =
      \<lparr>files = files p @ closed_file (cur_file p), cur_file = fd, cur_hunk = empty_hunk, in_hunk = False,
       old_rem = o_r, new_rem = n_r\<rparr>" (is "_ = ?q")
    using diff_step_file[of fd p] by auto
  have "closed_file fd = [fd]" using Cons.prems(1) by (auto simp: closed_file_def wf_file_def wf_path_def)
  then show ?case using Cons.IH[of ?q] Cons.prems(1) one by simp
qed

lemma file_text_plain:
  assumes "wf_file fd" "l \<in> set (file_text fd)"
  shows "nl \<notin> set l"
proof -
  have hdr: "nl \<notin> set (header_text h)" for h
    using range_text_chars[of nl] by (auto simp: header_text_def is_digit_def ccode_def)
  have "nl \<notin> set l" if "h \<in> set (hunks fd)" "l \<in> set (hunk_text h)" for h
    using that assms(1) hdr[of h]
    by (fastforce simp: hunk_text_def wf_file_def wf_hunk_def wf_line_def plain_line_def list_all_iff)
  moreover have "nl \<notin> set (path_text ''a/'' (old_path fd))" "nl \<notin> set (path_text ''b/'' (new_path fd))"
    using assms(1) plain_path_text by (auto simp: wf_file_def plain_line_def)
  ultimately show ?thesis using assms(2) by (auto simp: file_text_def)
qed

definition diff_text_of :: "file_diff list \<Rightarrow> string" where
  "diff_text_of fds = unlines (concat (map file_text fds))"

lemma parseDiff_diff_text:
  assumes "list_all wf_file fds"
  shows "parseDiff (diff_text_of fds) 1 = fds"
proof -
  have "getlines (diff_text_of fds) = concat (map file_text fds)"
    unfolding diff_text_of_def using assms file_text_plain by (intro getlines_unlines) (auto simp: list_all_iff)
  then show ?thesis
    using diff_step_files[OF assms, of parser0]
    by (simp add: parseDiff_def parser0_def empty_file_diff_def closed_file_def)
qed

text \<open>
  Property C31. A multi-file patch printed in the unified format, paths under \<open>a/\<close> and \<open>b/\<close> and hunk headers
  with the counts of their lines, is parsed back into the same files, hunks and lines, when no
  removed line starts with two dashes and a blank and no added one with two pluses and a blank.
\<close>

theorem parseDiff_reads_printed:
  assumes "list_all wf_file fds"
  shows "parseDiff (diff_text_of fds) 1 = fds"
  by (rule parseDiff_diff_text[OF assms])

section \<open>The command on a printed patch\<close>

text \<open>
  An edit is a stretch of lines kept and the hunk after it. \<open>lands\<close> says that every hunk finds
  its place: the earlier hunks have not moved it out of the window, and its old side does not
  occur earlier in the window.
\<close>

definition old_text :: "(string list \<times> hunk) list \<Rightarrow> string list" where
  "old_text es = concat (map (\<lambda>(keep, h). keep @ old_side h) es)"

definition new_text :: "(string list \<times> hunk) list \<Rightarrow> string list" where
  "new_text es = concat (map (\<lambda>(keep, h). keep @ new_side h) es)"

fun lands :: "string list \<Rightarrow> (string list \<times> hunk) list \<Rightarrow> string list \<Rightarrow> bool" where
  "lands done_part [] tail = True"
| "lands done_part ((keep, h) # es) tail =
     (let pos = length (done_part @ keep); lines = done_part @ keep @ old_side h @ old_text es @ tail in
      near h pos \<and> list_all (\<lambda>k. \<not> (near h k \<and> occurs_at (old_side h) lines k)) [0..<pos] \<and>
      lands (done_part @ keep @ new_side h) es tail)"

lemma applyHunks_edits:
  "lands done_part es tail \<Longrightarrow>
   applyHunks (done_part @ old_text es @ tail) (map snd es) = Inr (done_part @ new_text es @ tail)"
proof (induction done_part es tail rule: lands.induct)
  case (2 done_part keep h es tail)
  have "applyHunk (done_part @ old_text ((keep, h) # es) @ tail) h =
      Inr ((done_part @ keep) @ new_side h @ (old_text es @ tail))"
    using 2(2) by (intro applyHunk_at) (auto simp: old_text_def list_all_iff Let_def)
  then show ?case using 2 by (simp add: new_text_def Let_def)
qed (simp add: old_text_def new_text_def)

lemma diff_text_of_start:
  assumes "fds \<noteq> []" obtains rest where "diff_text_of fds = ''--- '' @ rest"
  using assms by (cases fds) (auto simp: diff_text_of_def file_text_def)

lemma patch_run_text:
  assumes "prefix ''--- '' T" "parseDiff T 1 = fds" "fds \<noteq> []"
  shows "patch_run os fs [''--diff'', T] =
    (let (r, fs') = foldl (apply_step os False False) (\<lparr>exit_code = 0, out = [], err = []\<rparr>, fs) fds in
     (if exit_code r = 0 then r\<lparr>out := out r @ ''icmg patch: applied successfully.'' @ [nl]\<rparr> else r, fs'))"
proof -
  obtain rest where rest: "T = ''--- '' @ rest" using assms(1) by (auto simp: prefix_def)
  let ?args = "[''--diff'', T]"
  have flags: "\<not> hasFlag ?args ''--help''" "\<not> hasFlag ?args ''-h''" "\<not> hasFlag ?args ''--dry-run''" "\<not> hasFlag ?args ''--verbose''"
    by (simp_all add: hasFlag_def rest)
  have vals: "flagValue ?args ''--diff'' [] = T" "flagValue ?args ''--file'' [] = []"
      "flagValue ?args ''--strip'' ''1'' = ''1''" "target_arg ?args = []"
    by (simp_all add: rest target_arg_def)
  have strip: "stoi ''1'' = Some 1" by code_simp
  have ids: "map (override_path []) fds = fds" by (rule map_idI) (simp add: override_path_def)
  have ne: "T \<noteq> []" by (simp add: rest)
  show ?thesis
    using assms(3) ne unfolding patch_run_def patch_diffs_def vals Let_def strip option.case
    by (simp add: flags assms(2) ids)
qed

lemma patch_run_diff:
  assumes "list_all wf_file fds" "fds \<noteq> []"
  shows "patch_run os fs [''--diff'', diff_text_of fds] =
    (let (r, fs') = foldl (apply_step os False False) (\<lparr>exit_code = 0, out = [], err = []\<rparr>, fs) fds in
     (if exit_code r = 0 then r\<lparr>out := out r @ ''icmg patch: applied successfully.'' @ [nl]\<rparr> else r, fs'))"
proof (rule patch_run_text)
  show "prefix ''--- '' (diff_text_of fds)" by (rule diff_text_of_start[OF assms(2)]) (simp add: prefix_def)
qed (use assms parseDiff_diff_text in auto)

text \<open>
  Property C30. \<open>icmg patch --diff\<close> on a printed patch of a file turns its old text into its new text: when
  the file consists of the kept stretches and the old sides of the hunks, the file can be written
  and each hunk finds its place, the command succeeds, the file holds the kept stretches with
  the new sides, and no other file changes. A hunk finds its place if, with the hunks before it
  applied, its old side still begins in the window searched around the line its header states,
  and the same lines do not stand earlier in that window.
\<close>

theorem patch_run_applies:
  assumes "wf_file fd" and "old_path fd \<noteq> dev_null" and "new_path fd \<noteq> dev_null"
    and "fs (new_path fd) = Some (unlines (old_text es @ tail))" and "list_all plain_line (old_text es @ tail)"
    and "hunks fd = map snd es" and "lands [] es tail" and "can_write os (new_path fd)"
  shows "patch_run os fs [''--diff'', diff_text_of [fd]] =
    (\<lparr>exit_code = 0, out = ''icmg patch: applied successfully.'' @ [nl], err = []\<rparr>,
     fs(new_path fd := Some (unlines (new_text es @ tail))))"
proof -
  have "getlines (unlines (old_text es @ tail)) = old_text es @ tail"
    using assms(5) by (intro getlines_unlines) (auto simp: plain_line_def list_all_iff)
  moreover have "map chop_cr (old_text es @ tail) = old_text es @ tail"
    using assms(5) chop_cr_plain(1) by (intro map_idI) (simp add: list_all_iff)
  moreover have "applyHunks (old_text es @ tail) (map snd es) = Inr (new_text es @ tail)"
    using applyHunks_edits[OF assms(7)] by simp
  ultimately have "applyFileDiff os False False fs fd =
      (\<lparr>exit_code = 0, out = [], err = []\<rparr>, fs(new_path fd := Some (unlines (new_text es @ tail))))"
    using assms by (simp add: applyFileDiff_def Let_def)
  then show ?thesis
    using assms(1) by (simp add: patch_run_diff apply_step_def Let_def)
qed

section \<open>What the command leaves alone\<close>

lemma applyFileDiff_fs:
  "snd (applyFileDiff os dry verbose fs fd) = fs \<or>
   \<not> dry \<and> exit_code (fst (applyFileDiff os dry verbose fs fd)) = 0 \<and>
   (let path = (if new_path fd = dev_null then old_path fd else new_path fd) in
    snd (applyFileDiff os dry verbose fs fd) = fs(path := None) \<or>
    (\<exists>lines'. snd (applyFileDiff os dry verbose fs fd) = fs(path := Some (unlines lines')) \<and>
       applyHunks (if old_path fd = dev_null then [] else map chop_cr (getlines (the (fs path)))) (hunks fd) = Inr lines'))"
  by (auto simp: applyFileDiff_def Let_def split: option.splits sum.splits)

lemma applyFileDiff_dry: "snd (applyFileDiff os True verbose fs fd) = fs"
  using applyFileDiff_fs[of os True verbose fs fd] by simp

lemma foldl_fs_invariant:
  assumes "\<And>s fd. fd \<in> set fds \<Longrightarrow> P (snd s) \<Longrightarrow> P (snd (f s fd))"
  shows "P (snd s) \<Longrightarrow> P (snd (foldl f s fds))"
  using assms by (induction fds arbitrary: s) auto

lemma patch_diffs_invariant:
  assumes "P fs"
    and step: "\<And>fs fd. P fs \<Longrightarrow> fd \<in> override_path (target_arg args) ` set (parseDiff diff_text
        (case stoi (flagValue args ''--strip'' ''1'') of Some n \<Rightarrow> n | None \<Rightarrow> 1)) \<Longrightarrow>
      P (snd (applyFileDiff os (hasFlag args ''--dry-run'') (hasFlag args ''--verbose'') fs fd))"
  shows "P (snd (patch_diffs os args fs diff_text))"
proof -
  let ?fds = "map (override_path (target_arg args))
      (parseDiff diff_text (case stoi (flagValue args ''--strip'' ''1'') of Some n \<Rightarrow> n | None \<Rightarrow> 1))"
  let ?s = "(\<lparr>exit_code = 0, out = [], err = []\<rparr> :: outcome, fs)"
  have "P (snd (foldl (apply_step os (hasFlag args ''--dry-run'') (hasFlag args ''--verbose'')) ?s ?fds))"
  proof (rule foldl_fs_invariant[where P = P])
    fix s :: "outcome \<times> fs" and fd assume "fd \<in> set ?fds" "P (snd s)"
    then show "P (snd (apply_step os (hasFlag args ''--dry-run'') (hasFlag args ''--verbose'') s fd))"
      using step[of "snd s" fd] by (auto simp: apply_step_def Let_def split: prod.splits)
  qed (simp add: assms(1))
  then show ?thesis using assms(1) by (auto simp: patch_diffs_def Let_def split: prod.splits)
qed

lemma patch_run_cases:
  "snd (patch_run os fs args) = fs \<or> (\<exists>t. snd (patch_run os fs args) = snd (patch_diffs os args fs t))"
  by (auto simp: patch_run_def Let_def split: option.splits)

text \<open>
  A dry run changes no file, whatever the arguments and the patch.
\<close>

theorem patch_dry_run_safe:
  assumes "hasFlag args ''--dry-run''"
  shows "snd (patch_run os fs args) = fs"
proof -
  have "snd (patch_diffs os args fs t) = fs" for t
    by (rule patch_diffs_invariant[where P = "\<lambda>x. x = fs"]) (use assms in \<open>simp_all add: applyFileDiff_dry\<close>)
  then show ?thesis using patch_run_cases by metis
qed

section \<open>Where the command falls short\<close>

text \<open>
  \<open>icmg patch --file <difffile>\<close>, the form the usage gives for a patch file, never touches the
  files the patch names: the value of the flag is taken for the target file, so every hunk is
  applied to the patch file itself.
\<close>

theorem patch_file_form_misses_files:
  assumes "p \<noteq> []" and "hd p \<noteq> CHR ''-''" and "q \<noteq> p" and "q \<noteq> dev_null"
  shows "snd (patch_run os fs [''--file'', p]) q = fs q"
proof -
  have target: "target_arg [''--file'', p] = p" using assms(1,2) by (simp add: target_arg_def)
  have "snd (patch_diffs os [''--file'', p] fs t) q = fs q" for t
  proof (rule patch_diffs_invariant[where P = "\<lambda>x. x q = fs q"])
    fix fs' fd
    assume "fs' q = fs q" and fd: "fd \<in> override_path (target_arg [''--file'', p]) ` set (parseDiff t
        (case stoi (flagValue [''--file'', p] ''--strip'' ''1'') of Some n \<Rightarrow> n | None \<Rightarrow> 1))"
    moreover have "(if new_path fd = dev_null then old_path fd else new_path fd) \<noteq> q"
      using fd assms unfolding target by (auto simp: override_path_def split: if_splits)
    ultimately show "snd (applyFileDiff os (hasFlag [''--file'', p] ''--dry-run'') (hasFlag [''--file'', p] ''--verbose'') fs' fd) q = fs q"
      using applyFileDiff_fs[of os "hasFlag [''--file'', p] ''--dry-run''" "hasFlag [''--file'', p] ''--verbose''" fs' fd]
      by (auto simp: Let_def)
  qed simp
  then show ?thesis using patch_run_cases by metis
qed

definition no_newline_mark :: string where
  "no_newline_mark = bs # '' No newline at end of file''"

definition one_line_patch :: "string \<Rightarrow> string \<Rightarrow> string \<Rightarrow> string" where
  "one_line_patch f a b = unlines [''--- a/'' @ f, ''+++ b/'' @ f, ''@@ -1 +1 @@'', CHR ''-'' # a, no_newline_mark,
     CHR ''+'' # b, no_newline_mark]"

lemma parse_one_line_patch:
  assumes "wf_path f" "f \<noteq> dev_null" "plain_line a" "\<not> prefix ''-- '' a" "plain_line b" "\<not> prefix ''++ '' b"
  shows "parseDiff (one_line_patch f a b) 1 = [\<lparr>old_path = f, new_path = f, hunks =
    [\<lparr>old_at = 1, old_count = 1, new_at = 1, new_count = 1, body = [\<lparr>kind = CHR ''-'', line_text = a\<rparr>]\<rparr>]\<rparr>]"
proof -
  let ?fd = "\<lparr>old_path = f, new_path = f, hunks = []\<rparr> :: file_diff"
  have fd: "wf_file ?fd" using assms(1) by (simp add: wf_file_def)
  have paths: "path_text ''a/'' f = ''a/'' @ f" "path_text ''b/'' f = ''b/'' @ f" using assms(2) by (simp_all add: path_text_def)
  have lines: "getlines (one_line_patch f a b) = [''--- a/'' @ f, ''+++ b/'' @ f, ''@@ -1 +1 @@'', CHR ''-'' # a, no_newline_mark,
      CHR ''+'' # b, no_newline_mark]"
    unfolding one_line_patch_def using assms(1,3,5)
    by (intro getlines_unlines) (auto simp: wf_path_def plain_line_def no_newline_mark_def)
  have one: "diff_step 1 parser0 (''--- a/'' @ f) = parser0\<lparr>cur_file := \<lparr>old_path = f, new_path = [], hunks = []\<rparr>\<rparr>"
    using diff_step_paths(1)[OF fd, of parser0]
    by (simp add: paths parser0_def flush_file_def flush_hunk_def empty_file_diff_def Let_def)
  have two: "diff_step 1 (parser0\<lparr>cur_file := \<lparr>old_path = f, new_path = [], hunks = []\<rparr>\<rparr>) (''+++ b/'' @ f) = parser0\<lparr>cur_file := ?fd\<rparr>"
    using diff_step_paths(2)[OF fd, of "parser0\<lparr>cur_file := \<lparr>old_path = f, new_path = [], hunks = []\<rparr>\<rparr>"]
    by (simp add: paths parser0_def)
  have hdr: "parseHunkHeader ''@@ -1 +1 @@'' = Some \<lparr>old_at = 1, old_count = 1, new_at = 1, new_count = 1, body = []\<rparr>"
    by code_simp
  have three: "diff_step 1 (parser0\<lparr>cur_file := ?fd\<rparr>) ''@@ -1 +1 @@'' = parser0\<lparr>cur_file := ?fd,
      cur_hunk := \<lparr>old_at = 1, old_count = 1, new_at = 1, new_count = 1, body = []\<rparr>, in_hunk := True, old_rem := 1, new_rem := 1\<rparr>"
    by (simp add: diff_step_def chop_cr_def hdr flush_hunk_def parser0_def)
  have mark: "diff_step 1 p no_newline_mark = flush_hunk p" for p
    by (simp add: diff_step_def no_newline_mark_def chop_cr_def body_line_def flush_hunk_def Let_def)
  have ignored: "diff_step 1 p (CHR ''+'' # b) = p" if "\<not> in_hunk p" for p
    using that assms(5,6) chop_cr_plain(2)[of b "CHR ''+''"] by (simp add: diff_step_def Let_def)
  have removed: "diff_step 1 p (CHR ''-'' # a) = body_line (CHR ''-'' # a) p" if "in_hunk p" for p
    using diff_step_body[of "\<lparr>kind = CHR ''-'', line_text = a\<rparr>" p 1] that assms(3,4) by (simp add: wf_line_def)
  show ?thesis
    using assms(1) unfolding parseDiff_def lines foldl.simps one two three
    by (simp add: removed body_line_def lineText_def parser0_def mark flush_hunk_def ignored flush_file_def
        empty_file_diff_def wf_path_def Let_def)
qed

text \<open>
  A patch that changes the only line of a file without a final newline, in the form diff -u
  prints it, empties the file and reports success: the line that says there is no newline ends
  the hunk, so the removal is applied and the addition after it is ignored.
\<close>

theorem no_newline_patch_empties_file:
  assumes "wf_path f" and "f \<noteq> dev_null" and "plain_line a" and "a \<noteq> []" and "\<not> prefix ''-- '' a"
    and "plain_line b" and "\<not> prefix ''++ '' b" and "fs f = Some a" and "can_write os f"
  shows "patch_run os fs [''--diff'', one_line_patch f a b] =
    (\<lparr>exit_code = 0, out = ''icmg patch: applied successfully.'' @ [nl], err = []\<rparr>, fs(f := Some []))"
proof -
  have "getlines a = [a]" using assms(3,4) by (intro getlines_on_last) (auto simp: plain_line_def)
  moreover have "applyHunk [a] \<lparr>old_at = 1, old_count = 1, new_at = 1, new_count = 1, body = [\<lparr>kind = CHR ''-'', line_text = a\<rparr>]\<rparr> = Inr []"
    using applyHunk_at[of "[a]" "[]" "\<lparr>old_at = 1, old_count = 1, new_at = 1, new_count = 1, body = [\<lparr>kind = CHR ''-'', line_text = a\<rparr>]\<rparr>" "[]"]
    by (simp add: old_side_def new_side_def near_def)
  moreover have "prefix ''--- '' (one_line_patch f a b)" by (simp add: one_line_patch_def)
  ultimately show ?thesis
    using assms chop_cr_plain(1)[of a] parse_one_line_patch[of f a b]
    by (simp add: patch_run_text apply_step_def applyFileDiff_def Let_def)
qed

text \<open>
  A hunk is sought where its header says, not where the hunks before it have moved it: when
  the first hunk adds twelve lines or more and the old side of the second occurs only in its
  place, the second is not found, the command fails and the file stays as it was.
\<close>

theorem long_insertion_loses_next_hunk:
  assumes "wf_file fd" and "old_path fd \<noteq> dev_null" and "new_path fd \<noteq> dev_null"
    and "hunks fd = [h1, h2]" and "old_at h1 = int (length k1) + 1"
    and "old_at h2 = int (length (k1 @ old_side h1 @ k2)) + 1"
    and "length (old_side h1) + 12 \<le> length (new_side h1)"
    and "fs (new_path fd) = Some (unlines (k1 @ old_side h1 @ k2 @ old_side h2 @ tail))"
    and "list_all plain_line (k1 @ old_side h1 @ k2 @ old_side h2 @ tail)"
    and "\<not> list_ex (occurs_at (old_side h1) (k1 @ old_side h1 @ k2 @ old_side h2 @ tail)) [0..<length k1]"
    and "\<not> list_ex (occurs_at (old_side h2) (k1 @ new_side h1 @ k2 @ old_side h2 @ tail)) [0..<length (k1 @ new_side h1 @ k2)]"
  shows "exit_code (fst (patch_run os fs [''--diff'', diff_text_of [fd]])) = 2 \<and>
    snd (patch_run os fs [''--diff'', diff_text_of [fd]]) = fs"
proof -
  let ?base = "k1 @ old_side h1 @ k2 @ old_side h2 @ tail" and ?mid = "k1 @ new_side h1 @ k2 @ old_side h2 @ tail"
  have lines: "map chop_cr (getlines (unlines ?base)) = ?base"
    using assms(9) chop_cr_plain(1)
    by (subst getlines_unlines) (auto simp: plain_line_def list_all_iff intro!: map_idI simp del: map_append)
  have one: "applyHunk ?base h1 = Inr ?mid"
    using assms(5,10) applyHunk_at[of ?base k1 h1 "k2 @ old_side h2 @ tail"] by (auto simp: near_def list_ex_iff)
  have "\<not> (near h2 k \<and> occurs_at (old_side h2) ?mid k)" for k
  proof (cases "k < length (k1 @ new_side h1 @ k2)")
    case True
    then show ?thesis using assms(11) by (auto simp: list_ex_iff)
  next
    case False
    then show ?thesis using assms(6,7) by (simp add: near_def)
  qed
  then have "match_at ?mid h2 = None" by (simp add: match_at_None)
  then have "applyHunks ?base [h1, h2] = Inl (projl (applyHunk ?mid h2))" using one by (simp add: applyHunk_def)
  then show ?thesis
    using assms lines by (simp add: patch_run_diff apply_step_def applyFileDiff_def Let_def)
qed

section \<open>Concrete runs\<close>

definition willing_os :: os_answers where
  "willing_os = \<lparr>errno_text = (\<lambda>_. []), can_write = (\<lambda>_. True), remove_error = (\<lambda>_. None)\<rparr>"

definition mk_lines :: "string list \<Rightarrow> diff_line list" where
  "mk_lines ls = map (\<lambda>l. \<lparr>kind = hd l, line_text = tl l\<rparr>) ls"

definition example_hunk :: hunk where
  "example_hunk = \<lparr>old_at = 2, old_count = 2, new_at = 2, new_count = 3, body = mk_lines ['' b'', ''-c'', ''+C'', ''+D'']\<rparr>"

definition example_fd :: file_diff where
  "example_fd = \<lparr>old_path = ''src/x.c'', new_path = ''src/x.c'', hunks = [example_hunk]\<rparr>"

lemma example_wf: "wf_file example_fd"
  by code_simp

theorem parseDiff_reads_printed_witness:
  "parseDiff (diff_text_of [example_fd, example_fd\<lparr>old_path := dev_null\<rparr>]) 1 = [example_fd, example_fd\<lparr>old_path := dev_null\<rparr>]"
proof -
  have "list_all wf_file [example_fd, example_fd\<lparr>old_path := dev_null\<rparr>]" by code_simp
  then show ?thesis by (rule parseDiff_reads_printed)
qed

theorem patch_run_applies_witness:
  "patch_run willing_os [''src/x.c'' \<mapsto> unlines [''a'', ''b'', ''c'', ''e'']] [''--diff'', diff_text_of [example_fd]] =
    (\<lparr>exit_code = 0, out = ''icmg patch: applied successfully.'' @ [nl], err = []\<rparr>,
     [''src/x.c'' \<mapsto> unlines [''a'', ''b'', ''C'', ''D'', ''e'']])"
proof -
  let ?es = "[([''a''], example_hunk)]"
  have old: "old_text ?es @ [''e''] = [''a'', ''b'', ''c'', ''e'']" by code_simp
  have new: "new_text ?es @ [''e''] = [''a'', ''b'', ''C'', ''D'', ''e'']" by code_simp
  have "list_all plain_line (old_text ?es @ [''e''])" "lands [] ?es [''e'']" by code_simp+
  moreover have "old_path example_fd \<noteq> dev_null" "new_path example_fd \<noteq> dev_null" by code_simp+
  moreover have "new_path example_fd = ''src/x.c''" "hunks example_fd = map snd ?es" by (simp_all add: example_fd_def)
  ultimately show ?thesis
    using patch_run_applies[OF example_wf, of "[''src/x.c'' \<mapsto> unlines [''a'', ''b'', ''c'', ''e'']]" ?es "[''e'']" willing_os]
    by (simp add: old new willing_os_def)
qed

theorem patch_dry_run_safe_witness:
  "snd (patch_run willing_os [''src/x.c'' \<mapsto> unlines [''a'', ''b'', ''c'']] [''--dry-run'', ''--diff'', diff_text_of [example_fd]])
    = [''src/x.c'' \<mapsto> unlines [''a'', ''b'', ''c'']]"
  by (rule patch_dry_run_safe) (simp add: hasFlag_def)

theorem patch_file_form_misses_files_witness:
  "snd (patch_run willing_os [''src/x.c'' \<mapsto> unlines [''a'', ''b'', ''c''], ''p.diff'' \<mapsto> diff_text_of [example_fd]] [''--file'', ''p.diff''])
     ''src/x.c'' = Some (unlines [''a'', ''b'', ''c''])"
  using patch_file_form_misses_files[of "''p.diff''" "''src/x.c''" willing_os
      "[''src/x.c'' \<mapsto> unlines [''a'', ''b'', ''c''], ''p.diff'' \<mapsto> diff_text_of [example_fd]]"]
  by (simp add: dev_null_def)

theorem no_newline_patch_empties_file_witness:
  "patch_run willing_os [''VERSION'' \<mapsto> ''1.2''] [''--diff'', one_line_patch ''VERSION'' ''1.2'' ''1.3''] =
    (\<lparr>exit_code = 0, out = ''icmg patch: applied successfully.'' @ [nl], err = []\<rparr>, [''VERSION'' \<mapsto> []])"
proof -
  have "wf_path ''VERSION''" "plain_line ''1.2''" "plain_line ''1.3''" by code_simp+
  then show ?thesis
    using no_newline_patch_empties_file[of "''VERSION''" "''1.2''" "''1.3''" "[''VERSION'' \<mapsto> ''1.2'']" willing_os]
    by (simp add: dev_null_def willing_os_def)
qed

definition long_hunk :: hunk where
  "long_hunk = \<lparr>old_at = 1, old_count = 1, new_at = 1, new_count = 13,
     body = mk_lines ('' a'' # replicate 12 ''+x'')\<rparr>"

definition next_hunk :: hunk where
  "next_hunk = \<lparr>old_at = 2, old_count = 1, new_at = 14, new_count = 1, body = mk_lines [''-b'', ''+B'']\<rparr>"

definition long_fd :: file_diff where
  "long_fd = \<lparr>old_path = ''x.c'', new_path = ''x.c'', hunks = [long_hunk, next_hunk]\<rparr>"

theorem long_insertion_loses_next_hunk_witness:
  "exit_code (fst (patch_run willing_os [''x.c'' \<mapsto> unlines [''a'', ''b'']] [''--diff'', diff_text_of [long_fd]])) = 2"
proof -
  have sides: "old_side long_hunk = [''a'']" "new_side long_hunk = ''a'' # replicate 12 ''x''" "old_side next_hunk = [''b'']"
    by code_simp+
  have wf: "wf_file long_fd" "old_path long_fd \<noteq> dev_null" "new_path long_fd \<noteq> dev_null" by code_simp+
  have pl: "list_all plain_line [''a'', ''b'']" by code_simp
  have once: "\<not> list_ex (occurs_at [''b''] (''a'' # replicate 12 ''x'' @ [''b''])) [0..<13]" by code_simp
  have fd: "hunks long_fd = [long_hunk, next_hunk]" "new_path long_fd = ''x.c''" "old_at long_hunk = 1" "old_at next_hunk = 2"
    by (simp_all add: long_fd_def long_hunk_def next_hunk_def)
  show ?thesis
    using long_insertion_loses_next_hunk[OF wf fd(1), of "[]" "[]" "[''x.c'' \<mapsto> unlines [''a'', ''b'']]" "[]" willing_os] once pl
    by (simp add: sides fd)
qed

end
