(* ===== verification/RateLimit.thy ===== *)
theory RateLimit
  imports CxxString "HOL-Library.Multiset" Complex_Main
begin

text \<open>
  Limits on the tools of the MCP server: the token buckets of \<open>core/rate_limiter.hpp\<close> and the
  schema budget of \<open>mcp/tool_budget.hpp\<close>. Doubles are exact rationals; the clock and the
  environment are arguments. The lemmas bound the calls let through in any stretch of time, show
  that a caller that waits is let through whatever other callers do, and that the budget report
  is a sorted permutation of the tools with totals that add up.
\<close>

section \<open>Token buckets\<close>

record bucket =
  tokens_left :: rat
  last_time :: rat
  started :: bool

record limiter =
  cap :: rat
  refill :: rat
  buckets :: "string \<Rightarrow> bucket"

definition fresh_bucket :: bucket where
  "fresh_bucket = \<lparr>tokens_left = 0, last_time = 0, started = False\<rparr>"

definition new_limiter :: "rat \<Rightarrow> rat \<Rightarrow> limiter" where
  "new_limiter c r = \<lparr>cap = c, refill = r, buckets = (\<lambda>_. fresh_bucket)\<rparr>"

text \<open>The first use of a bucket fills it; the time that passed adds tokens up to the capacity.\<close>

definition start_bucket :: "limiter \<Rightarrow> rat \<Rightarrow> bucket \<Rightarrow> bucket" where
  "start_bucket l now b = (if \<not> started b then \<lparr>tokens_left = cap l, last_time = now, started = True\<rparr> else b)"

definition refill_bucket :: "limiter \<Rightarrow> rat \<Rightarrow> bucket \<Rightarrow> bucket" where
  "refill_bucket l now b =
     (let elapsed = now - last_time b in
      if 0 < elapsed
      then (let t = tokens_left b + elapsed * refill l
            in b\<lparr>tokens_left := (if cap l < t then cap l else t), last_time := now\<rparr>)
      else b)"

definition tryAcquire :: "limiter \<Rightarrow> string \<Rightarrow> rat \<Rightarrow> bool \<times> limiter" where
  "tryAcquire l key now =
     (let b = refill_bucket l now (start_bucket l now (buckets l key)) in
      if 1 \<le> tokens_left b
      then (True, l\<lparr>buckets := (buckets l)(key := b\<lparr>tokens_left := tokens_left b - 1\<rparr>)\<rparr>)
      else (False, l\<lparr>buckets := (buckets l)(key := b)\<rparr>))"

text \<open>
  \<open>mcpRateOk\<close>: the environment variable, if set and not empty, is read by \<open>stod\<close>, an argument
  that gives \<open>None\<close> where the code catches its exception. The limiter is created at the first
  call and kept.
\<close>

definition per_minute :: "(string \<Rightarrow> rat option) \<Rightarrow> string option \<Rightarrow> rat" where
  "per_minute stod env =
     (case env of None \<Rightarrow> 240 | Some e \<Rightarrow> if e = [] then 240 else (case stod e of Some v \<Rightarrow> v | None \<Rightarrow> 240))"

definition mcpRateOk :: "rat \<Rightarrow> limiter option \<Rightarrow> string \<Rightarrow> rat \<Rightarrow> bool \<times> limiter option" where
  "mcpRateOk per_min st tool now =
     (if per_min \<le> 0 then (True, st)
      else (let l = (case st of None \<Rightarrow> new_limiter per_min (per_min / 60) | Some l \<Rightarrow> l);
                (ok, l') = tryAcquire l tool now
            in (ok, Some l')))"

text \<open>A sequence of requests, each with its tool and its time.\<close>

fun serve :: "limiter \<Rightarrow> (string \<times> rat) list \<Rightarrow> bool list \<times> limiter" where
  "serve l [] = ([], l)"
| "serve l ((k, t) # rs) =
     (let (ok, l1) = tryAcquire l k t; (oks, l2) = serve l1 rs in (ok # oks, l2))"

definition granted :: "string \<Rightarrow> (string \<times> rat) list \<Rightarrow> bool list \<Rightarrow> nat" where
  "granted k rs oks = length (filter (\<lambda>(r, ok). fst r = k \<and> ok) (zip rs oks))"

section \<open>The bound\<close>

definition limiter_ok :: "limiter \<Rightarrow> bool" where
  "limiter_ok l \<longleftrightarrow> 0 \<le> cap l \<and> 0 \<le> refill l \<and> (\<forall>k. tokens_left (buckets l k) \<le> cap l)"

lemma tryAcquire_params [simp]:
  "cap (snd (tryAcquire l k t)) = cap l" "refill (snd (tryAcquire l k t)) = refill l"
  by (simp_all add: tryAcquire_def Let_def)

lemma tryAcquire_other [simp]: "j \<noteq> k \<Longrightarrow> buckets (snd (tryAcquire l k t)) j = buckets l j"
  by (simp add: tryAcquire_def Let_def)

lemma tryAcquire_ok: "limiter_ok l \<Longrightarrow> limiter_ok (snd (tryAcquire l k t))"
proof -
  assume ok: "limiter_ok l"
  let ?b = "refill_bucket l t (start_bucket l t (buckets l k))"
  have "tokens_left ?b \<le> cap l"
    using ok by (auto simp: limiter_ok_def refill_bucket_def start_bucket_def Let_def)
  then have "tokens_left ?b - 1 \<le> cap l" by simp
  with \<open>tokens_left ?b \<le> cap l\<close> ok show ?thesis by (simp add: limiter_ok_def tryAcquire_def Let_def)
qed

lemma serve_params: "cap (snd (serve l rs)) = cap l \<and> refill (snd (serve l rs)) = refill l"
proof (induction rs arbitrary: l)
  case (Cons r rs)
  then show ?case by (cases r) (simp add: Let_def split_def)
qed simp

lemma serve_ok: "limiter_ok l \<Longrightarrow> limiter_ok (snd (serve l rs))"
proof (induction rs arbitrary: l)
  case (Cons r rs)
  then show ?case using tryAcquire_ok by (cases r) (simp add: Let_def split_def)
qed simp

lemma serve_append:
  "serve l (rs @ rs') = (fst (serve l rs) @ fst (serve (snd (serve l rs)) rs'), snd (serve (snd (serve l rs)) rs'))"
proof (induction rs arbitrary: l)
  case (Cons r rs)
  then show ?case by (cases r) (simp add: Let_def split_def)
qed simp

lemma length_serve [simp]: "length (fst (serve l rs)) = length rs"
proof (induction rs arbitrary: l)
  case (Cons r rs)
  then show ?case by (cases r) (simp add: Let_def split_def)
qed simp

text \<open>
  The tokens a bucket would hold at a time if nothing took from it: the potential that pays for
  the calls let through.
\<close>

definition level :: "limiter \<Rightarrow> string \<Rightarrow> rat \<Rightarrow> rat" where
  "level l k t = (let b = refill_bucket l t (start_bucket l t (buckets l k)) in tokens_left b)"

lemma level_cap: "limiter_ok l \<Longrightarrow> level l k t \<le> cap l"
  by (auto simp: level_def limiter_ok_def refill_bucket_def start_bucket_def Let_def)

text \<open>The clock has not run backwards for this bucket.\<close>

definition behind :: "limiter \<Rightarrow> string \<Rightarrow> rat \<Rightarrow> bool" where
  "behind l k t \<longleftrightarrow> (started (buckets l k) \<longrightarrow> last_time (buckets l k) \<le> t)"

lemma behind_mono: "behind l k t \<Longrightarrow> t \<le> t' \<Longrightarrow> behind l k t'"
  by (auto simp: behind_def)

lemma tryAcquire_same:
  assumes "behind l k t" and "tryAcquire l k t = (ok, l')"
  shows "started (buckets l' k)" "last_time (buckets l' k) = t" "ok \<longleftrightarrow> 1 \<le> level l k t"
    "tokens_left (buckets l' k) = level l k t - (if ok then 1 else 0)"
  using assms
  by (auto simp: tryAcquire_def level_def refill_bucket_def start_bucket_def behind_def Let_def split: if_splits)

lemma level_now: "started (buckets l k) \<Longrightarrow> last_time (buckets l k) = t \<Longrightarrow> level l k t = tokens_left (buckets l k)"
  by (simp add: level_def refill_bucket_def start_bucket_def)

lemma level_other: "j \<noteq> k \<Longrightarrow> level (snd (tryAcquire l j t)) k t' = level l k t'"
  by (simp add: level_def refill_bucket_def start_bucket_def Let_def)

lemma level_advance:
  assumes "limiter_ok l" "behind l k t" "t \<le> t'"
  shows "level l k t' \<le> level l k t + (t' - t) * refill l"
proof (cases "started (buckets l k)")
  case False
  then show ?thesis using assms by (simp add: level_def refill_bucket_def start_bucket_def limiter_ok_def)
next
  case True
  let ?b = "buckets l k"
  have r: "0 \<le> refill l" "tokens_left ?b \<le> cap l" and last: "last_time ?b \<le> t"
    using assms True by (auto simp: limiter_ok_def behind_def)
  have lev: "level l k s = min (cap l) (tokens_left ?b + (s - last_time ?b) * refill l)" if "last_time ?b \<le> s" for s
    using True r that by (auto simp: level_def refill_bucket_def start_bucket_def Let_def min_def)
  have "(t' - last_time ?b) * refill l = (t - last_time ?b) * refill l + (t' - t) * refill l" by (simp add: algebra_simps)
  moreover have "0 \<le> (t' - t) * refill l" using assms(3) r(1) by simp
  ultimately show ?thesis unfolding lev[OF last] lev[OF order_trans[OF last assms(3)]] by linarith
qed

lemma granted_Cons: "granted k ((j, t) # rs) (ok # oks) = (if j = k \<and> ok then 1 else 0) + granted k rs oks"
  by (simp add: granted_def)

lemma granted_le_level:
  "\<lbrakk>limiter_ok l; behind l k t0; sorted (map snd rs); \<forall>r \<in> set rs. t0 \<le> snd r \<and> snd r \<le> T; t0 \<le> T\<rbrakk> \<Longrightarrow>
   rat_of_nat (granted k rs (fst (serve l rs))) \<le> level l k t0 + (T - t0) * refill l
     \<or> granted k rs (fst (serve l rs)) = 0"
proof (induction rs arbitrary: l t0)
  case Nil
  then show ?case by (simp add: granted_def)
next
  case (Cons r rs)
  obtain j t where r: "r = (j, t)" by force
  obtain ok l1 where one: "tryAcquire l j t = (ok, l1)" by force
  have l1: "limiter_ok l1" "refill l1 = refill l" using tryAcquire_ok[OF Cons.prems(1), of j t] tryAcquire_params[of l j t] one by simp_all
  have count: "granted k (r # rs) (fst (serve l (r # rs))) = (if j = k \<and> ok then 1 else 0) + granted k rs (fst (serve l1 rs))"
    by (simp add: r one split_def Let_def granted_Cons)
  show ?case
  proof (cases "j = k")
    case False
    then have "behind l1 k t0" "level l1 k t0 = level l k t0"
      using Cons.prems(2) one tryAcquire_other[of k j l t] level_other[of j k l t t0] by (auto simp: behind_def)
    then show ?thesis using Cons.IH[OF l1(1), of t0] Cons.prems False l1(2) unfolding count by simp
  next
    case True
    have t: "t0 \<le> t" "t \<le> T" using Cons.prems(4) r by auto
    have bt: "behind l k t" by (rule behind_mono[OF Cons.prems(2) t(1)])
    note same = tryAcquire_same[OF bt one[unfolded True]]
    have lev: "level l1 k t = level l k t - (if ok then 1 else 0)" using same level_now by simp
    have "behind l1 k t" using same by (simp add: behind_def)
    moreover have "\<forall>r \<in> set rs. t \<le> snd r \<and> snd r \<le> T" using Cons.prems(3,4) r by auto
    ultimately have IH: "rat_of_nat (granted k rs (fst (serve l1 rs))) \<le> level l1 k t + (T - t) * refill l
        \<or> granted k rs (fst (serve l1 rs)) = 0"
      using Cons.IH[OF l1(1), of t] Cons.prems(3) t r l1(2) by simp
    have adv: "level l k t \<le> level l k t0 + (t - t0) * refill l" by (rule level_advance[OF Cons.prems(1,2) t(1)])
    have nonneg: "0 \<le> (T - t) * refill l" using t(2) Cons.prems(1) by (simp add: limiter_ok_def)
    have eq: "(T - t0) * refill l = (T - t) * refill l + (t - t0) * refill l" by (simp add: algebra_simps)
    show ?thesis
    proof (cases ok)
      case True
      then have "1 \<le> level l k t" using same(3) by simp
      then show ?thesis using IH adv nonneg eq lev True \<open>j = k\<close> unfolding count by auto
    next
      case False
      then show ?thesis using IH adv nonneg eq lev False unfolding count by auto
    qed
  qed
qed

lemma serve_behind:
  "\<forall>k. behind l k t \<Longrightarrow> sorted (map snd rs) \<Longrightarrow> \<forall>r \<in> set rs. t \<le> snd r \<and> snd r \<le> t' \<Longrightarrow> t \<le> t' \<Longrightarrow> behind (snd (serve l rs)) k t'"
proof (induction rs arbitrary: l t)
  case Nil
  then show ?case by (auto intro: behind_mono)
next
  case (Cons r rs)
  obtain j s where r: "r = (j, s)" by force
  have s: "t \<le> s" "s \<le> t'" using Cons.prems(3) r by auto
  have "behind (snd (tryAcquire l j s)) k s" for k
  proof (cases "j = k")
    case True
    have "behind l k s" using Cons.prems(1) s(1) behind_mono by blast
    then show ?thesis using tryAcquire_same[of l k s] True by (cases "tryAcquire l k s") (auto simp: behind_def)
  next
    case False
    then show ?thesis using Cons.prems(1) s(1) tryAcquire_other[of k j l s] by (auto simp: behind_def)
  qed
  then have "behind (snd (serve (snd (tryAcquire l j s)) rs)) k t'"
    using Cons.IH[of "snd (tryAcquire l j s)" s] Cons.prems r s by auto
  then show ?case by (simp add: r split_def Let_def)
qed

lemma sorted_ends: "sorted (map snd ws) \<Longrightarrow> x \<in> set ws \<Longrightarrow> snd (hd ws) \<le> snd x \<and> snd x \<le> snd (last ws)"
proof (induction ws)
  case (Cons w ws)
  then show ?case by (cases "ws = []") auto
qed simp

lemma new_limiter_ok: "0 \<le> c \<Longrightarrow> 0 \<le> r \<Longrightarrow> limiter_ok (new_limiter c r)"
  by (simp add: limiter_ok_def new_limiter_def fresh_bucket_def)

lemma new_limiter_behind: "behind (new_limiter c r) k t"
  by (simp add: behind_def new_limiter_def fresh_bucket_def)

text \<open>
  Property C22. In any stretch of a run of the limiter, however many calls came before it and whatever other
  tools are called, at most the burst capacity plus the refill rate times the length of the
  stretch calls of one tool are let through.
\<close>

theorem calls_bounded:
  assumes "0 \<le> c" and "0 \<le> r" and "sorted (map snd (before @ win))" and "win \<noteq> []"
  shows "rat_of_nat (granted k win (drop (length before) (fst (serve (new_limiter c r) (before @ win)))))
    \<le> c + r * (snd (last win) - snd (hd win))"
proof -
  let ?l = "snd (serve (new_limiter c r) before)" and ?t0 = "snd (hd win)" and ?T = "snd (last win)"
  have ok: "limiter_ok ?l" "cap ?l = c" "refill ?l = r"
    using serve_ok[OF new_limiter_ok[OF assms(1,2)]] serve_params[of "new_limiter c r" before] by (auto simp: new_limiter_def)
  have win: "\<forall>x \<in> set win. ?t0 \<le> snd x \<and> snd x \<le> ?T" "sorted (map snd win)" "?t0 \<le> ?T"
  proof -
    show s: "sorted (map snd win)" using assms(3) by (simp add: sorted_append)
    show "\<forall>x \<in> set win. ?t0 \<le> snd x \<and> snd x \<le> ?T" using sorted_ends[OF s] by blast
    then show "?t0 \<le> ?T" using assms(4) by (meson hd_in_set order_trans)
  qed
  have "behind ?l k ?t0"
  proof (cases "before = []")
    case False
    have "\<forall>x \<in> set before. snd (hd before) \<le> snd x \<and> snd x \<le> ?t0" "sorted (map snd before)"
      using assms(3,4) False by (cases before; cases win; auto simp: sorted_append)+
    then show ?thesis using serve_behind[of "new_limiter c r" "snd (hd before)" before ?t0 k] new_limiter_behind False
      by (meson hd_in_set order_trans)
  qed (simp add: new_limiter_behind)
  from granted_le_level[OF ok(1) this win(2,1,3)] level_cap[OF ok(1), of k ?t0] ok(2,3)
  have "rat_of_nat (granted k win (fst (serve ?l win))) \<le> c + (?T - ?t0) * r \<or> granted k win (fst (serve ?l win)) = 0"
    by auto
  moreover have "0 \<le> c + (?T - ?t0) * r" using assms(1,2) win(3) by simp
  ultimately show ?thesis by (auto simp: serve_append mult.commute)
qed

theorem calls_bounded_witness:
  "rat_of_nat (granted ''t'' [(''t'', 1), (''t'', 1), (''u'', 2), (''t'', 2)]
      (drop (length [(''t'', 0 :: rat)]) (fst (serve (new_limiter 2 1) ([(''t'', 0)] @ [(''t'', 1), (''t'', 1), (''u'', 2), (''t'', 2)])))))
    \<le> 2 + 1 * (snd (last [(''t'', 1), (''t'', 1), (''u'', 2), (''t'', 2 :: rat)]) - snd (hd [(''t'', 1), (''t'', 1), (''u'', 2), (''t'', 2)]))"
  by (rule calls_bounded) simp_all

section \<open>Waiting callers are served\<close>

lemma serve_bucket:
  "\<lbrakk>0 \<le> cap l; 0 \<le> refill l; \<forall>k. started (buckets l k) \<longrightarrow> 0 \<le> tokens_left (buckets l k)\<rbrakk> \<Longrightarrow>
   started (buckets (snd (serve l rs)) k) \<longrightarrow> 0 \<le> tokens_left (buckets (snd (serve l rs)) k) \<and>
     (last_time (buckets (snd (serve l rs)) k) \<in> {s. (k, s) \<in> set rs} \<or>
      started (buckets l k) \<and> last_time (buckets (snd (serve l rs)) k) = last_time (buckets l k))"
proof (induction rs arbitrary: l)
  case (Cons r rs)
  obtain j t where r: "r = (j, t)" by force
  let ?l1 = "snd (tryAcquire l j t)"
  have b: "started (buckets ?l1 k') \<longrightarrow> 0 \<le> tokens_left (buckets ?l1 k') \<and>
      (k' = j \<and> last_time (buckets ?l1 k') = t \<or> started (buckets l k') \<and> last_time (buckets ?l1 k') = last_time (buckets l k'))" for k'
    using Cons.prems by (auto simp: tryAcquire_def refill_bucket_def start_bucket_def Let_def)
  then have "started (buckets (snd (serve ?l1 rs)) k) \<longrightarrow> 0 \<le> tokens_left (buckets (snd (serve ?l1 rs)) k) \<and>
     (last_time (buckets (snd (serve ?l1 rs)) k) \<in> {s. (k, s) \<in> set rs} \<or>
      started (buckets ?l1 k) \<and> last_time (buckets (snd (serve ?l1 rs)) k) = last_time (buckets ?l1 k))"
    using Cons.prems by (intro Cons.IH) auto
  then show ?case using b[of k] by (auto simp: r split_def Let_def)
qed simp

text \<open>
  Property C23. A caller that waits is served: when the capacity is at least one call, a call of a tool is
  let through if the time one token takes has passed since the last call of that tool, whatever
  happened before and whatever calls of other tools come in between.
\<close>

theorem patient_caller_served:
  assumes "1 \<le> c" and "0 < r" and "list_all (\<lambda>(j, s). j = k \<longrightarrow> s + 1 / r \<le> t) before"
  shows "last (fst (serve (new_limiter c r) (before @ [(k, t)])))"
proof -
  let ?l = "snd (serve (new_limiter c r) before)" let ?b = "buckets ?l k"
  have params: "cap ?l = c" "refill ?l = r" using serve_params[of "new_limiter c r" before] by (simp_all add: new_limiter_def)
  have b: "started ?b \<longrightarrow> 0 \<le> tokens_left ?b \<and> (k, last_time ?b) \<in> set before"
    using serve_bucket[of "new_limiter c r" before k] assms(1,2) by (auto simp: new_limiter_def fresh_bucket_def)
  have "1 \<le> level ?l k t"
  proof (cases "started ?b")
    case True
    then have b': "0 \<le> tokens_left ?b" "last_time ?b + 1 / r \<le> t" using b assms(3) by (auto simp: list_all_iff)
    then have "1 / r * r \<le> (t - last_time ?b) * r" using assms(2) by (intro mult_right_mono) auto
    then have "1 \<le> (t - last_time ?b) * r" using assms(2) by simp
    moreover have "0 < 1 / r" using assms(2) by simp
    then have "0 < t - last_time ?b" using b'(2) by linarith
    ultimately show ?thesis using True b'(1) assms(1) params
      by (simp add: level_def refill_bucket_def start_bucket_def Let_def)
  qed (use assms(1) params in \<open>simp add: level_def refill_bucket_def start_bucket_def\<close>)
  then have "fst (tryAcquire ?l k t)" by (simp add: tryAcquire_def level_def Let_def)
  then show ?thesis by (simp add: serve_append split_def Let_def)
qed

theorem patient_caller_served_witness:
  "last (fst (serve (new_limiter 1 (1 / 2)) ([(''t'', 0), (''u'', 1), (''u'', 2)] @ [(''t'', 2)])))"
  by (rule patient_caller_served) simp_all

text \<open>With a positive limit below one call the bucket can never hold a whole token: nothing is let through.\<close>

lemma limit_below_one_denies_all:
  assumes "0 < c" and "c < 1" and "0 \<le> r"
  shows "list_all Not (fst (serve (new_limiter c r) rs))"
proof -
  have "list_all Not (fst (serve l rs))" if "limiter_ok l" "cap l < 1" for l
    using that
  proof (induction rs arbitrary: l)
    case (Cons q rs)
    obtain k t where q: "q = (k, t)" by force
    have "level l k t < 1" using level_cap[OF Cons.prems(1), of k t] Cons.prems(2) by simp
    then have "\<not> fst (tryAcquire l k t)" by (simp add: tryAcquire_def level_def Let_def)
    moreover have "list_all Not (fst (serve (snd (tryAcquire l k t)) rs))"
      using Cons.prems tryAcquire_ok by (intro Cons.IH) simp_all
    ultimately show ?case by (simp add: q split_def Let_def)
  qed simp
  from this[OF new_limiter_ok] assms show ?thesis by (simp add: new_limiter_def)
qed

section \<open>The schema budget\<close>

record tool_schema =
  schema_tool :: string
  schema_description :: string
  schema_json :: string

record budget_row =
  row_name :: string
  desc_chars :: int
  schema_chars :: int
  total_chars :: int
  row_tokens :: int
  verbose :: bool

record budget_report =
  tool_count :: int
  rep_chars :: int
  rep_tokens :: int
  avg_tokens :: rat
  report_rows :: "budget_row list"

definition budgetTokens :: "int \<Rightarrow> int" where
  "budgetTokens chars = chars div 4"

definition budget_row :: "tool_schema \<Rightarrow> budget_row" where
  "budget_row t =
     (let d = int (length (schema_description t)); s = int (length (schema_json t)); n = int (length (schema_tool t)) + d + s
      in \<lparr>row_name = schema_tool t, desc_chars = d, schema_chars = s, total_chars = n, row_tokens = budgetTokens n, verbose = False\<rparr>)"

definition str_less :: "string \<Rightarrow> string \<Rightarrow> bool" where
  "str_less a b \<longleftrightarrow> ord_class.lexordp (map (of_char :: char \<Rightarrow> nat) a) (map of_char b)"

definition row_before :: "budget_row \<Rightarrow> budget_row \<Rightarrow> bool" where
  "row_before a b = (if row_tokens a \<noteq> row_tokens b then row_tokens b < row_tokens a else str_less (row_name a) (row_name b))"

text \<open>
  \<open>std::sort\<close> may order rows that compare equal either way; such rows have the same name and
  the same tokens, and the model keeps them in the order given.
\<close>

fun row_insert :: "budget_row \<Rightarrow> budget_row list \<Rightarrow> budget_row list" where
  "row_insert x [] = [x]"
| "row_insert x (y # ys) = (if row_before y x then y # row_insert x ys else x # y # ys)"

definition row_sort :: "budget_row list \<Rightarrow> budget_row list" where
  "row_sort xs = foldr row_insert xs []"

definition analyzeToolBudget :: "tool_schema list \<Rightarrow> rat \<Rightarrow> budget_report" where
  "analyzeToolBudget ts factor =
     (if ts = [] then \<lparr>tool_count = 0, rep_chars = 0, rep_tokens = 0, avg_tokens = 0, report_rows = []\<rparr>
      else (let rs = map budget_row ts;
                chars = sum_list (map total_chars rs);
                toks = budgetTokens chars;
                avg = rat_of_int toks / rat_of_nat (length ts);
                threshold = avg * factor
            in \<lparr>tool_count = int (length ts), rep_chars = chars, rep_tokens = toks, avg_tokens = avg,
                report_rows = row_sort (map (\<lambda>r. r\<lparr>verbose := threshold < rat_of_int (row_tokens r)\<rparr>) rs)\<rparr>))"

lemma str_less_irrefl: "\<not> str_less a a"
  by (simp add: str_less_def lexordp_irreflexive')

lemma str_less_trans: "str_less a b \<Longrightarrow> str_less b c \<Longrightarrow> str_less a c"
  unfolding str_less_def by (rule lexordp_trans)

lemma str_less_linear: "str_less a b \<or> a = b \<or> str_less b a"
  unfolding str_less_def using lexordp_linear[of "map of_char a" "map of_char b"]
  by (auto simp: inj_map_eq_map inj_on_def)

lemma row_before_asym: "row_before a b \<Longrightarrow> \<not> row_before b a"
  using str_less_irrefl str_less_trans by (auto simp: row_before_def split: if_splits)

lemma row_before_not_trans: "\<lbrakk>\<not> row_before b a; \<not> row_before c b\<rbrakk> \<Longrightarrow> \<not> row_before c a"
proof -
  assume ab: "\<not> row_before b a" "\<not> row_before c b"
  then have t: "row_tokens b \<le> row_tokens a" "row_tokens c \<le> row_tokens b" by (auto simp: row_before_def split: if_splits)
  show "\<not> row_before c a"
  proof
    assume ca: "row_before c a"
    with t have eq: "row_tokens a = row_tokens b" "row_tokens b = row_tokens c" by (auto simp: row_before_def split: if_splits)
    with ab ca have "\<not> str_less (row_name b) (row_name a)" "\<not> str_less (row_name c) (row_name b)" "str_less (row_name c) (row_name a)"
      by (auto simp: row_before_def)
    then show False using str_less_linear str_less_trans by metis
  qed
qed

definition ordered :: "budget_row list \<Rightarrow> bool" where
  "ordered rs = sorted_wrt (\<lambda>a b. \<not> row_before b a) rs"

lemma mset_row_insert [simp]: "mset (row_insert x ys) = add_mset x (mset ys)"
  by (induction ys) auto

lemma set_row_insert [simp]: "set (row_insert x ys) = insert x (set ys)"
  by (metis mset_row_insert set_mset_mset set_mset_add_mset_insert)

lemma ordered_row_insert: "ordered ys \<Longrightarrow> ordered (row_insert x ys)"
proof (induction ys)
  case (Cons y ys)
  show ?case
  proof (cases "row_before y x")
    case True
    then show ?thesis using Cons row_before_asym by (auto simp: ordered_def)
  next
    case False
    then show ?thesis using Cons.prems row_before_not_trans unfolding ordered_def by auto
  qed
qed (simp add: ordered_def)

lemma mset_row_sort [simp]: "mset (row_sort xs) = mset xs"
  unfolding row_sort_def by (induction xs) auto

lemma ordered_row_sort: "ordered (row_sort xs)"
  unfolding row_sort_def by (induction xs) (auto simp: ordered_row_insert ordered_def[of "[]"])

lemma div_sum_bounds:
  "(\<Sum>x \<leftarrow> xs. f x div 4) \<le> (\<Sum>x \<leftarrow> xs. f x) div (4 :: int)"
  "4 * ((\<Sum>x \<leftarrow> xs. f x) div 4) \<le> 4 * (\<Sum>x \<leftarrow> xs. f x div 4) + 3 * int (length xs)"
proof -
  have "4 * (\<Sum>x \<leftarrow> xs. f x div 4) \<le> (\<Sum>x \<leftarrow> xs. f x)" "(\<Sum>x \<leftarrow> xs. f x) \<le> 4 * (\<Sum>x \<leftarrow> xs. f x div 4) + 3 * int (length xs)"
    by (induction xs) auto
  then show "(\<Sum>x \<leftarrow> xs. f x div 4) \<le> (\<Sum>x \<leftarrow> xs. f x) div 4"
    "4 * ((\<Sum>x \<leftarrow> xs. f x) div 4) \<le> 4 * (\<Sum>x \<leftarrow> xs. f x div 4) + 3 * int (length xs)"
    by linarith+
qed

text \<open>
  The budget report is a permutation of the tools' rows, with no later row costing more (ties
  by name), a row is flagged exactly if its tokens exceed the threshold, the total is the sum of
  the rows' characters, and the total in tokens exceeds the sum of the rows' tokens by less
  than one token a tool.
\<close>

lemma budget_report_sound:
  assumes "ts \<noteq> []"
  shows "mset (report_rows (analyzeToolBudget ts factor)) = image_mset
        (\<lambda>t. (budget_row t)\<lparr>verbose := avg_tokens (analyzeToolBudget ts factor) * factor < rat_of_int (row_tokens (budget_row t))\<rparr>) (mset ts) \<and>
    sorted_wrt (\<lambda>a b. \<not> row_before b a) (report_rows (analyzeToolBudget ts factor)) \<and>
    rep_chars (analyzeToolBudget ts factor) = (\<Sum>r \<leftarrow> report_rows (analyzeToolBudget ts factor). total_chars r) \<and>
    (\<Sum>r \<leftarrow> report_rows (analyzeToolBudget ts factor). row_tokens r) \<le> rep_tokens (analyzeToolBudget ts factor) \<and>
    rep_tokens (analyzeToolBudget ts factor)
        < (\<Sum>r \<leftarrow> report_rows (analyzeToolBudget ts factor). row_tokens r) + int (length (report_rows (analyzeToolBudget ts factor)))"
proof (intro conjI)
  let ?rep = "analyzeToolBudget ts factor" and ?row = "\<lambda>t. (budget_row t)\<lparr>verbose := avg_tokens (analyzeToolBudget ts factor) * factor < rat_of_int (row_tokens (budget_row t))\<rparr>"
  have report_rows: "report_rows ?rep = row_sort (map ?row ts)"
    using assms by (simp add: analyzeToolBudget_def Let_def o_def)
  show "mset (report_rows ?rep) = image_mset ?row (mset ts)" unfolding report_rows by simp
  then have m: "mset (report_rows ?rep) = mset (map ?row ts)" by simp
  show "sorted_wrt (\<lambda>a b. \<not> row_before b a) (report_rows ?rep)"
    using ordered_row_sort[of "map ?row ts"] unfolding report_rows ordered_def .
  have sums: "(\<Sum>r \<leftarrow> report_rows ?rep. g r) = (\<Sum>t \<leftarrow> ts. g (?row t))" for g :: "budget_row \<Rightarrow> int"
    using m by (metis (no_types, lifting) map_map mset_map o_def sum_mset_sum_list map_eq_conv)
  have chars: "rep_chars ?rep = (\<Sum>t \<leftarrow> ts. total_chars (budget_row t))"
    and toks: "rep_tokens ?rep = (\<Sum>t \<leftarrow> ts. total_chars (budget_row t)) div 4"
    using assms by (simp_all add: analyzeToolBudget_def Let_def o_def budgetTokens_def)
  show "rep_chars ?rep = (\<Sum>r \<leftarrow> report_rows ?rep. total_chars r)" unfolding sums chars by simp
  have t: "row_tokens (budget_row x) = total_chars (budget_row x) div 4" for x
    by (simp add: budget_row_def Let_def budgetTokens_def)
  show "(\<Sum>r \<leftarrow> report_rows ?rep. row_tokens r) \<le> rep_tokens ?rep"
    unfolding sums toks using div_sum_bounds(1)[of "\<lambda>x. total_chars (budget_row x)" ts] by (simp add: t)
  have "length (report_rows ?rep) = length ts" using arg_cong[OF m, of size] by (simp only: size_mset length_map)
  then show "rep_tokens ?rep < (\<Sum>r \<leftarrow> report_rows ?rep. row_tokens r) + int (length (report_rows ?rep))"
    unfolding sums toks using div_sum_bounds(2)[of "\<lambda>x. total_chars (budget_row x)" ts] assms by (cases ts) (simp_all add: t)
qed

end
