(* ===== verification/McpCall.thy ===== *)
theory McpCall
  imports RateLimit TtlCaches Mcp
begin

text \<open>
  \<open>BaseMcpTool::call\<close> of \<open>mcp/base_mcp_tool.hpp\<close>, the path every MCP tool call takes: rate
  limit, argument check, table of results, the tool's own code; and the tool of
  \<open>mcp/tools/project_switch_tool.cpp\<close>. A tool is a record of its name, whether it declares
  itself mutating, its argument check and its code, over an arbitrary state; printing and parsing
  of JSON and the clocks are arguments. The lemmas show that for tools that only compute the
  table of results cannot be noticed, what it does to a tool that has effects without declaring
  them, and that a refused call changes nothing but its bucket.
\<close>

section \<open>The call\<close>

record 'd base_tool =
  bt_name :: string
  bt_mutating :: bool
  bt_validate :: "json \<Rightarrow> (int \<times> string) option"
  bt_impl :: "json \<Rightarrow> 'd \<Rightarrow> tool_result \<times> 'd"

record 'd call_state =
  rate :: "limiter option"
  results :: tool_table
  data :: 'd

text \<open>
  The surroundings: the limit, the agent's name, the JSON library (printing throws on text that
  is not UTF-8), and for each call the steady clock and the two readings of the calendar clock.
\<close>

record call_env =
  limit :: rat
  agent :: "string option"
  json_dump :: "json \<Rightarrow> string option"
  json_parse :: "string \<Rightarrow> json option"

record clocks =
  steady :: rat
  looked_up :: int
  stored :: int

definition cache_key :: "call_env \<Rightarrow> 'd base_tool \<Rightarrow> string \<Rightarrow> string" where
  "cache_key env t nargs = makeKey (agent env) (''mcp:'' @ bt_name t) nargs"

definition args_norm :: "call_env \<Rightarrow> json \<Rightarrow> string option" where
  "args_norm env args = (if args = Null then Some [] else json_dump env args)"

definition run_and_store :: "call_env \<Rightarrow> clocks \<Rightarrow> 'd base_tool \<Rightarrow> string \<Rightarrow> json \<Rightarrow> 'd call_state \<Rightarrow> tool_result \<times> 'd call_state" where
  "run_and_store env c t nargs args s =
     (let (r, d) = bt_impl t args (data s); s' = s\<lparr>data := d\<rparr> in
      case r of
        Tool_Ok v \<Rightarrow>
          (case json_dump env v of
             Some out \<Rightarrow> (r, s'\<lparr>results := tool_store (''mcp:'' @ bt_name t) (cache_key env t nargs) out 300 (stored c) (results s)\<rparr>)
           | None \<Rightarrow> (r, s'))
      | _ \<Rightarrow> (r, s'))"

definition call_tool :: "call_env \<Rightarrow> clocks \<Rightarrow> 'd base_tool \<Rightarrow> json \<Rightarrow> 'd call_state \<Rightarrow> tool_result \<times> 'd call_state" where
  "call_tool env c t args s =
     (let (ok, l) = mcpRateOk (limit env) (rate s) (bt_name t) (steady c); s1 = s\<lparr>rate := l\<rparr> in
      if \<not> ok then (Mcp_Error (-32029) (''rate limit exceeded for tool '' @ [sq] @ bt_name t @ [sq]), s1)
      else (case bt_validate t args of
          Some (code, msg) \<Rightarrow> (Mcp_Error code msg, s1)
        | None \<Rightarrow>
            if bt_mutating t
            then (let (r, d) = bt_impl t args (data s) in (r, s1\<lparr>data := d\<rparr>))
            else (case args_norm env args of
                None \<Rightarrow> (Tool_Exception ''invalid UTF-8'', s1)
              | Some nargs \<Rightarrow>
                  (let (hit, tb) = tool_lookup (cache_key env t nargs) (looked_up c) (results s);
                       s2 = s1\<lparr>results := tb\<rparr>
                   in case Option.bind hit (json_parse env) of
                        Some v \<Rightarrow> (Tool_Ok v, s2)
                      | None \<Rightarrow> run_and_store env c t nargs args s2))))"

fun call_tools :: "call_env \<Rightarrow> (clocks \<times> 'd base_tool \<times> json) list \<Rightarrow> 'd call_state \<Rightarrow> tool_result list \<times> 'd call_state" where
  "call_tools env [] s = ([], s)"
| "call_tools env ((c, t, args) # cs) s =
     (let (r, s1) = call_tool env c t args s; (rs, s2) = call_tools env cs s1 in (r # rs, s2))"

section \<open>Arguments\<close>

definition getStr :: "json \<Rightarrow> string \<Rightarrow> string \<Rightarrow> string" where
  "getStr args key def = (case Option.bind (member args key) text_of of Some v \<Rightarrow> v | None \<Rightarrow> def)"

definition requireStr :: "json \<Rightarrow> string \<Rightarrow> nat \<Rightarrow> (int \<times> string) option" where
  "requireStr args key maxLen =
     (case Option.bind (member args key) text_of of
        None \<Rightarrow> Some (-32602, ''Missing required param: '' @ key @ '' (string)'')
      | Some v \<Rightarrow> if maxLen < length v then Some (-32602, key @ '' exceeds '' @ nat_str maxLen @ '' char limit'') else None)"

text \<open>A number that does not fit an \<open>int\<close> is cut to its low 32 bits.\<close>

definition getInt :: "json \<Rightarrow> string \<Rightarrow> int \<Rightarrow> int" where
  "getInt args key def =
     (case member args key of
        None \<Rightarrow> def
      | Some (Number n) \<Rightarrow> (n + 2 ^ 31) mod 2 ^ 32 - 2 ^ 31
      | Some (Text v) \<Rightarrow> (case stoi v of Some n \<Rightarrow> n | None \<Rightarrow> def)
      | Some _ \<Rightarrow> def)"

section \<open>The project switch\<close>

text \<open>The state is the override of the configuration; the path of a project's database is an argument.\<close>

definition switched :: "string \<Rightarrow> string \<Rightarrow> json" where
  "switched project db_path = Object
     [(''status'', Text ''switched''), (''project'', Text project), (''db_path'', Text db_path),
      (''note'', Text (''Subsequent calls will use this project'' @ [sq] @ ''s DB''))]"

definition project_switch :: "(string \<Rightarrow> string) \<Rightarrow> string option base_tool" where
  "project_switch projectDbPath =
     \<lparr>bt_name = ''icmg_project_switch'', bt_mutating = False,
      bt_validate = (\<lambda>args. requireStr args ''project_name'' 500),
      bt_impl = (\<lambda>args _.
        (let project = getStr args ''project_name'' []; db_path = projectDbPath project in
         (Tool_Ok (switched project db_path), Some db_path)))\<rparr>"

section \<open>What the table remembers\<close>

lemma tool_lookup_store:
  "fst (tool_lookup h n (tool_store cmd k r ttl n0 tb)) = (if h = k then (if n - n0 < ttl then Some r else None) else fst (tool_lookup h n tb))"
proof (cases "h = k")
  case True
  have "find (valid_row k n) (rev (filter (\<lambda>x. t_hash x \<noteq> k) (rows tb))) = None"
    by (auto simp: find_None_iff valid_row_def)
  then show ?thesis using True by (auto simp: tool_store_def tool_lookup_result valid_row_def)
next
  case False
  have "find (valid_row h n) (rev (filter (\<lambda>x. t_hash x \<noteq> k) (rows tb))) = find (valid_row h n) (rev (rows tb))"
    using False unfolding rev_filter by (intro find_filter_imp) (auto simp: valid_row_def)
  then show ?thesis using False by (simp add: tool_store_def tool_lookup_result valid_row_def)
qed

lemma tool_lookup_lookup: "n' \<le> n \<Longrightarrow> fst (tool_lookup h n (snd (tool_lookup k n' tb))) = fst (tool_lookup h n tb)"
  using tools.get_get[of n' n h k tb] by (simp add: tool_get_def)

section \<open>Tools that only compute\<close>

definition mk_call :: "call_env \<Rightarrow> 'd base_tool \<Rightarrow> json \<Rightarrow> string option" where
  "mk_call env t args = map_option (cache_key env t) (args_norm env args)"

text \<open>The call without the table.\<close>

definition plain_call :: "call_env \<Rightarrow> clocks \<Rightarrow> 'd base_tool \<Rightarrow> json \<Rightarrow> 'd call_state \<Rightarrow> tool_result \<times> 'd call_state" where
  "plain_call env c t args s =
     (let (ok, l) = mcpRateOk (limit env) (rate s) (bt_name t) (steady c); s1 = s\<lparr>rate := l\<rparr> in
      if \<not> ok then (Mcp_Error (-32029) (''rate limit exceeded for tool '' @ [sq] @ bt_name t @ [sq]), s1)
      else (case bt_validate t args of
          Some (code, msg) \<Rightarrow> (Mcp_Error code msg, s1)
        | None \<Rightarrow> (let (r, d) = bt_impl t args (data s) in (r, s1\<lparr>data := d\<rparr>))))"

fun plain_calls :: "call_env \<Rightarrow> (clocks \<times> 'd base_tool \<times> json) list \<Rightarrow> 'd call_state \<Rightarrow> tool_result list \<times> 'd call_state" where
  "plain_calls env [] s = ([], s)"
| "plain_calls env ((c, t, args) # cs) s =
     (let (r, s1) = plain_call env c t args s; (rs, s2) = plain_calls env cs s1 in (r # rs, s2))"

text \<open>The table holds, under the key of each call, only what the tool answers in this state.\<close>

definition honest :: "call_env \<Rightarrow> ('d base_tool \<times> json) set \<Rightarrow> 'd \<Rightarrow> tool_table \<Rightarrow> bool" where
  "honest env U d tb \<longleftrightarrow> (\<forall>t args r v. (t, args) \<in> U \<longrightarrow> r \<in> set (rows tb) \<longrightarrow>
     mk_call env t args = Some (t_hash r) \<longrightarrow> json_parse env (t_result r) = Some v \<longrightarrow> fst (bt_impl t args d) = Tool_Ok v)"

text \<open>
  The calls a run may make: each leaves the state alone and has arguments that can be printed; a
  name stands for one tool and holds no NUL; different arguments print differently; answers
  survive printing and parsing; and the hash keeps the texts apart that say which call it is: the
  agent, the tool's name and the arguments.
\<close>

definition call_text :: "call_env \<Rightarrow> string \<Rightarrow> string \<Rightarrow> string" where
  "call_text env name nargs = (case agent env of None \<Rightarrow> [] | Some a \<Rightarrow> a) @ [CHR 0x00] @ (''mcp:'' @ name) @ [CHR 0x00] @ nargs"

definition hash_separates :: "call_env \<Rightarrow> ('d base_tool \<times> json) set \<Rightarrow> bool" where
  "hash_separates env U \<longleftrightarrow> (\<forall>t args x t' args' x'. (t, args) \<in> U \<longrightarrow> (t', args') \<in> U \<longrightarrow>
     args_norm env args = Some x \<longrightarrow> args_norm env args' = Some x' \<longrightarrow>
     tool_fnv (call_text env (bt_name t) x) = tool_fnv (call_text env (bt_name t') x') \<longrightarrow>
     call_text env (bt_name t) x = call_text env (bt_name t') x')"

definition named_apart :: "('d base_tool \<times> json) set \<Rightarrow> bool" where
  "named_apart U \<longleftrightarrow> (\<forall>t args t' args'. (t, args) \<in> U \<longrightarrow> (t', args') \<in> U \<longrightarrow>
     CHR 0x00 \<notin> set (bt_name t) \<and> (bt_name t = bt_name t' \<longrightarrow> t = t'))"

definition printed_apart :: "call_env \<Rightarrow> ('d base_tool \<times> json) set \<Rightarrow> bool" where
  "printed_apart env U \<longleftrightarrow> (\<forall>t args t' args'. (t, args) \<in> U \<longrightarrow> (t', args') \<in> U \<longrightarrow>
     args_norm env args = args_norm env args' \<longrightarrow> args = args')"

definition computing :: "call_env \<Rightarrow> ('d base_tool \<times> json) set \<Rightarrow> 'd \<Rightarrow> bool" where
  "computing env U d \<longleftrightarrow>
     (\<forall>t args. (t, args) \<in> U \<longrightarrow> snd (bt_impl t args d) = d \<and> args_norm env args \<noteq> None) \<and>
     (\<forall>t args v x v'. (t, args) \<in> U \<longrightarrow> fst (bt_impl t args d) = Tool_Ok v \<longrightarrow> json_dump env v = Some x \<longrightarrow>
        json_parse env x = Some v' \<longrightarrow> v' = v) \<and>
     named_apart U \<and> printed_apart env U \<and> hash_separates env U"

lemma NUL_split:
  assumes "CHR 0x00 \<notin> set m" "CHR 0x00 \<notin> set n" "m @ CHR 0x00 # x = n @ CHR 0x00 # y"
  shows "m = n \<and> x = y"
proof -
  have "takeWhile (\<lambda>c. c \<noteq> CHR 0x00) (u @ CHR 0x00 # z) = u" if "CHR 0x00 \<notin> set u" for u z
    using that by (induction u) auto
  then have "m = n" using assms by metis
  then show ?thesis using assms(3) by simp
qed

text \<open>So two calls that share a key are the same call.\<close>

lemma same_key:
  assumes comp: "computing env U d" and U: "(t, args) \<in> U" "(t', args') \<in> U" and k: "mk_call env t args = mk_call env t' args'"
  shows "t = t' \<and> args = args'"
proof -
  have "args_norm env args \<noteq> None" "args_norm env args' \<noteq> None" using comp U unfolding computing_def by blast+
  then obtain x x' where x: "args_norm env args = Some x" "args_norm env args' = Some x'" by blast
  then have "tool_fnv (call_text env (bt_name t) x) = tool_fnv (call_text env (bt_name t') x')"
    using k by (simp add: mk_call_def cache_key_def makeKey_def call_text_def)
  moreover have "hash_separates env U" using comp by (simp add: computing_def)
  ultimately have "call_text env (bt_name t) x = call_text env (bt_name t') x'"
    using U x unfolding hash_separates_def by blast
  then have "bt_name t @ CHR 0x00 # x = bt_name t' @ CHR 0x00 # x'" by (simp add: call_text_def)
  moreover have na: "named_apart U" using comp by (simp add: computing_def)
  ultimately have "bt_name t = bt_name t' \<and> x = x'" using U NUL_split[of "bt_name t" "bt_name t'" x x'] unfolding named_apart_def by blast
  then show ?thesis using comp na U x unfolding computing_def named_apart_def printed_apart_def by metis
qed

lemma honestD:
  "\<lbrakk>honest env U d tb; (t, args) \<in> U; r \<in> set (rows tb); mk_call env t args = Some (t_hash r);
    json_parse env (t_result r) = Some v\<rbrakk> \<Longrightarrow> fst (bt_impl t args d) = Tool_Ok v"
  unfolding honest_def by blast

lemma computingD:
  assumes "computing env U d" "(t, args) \<in> U"
  shows "snd (bt_impl t args d) = d" "\<exists>x. args_norm env args = Some x"
    "\<lbrakk>fst (bt_impl t args d) = Tool_Ok v; json_dump env v = Some x; json_parse env x = Some v'\<rbrakk> \<Longrightarrow> v' = v"
    "\<lbrakk>(t', args') \<in> U; mk_call env t args = mk_call env t' args'\<rbrakk> \<Longrightarrow> fst (bt_impl t args d) = fst (bt_impl t' args' d)"
proof -
  show "snd (bt_impl t args d) = d" "\<exists>x. args_norm env args = Some x" using assms unfolding computing_def by blast+
  show "v' = v" if "fst (bt_impl t args d) = Tool_Ok v" "json_dump env v = Some x" "json_parse env x = Some v'"
    using assms that unfolding computing_def by blast
  show "fst (bt_impl t args d) = fst (bt_impl t' args' d)" if "(t', args') \<in> U" "mk_call env t args = mk_call env t' args'"
    using same_key[OF assms that] by simp
qed

lemma honest_lookup:
  assumes "honest env U d tb" "(t, args) \<in> U" "mk_call env t args = Some h" "fst (tool_lookup h n tb) = Some x" "json_parse env x = Some v"
  shows "fst (bt_impl t args d) = Tool_Ok v"
proof -
  obtain r where "find (valid_row h n) (rev (rows tb)) = Some r" "t_result r = x"
    using assms(4) unfolding tool_lookup_result by (auto split: option.splits)
  then have "valid_row h n r" "r \<in> set (rows tb)"
    by (metis find_Some_iff) (metis \<open>find (valid_row h n) (rev (rows tb)) = Some r\<close> find_Some_iff nth_mem set_rev)
  then show ?thesis using honestD[OF assms(1,2), of r v] assms(3,5) \<open>t_result r = x\<close> by (simp add: valid_row_def)
qed

lemma honest_rows:
  assumes "honest env U d tb" "\<And>r. r \<in> set (rows tb') \<Longrightarrow> \<exists>q \<in> set (rows tb). t_hash q = t_hash r \<and> t_result q = t_result r"
  shows "honest env U d tb'"
  unfolding honest_def
proof (clarify)
  fix t args r v
  assume U: "(t, args) \<in> U" and r: "r \<in> set (rows tb')"
    and k: "mk_call env t args = Some (t_hash r)" "json_parse env (t_result r) = Some v"
  obtain q where "q \<in> set (rows tb)" "t_hash q = t_hash r" "t_result q = t_result r" using assms(2)[OF r] by blast
  then show "fst (bt_impl t args d) = Tool_Ok v" using honestD[OF assms(1) U, of q v] k by simp
qed

lemma honest_store:
  assumes honest: "honest env U d tb" and comp: "computing env U d" and U: "(t, args) \<in> U"
    and ok: "fst (bt_impl t args d) = Tool_Ok v" "json_dump env v = Some x" "mk_call env t args = Some h"
  shows "honest env U d (tool_store cmd h x ttl n tb)"
  unfolding honest_def
proof (clarify)
  fix t' args' r v'
  assume U': "(t', args') \<in> U" and r: "r \<in> set (rows (tool_store cmd h x ttl n tb))"
    and k: "mk_call env t' args' = Some (t_hash r)" "json_parse env (t_result r) = Some v'"
  show "fst (bt_impl t' args' d) = Tool_Ok v'"
  proof (cases "r \<in> set (rows tb)")
    case True
    then show ?thesis using honestD[OF honest U' _ k] by simp
  next
    case False
    then have r: "t_hash r = h" "t_result r = x" using r by (auto simp: tool_store_def)
    then have "v' = v" using computingD(3)[OF comp U ok(1,2)] k(2) by simp
    moreover have "fst (bt_impl t' args' d) = fst (bt_impl t args d)"
      using computingD(4)[OF comp U U'] ok(3) k(1) r(1) by simp
    ultimately show ?thesis using ok(1) by simp
  qed
qed

lemma honest_lookup_table: "honest env U d tb \<Longrightarrow> honest env U d (snd (tool_lookup h n tb))"
proof (rule honest_rows, assumption)
  fix r assume "r \<in> set (rows (snd (tool_lookup h n tb)))"
  moreover obtain f where "rows (snd (tool_lookup h n tb)) = map f (rows tb)"
    "\<And>x. t_hash (f x) = t_hash x \<and> t_expires (f x) = t_expires x \<and> t_result (f x) = t_result x"
    using tool_lookup_rows by blast
  ultimately show "\<exists>q \<in> set (rows tb). t_hash q = t_hash r \<and> t_result q = t_result r" by auto
qed

text \<open>One call: the same answer, limiter and data as without the table, and the table stays honest.\<close>

lemma call_tool_plain:
  assumes honest: "honest env U (data s) (results s)" and comp: "computing env U (data s)" and U: "(t, args) \<in> U"
  shows "fst (call_tool env c t args s) = fst (plain_call env c t args s) \<and>
    rate (snd (call_tool env c t args s)) = rate (snd (plain_call env c t args s)) \<and>
    data (snd (call_tool env c t args s)) = data s \<and> data (snd (plain_call env c t args s)) = data s \<and>
    honest env U (data s) (results (snd (call_tool env c t args s)))"
proof -
  obtain ok l where one: "mcpRateOk (limit env) (rate s) (bt_name t) (steady c) = (ok, l)" by force
  obtain r where impl: "bt_impl t args (data s) = (r, data s)" 
    using computingD(1)[OF comp U] by (metis prod.collapse)
  obtain nargs where na: "args_norm env args = Some nargs"
    using computingD(2)[OF comp U] by blast
  obtain hit tb where look: "tool_lookup (cache_key env t nargs) (looked_up c) (results s) = (hit, tb)" by force
  have mk: "mk_call env t args = Some (cache_key env t nargs)" by (simp add: mk_call_def na)
  have tb: "honest env U (data s) tb"
    using honest_lookup_table[OF honest, of "cache_key env t nargs" "looked_up c"] look by simp
  have hit: "r = Tool_Ok v" if "Option.bind hit (json_parse env) = Some v" for v
  proof -
    from that obtain x where "hit = Some x" "json_parse env x = Some v" by (cases hit) auto
    then have "fst (bt_impl t args (data s)) = Tool_Ok v" using honest_lookup[OF honest U mk, of "looked_up c" x v] look by simp
    then show ?thesis by (simp add: impl)
  qed
  have st: "honest env U (data s) (tool_store cmd (cache_key env t nargs) x 300 n tb)"
    if "r = Tool_Ok v" "json_dump env v = Some x" for v x cmd n
    using honest_store[OF tb comp U _ _ mk] that by (simp add: impl)
  note defs = call_tool_def plain_call_def run_and_store_def one impl na look Let_def
  show ?thesis
  proof (cases "ok \<and> bt_validate t args = None \<and> \<not> bt_mutating t")
    case False
    then show ?thesis using honest by (cases ok; cases "bt_validate t args") (auto simp: defs)
  next
    case True
    show ?thesis
    proof (cases "Option.bind hit (json_parse env)")
      case None
      then show ?thesis using True tb st by (cases r) (auto simp: defs split: option.split)
    next
      case (Some v)
      then show ?thesis using True tb hit by (simp add: defs)
    qed
  qed
qed

lemma plain_call_rate:
  "rate s = rate s' \<Longrightarrow> data s = data s' \<Longrightarrow> fst (plain_call env c t args s) = fst (plain_call env c t args s') \<and>
    rate (snd (plain_call env c t args s)) = rate (snd (plain_call env c t args s')) \<and>
    data (snd (plain_call env c t args s)) = data (snd (plain_call env c t args s'))"
  by (auto simp: plain_call_def split_def Let_def split: option.split)

lemma call_tools_plain:
  "\<lbrakk>honest env U (data s) (results s); computing env U (data s); \<forall>(c, q) \<in> set cs. q \<in> U; rate s' = rate s; data s' = data s\<rbrakk> \<Longrightarrow>
    fst (call_tools env cs s) = fst (plain_calls env cs s')"
proof (induction cs arbitrary: s s')
  case (Cons x cs)
  obtain c t args where x: "x = (c, t, args)" by (cases x) auto
  have U: "(t, args) \<in> U" using Cons.prems(3) x by auto
  note one = call_tool_plain[OF Cons.prems(1,2) U, of c]
  note other = plain_call_rate[OF Cons.prems(4,5), of env c t args]
  have "fst (call_tools env cs (snd (call_tool env c t args s))) = fst (plain_calls env cs (snd (plain_call env c t args s')))"
    using one other Cons.prems by (intro Cons.IH) auto
  then show ?case using one other by (simp add: x split_def Let_def)
qed simp

text \<open>
  Property C11. Starting from an empty table, any sequence of calls of tools that leave the state alone gets
  the answers, refusals by the limiter and by the argument checks included, that the tools
  without the table would give: a call is answered from the table only by an answer to the same
  tool with the same arguments. It rests on the hash keeping the texts of agent, name and
  arguments apart, on each name standing for one tool, and on a JSON library that prints
  different arguments differently and reads printed answers back.
\<close>

theorem result_table_transparent:
  assumes "results s = \<lparr>rows = [], next_id = 0\<rparr>" and "computing env U (data s)" and "\<forall>(c, q) \<in> set cs. q \<in> U"
  shows "fst (call_tools env cs s) = fst (plain_calls env cs s)"
proof -
  have "honest env U (data s) (results s)" using assms(1) by (simp add: honest_def)
  from call_tools_plain[OF this assms(2,3)] show ?thesis by simp
qed

definition echo_tool :: "nat base_tool" where
  "echo_tool = \<lparr>bt_name = ''echo'', bt_mutating = False, bt_validate = (\<lambda>_. None), bt_impl = (\<lambda>args n. (Tool_Ok args, n))\<rparr>"

definition text_env :: call_env where
  "text_env = \<lparr>limit = 120, agent = None,
     json_dump = (\<lambda>j. case j of Text v \<Rightarrow> Some v | Object ((k, Text v) # kvs) \<Rightarrow> Some (k @ v) | _ \<Rightarrow> None),
     json_parse = (\<lambda>x. Some (Text x))\<rparr>"

definition at_time :: "int \<Rightarrow> clocks" where
  "at_time n = \<lparr>steady = rat_of_int n, looked_up = n, stored = n\<rparr>"

definition tag_tool :: "nat base_tool" where
  "tag_tool = \<lparr>bt_name = ''tag'', bt_mutating = False, bt_validate = (\<lambda>_. None), bt_impl = (\<lambda>args n. (Tool_Ok (Text ''tag''), n))\<rparr>"

definition four_calls :: "(nat base_tool \<times> json) set" where
  "four_calls = {(echo_tool, Text ''a''), (echo_tool, Text ''b''), (tag_tool, Text ''a''), (tag_tool, Text ''b'')}"

lemma four_computing: "computing text_env four_calls 7"
proof -
  have calls: "(t, args) \<in> four_calls \<longleftrightarrow> t \<in> {echo_tool, tag_tool} \<and> args \<in> {Text ''a'', Text ''b''}" for t args
    by (auto simp: four_calls_def)
  have names: "bt_name echo_tool = ''echo''" "bt_name tag_tool = ''tag''" by (simp_all add: echo_tool_def tag_tool_def)
  have norm: "args_norm text_env (Text x) = Some x" for x by (simp add: args_norm_def text_env_def)
  have hashes: "distinct (map (\<lambda>(n, x). fnv_fold 1469598103934665603 (call_text text_env n x)) [(''echo'', ''a''), (''echo'', ''b''), (''tag'', ''a''), (''tag'', ''b'')])"
    by (simp add: call_text_def text_env_def fnv_fold_def fnv_step_def ccode_def)
  have "hash_separates text_env four_calls"
    unfolding hash_separates_def calls using hashes by (auto simp: names norm tool_fnv_def hex16_inj)
  moreover have "named_apart four_calls" "printed_apart text_env four_calls"
    unfolding named_apart_def printed_apart_def calls by (auto simp: names norm)
  moreover have "snd (bt_impl t args 7) = 7 \<and> args_norm text_env args \<noteq> None" if "(t, args) \<in> four_calls" for t args
    using that by (auto simp: calls norm echo_tool_def tag_tool_def)
  moreover have "v' = v" if "(t, args) \<in> four_calls" "fst (bt_impl t args 7) = Tool_Ok v" "json_dump text_env v = Some x" "json_parse text_env x = Some v'"
    for t args v x v' using that by (auto simp: calls echo_tool_def tag_tool_def text_env_def)
  ultimately show ?thesis unfolding computing_def by blast
qed

theorem result_table_transparent_witness:
  "fst (call_tools text_env [(at_time 0, echo_tool, Text ''a''), (at_time 1, tag_tool, Text ''a''), (at_time 2, echo_tool, Text ''b''),
      (at_time 3, echo_tool, Text ''a''), (at_time 4, tag_tool, Text ''b''), (at_time 400, echo_tool, Text ''a'')]
      \<lparr>rate = None, results = \<lparr>rows = [], next_id = 0\<rparr>, data = 7\<rparr>) =
   [Tool_Ok (Text ''a''), Tool_Ok (Text ''tag''), Tool_Ok (Text ''b''), Tool_Ok (Text ''a''), Tool_Ok (Text ''tag''), Tool_Ok (Text ''a'')]"
  (is "fst (call_tools text_env ?cs ?s) = ?answers")
proof -
  have "fst (call_tools text_env ?cs ?s) = fst (plain_calls text_env ?cs ?s)"
    by (rule result_table_transparent[where U = four_calls]) (simp_all add: four_computing, simp add: four_calls_def)
  also have "\<dots> = ?answers" by code_simp
  finally show ?thesis .
qed

section \<open>Tools with effects they do not declare\<close>

lemma call_keeps_row:
  assumes "mk_call env t args \<noteq> Some h" and "looked_up c \<le> n"
  shows "fst (tool_lookup h n (results (snd (call_tool env c t args s)))) = fst (tool_lookup h n (results s))"
proof -
  have "fst (tool_lookup h n (results (snd (run_and_store env c t nargs args (st\<lparr>results := snd (tool_lookup k (looked_up c) tb)\<rparr>))))) =
      fst (tool_lookup h n tb)" if "cache_key env t nargs \<noteq> h" for nargs st k tb
    using that by (auto simp: run_and_store_def split_def Let_def tool_lookup_store tool_lookup_lookup[OF assms(2)]
        split: tool_result.split option.split)
  then show ?thesis using assms
    by (auto simp: call_tool_def mk_call_def split_def Let_def tool_lookup_lookup split: option.split)
qed

lemma calls_keep_row:
  "\<forall>(c, t, args) \<in> set cs. mk_call env t args \<noteq> Some h \<and> looked_up c \<le> n \<Longrightarrow>
    fst (tool_lookup h n (results (snd (call_tools env cs s)))) = fst (tool_lookup h n (results s))"
proof (induction cs arbitrary: s)
  case (Cons x cs)
  obtain c t args where "x = (c, t, args)" by (cases x) auto
  then show ?case using Cons call_keeps_row[of env t args h c n s] by (simp add: split_def Let_def)
qed simp

lemma hit_skips_tool:
  assumes "\<not> bt_mutating t" "bt_validate t args = None" "limit env \<le> 0" "args_norm env args = Some a"
    and "fst (tool_lookup (cache_key env t a) (looked_up c) (results s)) = Some x" "json_parse env x = Some v"
  shows "call_tool env c t args s = (Tool_Ok v, s\<lparr>results := snd (tool_lookup (cache_key env t a) (looked_up c) (results s))\<rparr>)"
  using assms by (simp add: call_tool_def mcpRateOk_def Let_def split_def)

lemma miss_runs_tool:
  assumes "\<not> bt_mutating t" "bt_validate t args = None" "limit env \<le> 0" "args_norm env args = Some a"
    and "fst (tool_lookup (cache_key env t a) (looked_up c) (results s)) = None"
    and "bt_impl t args (data s) = (Tool_Ok v, d)" "json_dump env v = Some x"
  shows "call_tool env c t args s = (Tool_Ok v, s\<lparr>data := d, results := tool_store (''mcp:'' @ bt_name t) (cache_key env t a) x 300
      (stored c) (snd (tool_lookup (cache_key env t a) (looked_up c) (results s)))\<rparr>)"
  using assms by (cases s) (simp add: call_tool_def mcpRateOk_def run_and_store_def Let_def split_def)

text \<open>
  A tool that has an effect but does not declare itself mutating does its work only once in
  five minutes: whatever other calls come in between, a call with the same arguments is
  answered from the table, and the state stays what those calls have made of it.
\<close>

theorem repeated_call_has_no_effect:
  assumes "\<not> bt_mutating t" and "bt_validate t args = None" and "limit env \<le> 0"
    and "args_norm env args = Some a" and "bt_impl t args (data s) = (Tool_Ok v, d)"
    and "json_dump env v = Some x" and "json_parse env x = Some v"
    and "fst (tool_lookup (cache_key env t a) (looked_up c) (results s)) = None"
    and "\<forall>(c', t', args') \<in> set between. mk_call env t' args' \<noteq> Some (cache_key env t a) \<and> looked_up c' \<le> looked_up c2"
    and "looked_up c2 < stored c + 300"
    and "s2 = snd (call_tools env between (snd (call_tool env c t args s)))"
  shows "fst (call_tool env c2 t args s2) = Tool_Ok v \<and> data (snd (call_tool env c2 t args s2)) = data s2"
proof -
  have "fst (tool_lookup (cache_key env t a) (looked_up c2) (results s2)) = Some x"
    unfolding assms(11) calls_keep_row[OF assms(9)] miss_runs_tool[OF assms(1-4,8,5,6)]
    using assms(10) by (simp add: tool_lookup_store)
  from hit_skips_tool[OF assms(1-4) this assms(7)] show ?thesis by simp
qed

lemma makeKey_eq: "makeKey a cmd x = makeKey a cmd y \<longleftrightarrow>
    fnv_fold 1469598103934665603 ((case a of None \<Rightarrow> [] | Some n \<Rightarrow> n) @ [CHR 0x00] @ cmd @ [CHR 0x00] @ x) =
    fnv_fold 1469598103934665603 ((case a of None \<Rightarrow> [] | Some n \<Rightarrow> n) @ [CHR 0x00] @ cmd @ [CHR 0x00] @ y)"
  unfolding makeKey_def tool_fnv_def hex16_inj ..

definition switch_args :: "string \<Rightarrow> json" where
  "switch_args p = Object [(''project_name'', Text p)]"

text \<open>
  Switching back to a project within five minutes is lost: the tool of the project switch does
  not declare itself mutating, so the second switch to the same project reports it as switched
  while the override stays on the project chosen in between.
\<close>

theorem switch_back_is_lost:
  assumes "limit env \<le> 0" and "length p \<le> 500" and "length q \<le> 500" and "results s = \<lparr>rows = [], next_id = 0\<rparr>"
    and "json_dump env (switch_args p) = Some dp" and "json_dump env (switch_args q) = Some dq'"
    and "json_dump env (switched p (f p)) = Some x" and "json_parse env x = Some (switched p (f p))"
    and "json_dump env (switched q (f q)) = Some y"
    and "cache_key env (project_switch f) dp \<noteq> cache_key env (project_switch f) dq'"
    and "looked_up c2 \<le> looked_up c3" and "looked_up c3 < stored c1 + 300"
  shows "fst (call_tools env [(c1, project_switch f, switch_args p), (c2, project_switch f, switch_args q),
           (c3, project_switch f, switch_args p)] s) = [Tool_Ok (switched p (f p)), Tool_Ok (switched q (f q)), Tool_Ok (switched p (f p))] \<and>
         data (snd (call_tools env [(c1, project_switch f, switch_args p), (c2, project_switch f, switch_args q),
           (c3, project_switch f, switch_args p)] s)) = Some (f q)"
proof -
  let ?t = "project_switch f"
  have t: "\<not> bt_mutating ?t" "bt_validate ?t (switch_args p) = None" "bt_validate ?t (switch_args q) = None"
    "bt_impl ?t (switch_args p) d = (Tool_Ok (switched p (f p)), Some (f p))" "bt_impl ?t (switch_args q) d = (Tool_Ok (switched q (f q)), Some (f q))" for d
    using assms(2,3) by (simp_all add: project_switch_def switch_args_def requireStr_def getStr_def Let_def)
  have a: "args_norm env (switch_args p) = Some dp" "args_norm env (switch_args q) = Some dq'"
    using assms(5,6) by (simp_all add: args_norm_def switch_args_def)
  define s1 where "s1 = snd (call_tool env c1 ?t (switch_args p) s)"
  have empty: "fst (tool_lookup h n (results s)) = None" for h n by (simp add: assms(4) tool_lookup_def)
  note one = miss_runs_tool[OF t(1,2) assms(1) a(1) empty t(4) assms(7), of c1]
  have r1: "fst (tool_lookup (cache_key env ?t dq') (looked_up c2) (results s1)) = None"
    using assms(10) by (simp add: s1_def one tool_lookup_store) (simp add: tool_lookup_def assms(4))
  note two = miss_runs_tool[OF t(1,3) assms(1) a(2) r1 t(5) assms(9)]
  define s2 where "s2 = snd (call_tool env c2 ?t (switch_args q) s1)"
  have "mk_call env ?t (switch_args q) \<noteq> Some (cache_key env ?t dp)" using assms(10) by (simp add: mk_call_def a(2))
  from call_keeps_row[OF this assms(11), of s1]
  have "fst (tool_lookup (cache_key env ?t dp) (looked_up c3) (results s2)) = Some x"
    using assms(12) unfolding s2_def by (simp add: s1_def one tool_lookup_store)
  note three = hit_skips_tool[OF t(1,2) assms(1) a(1) this assms(8)]
  have "call_tool env c1 ?t (switch_args p) s = (Tool_Ok (switched p (f p)), s1)" using one by (simp add: s1_def)
  moreover have "call_tool env c2 ?t (switch_args q) s1 = (Tool_Ok (switched q (f q)), s2)" using two by (simp add: s2_def)
  moreover have "data s2 = Some (f q)" using two by (simp add: s2_def)
  ultimately show ?thesis using three by (simp add: Let_def)
qed

definition switch_env :: call_env where
  "switch_env = \<lparr>limit = 0, agent = None,
     json_dump = (\<lambda>j. case j of Object [(k, Text v)] \<Rightarrow> Some v | _ \<Rightarrow> map_option (\<lambda>v. CHR ''!'' # getStr j ''project'' []) (member j ''project'')),
     json_parse = (\<lambda>x. Some (switched (tl x) (tl x)))\<rparr>"

lemma keys_apart: "cache_key switch_env (project_switch id) ''a'' \<noteq> cache_key switch_env (project_switch id) ''b''"
proof -
  have "fnv_fold h (u @ [CHR ''a'']) \<noteq> fnv_fold h (u @ [CHR ''b''])" for h u using fnv_one_change[of h u "CHR ''a''" "[]"] by simp
  then show ?thesis unfolding cache_key_def makeKey_eq append_assoc[symmetric] by blast
qed

theorem switch_back_is_lost_witness:
  "data (snd (call_tools switch_env [(at_time 0, project_switch id, switch_args ''a''), (at_time 10, project_switch id, switch_args ''b''),
     (at_time 20, project_switch id, switch_args ''a'')] \<lparr>rate = None, results = \<lparr>rows = [], next_id = 0\<rparr>, data = None\<rparr>)) = Some ''b''"
  using switch_back_is_lost[of switch_env "''a''" "''b''" "\<lparr>rate = None, results = \<lparr>rows = [], next_id = 0\<rparr>, data = None\<rparr>"
      "''a''" "''b''" id "''!a''" "''!b''" "at_time 10" "at_time 20" "at_time 0"] keys_apart
  by (simp add: switch_env_def switch_args_def switched_def getStr_def at_time_def)

end
