(* ===== verification/ExecServer.thy ===== *)
theory ExecServer
  imports Mcp "HOL-Library.Word"
begin

text \<open>
  The exec server: the frames of \<open>core/exec_protocol.hpp\<close>, and of \<open>core/exec_server.cpp\<close> the
  buffers that turn a command's output into frames, the handling of a request, and the count
  of workers as a step relation. The JSON library, the commands and the file system's answer
  to a change of directory are arguments. The lemmas show that a client reads back the frames
  sent, that a request served ends in exactly one terminal frame after all of the command's
  output in order, when the process dies instead, and how far the cap on workers holds.
\<close>

unbundle bit_operations_syntax

section \<open>Frames\<close>

definition byte_char :: "32 word \<Rightarrow> nat \<Rightarrow> char" where
  "byte_char n i = char_of (unat (drop_bit (8 * i) n AND 255))"

definition frame :: "string \<Rightarrow> string" where
  "frame json = (let n = word_of_nat (length json) in [byte_char n 0, byte_char n 1, byte_char n 2, byte_char n 3] @ json)"

definition char_word :: "char \<Rightarrow> 32 word" where
  "char_word c = word_of_nat (ccode c)"

definition parseLength :: "string \<Rightarrow> 32 word" where
  "parseLength buf =
     (if length buf < 4 then 0
      else char_word (buf ! 0) OR push_bit 8 (char_word (buf ! 1)) OR push_bit 16 (char_word (buf ! 2)) OR push_bit 24 (char_word (buf ! 3)))"

text \<open>Reading from the bytes the peer sends before it closes; \<open>None\<close> where the code gives up.\<close>

definition max_frame :: nat where
  "max_frame = 16 * 1024 * 1024"

definition readFrame :: "string \<Rightarrow> (string \<times> string) option" where
  "readFrame inp =
     (if length inp < 4 then None
      else (let n = unat (parseLength (take 4 inp)); rest = drop 4 inp in
            if n = 0 \<or> max_frame < n then None
            else if length rest < n then None
            else Some (take n rest, drop n rest)))"

section \<open>The output buffers\<close>

datatype stream_tag = Out | Err

datatype message = Chunk stream_tag string | Exit_Frame int

text \<open>
  A buffer of 4096 bytes of which 4095 are offered to the stream, so that the byte that
  overflows is stored before the flush. Printing the chunk as JSON throws on text that is not
  UTF-8: the stream goes bad and drops what follows, and the bytes stay in the buffer.
\<close>

record ipc_buf =
  pending :: string
  bad :: bool

definition empty_buf :: ipc_buf where
  "empty_buf = \<lparr>pending = [], bad = False\<rparr>"

definition sync :: "(stream_tag \<Rightarrow> string \<Rightarrow> string option) \<Rightarrow> stream_tag \<Rightarrow> ipc_buf \<Rightarrow> message list \<times> ipc_buf" where
  "sync dmp t b =
     (if pending b = [] then ([], b)
      else case dmp t (pending b) of
          None \<Rightarrow> ([], b\<lparr>bad := True\<rparr>)
        | Some _ \<Rightarrow> ([Chunk t (pending b)], b\<lparr>pending := []\<rparr>))"

definition overflow :: "(stream_tag \<Rightarrow> string \<Rightarrow> string option) \<Rightarrow> stream_tag \<Rightarrow> char \<Rightarrow> ipc_buf \<Rightarrow> message list \<times> ipc_buf" where
  "overflow dmp t c b = sync dmp t (b\<lparr>pending := pending b @ [c]\<rparr>)"

fun put_chars :: "(stream_tag \<Rightarrow> string \<Rightarrow> string option) \<Rightarrow> stream_tag \<Rightarrow> string \<Rightarrow> ipc_buf \<Rightarrow> message list \<times> ipc_buf" where
  "put_chars dmp t [] b = ([], b)"
| "put_chars dmp t (c # cs) b =
     (if bad b then ([], b)
      else if length (pending b) < 4095 then put_chars dmp t cs (b\<lparr>pending := pending b @ [c]\<rparr>)
      else (let (ms, b1) = overflow dmp t c b; (ms', b2) = put_chars dmp t cs b1 in (ms @ ms', b2)))"

text \<open>
  What a command does to the streams. The error stream is tied to the output stream, which it
  flushes first, and is itself flushed after every insertion.
\<close>

datatype cmd_write = W_Out string | W_Err string | W_Flush

record io =
  out_buf :: ipc_buf
  err_buf :: ipc_buf
  sent :: "message list"

definition start_io :: io where
  "start_io = \<lparr>out_buf = empty_buf, err_buf = empty_buf, sent = []\<rparr>"

definition flush_out :: "(stream_tag \<Rightarrow> string \<Rightarrow> string option) \<Rightarrow> io \<Rightarrow> io" where
  "flush_out dmp s = (let (ms, b) = sync dmp Out (out_buf s) in s\<lparr>out_buf := b, sent := sent s @ ms\<rparr>)"

definition flush_err :: "(stream_tag \<Rightarrow> string \<Rightarrow> string option) \<Rightarrow> io \<Rightarrow> io" where
  "flush_err dmp s = (let (ms, b) = sync dmp Err (err_buf s) in s\<lparr>err_buf := b, sent := sent s @ ms\<rparr>)"

fun do_write :: "(stream_tag \<Rightarrow> string \<Rightarrow> string option) \<Rightarrow> io \<Rightarrow> cmd_write \<Rightarrow> io" where
  "do_write dmp s (W_Out x) = (let (ms, b) = put_chars dmp Out x (out_buf s) in s\<lparr>out_buf := b, sent := sent s @ ms\<rparr>)"
| "do_write dmp s (W_Err x) =
     (let s1 = flush_out dmp s; (ms, b) = put_chars dmp Err x (err_buf s1)
      in flush_err dmp (s1\<lparr>err_buf := b, sent := sent s1 @ ms\<rparr>))"
| "do_write dmp s W_Flush = flush_out dmp s"

section \<open>One request\<close>

record world =
  cwd :: string
  override :: "string option"

datatype ending = Exit_Code int | Threw string | Threw_Unknown

type_synonym command = "string list \<Rightarrow> string \<Rightarrow> world \<Rightarrow> cmd_write list \<times> ending \<times> world"

record exec_env =
  parse_request :: "string \<Rightarrow> json option"
  create :: "string \<Rightarrow> command option"
  dump_chunk :: "stream_tag \<Rightarrow> string \<Rightarrow> string option"
  dump_exit :: "int \<Rightarrow> string"
  can_enter :: "string \<Rightarrow> bool"

text \<open>\<open>Died\<close>: the process is terminated; what was sent before stays sent.\<close>

datatype outcome = Served "message list" world | Died "message list"

fun value_str :: "json \<Rightarrow> string \<Rightarrow> string \<Rightarrow> string option" where
  "value_str j key def = (case member j key of None \<Rightarrow> Some def | Some v \<Rightarrow> text_of v)"

fun argv_of :: "json option \<Rightarrow> string list" where
  "argv_of (Some (Array xs)) = List.map_filter text_of xs"
| "argv_of _ = []"

definition chdir :: "exec_env \<Rightarrow> string \<Rightarrow> world \<Rightarrow> world" where
  "chdir env d w = (if d \<noteq> [] \<and> can_enter env d then w\<lparr>cwd := d\<rparr> else w)"

definition run_command :: "exec_env \<Rightarrow> string list \<Rightarrow> string \<Rightarrow> world \<Rightarrow> cmd_write list \<times> int \<times> world" where
  "run_command env argv stdin w =
     (case create env (hd argv) of
        None \<Rightarrow> ([W_Err (''icmg: unknown command '' @ [sq]), W_Err (hd argv), W_Err ([sq] @ [nl])], 127, w)
      | Some f \<Rightarrow>
          (case f (tl argv) stdin w of
             (ws, Exit_Code n, w') \<Rightarrow> (ws, n, w')
           | (ws, Threw m, w') \<Rightarrow> (ws @ [W_Err ''icmg: exec_server: '', W_Err m, W_Err [nl]], 1, w')
           | (ws, Threw_Unknown, w') \<Rightarrow> (ws @ [W_Err (''icmg: exec_server: unknown exception'' @ [nl])], 1, w')))"

definition finish_io :: "exec_env \<Rightarrow> io \<Rightarrow> bool \<times> message list" where
  "finish_io env s =
     (let s1 = flush_out (dump_chunk env) s in
      if bad (out_buf s1) then (False, sent s1)
      else (let s2 = flush_err (dump_chunk env) s1 in (\<not> bad (err_buf s2), sent s2)))"

definition execute :: "exec_env \<Rightarrow> string list \<Rightarrow> string \<Rightarrow> string \<Rightarrow> world \<Rightarrow> outcome" where
  "execute env argv dir stdin w =
     (let (ws, n, w1) = run_command env argv stdin ((chdir env dir w)\<lparr>override := None\<rparr>);
          (ok, ms) = finish_io env (foldl (do_write (dump_chunk env)) start_io ws)
      in if ok then Served (ms @ [Exit_Frame n]) ((chdir env (cwd w) w1)\<lparr>override := None\<rparr>) else Died ms)"

definition handle_request :: "exec_env \<Rightarrow> string \<Rightarrow> world \<Rightarrow> outcome" where
  "handle_request env req w =
     (case parse_request env req of
        Some (Object kvs) \<Rightarrow>
          (case value_str (Object kvs) ''op'' ''exec'' of
             None \<Rightarrow> Served [Exit_Frame 1] w
           | Some op \<Rightarrow>
               if op \<noteq> ''exec'' then Served [Exit_Frame 64] w
               else (case (value_str (Object kvs) ''cwd'' [], value_str (Object kvs) ''stdin'' []) of
                   (Some dir, Some stdin) \<Rightarrow>
                     (let argv = argv_of (member (Object kvs) ''argv'') in
                      if argv = [] then Served [Exit_Frame 64] w else execute env argv dir stdin w)
                 | _ \<Rightarrow> Served [Exit_Frame 1] w))
      | _ \<Rightarrow> Served [Exit_Frame 64] w)"

definition handleClient :: "exec_env \<Rightarrow> string \<Rightarrow> world \<Rightarrow> outcome" where
  "handleClient env inp w = (case readFrame inp of None \<Rightarrow> Served [] w | Some (req, _) \<Rightarrow> handle_request env req w)"

fun encode :: "exec_env \<Rightarrow> message \<Rightarrow> string" where
  "encode env (Chunk t x) = (case dump_chunk env t x of Some j \<Rightarrow> j | None \<Rightarrow> [])"
| "encode env (Exit_Frame n) = dump_exit env n"

definition wire :: "exec_env \<Rightarrow> message list \<Rightarrow> string" where
  "wire env ms = concat (map (\<lambda>m. frame (encode env m)) ms)"

function read_frames :: "string \<Rightarrow> string list" where
  "read_frames inp = (case readFrame inp of None \<Rightarrow> [] | Some (x, rest) \<Rightarrow> x # read_frames rest)"
  by pat_completeness auto
termination
  by (relation "measure length") (auto simp: readFrame_def Let_def split: if_splits)

declare read_frames.simps [simp del]

section \<open>Workers\<close>

text \<open>
  The accept loop compares the number of active workers with the cap and starts a thread; the
  thread counts itself when it begins to run and when it ends.
\<close>

record pool =
  starting :: nat
  active :: nat

definition kMaxWorkers :: nat where
  "kMaxWorkers = 32"

inductive pool_step :: "pool \<Rightarrow> pool \<Rightarrow> bool" where
  Accept: "active p < kMaxWorkers \<Longrightarrow> pool_step p (p\<lparr>starting := starting p + 1\<rparr>)"
| Refuse: "kMaxWorkers \<le> active p \<Longrightarrow> pool_step p p"
| Begin: "0 < starting p \<Longrightarrow> pool_step p (p\<lparr>starting := starting p - 1, active := active p + 1\<rparr>)"
| Finish: "0 < active p \<Longrightarrow> pool_step p (p\<lparr>active := active p - 1\<rparr>)"

section \<open>Frames read back\<close>

lemma char_word_byte: "char_word (byte_char n i) = drop_bit (8 * i) n AND 255"
proof -
  have "drop_bit (8 * i) n AND 255 \<le> (255 :: 32 word)" by (rule word_and_le1)
  then have "unat (drop_bit (8 * i) n AND 255) < 256" by (simp add: word_le_nat_alt)
  then show ?thesis by (simp add: char_word_def byte_char_def ccode_char_of)
qed

lemma bytes_word:
  "(drop_bit 0 n AND 255) OR push_bit 8 (drop_bit 8 n AND 255) OR push_bit 16 (drop_bit 16 n AND 255)
     OR push_bit 24 (drop_bit 24 n AND 255) = (n :: 32 word)" (is "?l = n")
proof (rule bit_word_eqI)
  fix k assume k: "k < LENGTH(32)"
  have m: "(255 :: 32 word) = mask 8" by (simp add: mask_eq_exp_minus_1)
  have lt: "k < 32" using k by simp
  consider "k < 8" | "8 \<le> k" "k < 16" | "16 \<le> k" "k < 24" | "24 \<le> k" by linarith
  then show "bit ?l k \<longleftrightarrow> bit n k"
    using lt by cases (auto simp: m bit_simps)
qed

lemma parseLength_frame: "parseLength (take 4 (frame json)) = word_of_nat (length json)"
  using bytes_word[of "word_of_nat (length json)"]
  by (simp add: parseLength_def frame_def Let_def char_word_byte numeral_eq_Suc)

lemma readFrame_frame:
  assumes "json \<noteq> []" and "length json \<le> max_frame"
  shows "readFrame (frame json @ rest) = Some (json, rest)"
proof -
  have t: "take 4 (frame json @ rest) = take 4 (frame json)" and d: "drop 4 (frame json @ rest) = json @ rest"
    and len: "\<not> length (frame json @ rest) < 4"
    by (simp_all add: frame_def Let_def numeral_eq_Suc)
  have "length json < 2 ^ 32" using assms(2) by (simp add: max_frame_def)
  then have n: "unat (word_of_nat (length json) :: 32 word) = length json"
    by (simp add: unsigned_of_nat take_bit_nat_eq_self)
  show ?thesis
    unfolding readFrame_def t d parseLength_frame n Let_def using len assms by simp
qed

lemma readFrame_empty: "readFrame [] = None"
  by (simp add: readFrame_def)

lemma read_frames_concat:
  "list_all (\<lambda>x. x \<noteq> [] \<and> length x \<le> max_frame) xs \<Longrightarrow> read_frames (concat (map frame xs)) = xs"
proof (induction xs)
  case (Cons x xs)
  then have "readFrame (frame x @ concat (map frame xs)) = Some (x, concat (map frame xs))" by (intro readFrame_frame) simp_all
  then have "read_frames (frame x @ concat (map frame xs)) = x # read_frames (concat (map frame xs))"
    by (subst read_frames.simps) (simp only: option.case prod.case)
  with Cons show ?case by simp
qed (simp add: read_frames.simps[of "[]"] readFrame_empty)

section \<open>What a request sends\<close>

fun tagged :: "message \<Rightarrow> (stream_tag \<times> char) list" where
  "tagged (Chunk t x) = map (Pair t) x"
| "tagged (Exit_Frame n) = []"

fun written :: "cmd_write \<Rightarrow> (stream_tag \<times> char) list" where
  "written (W_Out x) = map (Pair Out) x"
| "written (W_Err x) = map (Pair Err) x"
| "written W_Flush = []"

definition sent_chars :: "message list \<Rightarrow> (stream_tag \<times> char) list" where
  "sent_chars ms = concat (map tagged ms)"

fun good_chunk :: "(stream_tag \<Rightarrow> string \<Rightarrow> string option) \<Rightarrow> message \<Rightarrow> bool" where
  "good_chunk dmp (Chunk t x) \<longleftrightarrow> x \<noteq> [] \<and> length x \<le> 4096 \<and> dmp t x \<noteq> None"
| "good_chunk dmp (Exit_Frame n) \<longleftrightarrow> False"

lemma sent_chars_simps [simp]:
  "sent_chars [] = []" "sent_chars (m # ms) = tagged m @ sent_chars ms" "sent_chars (ms @ ms') = sent_chars ms @ sent_chars ms'"
  by (simp_all add: sent_chars_def)

text \<open>A flush of a buffer of at most 4096 bytes.\<close>

lemma sync_spec:
  assumes "sync dmp t b = (ms, b')" and "length (pending b) \<le> 4096"
  shows "list_all (good_chunk dmp) ms" and "\<not> bad b' \<Longrightarrow> \<not> bad b"
    and "\<not> bad b' \<Longrightarrow> sent_chars ms = map (Pair t) (pending b) \<and> pending b' = []"
    and "bad b' \<Longrightarrow> \<not> bad b \<Longrightarrow> pending b' \<noteq> [] \<and> dmp t (pending b') = None"
  using assms by (auto simp: sync_def split: if_splits option.splits)

text \<open>Bytes put on a stream that stays good are sent in order or wait, fewer than 4096 of them.\<close>

lemma put_chars_spec:
  "\<lbrakk>put_chars dmp t cs b = (ms, b'); length (pending b) < 4096\<rbrakk> \<Longrightarrow>
    list_all (good_chunk dmp) ms \<and> (\<not> bad b' \<longrightarrow> \<not> bad b \<and> length (pending b') < 4096 \<and>
      sent_chars ms @ map (Pair t) (pending b') = map (Pair t) (pending b @ cs))"
proof (induction cs arbitrary: b ms)
  case (Cons c cs)
  show ?case
  proof (cases "bad b \<or> length (pending b) < 4095")
    case True
    then show ?thesis using Cons.prems Cons.IH[of "b\<lparr>pending := pending b @ [c]\<rparr>" ms] by (auto split: if_splits)
  next
    case False
    obtain m1 b1 where one: "sync dmp t (b\<lparr>pending := pending b @ [c]\<rparr>) = (m1, b1)" by force
    obtain m2 where two: "put_chars dmp t cs b1 = (m2, b')" "ms = m1 @ m2"
      using Cons.prems(1) False one by (auto simp: overflow_def split: prod.splits)
    have "length (pending (b\<lparr>pending := pending b @ [c]\<rparr>)) \<le> 4096" using Cons.prems(2) by simp
    note one_spec = sync_spec[OF one this]
    show ?thesis
    proof (cases "bad b1")
      case True
      then have "put_chars dmp t cs b1 = ([], b1)" by (cases cs) simp_all
      then show ?thesis using two one_spec(1) True by simp
    next
      case ok: False
      then have "length (pending b1) < 4096" using one_spec(3) by simp
      from Cons.IH[OF two(1) this] show ?thesis using two(2) one_spec ok by auto
    qed
  qed
qed simp

text \<open>A bad stream stays bad, with bytes that cannot be printed.\<close>

definition stuck :: "(stream_tag \<Rightarrow> string \<Rightarrow> string option) \<Rightarrow> stream_tag \<Rightarrow> ipc_buf \<Rightarrow> bool" where
  "stuck dmp t b \<longleftrightarrow> length (pending b) \<le> 4096 \<and>
     (if bad b then pending b \<noteq> [] \<and> dmp t (pending b) = None else length (pending b) < 4096)"

lemma sync_stuck:
  "stuck dmp t b \<Longrightarrow> sync dmp t b = (ms, b') \<Longrightarrow> stuck dmp t b' \<and> (bad b \<longrightarrow> bad b') \<and> list_all (good_chunk dmp) ms \<and>
    set (pending b') \<subseteq> set (pending b)"
  by (auto simp: stuck_def sync_def split: if_splits option.splits)

lemma overflow_stuck:
  "length (pending b) < 4096 \<Longrightarrow> sync dmp t (b\<lparr>pending := pending b @ [c]\<rparr>) = (ms, b') \<Longrightarrow> \<not> bad b \<Longrightarrow>
    stuck dmp t b' \<and> list_all (good_chunk dmp) ms \<and> set (pending b') \<subseteq> insert c (set (pending b))"
  by (auto simp: stuck_def sync_def split: if_splits option.splits)

lemma put_chars_stuck:
  "stuck dmp t b \<Longrightarrow> put_chars dmp t cs b = (ms, b') \<Longrightarrow> stuck dmp t b' \<and> (bad b \<longrightarrow> bad b') \<and> list_all (good_chunk dmp) ms \<and>
    set (pending b') \<subseteq> set (pending b) \<union> set cs"
proof (induction cs arbitrary: b ms)
  case (Cons c cs)
  show ?case
  proof (cases "bad b \<or> length (pending b) < 4095")
    case True
    then show ?thesis
      using Cons.prems Cons.IH[of "b\<lparr>pending := pending b @ [c]\<rparr>" ms] by (auto simp: stuck_def split: if_splits)
  next
    case False
    obtain m1 b1 where one: "sync dmp t (b\<lparr>pending := pending b @ [c]\<rparr>) = (m1, b1)" by force
    obtain m2 where two: "put_chars dmp t cs b1 = (m2, b')" "ms = m1 @ m2"
      using Cons.prems(2) False one by (auto simp: overflow_def split: prod.splits)
    have "length (pending b) < 4096" "\<not> bad b" using Cons.prems(1) False by (auto simp: stuck_def split: if_splits)
    from overflow_stuck[OF this(1) one this(2)] Cons.IH[OF _ two(1)] two(2) False show ?thesis by auto
  qed
qed simp

fun write_text :: "cmd_write \<Rightarrow> string" where
  "write_text (W_Out x) = x"
| "write_text (W_Err x) = x"
| "write_text W_Flush = []"

definition chars_of :: "cmd_write list \<Rightarrow> char set" where
  "chars_of ws = (\<Union>w \<in> set ws. set (write_text w))"

lemma chars_of_simps [simp]: "chars_of [] = {}" "chars_of (ws @ [w]) = chars_of ws \<union> set (write_text w)"
  by (auto simp: chars_of_def)

text \<open>The streams after a list of writes.\<close>

definition io_inv :: "(stream_tag \<Rightarrow> string \<Rightarrow> string option) \<Rightarrow> cmd_write list \<Rightarrow> io \<Rightarrow> bool" where
  "io_inv dmp ws s \<longleftrightarrow> list_all (good_chunk dmp) (sent s) \<and> stuck dmp Out (out_buf s) \<and> stuck dmp Err (err_buf s) \<and>
     set (pending (out_buf s)) \<union> set (pending (err_buf s)) \<subseteq> chars_of ws \<and>
     (\<not> bad (out_buf s) \<and> \<not> bad (err_buf s) \<longrightarrow> pending (err_buf s) = [] \<and>
        sent_chars (sent s) @ map (Pair Out) (pending (out_buf s)) = concat (map written ws))"

lemma io_inv_start: "io_inv dmp [] start_io"
  by (simp add: io_inv_def start_io_def empty_buf_def stuck_def)

lemma flush_out_inv:
  assumes "io_inv dmp ws s"
  shows "io_inv dmp ws (flush_out dmp s)" "bad (out_buf s) \<Longrightarrow> bad (out_buf (flush_out dmp s))"
    "err_buf (flush_out dmp s) = err_buf s" "\<not> bad (out_buf (flush_out dmp s)) \<Longrightarrow> pending (out_buf (flush_out dmp s)) = []"
proof -
  obtain ms b where one: "sync dmp Out (out_buf s) = (ms, b)" by force
  have st: "stuck dmp Out (out_buf s)" "length (pending (out_buf s)) \<le> 4096" using assms by (auto simp: io_inv_def stuck_def)
  note spec = sync_stuck[OF st(1) one] sync_spec(3)[OF one st(2)]
  show "io_inv dmp ws (flush_out dmp s)" "bad (out_buf s) \<Longrightarrow> bad (out_buf (flush_out dmp s))"
    "err_buf (flush_out dmp s) = err_buf s" "\<not> bad (out_buf (flush_out dmp s)) \<Longrightarrow> pending (out_buf (flush_out dmp s)) = []"
    using assms spec by (auto simp: flush_out_def io_inv_def one)
qed

lemma do_write_inv:
  assumes "io_inv dmp ws s"
  shows "io_inv dmp (ws @ [x]) (do_write dmp s x)"
proof (cases x)
  case (W_Out cs)
  obtain ms b where one: "put_chars dmp Out cs (out_buf s) = (ms, b)" by force
  have st: "stuck dmp Out (out_buf s)" using assms by (simp add: io_inv_def)
  note spec = put_chars_stuck[OF st one]
  have "sent_chars ms @ map (Pair Out) (pending b) = map (Pair Out) (pending (out_buf s) @ cs)" if "\<not> bad b"
    using put_chars_spec[OF one] st spec that by (auto simp: stuck_def)
  then show ?thesis using assms spec by (auto simp: io_inv_def W_Out one)
next
  case (W_Err cs)
  define s1 where "s1 = flush_out dmp s"
  have s1: "io_inv dmp ws s1" "\<not> bad (out_buf s1) \<Longrightarrow> pending (out_buf s1) = []"
    unfolding s1_def using flush_out_inv[OF assms] by blast+
  obtain m1 b1 where one: "put_chars dmp Err cs (err_buf s1) = (m1, b1)" by force
  obtain m2 b2 where two: "sync dmp Err b1 = (m2, b2)" by force
  have st: "stuck dmp Err (err_buf s1)" using s1(1) by (simp add: io_inv_def)
  note spec1 = put_chars_stuck[OF st one]
  have st1: "stuck dmp Err b1" "length (pending b1) \<le> 4096" using spec1 by (auto simp: stuck_def)
  note spec2 = sync_stuck[OF st1(1) two]
  have res: "do_write dmp s x = s1\<lparr>err_buf := b2, sent := (sent s1 @ m1) @ m2\<rparr>"
    by (simp add: W_Err s1_def[symmetric] Let_def one flush_err_def two del: append_assoc)
  have "sent_chars m1 @ sent_chars m2 = map (Pair Err) (pending (err_buf s1) @ cs) \<and> pending b2 = []" if "\<not> bad b2"
    using put_chars_spec[OF one] st spec1 spec2 that sync_spec(3)[OF two st1(2)] by (auto simp: stuck_def split: if_splits)
  then show ?thesis using s1 spec1 spec2 unfolding res by (auto simp: io_inv_def W_Err)
next
  case W_Flush
  then show ?thesis using flush_out_inv(1)[OF assms] by (simp add: io_inv_def)
qed

lemma do_writes_inv: "io_inv dmp ws (foldl (do_write dmp) start_io ws)"
proof -
  have "io_inv dmp us s \<Longrightarrow> io_inv dmp (us @ ws) (foldl (do_write dmp) s ws)" for us s
  proof (induction ws arbitrary: us s)
    case (Cons x ws)
    from Cons.IH[OF do_write_inv[OF Cons.prems, of x]] show ?case by simp
  qed simp
  from this[OF io_inv_start] show ?thesis by simp
qed

lemma finish_io_spec:
  assumes "io_inv (dump_chunk env) ws s" and "finish_io env s = (ok, ms)"
  shows "list_all (good_chunk (dump_chunk env)) ms" "ok \<Longrightarrow> sent_chars ms = concat (map written ws)"
    "\<not> ok \<Longrightarrow> \<exists>t x. set x \<subseteq> chars_of ws \<and> dump_chunk env t x = None"
proof -
  define s1 where "s1 = flush_out (dump_chunk env) s"
  obtain m b where one: "sync (dump_chunk env) Err (err_buf s1) = (m, b)" by force
  have s1: "io_inv (dump_chunk env) ws s1" "\<not> bad (out_buf s1) \<Longrightarrow> pending (out_buf s1) = []"
    unfolding s1_def using flush_out_inv[OF assms(1)] by blast+
  have st: "stuck (dump_chunk env) Err (err_buf s1)" "length (pending (err_buf s1)) \<le> 4096"
    using s1(1) by (auto simp: io_inv_def stuck_def)
  have fin: "finish_io env s = (if bad (out_buf s1) then (False, sent s1) else (\<not> bad b, sent s1 @ m))"
    by (simp add: finish_io_def s1_def[symmetric] flush_err_def one)
  note spec = sync_stuck[OF st(1) one] sync_spec(3)[OF one st(2)]
  show "list_all (good_chunk (dump_chunk env)) ms"
    using fin assms(2) s1(1) spec by (auto simp: io_inv_def split: if_splits)
  show "sent_chars ms = concat (map written ws)" if ok
  proof -
    have "\<not> bad (out_buf s1)" "\<not> bad b" "ms = sent s1 @ m" using fin assms(2) that by (auto split: if_splits)
    then show ?thesis using s1 spec by (auto simp: io_inv_def)
  qed
  show "\<exists>t x. set x \<subseteq> chars_of ws \<and> dump_chunk env t x = None" if nok: "\<not> ok"
  proof (cases "bad (out_buf s1)")
    case True
    then show ?thesis using s1(1) by (intro exI[of _ Out] exI[of _ "pending (out_buf s1)"]) (simp add: io_inv_def stuck_def)
  next
    case False
    then have "bad b" using fin assms(2) nok by simp
    then show ?thesis using s1(1) spec by (intro exI[of _ Err] exI[of _ "pending b"]) (auto simp: io_inv_def stuck_def)
  qed
qed

fun chunk_sized :: "message \<Rightarrow> bool" where
  "chunk_sized (Chunk t x) \<longleftrightarrow> x \<noteq> [] \<and> length x \<le> 4096"
| "chunk_sized (Exit_Frame n) \<longleftrightarrow> False"

text \<open>Every request that is read and does not kill the process gets exactly one terminal frame, the last.\<close>

lemma execute_served:
  assumes "execute env argv dir stdin w = Served ms w'"
  shows "\<exists>cs n. ms = cs @ [Exit_Frame n] \<and> list_all chunk_sized cs"
proof -
  obtain ws n w1 where run: "run_command env argv stdin ((chdir env dir w)\<lparr>override := None\<rparr>) = (ws, n, w1)"
    by (cases "run_command env argv stdin ((chdir env dir w)\<lparr>override := None\<rparr>)") auto
  obtain ok cs where fin: "finish_io env (foldl (do_write (dump_chunk env)) start_io ws) = (ok, cs)" by force
  have "list_all chunk_sized cs"
    using finish_io_spec(1)[OF do_writes_inv fin] by (rule list.pred_mono_strong) (metis chunk_sized.simps(1) good_chunk.elims(2))
  then show ?thesis using assms by (auto simp: execute_def run fin split: if_splits)
qed

text \<open>
  Whatever the request, if the process survives it and a frame is sent at all, the frames are
  chunks of at most 4096 bytes followed by exactly one terminal frame.
\<close>

theorem one_terminal_frame:
  assumes "handleClient env inp w = Served ms w'" and "readFrame inp = Some (req, rest)"
  shows "\<exists>cs n. ms = cs @ [Exit_Frame n] \<and> list_all chunk_sized cs"
proof -
  have single: "\<exists>cs n. [Exit_Frame k] = cs @ [Exit_Frame n] \<and> list_all chunk_sized cs" for k
    by (intro exI[of _ "[]"]) simp
  show ?thesis
    using assms single execute_served
    by (auto simp: handleClient_def handle_request_def Let_def split: option.splits json.splits if_splits)
qed

lemma execute_ascii:
  assumes "run_command env argv stdin ((chdir env dir w)\<lparr>override := None\<rparr>) = (ws, n, w1)"
    and "\<forall>c \<in> chars_of ws. ccode c < 128" and "\<And>t x. \<forall>c \<in> set x. ccode c < 128 \<Longrightarrow> dump_chunk env t x \<noteq> None"
  shows "\<exists>cs. execute env argv dir stdin w = Served (cs @ [Exit_Frame n]) ((chdir env (cwd w) w1)\<lparr>override := None\<rparr>) \<and>
    sent_chars cs = concat (map written ws) \<and> list_all (good_chunk (dump_chunk env)) cs"
proof -
  obtain ok cs where fin: "finish_io env (foldl (do_write (dump_chunk env)) start_io ws) = (ok, cs)" by force
  note spec = finish_io_spec[OF do_writes_inv fin]
  have ok using spec(3) assms(2,3) by blast
  then show ?thesis using spec(1,2) by (simp add: execute_def assms(1) fin)
qed

definition request_parts :: "json \<Rightarrow> string list \<Rightarrow> string \<Rightarrow> string \<Rightarrow> bool" where
  "request_parts j argv dir stdin \<longleftrightarrow> (case j of Object kvs \<Rightarrow> value_str j ''op'' ''exec'' = Some ''exec'' \<and>
     argv_of (member j ''argv'') = argv \<and> argv \<noteq> [] \<and> value_str j ''cwd'' [] = Some dir \<and> value_str j ''stdin'' [] = Some stdin | _ \<Rightarrow> False)"

lemma handleClient_exec:
  assumes "parse_request env req = Some j" and "request_parts j argv dir stdin" and "req \<noteq> []" and "length req \<le> max_frame"
  shows "handleClient env (frame req @ rest) w = execute env argv dir stdin w"
proof -
  obtain kvs where j: "j = Object kvs" using assms(2) by (cases j) (simp_all add: request_parts_def)
  have parts: "value_str (Object kvs) ''op'' ''exec'' = Some ''exec''" "argv_of (member (Object kvs) ''argv'') = argv"
    "argv \<noteq> []" "value_str (Object kvs) ''cwd'' [] = Some dir" "value_str (Object kvs) ''stdin'' [] = Some stdin"
    using assms(2) by (simp_all add: j request_parts_def del: value_str.simps member.simps)
  show ?thesis
    unfolding handleClient_def readFrame_frame[OF assms(3,4)] option.case prod.case handle_request_def assms(1) j json.case parts
    using parts(3) by simp
qed

lemma client_reads:
  assumes "list_all (good_chunk (dump_chunk env)) cs"
    and "\<And>t x j. dump_chunk env t x = Some j \<Longrightarrow> j \<noteq> [] \<and> length j \<le> 6 * length x + 16"
    and "dump_exit env n \<noteq> []" and "length (dump_exit env n) \<le> 64"
  shows "read_frames (wire env (cs @ [Exit_Frame n])) = map (encode env) (cs @ [Exit_Frame n])"
proof -
  have "encode env m \<noteq> [] \<and> length (encode env m) \<le> max_frame" if "good_chunk (dump_chunk env) m" for m
  proof -
    from that obtain t x where m: "m = Chunk t x" "length x \<le> 4096" "dump_chunk env t x \<noteq> None"
      by (cases m) auto
    then obtain j where "dump_chunk env t x = Some j" by blast
    with assms(2)[OF this] m show ?thesis by (simp add: max_frame_def)
  qed
  then have "list_all (\<lambda>x. x \<noteq> [] \<and> length x \<le> max_frame) (map (encode env) (cs @ [Exit_Frame n]))"
    using assms(1,3,4) by (auto simp: list_all_iff max_frame_def)
  from read_frames_concat[OF this] show ?thesis by (simp add: wire_def o_def)
qed

text \<open>
  Property C10. A request for a command whose output is ASCII is answered in full: the client reads back
  exactly the frames sent, which carry every byte the command wrote to its two streams, in the
  order it wrote them, and end in its exit code. Afterwards the server is in the directory it was
  in before the request if that still can be entered, else in the one the command left it in, and
  the project override is off, whatever it was before and whatever the command set it to.
\<close>

theorem exec_request_answered:
  assumes "parse_request env req = Some j" and "request_parts j argv dir stdin" and "req \<noteq> []" and "length req \<le> max_frame"
    and "run_command env argv stdin ((chdir env dir w)\<lparr>override := None\<rparr>) = (ws, n, w1)"
    and "\<forall>c \<in> chars_of ws. ccode c < 128" and "\<And>t x. \<forall>c \<in> set x. ccode c < 128 \<Longrightarrow> dump_chunk env t x \<noteq> None"
    and "\<And>t x y. dump_chunk env t x = Some y \<Longrightarrow> y \<noteq> [] \<and> length y \<le> 6 * length x + 16"
    and "dump_exit env n \<noteq> []" and "length (dump_exit env n) \<le> 64"
  shows "\<exists>cs w'. handleClient env (frame req @ rest) w = Served (cs @ [Exit_Frame n]) w' \<and>
    read_frames (wire env (cs @ [Exit_Frame n])) = map (encode env) cs @ [dump_exit env n] \<and>
    sent_chars cs = concat (map written ws) \<and>
    cwd w' = (if cwd w \<noteq> [] \<and> can_enter env (cwd w) then cwd w else cwd w1) \<and> override w' = None"
proof -
  obtain cs where cs: "execute env argv dir stdin w = Served (cs @ [Exit_Frame n]) ((chdir env (cwd w) w1)\<lparr>override := None\<rparr>)"
    "sent_chars cs = concat (map written ws)" "list_all (good_chunk (dump_chunk env)) cs"
    using execute_ascii[OF assms(5-7)] by blast
  have "cwd ((chdir env (cwd w) w1)\<lparr>override := None\<rparr>) = (if cwd w \<noteq> [] \<and> can_enter env (cwd w) then cwd w else cwd w1)"
    by (simp add: chdir_def)
  then show ?thesis
    using handleClient_exec[OF assms(1-4), of rest w] cs client_reads[OF cs(3) assms(8-10)] by simp
qed

section \<open>A character split between two chunks\<close>

lemma put_chars_short:
  "\<not> bad b \<Longrightarrow> length (pending b) + length x \<le> 4095 \<Longrightarrow> put_chars dmp t (x @ cs) b = put_chars dmp t cs (b\<lparr>pending := pending b @ x\<rparr>)"
proof (induction x arbitrary: b)
  case (Cons c x)
  then have "put_chars dmp t (x @ cs) (b\<lparr>pending := pending b @ [c]\<rparr>) = put_chars dmp t cs (b\<lparr>pending := (pending b @ [c]) @ x\<rparr>)"
    by (subst Cons.IH) simp_all
  then show ?case using Cons.prems by simp
qed simp

text \<open>
  Property C39. Output that is valid text can kill the server: when a character of several bytes starts on the
  last byte of a chunk, the chunk ends within the character and cannot be printed as JSON; the
  exception leaves through the buffer's destructor and the process is terminated, with nothing
  of the command's output sent, not even a terminal frame.
\<close>

theorem split_character_kills_server:
  assumes "run_command env argv stdin ((chdir env dir w)\<lparr>override := None\<rparr>) = ([W_Out (x @ c # y)], n, w1)"
    and "length x = 4095" and "dump_chunk env Out (x @ [c]) = None"
  shows "execute env argv dir stdin w = Died []"
proof -
  have "put_chars (dump_chunk env) Out (x @ c # y) empty_buf = put_chars (dump_chunk env) Out (c # y) \<lparr>pending = x, bad = False\<rparr>"
    using put_chars_short[of empty_buf x "dump_chunk env" Out "c # y"] assms(2) by (simp add: empty_buf_def)
  also have "\<dots> = ([], \<lparr>pending = x @ [c], bad = True\<rparr>)"
    using assms(2,3) by (cases y) (simp_all add: overflow_def sync_def)
  finally have "do_write (dump_chunk env) start_io (W_Out (x @ c # y)) = start_io\<lparr>out_buf := \<lparr>pending = x @ [c], bad = True\<rparr>\<rparr>"
    by (simp add: start_io_def)
  then show ?thesis using assms(3) by (simp add: execute_def assms(1) finish_io_def flush_out_def sync_def start_io_def)
qed

section \<open>The cap on workers\<close>

inductive pool_run :: "nat \<Rightarrow> pool \<Rightarrow> bool" where
  Start: "pool_run k \<lparr>starting = 0, active = 0\<rparr>"
| Step: "pool_run k p \<Longrightarrow> pool_step p q \<Longrightarrow> starting q \<le> k \<Longrightarrow> pool_run k q"

inductive_cases pool_stepE: "pool_step p q"

text \<open>
  The cap holds up to the threads that have been started and have not begun: in any run in which
  at most \<open>k\<close> threads are ever waiting to begin, at most \<open>31 + k\<close> requests are in work; so the
  cap of 32 holds when the accept loop never gets ahead of more than one thread.
\<close>

theorem workers_bounded: "pool_run k p \<Longrightarrow> active p + starting p \<le> kMaxWorkers - 1 + k"
proof (induction rule: pool_run.induct)
  case (Step k p q)
  from Step.hyps(2) show ?case
    using Step.IH Step.hyps(3) by (cases rule: pool_step.cases) (auto simp: kMaxWorkers_def)
qed simp

text \<open>And no better: connections accepted before their threads begin pass the cap, by any number.\<close>

lemma cap_can_be_passed: "\<exists>p. pool_run k p \<and> active p = kMaxWorkers - 1 + k" if "0 < k"
proof -
  have begin_one: "pool_run k \<lparr>starting = 0, active = m\<rparr>" if "m \<le> kMaxWorkers - 1" for m
    using that
  proof (induction m)
    case (Suc m)
    then have run: "pool_run k \<lparr>starting = 0, active = m\<rparr>" and "m < kMaxWorkers" by (simp_all add: kMaxWorkers_def)
    then have "pool_step \<lparr>starting = 0, active = m\<rparr> \<lparr>starting = 1, active = m\<rparr>"
      using pool_step.Accept[of "\<lparr>starting = 0, active = m\<rparr>"] by simp
    then have "pool_run k \<lparr>starting = 1, active = m\<rparr>" using run \<open>0 < k\<close> pool_run.Step[OF run] by simp
    moreover have "pool_step \<lparr>starting = 1, active = m\<rparr> \<lparr>starting = 0, active = Suc m\<rparr>"
      using pool_step.Begin[of "\<lparr>starting = 1, active = m\<rparr>"] by simp
    ultimately show ?case by (rule pool_run.Step) simp
  qed (rule pool_run.Start)
  have queue: "pool_run k \<lparr>starting = j, active = kMaxWorkers - 1\<rparr>" if "j \<le> k" for j
    using that
  proof (induction j)
    case (Suc j)
    have "pool_step \<lparr>starting = j, active = kMaxWorkers - 1\<rparr> \<lparr>starting = Suc j, active = kMaxWorkers - 1\<rparr>"
      using pool_step.Accept[of "\<lparr>starting = j, active = kMaxWorkers - 1\<rparr>"] by (simp add: kMaxWorkers_def)
    from pool_run.Step[OF Suc.IH this] Suc.prems show ?case by simp
  qed (use begin_one in simp)
  have drain: "pool_run k \<lparr>starting = k - j, active = kMaxWorkers - 1 + j\<rparr>" if "j \<le> k" for j
    using that
  proof (induction j)
    case (Suc j)
    have "pool_step \<lparr>starting = k - j, active = kMaxWorkers - 1 + j\<rparr> \<lparr>starting = k - Suc j, active = kMaxWorkers - 1 + Suc j\<rparr>"
      using pool_step.Begin[of "\<lparr>starting = k - j, active = kMaxWorkers - 1 + j\<rparr>"] Suc.prems by simp
    from pool_run.Step[OF Suc.IH this] Suc.prems show ?case by simp
  qed (use queue in simp)
  from drain[of k] show ?thesis by (intro exI[of _ "\<lparr>starting = k - k, active = kMaxWorkers - 1 + k\<rparr>"]) simp
qed

theorem workers_bounded_witness:
  "active \<lparr>starting = 0, active = 1\<rparr> + starting \<lparr>starting = 0, active = 1\<rparr> \<le> kMaxWorkers - 1 + 1"
proof (rule workers_bounded)
  have "pool_step \<lparr>starting = 0, active = 0\<rparr> \<lparr>starting = 1, active = 0\<rparr>"
    using pool_step.Accept[of "\<lparr>starting = 0, active = 0\<rparr>"] by (simp add: kMaxWorkers_def)
  from pool_run.Step[OF pool_run.Start this] have run: "pool_run 1 \<lparr>starting = 1, active = 0\<rparr>" by simp
  have "pool_step \<lparr>starting = 1, active = 0\<rparr> \<lparr>starting = 0, active = 1\<rparr>"
    using pool_step.Begin[of "\<lparr>starting = 1, active = 0\<rparr>"] by simp
  from pool_run.Step[OF run this] show "pool_run 1 \<lparr>starting = 0, active = 1\<rparr>" by simp
qed

section \<open>Concrete runs\<close>

text \<open>A JSON printer that refuses a lead byte at the end of a text, and a server with one command.\<close>

definition demo_dump :: "stream_tag \<Rightarrow> string \<Rightarrow> string option" where
  "demo_dump t x = (if x \<noteq> [] \<and> 192 \<le> ccode (last x) then None else Some ((case t of Out \<Rightarrow> ''o'' | Err \<Rightarrow> ''e'') @ x))"

definition demo_env :: "string \<Rightarrow> exec_env" where
  "demo_env output = \<lparr>parse_request = (\<lambda>req. Some (Object [(''argv'', Array [Text ''show'', Text req])])),
     create = (\<lambda>name. if name = ''show'' then Some (\<lambda>args stdin w. ([W_Out output, W_Err ''warn'', W_Out ''!''], Exit_Code 3, w\<lparr>cwd := ''/tmp''\<rparr>)) else None),
     dump_chunk = demo_dump, dump_exit = (\<lambda>n. ''x''), can_enter = (\<lambda>_. True)\<rparr>"

theorem exec_request_answered_witness:
  "\<exists>cs w'. handleClient (demo_env ''abc'') (frame ''r'' @ []) \<lparr>cwd = ''/home'', override = Some ''/p.db''\<rparr> = Served (cs @ [Exit_Frame 3]) w' \<and>
    read_frames (wire (demo_env ''abc'') (cs @ [Exit_Frame 3])) = map (encode (demo_env ''abc'')) cs @ [dump_exit (demo_env ''abc'') 3] \<and>
    sent_chars cs = map (Pair Out) ''abc'' @ map (Pair Err) ''warn'' @ [(Out, CHR ''!'')] \<and> cwd w' = ''/home'' \<and> override w' = None"
proof -
  let ?w = "\<lparr>cwd = ''/home'', override = Some ''/p.db''\<rparr>" and ?ws = "[W_Out ''abc'', W_Err ''warn'', W_Out ''!'']"
  have run: "run_command (demo_env ''abc'') [''show'', ''r''] [] ((chdir (demo_env ''abc'') [] ?w)\<lparr>override := None\<rparr>) =
      (?ws, 3, \<lparr>cwd = ''/tmp'', override = None\<rparr>)"
    by (simp add: run_command_def demo_env_def chdir_def)
  have "\<exists>cs w'. handleClient (demo_env ''abc'') (frame ''r'' @ []) ?w = Served (cs @ [Exit_Frame 3]) w' \<and>
    read_frames (wire (demo_env ''abc'') (cs @ [Exit_Frame 3])) = map (encode (demo_env ''abc'')) cs @ [dump_exit (demo_env ''abc'') 3] \<and>
    sent_chars cs = concat (map written ?ws) \<and>
    cwd w' = (if cwd ?w \<noteq> [] \<and> can_enter (demo_env ''abc'') (cwd ?w) then cwd ?w else cwd \<lparr>cwd = ''/tmp'', override = None\<rparr>) \<and> override w' = None"
  proof (rule exec_request_answered[where j = "Object [(''argv'', Array [Text ''show'', Text ''r''])]" and dir = "[]", OF _ _ _ _ run])
    show "\<forall>c \<in> chars_of ?ws. ccode c < 128" by (simp add: chars_of_def ccode_def)
    show "dump_chunk (demo_env ''abc'') t x \<noteq> None" if "\<forall>c \<in> set x. ccode c < 128" for t x
    proof (cases "x = []")
      case False
      then have "ccode (last x) < 128" using that by simp
      then show ?thesis by (simp add: demo_env_def demo_dump_def)
    qed (simp add: demo_env_def demo_dump_def)
    show "y \<noteq> [] \<and> length y \<le> 6 * length x + 16" if "dump_chunk (demo_env ''abc'') t x = Some y" for t x y
      using that by (auto simp: demo_env_def demo_dump_def split: if_splits stream_tag.splits)
  qed (simp_all add: demo_env_def request_parts_def max_frame_def List.map_filter_def)
  then show ?thesis by (simp add: demo_env_def)
qed

definition killer_env :: exec_env where
  "killer_env = (demo_env [])\<lparr>create := (\<lambda>_. Some (\<lambda>args stdin w. ([W_Out (replicate 4095 (CHR ''a'') @ char_of (195 :: nat) # [char_of (169 :: nat)])], Exit_Code 0, w)))\<rparr>"

theorem split_character_kills_server_witness:
  "execute killer_env [''show''] [] [] \<lparr>cwd = ''/home'', override = None\<rparr> = Died []"
  by (rule split_character_kills_server[where x = "replicate 4095 (CHR ''a'')" and c = "char_of (195 :: nat)" and y = "[char_of (169 :: nat)]"
        and n = 0 and ?w1.0 = "\<lparr>cwd = ''/home'', override = None\<rparr>"])
     (simp_all add: killer_env_def demo_env_def run_command_def chdir_def demo_dump_def ccode_char_of)

theorem one_terminal_frame_witness:
  "\<exists>cs n. [Exit_Frame 64] = cs @ [Exit_Frame n] \<and> list_all chunk_sized cs"
  by (rule one_terminal_frame[where env = "(demo_env [])\<lparr>parse_request := (\<lambda>_. None)\<rparr>" and inp = "frame ''?'' @ []" and req = "''?''" and rest = "[]"
        and w = "\<lparr>cwd = [], override = None\<rparr>" and w' = "\<lparr>cwd = [], override = None\<rparr>"])
     (simp_all add: handleClient_def handle_request_def readFrame_frame[where rest = "[]", simplified] max_frame_def)

end
