(* ===== verification/Wordpiece.thy ===== *)
theory Wordpiece
  imports CxxString
begin

text \<open>
  The WordPiece tokenizer of \<open>embed/wordpiece_tokenizer.cpp\<close> and \<open>.hpp\<close>. The vocabulary is an
  association list, the newest entry first; the vocabulary file is its content. The lemmas show
  that a word is cut into the longest pieces of the vocabulary from the left, that an encoded
  text has the shape the model asks for, and how a pair is trimmed to its budget.
\<close>

section \<open>The code\<close>

type_synonym vocab = "(string \<times> int) list"

definition PAD_ID :: int where "PAD_ID = 0"
definition UNK_ID :: int where "UNK_ID = 100"
definition CLS_ID :: int where "CLS_ID = 101"
definition SEP_ID :: int where "SEP_ID = 102"

fun vocab_lines :: "vocab \<Rightarrow> int \<Rightarrow> string list \<Rightarrow> vocab" where
  "vocab_lines v idx [] = v"
| "vocab_lines v idx (l # ls) =
     (let line = chop_cr l in vocab_lines (if line \<noteq> [] then (line, idx) # v else v) (idx + 1) ls)"

definition loadVocab :: "string option \<Rightarrow> vocab \<Rightarrow> bool \<times> vocab" where
  "loadVocab content v =
     (case content of None \<Rightarrow> (False, v)
      | Some x \<Rightarrow> (let v' = vocab_lines v 0 (getlines x) in (v' \<noteq> [], v')))"

definition ready :: "vocab \<Rightarrow> bool" where
  "ready v \<longleftrightarrow> v \<noteq> []"

definition isPunct :: "char \<Rightarrow> bool" where
  "isPunct c \<longleftrightarrow> 33 \<le> ccode c \<and> ccode c \<le> 47 \<or> 58 \<le> ccode c \<and> ccode c \<le> 64 \<or> 91 \<le> ccode c \<and> ccode c \<le> 96
     \<or> 123 \<le> ccode c \<and> ccode c \<le> 126"

fun split_words :: "string \<Rightarrow> string \<Rightarrow> string list" where
  "split_words cur [] = (if cur \<noteq> [] then [cur] else [])"
| "split_words cur (c # s) =
     (if is_space c then (if cur \<noteq> [] then cur # split_words [] s else split_words [] s)
      else if isPunct c then (if cur \<noteq> [] then cur # [c] # split_words [] s else [c] # split_words [] s)
      else split_words (cur @ [c]) s)"

definition splitWhitespacePunct :: "string \<Rightarrow> string list" where
  "splitWhitespacePunct s = split_words [] s"

definition lookupId :: "vocab \<Rightarrow> string \<Rightarrow> int" where
  "lookupId v token = (case map_of v token of Some i \<Rightarrow> i | None \<Rightarrow> UNK_ID)"

definition piece_text :: "nat \<Rightarrow> string \<Rightarrow> string" where
  "piece_text start sub = (if 0 < start then ''##'' @ sub else sub)"

text \<open>The inner loop: from the end of the word down to the start; the end found and its id.\<close>

fun longest_piece :: "vocab \<Rightarrow> string \<Rightarrow> nat \<Rightarrow> nat \<Rightarrow> (nat \<times> int) option" where
  "longest_piece v word start 0 = None"
| "longest_piece v word start (Suc e) =
     (if start < Suc e
      then (case map_of v (piece_text start (substr start (Suc e - start) word)) of
              Some i \<Rightarrow> Some (Suc e, i)
            | None \<Rightarrow> longest_piece v word start e)
      else None)"

lemma longest_piece_end: "longest_piece v word start e = Some (stop, i) \<Longrightarrow> start < stop \<and> stop \<le> e"
  by (induction v word start e rule: longest_piece.induct) (auto split: if_splits option.splits)

function split_from :: "vocab \<Rightarrow> string \<Rightarrow> nat \<Rightarrow> int list \<Rightarrow> int list" where
  "split_from v word start out =
     (if start < length word
      then (case longest_piece v word start (length word) of
              None \<Rightarrow> [UNK_ID]
            | Some (stop, i) \<Rightarrow> split_from v word stop (out @ [i]))
      else out)"
  by pat_completeness auto
termination
  by (relation "measure (\<lambda>(v, word, start, out). length word - start)")
     (auto dest: longest_piece_end)

declare split_from.simps [simp del]

definition wordpieceSplit :: "vocab \<Rightarrow> string \<Rightarrow> int list" where
  "wordpieceSplit v word = (if word = [] then [] else split_from v word 0 [])"

record token_list =
  input_ids :: "int list"
  attention_mask :: "int list"

text \<open>The loops over the words and the ids of a word, both of which stop when one place is left.\<close>

fun push_ids :: "nat \<Rightarrow> int list \<Rightarrow> int list \<Rightarrow> int list" where
  "push_ids m acc [] = acc"
| "push_ids m acc (i # ids) = (if m - 1 \<le> length acc then acc else push_ids m (acc @ [i]) ids)"

fun push_words :: "vocab \<Rightarrow> nat \<Rightarrow> int list \<Rightarrow> string list \<Rightarrow> int list" where
  "push_words v m acc [] = acc"
| "push_words v m acc (w # ws) =
     (let acc' = push_ids m acc (wordpieceSplit v w) in
      if m - 1 \<le> length acc' then acc' else push_words v m acc' ws)"

definition encode :: "vocab \<Rightarrow> string \<Rightarrow> int \<Rightarrow> token_list" where
  "encode v s max_len =
     (let m = nat (if max_len < 2 then 2 else max_len);
          ids = push_words v m [CLS_ID] (splitWhitespacePunct (lower_str s)) @ [SEP_ID];
          real = length ids;
          padded = ids @ replicate (m - real) PAD_ID
      in \<lparr>input_ids = padded, attention_mask = map (\<lambda>i. if i < real then 1 else 0) [0..<length padded]\<rparr>)"

record pair_tokens =
  pair_ids :: "int list"
  pair_mask :: "int list"
  token_type_ids :: "int list"

definition pieces :: "vocab \<Rightarrow> string \<Rightarrow> int list" where
  "pieces v s = concat (map (wordpieceSplit v) (splitWhitespacePunct (lower_str s)))"

function trim_pair :: "nat \<Rightarrow> int list \<Rightarrow> int list \<Rightarrow> int list \<times> int list" where
  "trim_pair budget ta tb =
     (if budget < length ta + length tb
      then (if length ta \<le> length tb \<and> tb \<noteq> [] then trim_pair budget ta (butlast tb)
            else if ta \<noteq> [] then trim_pair budget (butlast ta) tb
            else (ta, tb))
      else (ta, tb))"
  by pat_completeness auto
termination
  by (relation "measure (\<lambda>(b, ta, tb). length ta + length tb)")
     (auto simp: neq_Nil_conv)

declare trim_pair.simps [simp del]

definition encodePair :: "vocab \<Rightarrow> string \<Rightarrow> string \<Rightarrow> int \<Rightarrow> pair_tokens" where
  "encodePair v a b max_len =
     (let budget = nat (if 3 < max_len then max_len - 3 else 0);
          (ta, tb) = trim_pair budget (pieces v a) (pieces v b);
          first = [CLS_ID] @ ta @ [SEP_ID];
          ids = first @ tb @ [SEP_ID]
      in \<lparr>pair_ids = ids, pair_mask = replicate (length ids) 1,
          token_type_ids = replicate (length first) 0 @ replicate (length ids - length first) 1\<rparr>)"

section \<open>Words are cut greedily\<close>

lemma longest_piece_Some:
  "longest_piece v word start e = Some (stop, i) \<longleftrightarrow>
    start < stop \<and> stop \<le> e \<and> map_of v (piece_text start (substr start (stop - start) word)) = Some i \<and>
    (\<forall>k. stop < k \<and> k \<le> e \<longrightarrow> map_of v (piece_text start (substr start (k - start) word)) = None)"
proof (induction e)
  case (Suc e)
  have split: "(\<forall>k. stop < k \<and> k \<le> Suc e \<longrightarrow> P k) \<longleftrightarrow> (stop \<le> e \<longrightarrow> P (Suc e)) \<and> (\<forall>k. stop < k \<and> k \<le> e \<longrightarrow> P k)" for P
    by (auto simp: le_Suc_eq)
  show ?case
    using Suc unfolding split
    by (cases "stop = Suc e") (auto split: option.split)
qed auto

text \<open>
  The reference: a list of pieces of the rest of a word with their ids, each the longest text
  of the vocabulary the rest starts with; pieces after the first are looked up with \<open>##\<close>.
\<close>

definition lookup_piece :: "vocab \<Rightarrow> bool \<Rightarrow> string \<Rightarrow> int option" where
  "lookup_piece v first p = map_of v (if first then p else ''##'' @ p)"

fun greedy :: "vocab \<Rightarrow> bool \<Rightarrow> string \<Rightarrow> string list \<Rightarrow> int list \<Rightarrow> bool" where
  "greedy v first w [] ids \<longleftrightarrow> w = [] \<and> ids = []"
| "greedy v first w (p # ps) ids \<longleftrightarrow>
     (case ids of [] \<Rightarrow> False
      | i # is' \<Rightarrow> p \<noteq> [] \<and> take (length p) w = p \<and> lookup_piece v first p = Some i \<and>
          (\<forall>k \<in> {length p<..length w}. lookup_piece v first (take k w) = None) \<and> greedy v False (drop (length p) w) ps is')"

lemma greedy_concat: "greedy v first w ps ids \<Longrightarrow> concat ps = w \<and> [] \<notin> set ps \<and> length ids = length ps"
proof (induction ps arbitrary: first w ids)
  case (Cons p ps)
  then obtain i js where ids: "ids = i # js" and g: "greedy v False (drop (length p) w) ps js" "take (length p) w = p" "p \<noteq> []"
    by (auto split: list.splits)
  have "p @ drop (length p) w = w" using g(2) append_take_drop_id[of "length p" w] by simp
  with Cons.IH[OF g(1)] g(3) show ?case by (simp add: ids)
qed simp

lemma longest_piece_greedy:
  assumes "start < length word" "longest_piece v word start (length word) = Some (stop, i)"
  shows "greedy v (start = 0) (drop start word) (substr start (stop - start) word # ps) (i # ids) \<longleftrightarrow>
    greedy v False (drop stop word) ps ids"
proof -
  note spec = assms(2)[unfolded longest_piece_Some]
  have none: "lookup_piece v (start = 0) (take k (drop start word)) = None" if "stop - start < k" "k \<le> length word - start" for k
  proof -
    have "stop < start + k" "start + k \<le> length word" using that assms(1) by linarith+
    then have "map_of v (piece_text start (substr start (start + k - start) word)) = None" using spec by blast
    then show ?thesis by (auto simp: lookup_piece_def piece_text_def substr_def)
  qed
  have "lookup_piece v (start = 0) (take (stop - start) (drop start word)) = Some i"
    using spec by (auto simp: lookup_piece_def piece_text_def substr_def)
  then show ?thesis using spec none by (auto simp: substr_def)
qed

lemma longest_piece_None:
  "longest_piece v word start e = None \<longleftrightarrow> (\<forall>k. start < k \<and> k \<le> e \<longrightarrow> map_of v (piece_text start (substr start (k - start) word)) = None)"
proof (induction e)
  case (Suc e)
  have range: "(\<forall>k. start < k \<and> k \<le> Suc e \<longrightarrow> P k) \<longleftrightarrow> (start < Suc e \<longrightarrow> P (Suc e)) \<and> (\<forall>k. start < k \<and> k \<le> e \<longrightarrow> P k)" for P
    by (auto simp: le_Suc_eq)
  have none: "start < Suc e \<or> (\<forall>k. start < k \<and> k \<le> e \<longrightarrow> P k)" for P by auto
  show ?case
    unfolding range longest_piece.simps Suc.IH[symmetric]
    using none[of "\<lambda>k. map_of v (piece_text start (substr start (k - start) word)) = None", folded Suc.IH]
    by (cases "start < Suc e") (simp_all split: option.split)
qed simp

lemma no_piece_not_greedy:
  assumes "start < length word" "longest_piece v word start (length word) = None"
  shows "\<not> greedy v (start = 0) (drop start word) ps ids"
proof (cases ps)
  case (Cons p qs)
  show ?thesis
  proof
    assume g: "greedy v (start = 0) (drop start word) ps ids"
    then obtain i where p: "p \<noteq> []" "take (length p) (drop start word) = p" "lookup_piece v (start = 0) p = Some i"
      by (auto simp: Cons split: list.splits)
    then have "length p \<le> length word - start" by (metis length_drop length_take min.cobounded1 min.commute)
    then have "start < start + length p \<and> start + length p \<le> length word" using p(1) assms(1) by simp
    then have "map_of v (piece_text start (substr start (start + length p - start) word)) = None"
      using assms(2)[unfolded longest_piece_None] by blast
    then show False using p by (auto simp: lookup_piece_def piece_text_def substr_def split: if_splits)
  qed
qed (use assms(1) in simp)

text \<open>A greedy cut starts with the piece the code finds.\<close>

lemma greedy_starts:
  assumes lt: "start < length word" and lp: "longest_piece v word start (length word) = Some (stop, i)"
  shows "greedy v (start = 0) (drop start word) ps ids \<longleftrightarrow>
    (\<exists>ps' ids'. ps = substr start (stop - start) word # ps' \<and> ids = i # ids' \<and> greedy v False (drop stop word) ps' ids')"
    (is "?g \<longleftrightarrow> ?cut")
proof
  assume g: ?g
  obtain p' ps' where ps: "ps = p' # ps'" using g lt by (cases ps) simp_all
  obtain j js where ids: "ids = j # js" using g ps by (auto split: list.splits)
  have p': "p' \<noteq> []" "take (length p') (drop start word) = p'" "lookup_piece v (start = 0) p' = Some j"
    "\<And>k. length p' < k \<Longrightarrow> k \<le> length word - start \<Longrightarrow> lookup_piece v (start = 0) (take k (drop start word)) = None"
    using g ids ps by auto
  have len: "length p' \<le> length word - start" using p'(2) by (metis length_drop length_take min.cobounded1 min.commute)
  have lk: "lookup_piece v (start = 0) (take k (drop start word)) = map_of v (piece_text start (substr start (start + k - start) word))" for k
    by (simp add: lookup_piece_def piece_text_def substr_def)
  have "longest_piece v word start (length word) = Some (start + length p', j)"
    unfolding longest_piece_Some
  proof (intro conjI allI impI)
    show "start < start + length p'" "start + length p' \<le> length word" using p'(1) len lt by simp_all
    show "map_of v (piece_text start (substr start (start + length p' - start) word)) = Some j"
      using p'(2,3) lk[of "length p'"] by simp
    fix k assume k: "start + length p' < k \<and> k \<le> length word"
    then have "length p' < k - start" "k - start \<le> length word - start" by linarith+
    from p'(4)[OF this] lk[of "k - start"] k
    show "map_of v (piece_text start (substr start (k - start) word)) = None" by simp
  qed
  then have "stop = start + length p'" "i = j" using lp by simp_all
  moreover from this have "p' = substr start (stop - start) word" using p'(2) by (simp add: substr_def)
  ultimately show ?cut using g longest_piece_greedy[OF lt lp, of ps' js] by (simp add: ps ids)
next
  assume ?cut
  then show ?g using longest_piece_greedy[OF lt lp] by blast
qed

lemma split_from_greedy:
  "start \<le> length word \<Longrightarrow>
    (\<exists>ps ids. greedy v (start = 0) (drop start word) ps ids \<and> split_from v word start out = out @ ids) \<or>
    ((\<forall>ps ids. \<not> greedy v (start = 0) (drop start word) ps ids) \<and> split_from v word start out = [UNK_ID])"
proof (induction v word start out rule: split_from.induct)
  case (1 v word start out)
  consider "\<not> start < length word" | "start < length word" "longest_piece v word start (length word) = None"
    | stop i where "start < length word" "longest_piece v word start (length word) = Some (stop, i)" by force
  then show ?case
  proof cases
    case a: 1
    then have "greedy v (start = 0) (drop start word) [] []" "split_from v word start out = out @ []"
      by (simp_all add: split_from.simps[of v word start])
    then show ?thesis by blast
  next
    case a: 2
    then have "split_from v word start out = [UNK_ID]" by (simp add: split_from.simps[of v word start])
    then show ?thesis using no_piece_not_greedy[OF a] by blast
  next
    case a: 3
    have stop: "start < stop" "stop \<le> length word" using longest_piece_end[OF a(2)] by simp_all
    have step: "split_from v word start out = split_from v word stop (out @ [i])"
      using a by (simp add: split_from.simps[of v word start])
    have "(stop = 0) = False" using stop(1) by simp
    from 1(1)[OF a refl stop(2), unfolded this]
    show ?thesis unfolding step greedy_starts[OF a] by fastforce
  qed
qed

text \<open>
  Property C12. A word is cut greedily: if it can be cut from the left into pieces each of which is the
  longest text of the vocabulary at its place, the result is the ids of those pieces, which put
  together are the word; otherwise the whole word is unknown.
\<close>

theorem wordpieceSplit_greedy:
  "if \<exists>ps ids. greedy v True word ps ids
   then \<exists>ps. greedy v True word ps (wordpieceSplit v word) \<and> concat ps = word \<and> length ps = length (wordpieceSplit v word)
   else wordpieceSplit v word = [UNK_ID]"
proof -
  have "(\<exists>ps. greedy v True word ps (wordpieceSplit v word)) \<or> (\<nexists>ps ids. greedy v True word ps ids) \<and> wordpieceSplit v word = [UNK_ID]"
  proof (cases "word = []")
    case True
    then have "greedy v True word [] (wordpieceSplit v word)" by (simp add: wordpieceSplit_def)
    then show ?thesis by blast
  next
    case False
    then have w: "wordpieceSplit v word = split_from v word 0 []" by (simp add: wordpieceSplit_def)
    from split_from_greedy[of 0 word v "[]"] show ?thesis unfolding w by auto
  qed
  then show ?thesis by (auto dest: greedy_concat) (metis greedy_concat)
qed

section \<open>The shape of an encoded text\<close>

lemma push_ids_eq: "length acc \<le> m - 1 \<Longrightarrow> push_ids m acc ids = acc @ take (m - 1 - length acc) ids"
proof (induction ids arbitrary: acc)
  case (Cons i ids)
  then show ?case by (cases "m - 1 \<le> length acc") (simp_all add: take_Cons' Suc_diff_le)
qed simp

lemma push_words_eq:
  "length acc \<le> m - 1 \<Longrightarrow> push_words v m acc ws = acc @ take (m - 1 - length acc) (concat (map (wordpieceSplit v) ws))"
proof (induction ws arbitrary: acc)
  case (Cons w ws)
  let ?ids = "wordpieceSplit v w"
  have one: "push_ids m acc ?ids = acc @ take (m - 1 - length acc) ?ids" by (rule push_ids_eq[OF Cons.prems])
  show ?case
  proof (cases "m - 1 \<le> length (push_ids m acc ?ids)")
    case True
    then have "m - 1 - length acc \<le> length ?ids" unfolding one by simp
    then show ?thesis using True by (simp add: one)
  next
    case False
    then have "length ?ids < m - 1 - length acc" unfolding one by (simp add: min_def split: if_splits)
    then show ?thesis using False Cons.IH[of "push_ids m acc ?ids"] by (simp add: one)
  qed
qed simp

text \<open>
  Property C24. An encoded text has the shape the model takes: exactly the asked number of ids and mask
  entries, at least two; the start marker, the ids of as many pieces of the text as fit, the end
  marker, then padding; and a mask that is one on what is not padding and zero on the rest.
\<close>

theorem encode_shape:
  "let m = nat (max 2 max_len); ids = take (m - 2) (pieces v s); pad = m - 2 - length ids in
    encode v s max_len = \<lparr>input_ids = [CLS_ID] @ ids @ [SEP_ID] @ replicate pad PAD_ID,
      attention_mask = replicate (length ids + 2) 1 @ replicate pad 0\<rparr> \<and>
    length (input_ids (encode v s max_len)) = m \<and> length (attention_mask (encode v s max_len)) = m"
proof -
  define m where "m = nat (max 2 max_len)"
  define ids where "ids = take (m - 2) (pieces v s)"
  define pad where "pad = m - 2 - length ids"
  have m: "2 \<le> m" "nat (if max_len < 2 then 2 else max_len) = m" by (auto simp: m_def)
  have w: "push_words v m [CLS_ID] (splitWhitespacePunct (lower_str s)) = CLS_ID # ids"
    using push_words_eq[of "[CLS_ID]" m v] m(1) by (simp add: ids_def pieces_def numeral_2_eq_2)
  have mask: "map (\<lambda>i. if i < k then 1 else 0) [0..<k + j] = replicate k 1 @ replicate j (0 :: int)" for k j
    by (rule nth_equalityI) (simp_all add: nth_append)
  have len: "length ids + 2 + pad = m" using m(1) by (simp add: pad_def ids_def)
  then have rest: "m - (length ids + 2) = pad" by simp
  have "encode v s max_len = \<lparr>input_ids = [CLS_ID] @ ids @ [SEP_ID] @ replicate pad PAD_ID,
      attention_mask = replicate (length ids + 2) 1 @ replicate pad 0\<rparr>"
  proof -
    have padded: "((CLS_ID # ids) @ [SEP_ID]) @ replicate pad PAD_ID = [CLS_ID] @ ids @ [SEP_ID] @ replicate pad PAD_ID" by simp
    have len': "length ((CLS_ID # ids) @ [SEP_ID]) = length ids + 2"
      "length ([CLS_ID] @ ids @ [SEP_ID] @ replicate pad PAD_ID) = length ids + 2 + pad" by simp_all
    show ?thesis unfolding encode_def Let_def m(2) w rest padded len' mask ..
  qed
  with len show ?thesis unfolding Let_def m_def[symmetric] ids_def[symmetric] pad_def[symmetric] by simp
qed

section \<open>Pairs\<close>

lemma take_butlast_take: "k \<le> length xs - 1 \<Longrightarrow> take k (butlast xs) = take k xs"
  by (simp add: butlast_conv_take min_absorb1)

lemma trim_pair_spec:
  "\<exists>x y. trim_pair b ta tb = (take x ta, take y tb) \<and> x \<le> length ta \<and> y \<le> length tb \<and>
    x + y = min b (length ta + length tb) \<and> (x < length ta \<longrightarrow> y \<le> x) \<and> (y < length tb \<longrightarrow> x \<le> Suc y)"
proof (induction b ta tb rule: trim_pair.induct)
  case (1 b ta tb)
  consider "\<not> b < length ta + length tb" | "b < length ta + length tb" "length ta \<le> length tb \<and> tb \<noteq> []"
    | "b < length ta + length tb" "\<not> (length ta \<le> length tb \<and> tb \<noteq> [])" by blast
  then show ?case
  proof cases
    case c: 1
    then have "trim_pair b ta tb = (take (length ta) ta, take (length tb) tb)" by (simp add: trim_pair.simps[of b ta])
    then show ?thesis using c by (intro exI[of _ "length ta"] exI[of _ "length tb"]) auto
  next
    case c: 2
    obtain x y where xy: "trim_pair b ta (butlast tb) = (take x ta, take y (butlast tb))" "x \<le> length ta" "y \<le> length (butlast tb)"
      "x + y = min b (length ta + length (butlast tb))" "x < length ta \<longrightarrow> y \<le> x" "y < length (butlast tb) \<longrightarrow> x \<le> Suc y"
      using 1(1)[OF c] by blast
    have "0 < length tb" using c(2) by simp
    moreover have "trim_pair b ta tb = (take x ta, take y tb)"
      using c xy(1,3) by (simp add: trim_pair.simps[of b ta tb] take_butlast_take)
    moreover have "x \<le> Suc y" using xy(2,3,6) c(2) by (cases "y < length (butlast tb)") auto
    ultimately show ?thesis using xy c by (intro exI[of _ x] exI[of _ y]) auto
  next
    case c: 3
    then have ne: "ta \<noteq> []" "length tb < length ta" by (cases ta; cases tb; simp)+
    obtain x y where xy: "trim_pair b (butlast ta) tb = (take x (butlast ta), take y tb)" "x \<le> length (butlast ta)" "y \<le> length tb"
      "x + y = min b (length (butlast ta) + length tb)" "x < length (butlast ta) \<longrightarrow> y \<le> x" "y < length tb \<longrightarrow> x \<le> Suc y"
      using 1(2)[OF c ne(1)] by blast
    moreover have "trim_pair b ta tb = (take x ta, take y tb)"
      using c ne xy(1,2) by (simp add: trim_pair.simps[of b ta tb] take_butlast_take)
    moreover have "y \<le> x" using xy(2,3,5) ne by (cases "x < length (butlast ta)") auto
    ultimately show ?thesis using c ne by (intro exI[of _ x] exI[of _ y]) auto
  qed
qed

text \<open>
  A pair is encoded as two marked segments with their type ids, each a prefix of the pieces of
  its text; together they fill the budget of three less than the length asked for, or are
  complete, and only a side that is not the shorter one by more than a piece is trimmed.
\<close>

theorem encodePair_shape:
  "\<exists>x y. let budget = nat (max_len - 3); ta = take x (pieces v a); tb = take y (pieces v b); p = encodePair v a b max_len in
    pair_ids p = [CLS_ID] @ ta @ [SEP_ID] @ tb @ [SEP_ID] \<and>
    token_type_ids p = replicate (length ta + 2) 0 @ replicate (length tb + 1) 1 \<and>
    pair_mask p = replicate (length ta + length tb + 3) 1 \<and>
    length ta + length tb = min budget (length (pieces v a) + length (pieces v b)) \<and>
    (length ta = length (pieces v a) \<or> length tb \<le> length ta) \<and>
    (length tb = length (pieces v b) \<or> length ta \<le> length tb + 1)"
proof -
  obtain x y where xy: "trim_pair (nat (max_len - 3)) (pieces v a) (pieces v b) = (take x (pieces v a), take y (pieces v b))"
    "x \<le> length (pieces v a)" "y \<le> length (pieces v b)"
    "x + y = min (nat (max_len - 3)) (length (pieces v a) + length (pieces v b))"
    "x < length (pieces v a) \<longrightarrow> y \<le> x" "y < length (pieces v b) \<longrightarrow> x \<le> Suc y"
    using trim_pair_spec by blast
  have b: "nat (if 3 < max_len then max_len - 3 else 0) = nat (max_len - 3)" by simp
  define ta tb where "ta = take x (pieces v a)" and "tb = take y (pieces v b)"
  have len: "length ta = x" "length tb = y" using xy(2,3) by (simp_all add: ta_def tb_def)
  have p: "encodePair v a b max_len = \<lparr>pair_ids = [CLS_ID] @ ta @ [SEP_ID] @ tb @ [SEP_ID],
      pair_mask = replicate (x + y + 3) 1, token_type_ids = replicate (x + 2) 0 @ replicate (y + 1) 1\<rparr>"
    unfolding encodePair_def Let_def b xy(1) ta_def[symmetric] tb_def[symmetric] by (simp add: len numeral_eq_Suc)
  show ?thesis
    by (rule exI[of _ x], rule exI[of _ y])
       (use xy(2-6) in \<open>auto simp: Let_def ta_def[symmetric] tb_def[symmetric] p len\<close>)
qed

end
