(* ===== verification/Calc.thy ===== *)
theory Calc
  imports Cli
begin

text \<open>
  The expression evaluator behind \<open>icmg calc\<close> (\<open>cli/calc_eval.hpp\<close>), a parser by recursive
  descent that computes while it reads. The arithmetic of doubles is an argument: a record of
  the operations of \<open>cmath\<close> and of \<open>stod\<close>. A position in the text is the rest of the text;
  the first failure ends the parse, since the code ignores everything after it. The lemmas show
  that the fuel given is enough, that an accepted text is a phrase of the grammar in the
  file's header with the value the grammar gives it, and that every phrase is accepted.
\<close>

section \<open>Arithmetic\<close>

record 'a arith =
  add :: "'a \<Rightarrow> 'a \<Rightarrow> 'a"
  sub :: "'a \<Rightarrow> 'a \<Rightarrow> 'a"
  mul :: "'a \<Rightarrow> 'a \<Rightarrow> 'a"
  quot :: "'a \<Rightarrow> 'a \<Rightarrow> 'a"
  fmod :: "'a \<Rightarrow> 'a \<Rightarrow> 'a"
  pow :: "'a \<Rightarrow> 'a \<Rightarrow> 'a"
  neg :: "'a \<Rightarrow> 'a"
  zero :: 'a
  pi_const :: 'a
  e_const :: 'a
  is_zero :: "'a \<Rightarrow> bool"
  less :: "'a \<Rightarrow> 'a \<Rightarrow> bool"
  of_count :: "nat \<Rightarrow> 'a"
  cmath :: "string \<Rightarrow> 'a \<Rightarrow> 'a"
  stod :: "string \<Rightarrow> ('a \<times> nat) option"
  is_nan :: "'a \<Rightarrow> bool"
  is_inf :: "'a \<Rightarrow> bool"

definition need :: "string \<Rightarrow> 'a list \<Rightarrow> ('a \<Rightarrow> string + 'b) \<Rightarrow> string + 'b" where
  "need f args k = (case args of [x] \<Rightarrow> k x | _ \<Rightarrow> Inl (f @ ''() expects '' @ nat_str 1 @ '' arg(s)''))"

definition apply_fun :: "'a arith \<Rightarrow> string \<Rightarrow> 'a list \<Rightarrow> string + 'a" where
  "apply_fun A f args =
     (if f = ''sqrt'' then need f args (\<lambda>x. if less A x (zero A) then Inl ''sqrt of negative'' else Inr (cmath A f x))
      else if f = ''log'' \<or> f = ''ln''
        then need f args (\<lambda>x. if less A x (zero A) \<or> is_zero A x then Inl (f @ '' domain'') else Inr (cmath A f x))
      else if f \<in> {''abs'', ''floor'', ''ceil'', ''round'', ''exp'', ''sin'', ''cos'', ''tan''} then need f args (\<lambda>x. Inr (cmath A f x))
      else if f \<in> {''min'', ''max'', ''sum'', ''avg''}
        then (case args of
            [] \<Rightarrow> Inl (f @ ''() needs >=1 arg'')
          | x # _ \<Rightarrow>
              if f = ''min'' then Inr (foldl (\<lambda>m y. if less A y m then y else m) x args)
              else if f = ''max'' then Inr (foldl (\<lambda>m y. if less A m y then y else m) x args)
              else (let s = foldl (add A) (zero A) args
                    in Inr (if f = ''sum'' then s else quot A s (of_count A (length args)))))
      else Inl (''unknown function '' @ [sq] @ f @ [sq]))"

section \<open>The parser\<close>

datatype 'v parsed = Fuel_Out | Bad string | Good 'v string

fun and_then :: "'v parsed \<Rightarrow> ('v \<Rightarrow> string \<Rightarrow> 'w parsed) \<Rightarrow> 'w parsed" where
  "and_then Fuel_Out k = Fuel_Out"
| "and_then (Bad e) k = Bad e"
| "and_then (Good v r) k = k v r"

definition skipWs :: "string \<Rightarrow> string" where
  "skipWs s = dropWhile is_space s"

fun starts :: "char \<Rightarrow> string \<Rightarrow> bool" where
  "starts c [] = False"
| "starts c (x # s) = (x = c)"

fun number_span :: "char option \<Rightarrow> string \<Rightarrow> string" where
  "number_span prev [] = []"
| "number_span prev (c # s) =
     (if is_digit c \<or> c = CHR ''.'' \<or> c = CHR ''e'' \<or> c = CHR ''E''
          \<or> (c = CHR ''+'' \<or> c = CHR ''-'') \<and> (prev = Some (CHR ''e'') \<or> prev = Some (CHR ''E''))
      then c # number_span (Some c) s else [])"

definition p_number :: "'a arith \<Rightarrow> string \<Rightarrow> 'a parsed" where
  "p_number A s =
     (let tok = number_span None s in
      case stod A tok of
        None \<Rightarrow> Bad ''invalid number''
      | Some (v, consumed) \<Rightarrow>
          if consumed \<noteq> length tok then Bad (''invalid number '' @ [sq] @ tok @ [sq]) else Good v (drop (length tok) s))"

definition ident_char :: "char \<Rightarrow> bool" where
  "ident_char c \<longleftrightarrow> is_alnum c \<or> c = CHR ''_''"

definition const_value :: "'a arith \<Rightarrow> string \<Rightarrow> string + 'a" where
  "const_value A name =
     (if name = ''pi'' then Inr (pi_const A) else if name = ''e'' then Inr (e_const A)
      else Inl (''unknown name '' @ [sq] @ name @ [sq]))"

definition lift_result :: "string + 'a \<Rightarrow> string \<Rightarrow> 'a parsed" where
  "lift_result x r = (case x of Inl e \<Rightarrow> Bad e | Inr v \<Rightarrow> Good v r)"

definition mul_op :: "'a arith \<Rightarrow> char \<Rightarrow> 'a \<Rightarrow> 'a \<Rightarrow> string + 'a" where
  "mul_op A c v rhs =
     (if c = CHR ''*'' then Inr (mul A v rhs)
      else if c = CHR ''/'' then (if is_zero A rhs then Inl ''division by zero'' else Inr (quot A v rhs))
      else if is_zero A rhs then Inl ''modulo by zero'' else Inr (fmod A v rhs))"

text \<open>
  The mutually recursive procedures, each over a record of the procedures it may call. The
  procedures with \<open>n\<close> levels of calls left are \<open>descend A n\<close>; a loop takes a level per turn.
\<close>

record 'a procs =
  expr :: "string \<Rightarrow> 'a parsed"
  expr_loop :: "'a \<Rightarrow> string \<Rightarrow> 'a parsed"
  trm :: "string \<Rightarrow> 'a parsed"
  trm_loop :: "'a \<Rightarrow> string \<Rightarrow> 'a parsed"
  factor :: "string \<Rightarrow> 'a parsed"
  pwr :: "string \<Rightarrow> 'a parsed"
  primary :: "string \<Rightarrow> 'a parsed"
  ident :: "string \<Rightarrow> 'a parsed"
  args :: "string \<Rightarrow> 'a list parsed"
  args_loop :: "'a list \<Rightarrow> string \<Rightarrow> 'a list parsed"

definition parseExpr :: "'a procs \<Rightarrow> string \<Rightarrow> 'a parsed" where
  "parseExpr P s = and_then (trm P s) (expr_loop P)"

definition parseExprLoop :: "'a arith \<Rightarrow> 'a procs \<Rightarrow> 'a \<Rightarrow> string \<Rightarrow> 'a parsed" where
  "parseExprLoop A P v s =
     (let t = skipWs s in
      if starts (CHR ''+'') t then and_then (trm P (tl t)) (\<lambda>rhs r. expr_loop P (add A v rhs) r)
      else if starts (CHR ''-'') t then and_then (trm P (tl t)) (\<lambda>rhs r. expr_loop P (sub A v rhs) r)
      else Good v t)"

definition parseTerm :: "'a procs \<Rightarrow> string \<Rightarrow> 'a parsed" where
  "parseTerm P s = and_then (factor P s) (trm_loop P)"

definition parseTermLoop :: "'a arith \<Rightarrow> 'a procs \<Rightarrow> 'a \<Rightarrow> string \<Rightarrow> 'a parsed" where
  "parseTermLoop A P v s =
     (let t = skipWs s in
      if starts (CHR ''*'') t \<and> starts (CHR ''*'') (tl t) then Good v t
      else if starts (CHR ''*'') t \<or> starts (CHR ''/'') t \<or> starts (CHR ''%'') t
        then and_then (factor P (tl t)) (\<lambda>rhs r. and_then (lift_result (mul_op A (hd t) v rhs) r) (trm_loop P))
      else Good v t)"

definition parseFactor :: "'a arith \<Rightarrow> 'a procs \<Rightarrow> string \<Rightarrow> 'a parsed" where
  "parseFactor A P s =
     (let t = skipWs s in
      if starts (CHR ''-'') t then and_then (factor P (tl t)) (\<lambda>v r. Good (neg A v) r)
      else if starts (CHR ''+'') t then factor P (tl t)
      else pwr P t)"

definition parsePower :: "'a arith \<Rightarrow> 'a procs \<Rightarrow> string \<Rightarrow> 'a parsed" where
  "parsePower A P s =
     and_then (primary P s) (\<lambda>base r.
       let t = skipWs r in
       if starts (CHR ''*'') t \<and> starts (CHR ''*'') (tl t)
       then and_then (factor P (tl (tl t))) (\<lambda>x r'. Good (pow A base x) r')
       else Good base t)"

definition parsePrimary :: "'a arith \<Rightarrow> 'a procs \<Rightarrow> string \<Rightarrow> 'a parsed" where
  "parsePrimary A P s =
     (let t = skipWs s in
      if t = [] then Bad ''unexpected end of expression''
      else if starts (CHR ''('') t
        then and_then (expr P (tl t)) (\<lambda>v r.
          if starts (CHR '')'') (skipWs r) then Good v (tl (skipWs r)) else Bad (''expected '' @ [sq] @ '')'' @ [sq]))
      else if is_alpha (hd t) \<or> starts (CHR ''_'') t then ident P t
      else if is_digit (hd t) \<or> starts (CHR ''.'') t then p_number A t
      else if starts (CHR 0x00) t then Bad ''unexpected end of expression''
      else Bad (''unexpected character '' @ [sq] @ [hd t] @ [sq]))"

definition parseIdent :: "'a arith \<Rightarrow> 'a procs \<Rightarrow> string \<Rightarrow> 'a parsed" where
  "parseIdent A P s =
     (let name = takeWhile ident_char s; t = skipWs (dropWhile ident_char s) in
      if \<not> starts (CHR ''('') t then lift_result (const_value A name) t
      else and_then (args P (tl t)) (\<lambda>vs r.
        if starts (CHR '')'') (skipWs r) then lift_result (apply_fun A name vs) (tl (skipWs r))
        else Bad (''expected '' @ [sq] @ '')'' @ [sq] @ '' after args'')))"

definition parseArgs :: "'a procs \<Rightarrow> string \<Rightarrow> 'a list parsed" where
  "parseArgs P s =
     (let t = skipWs s in
      if starts (CHR '')'') t then Good [] t else and_then (expr P t) (\<lambda>v r. args_loop P [v] r))"

definition parseArgsLoop :: "'a procs \<Rightarrow> 'a list \<Rightarrow> string \<Rightarrow> 'a list parsed" where
  "parseArgsLoop P acc s =
     (let t = skipWs s in
      if starts (CHR '','') t then and_then (expr P (tl t)) (\<lambda>v r. args_loop P (acc @ [v]) r) else Good acc t)"

definition out_of_fuel :: "'a procs" where
  "out_of_fuel = \<lparr>expr = (\<lambda>_. Fuel_Out), expr_loop = (\<lambda>_ _. Fuel_Out), trm = (\<lambda>_. Fuel_Out), trm_loop = (\<lambda>_ _. Fuel_Out),
     factor = (\<lambda>_. Fuel_Out), pwr = (\<lambda>_. Fuel_Out), primary = (\<lambda>_. Fuel_Out), ident = (\<lambda>_. Fuel_Out), args = (\<lambda>_. Fuel_Out),
     args_loop = (\<lambda>_ _. Fuel_Out)\<rparr>"

primrec descend :: "'a arith \<Rightarrow> nat \<Rightarrow> 'a procs" where
  "descend A 0 = out_of_fuel"
| "descend A (Suc n) =
     \<lparr>expr = parseExpr (descend A n), expr_loop = parseExprLoop A (descend A n), trm = parseTerm (descend A n),
      trm_loop = parseTermLoop A (descend A n), factor = parseFactor A (descend A n), pwr = parsePower A (descend A n),
      primary = parsePrimary A (descend A n), ident = parseIdent A (descend A n), args = parseArgs (descend A n),
      args_loop = parseArgsLoop (descend A n)\<rparr>"

definition calc_fuel :: "string \<Rightarrow> nat" where
  "calc_fuel s = 8 * length s + 8"

definition evalExpr :: "'a arith \<Rightarrow> string \<Rightarrow> (string + 'a) option" where
  "evalExpr A s =
     (if list_all is_space s then Some (Inl ''empty expression'')
      else (case expr (descend A (calc_fuel s)) s of
          Fuel_Out \<Rightarrow> None
        | Bad e \<Rightarrow> Some (Inl e)
        | Good v r \<Rightarrow>
            if skipWs r \<noteq> [] then Some (Inl ''unexpected trailing input'')
            else if is_nan A v then Some (Inl ''result is NaN'')
            else if is_inf A v then Some (Inl ''result is infinite'')
            else Some (Inr v)))"

section \<open>The parser ends\<close>

text \<open>A result that is not out of fuel and leaves less than \<open>n\<close> characters.\<close>

definition ends :: "nat \<Rightarrow> 'v parsed \<Rightarrow> bool" where
  "ends n x \<longleftrightarrow> (case x of Fuel_Out \<Rightarrow> False | Bad e \<Rightarrow> True | Good v r \<Rightarrow> length r < n)"

lemma ends_simps [simp]: "ends n (Bad e)" "ends n (Good v r) \<longleftrightarrow> length r < n" "\<not> ends n Fuel_Out"
  by (simp_all add: ends_def)

lemma ends_and_then: "ends m x \<Longrightarrow> (\<And>v r. length r < m \<Longrightarrow> ends n (k v r)) \<Longrightarrow> ends n (and_then x k)"
  by (cases x) simp_all

lemma ends_lift: "length r < n \<Longrightarrow> ends n (lift_result x r)"
  by (simp add: lift_result_def split: sum.split)

lemma ends_mono: "ends m x \<Longrightarrow> m \<le> n \<Longrightarrow> ends n x"
  by (cases x) simp_all

lemma length_skipWs: "length (skipWs s) \<le> length s"
  unfolding skipWs_def by (rule length_dropWhile_le)

lemma starts_length: "starts c s \<Longrightarrow> length s = Suc (length (tl s))"
  by (cases s) auto

lemma tl_skip: "starts c (skipWs s) \<Longrightarrow> length (tl (skipWs s)) < length s"
  using starts_length[of c "skipWs s"] length_skipWs[of s] by simp

lemma tl_tl_skip: "starts c (skipWs s) \<Longrightarrow> starts d (tl (skipWs s)) \<Longrightarrow> length (tl (tl (skipWs s))) < length s"
  using starts_length[of c "skipWs s"] starts_length[of d "tl (skipWs s)"] length_skipWs[of s] by simp

lemma ends_number: "s \<noteq> [] \<Longrightarrow> is_digit (hd s) \<or> starts (CHR ''.'') s \<Longrightarrow> ends (length s) (p_number A s)"
proof -
  assume "s \<noteq> []" "is_digit (hd s) \<or> starts (CHR ''.'') s"
  then have "0 < length (number_span None s)" "0 < length s" by (cases s; auto)+
  then have "length (drop (length (number_span None s)) s) < length s" by simp
  then show ?thesis unfolding p_number_def Let_def by (auto split: option.split simp del: length_drop)
qed

text \<open>The procedures with enough levels for a text of the given length.\<close>

definition fed :: "nat \<Rightarrow> 'a procs \<Rightarrow> bool" where
  "fed n P \<longleftrightarrow>
     (\<forall>s. 8 * length s + 7 \<le> n \<longrightarrow> ends (length s) (expr P s)) \<and>
     (\<forall>v s. 8 * length s + 1 \<le> n \<longrightarrow> ends (Suc (length s)) (expr_loop P v s)) \<and>
     (\<forall>s. 8 * length s + 6 \<le> n \<longrightarrow> ends (length s) (trm P s)) \<and>
     (\<forall>v s. 8 * length s + 1 \<le> n \<longrightarrow> ends (Suc (length s)) (trm_loop P v s)) \<and>
     (\<forall>s. 8 * length s + 5 \<le> n \<longrightarrow> ends (length s) (factor P s)) \<and>
     (\<forall>s. 8 * length s + 4 \<le> n \<longrightarrow> ends (length s) (pwr P s)) \<and>
     (\<forall>s. 8 * length s + 3 \<le> n \<longrightarrow> ends (length s) (primary P s)) \<and>
     (\<forall>s. 8 * length s + 2 \<le> n \<longrightarrow> s \<noteq> [] \<longrightarrow> ident_char (hd s) \<longrightarrow> ends (length s) (ident P s)) \<and>
     (\<forall>s. 8 * length s + 8 \<le> n \<longrightarrow> ends (Suc (length s)) (args P s)) \<and>
     (\<forall>vs s. 8 * length s + 1 \<le> n \<longrightarrow> ends (Suc (length s)) (args_loop P vs s))"

lemma fedD:
  assumes "fed n P"
  shows "8 * length s + 7 \<le> n \<Longrightarrow> ends (length s) (expr P s)"
    "8 * length s + 1 \<le> n \<Longrightarrow> ends (Suc (length s)) (expr_loop P v s)"
    "8 * length s + 6 \<le> n \<Longrightarrow> ends (length s) (trm P s)"
    "8 * length s + 1 \<le> n \<Longrightarrow> ends (Suc (length s)) (trm_loop P v s)"
    "8 * length s + 5 \<le> n \<Longrightarrow> ends (length s) (factor P s)"
    "8 * length s + 4 \<le> n \<Longrightarrow> ends (length s) (pwr P s)"
    "8 * length s + 3 \<le> n \<Longrightarrow> ends (length s) (primary P s)"
    "8 * length s + 2 \<le> n \<Longrightarrow> s \<noteq> [] \<Longrightarrow> ident_char (hd s) \<Longrightarrow> ends (length s) (ident P s)"
    "8 * length s + 8 \<le> n \<Longrightarrow> ends (Suc (length s)) (args P s)"
    "8 * length s + 1 \<le> n \<Longrightarrow> ends (Suc (length s)) (args_loop P vs s)"
  using assms by (simp_all add: fed_def)

lemma fed_parseExpr:
  assumes "fed n P" "8 * length s + 7 \<le> Suc n"
  shows "ends (length s) (parseExpr P s)"
  unfolding parseExpr_def
proof (rule ends_and_then)
  show "ends (length s) (trm P s)" using fedD(3)[OF assms(1)] assms(2) by simp
  show "ends (length s) (expr_loop P v r)" if "length r < length s" for v r
    using ends_mono[OF fedD(2)[OF assms(1), of r v], of "length s"] that assms(2) by simp
qed

lemma fed_parseTerm:
  assumes "fed n P" "8 * length s + 6 \<le> Suc n"
  shows "ends (length s) (parseTerm P s)"
  unfolding parseTerm_def
proof (rule ends_and_then)
  show "ends (length s) (factor P s)" using fedD(5)[OF assms(1)] assms(2) by simp
  show "ends (length s) (trm_loop P v r)" if "length r < length s" for v r
    using ends_mono[OF fedD(4)[OF assms(1), of r v], of "length s"] that assms(2) by simp
qed

lemma fed_parseExprLoop:
  assumes "fed n P" "8 * length s + 1 \<le> Suc n"
  shows "ends (Suc (length s)) (parseExprLoop A P v s)"
proof -
  have go: "ends (Suc (length s)) (and_then (trm P (tl (skipWs s))) (\<lambda>rhs r. expr_loop P (f rhs) r))"
    if "starts c (skipWs s)" for c f
  proof (rule ends_and_then)
    note lt = tl_skip[OF that]
    show "ends (length s) (trm P (tl (skipWs s)))"
      using fedD(3)[OF assms(1), of "tl (skipWs s)"] lt assms(2) by (auto intro: ends_mono)
    show "ends (Suc (length s)) (expr_loop P (f rhs) r)" if "length r < length s" for rhs r
      using ends_mono[OF fedD(2)[OF assms(1), of r "f rhs"], of "Suc (length s)"] that assms(2) by simp
  qed
  show ?thesis using go length_skipWs[of s] by (simp add: parseExprLoop_def Let_def less_Suc_eq_le)
qed

lemma fed_parseTermLoop:
  assumes "fed n P" "8 * length s + 1 \<le> Suc n"
  shows "ends (Suc (length s)) (parseTermLoop A P v s)"
proof -
  have go: "ends (Suc (length s)) (and_then (factor P (tl (skipWs s))) (\<lambda>rhs r. and_then (lift_result (f rhs) r) (trm_loop P)))"
    if "starts c (skipWs s)" for c f
  proof (rule ends_and_then)
    note lt = tl_skip[OF that]
    show "ends (length s) (factor P (tl (skipWs s)))"
      using fedD(5)[OF assms(1), of "tl (skipWs s)"] lt assms(2) by (auto intro: ends_mono)
    show "ends (Suc (length s)) (and_then (lift_result (f rhs) r) (trm_loop P))" if r: "length r < length s" for rhs r
    proof (rule ends_and_then[OF ends_lift[OF r]])
      show "ends (Suc (length s)) (trm_loop P u q)" if "length q < length s" for u q
        using ends_mono[OF fedD(4)[OF assms(1), of q u], of "Suc (length s)"] that assms(2) by simp
    qed
  qed
  show ?thesis using go length_skipWs[of s] by (auto simp: parseTermLoop_def Let_def less_Suc_eq_le)
qed

lemma fed_parseFactor:
  assumes "fed n P" "8 * length s + 5 \<le> Suc n"
  shows "ends (length s) (parseFactor A P s)"
proof -
  have go: "ends (length s) (factor P (tl (skipWs s)))" if "starts c (skipWs s)" for c
    using fedD(5)[OF assms(1), of "tl (skipWs s)"] tl_skip[OF that] assms(2) by (auto intro: ends_mono)
  have "ends (length s) (pwr P (skipWs s))"
    using fedD(6)[OF assms(1), of "skipWs s"] length_skipWs[of s] assms(2) by (auto intro: ends_mono)
  moreover have "ends (length s) (and_then (factor P (tl (skipWs s))) (\<lambda>v r. Good (neg A v) r))" if "starts c (skipWs s)" for c
    by (rule ends_and_then[OF go[OF that]]) simp
  ultimately show ?thesis using go by (simp add: parseFactor_def Let_def)
qed

lemma fed_parsePower:
  assumes "fed n P" "8 * length s + 4 \<le> Suc n"
  shows "ends (length s) (parsePower A P s)"
  unfolding parsePower_def
proof (rule ends_and_then)
  show "ends (length s) (primary P s)" using fedD(7)[OF assms(1)] assms(2) by simp
  fix b and r :: string assume r: "length r < length s"
  show "ends (length s) (let t = skipWs r in if starts (CHR ''*'') t \<and> starts (CHR ''*'') (tl t)
      then and_then (factor P (tl (tl t))) (\<lambda>x r'. Good (pow A b x) r') else Good b t)"
  proof (cases "starts (CHR ''*'') (skipWs r) \<and> starts (CHR ''*'') (tl (skipWs r))")
    case True
    then have "length (tl (tl (skipWs r))) < length r" using tl_tl_skip by blast
    then have "ends (length s) (factor P (tl (tl (skipWs r))))"
      using fedD(5)[OF assms(1), of "tl (tl (skipWs r))"] r assms(2) by (auto intro: ends_mono)
    then have "ends (length s) (and_then (factor P (tl (tl (skipWs r)))) (\<lambda>x r'. Good (pow A b x) r'))"
      by (rule ends_and_then) simp
    then show ?thesis using True by (simp add: Let_def)
  next
    case False
    then show ?thesis using r length_skipWs[of r] by (auto simp: Let_def)
  qed
qed

lemma fed_parsePrimary:
  assumes "fed n P" "8 * length s + 3 \<le> Suc n"
  shows "ends (length s) (parsePrimary A P s)"
proof -
  let ?t = "skipWs s"
  note le = length_skipWs[of s]
  have paren: "ends (length s) (and_then (expr P (tl ?t)) (\<lambda>v r. if starts (CHR '')'') (skipWs r) then Good v (tl (skipWs r)) else Bad e))"
    if "starts c ?t" for c e
  proof (rule ends_and_then)
    show "ends (length s) (expr P (tl ?t))"
      using fedD(1)[OF assms(1), of "tl ?t"] tl_skip[OF that] assms(2) by (auto intro: ends_mono)
    show "ends (length s) (if starts (CHR '')'') (skipWs r) then Good v (tl (skipWs r)) else Bad e)" if "length r < length s" for v and r :: string
    proof (cases "starts (CHR '')'') (skipWs r)")
      case True
      with order.strict_trans[OF tl_skip[OF True] that] show ?thesis by simp
    qed simp
  qed
  have ident: "ends (length s) (ident P ?t)" if "?t \<noteq> []" "is_alpha (hd ?t) \<or> starts (CHR ''_'') ?t"
  proof -
    have "ident_char (hd ?t)" using that by (cases ?t) (auto simp: ident_char_def is_alnum_def)
    then show ?thesis using fedD(8)[OF assms(1), of ?t] that(1) le assms(2) by (auto intro: ends_mono)
  qed
  have number: "ends (length s) (p_number A ?t)" if "?t \<noteq> []" "is_digit (hd ?t) \<or> starts (CHR ''.'') ?t"
    using ends_mono[OF ends_number[OF that] le] .
  show ?thesis using paren ident number by (simp add: parsePrimary_def Let_def)
qed

lemma fed_parseIdent:
  assumes "fed n P" "8 * length s + 2 \<le> Suc n" "s \<noteq> []" "ident_char (hd s)"
  shows "ends (length s) (parseIdent A P s)"
proof -
  let ?t = "skipWs (dropWhile ident_char s)"
  have "length (dropWhile ident_char s) < length s"
    using assms(3,4) by (cases s) (simp_all add: less_Suc_eq_le length_dropWhile_le)
  then have t: "length ?t < length s" using length_skipWs[of "dropWhile ident_char s"] by simp
  have call: "ends (length s) (and_then (args P (tl ?t)) (\<lambda>vs r. if starts (CHR '')'') (skipWs r)
      then lift_result (apply_fun A f vs) (tl (skipWs r)) else Bad e))" if "starts c ?t" for c e f
  proof (rule ends_and_then)
    have l: "length ?t = Suc (length (tl ?t))" by (rule starts_length[OF that])
    then have "8 * length (tl ?t) + 8 \<le> n" using t assms(2) by linarith
    from fedD(9)[OF assms(1) this] show "ends (length s) (args P (tl ?t))"
      by (rule ends_mono) (use l t in linarith)
    show "ends (length s) (if starts (CHR '')'') (skipWs r) then lift_result (apply_fun A f vs) (tl (skipWs r)) else Bad e)"
      if "length r < length s" for vs and r :: string
    proof (cases "starts (CHR '')'') (skipWs r)")
      case True
      then show ?thesis unfolding if_P[OF True] by (intro ends_lift order.strict_trans[OF tl_skip[OF True] that])
    qed simp
  qed
  have "ends (length s) (lift_result (const_value A (takeWhile ident_char s)) ?t)" by (rule ends_lift[OF t])
  with call show ?thesis by (simp add: parseIdent_def Let_def)
qed

lemma fed_parseArgs:
  assumes "fed n P" "8 * length s + 8 \<le> Suc n"
  shows "ends (Suc (length s)) (parseArgs P s)"
proof -
  note le = length_skipWs[of s]
  have "ends (Suc (length s)) (and_then (expr P (skipWs s)) (\<lambda>v r. args_loop P [v] r))"
  proof (rule ends_and_then)
    show "ends (length s) (expr P (skipWs s))"
      using fedD(1)[OF assms(1), of "skipWs s"] le assms(2) by (auto intro: ends_mono)
    show "ends (Suc (length s)) (args_loop P [v] r)" if "length r < length s" for v r
      using ends_mono[OF fedD(10)[OF assms(1), of r "[v]"], of "Suc (length s)"] that assms(2) by simp
  qed
  then show ?thesis using le by (simp add: parseArgs_def Let_def less_Suc_eq_le)
qed

lemma fed_parseArgsLoop:
  assumes "fed n P" "8 * length s + 1 \<le> Suc n"
  shows "ends (Suc (length s)) (parseArgsLoop P acc s)"
proof -
  note le = length_skipWs[of s]
  have "ends (Suc (length s)) (and_then (expr P (tl (skipWs s))) (\<lambda>v r. args_loop P (acc @ [v]) r))" if "starts c (skipWs s)" for c
  proof (rule ends_and_then)
    show "ends (length s) (expr P (tl (skipWs s)))"
      using fedD(1)[OF assms(1), of "tl (skipWs s)"] tl_skip[OF that] assms(2) by (auto intro: ends_mono)
    show "ends (Suc (length s)) (args_loop P (acc @ [v]) r)" if "length r < length s" for v r
      using ends_mono[OF fedD(10)[OF assms(1), of r "acc @ [v]"], of "Suc (length s)"] that assms(2) by simp
  qed
  then show ?thesis using le by (simp add: parseArgsLoop_def Let_def less_Suc_eq_le)
qed

lemma fed_descend: "fed n (descend A n)"
proof (induction n)
  case (Suc n)
  show ?case
    unfolding fed_def
    using fed_parseExpr[OF Suc] fed_parseExprLoop[OF Suc] fed_parseTerm[OF Suc] fed_parseTermLoop[OF Suc] fed_parseFactor[OF Suc]
      fed_parsePower[OF Suc] fed_parsePrimary[OF Suc] fed_parseIdent[OF Suc] fed_parseArgs[OF Suc] fed_parseArgsLoop[OF Suc]
    by simp
qed (simp add: fed_def)

lemma expr_ends: "\<exists>result. evalExpr A s = Some result"
proof -
  have "ends (length s) (expr (descend A (calc_fuel s)) s)"
    by (rule fedD(1)[OF fed_descend]) (simp add: calc_fuel_def)
  then show ?thesis by (cases "expr (descend A (calc_fuel s)) s") (auto simp: evalExpr_def)
qed

section \<open>More levels change nothing\<close>

definition refines :: "'v parsed \<Rightarrow> 'v parsed \<Rightarrow> bool" where
  "refines x y \<longleftrightarrow> x = Fuel_Out \<or> x = y"

lemma refines_refl [simp, intro]: "refines x x" "refines Fuel_Out x"
  by (simp_all add: refines_def)

lemma refines_and_then: "refines x y \<Longrightarrow> (\<And>v r. refines (k v r) (k' v r)) \<Longrightarrow> refines (and_then x k) (and_then y k')"
proof (cases x)
  case (Good v r)
  assume "refines x y" and k: "\<And>v r. refines (k v r) (k' v r)"
  then have "y = Good v r" by (simp add: Good refines_def)
  then show ?thesis using k by (simp add: Good)
qed (auto simp: refines_def)

definition procs_refine :: "'a procs \<Rightarrow> 'a procs \<Rightarrow> bool" where
  "procs_refine P Q \<longleftrightarrow>
     (\<forall>s. refines (expr P s) (expr Q s)) \<and> (\<forall>v s. refines (expr_loop P v s) (expr_loop Q v s)) \<and>
     (\<forall>s. refines (trm P s) (trm Q s)) \<and> (\<forall>v s. refines (trm_loop P v s) (trm_loop Q v s)) \<and>
     (\<forall>s. refines (factor P s) (factor Q s)) \<and> (\<forall>s. refines (pwr P s) (pwr Q s)) \<and>
     (\<forall>s. refines (primary P s) (primary Q s)) \<and> (\<forall>s. refines (ident P s) (ident Q s)) \<and>
     (\<forall>s. refines (args P s) (args Q s)) \<and> (\<forall>vs s. refines (args_loop P vs s) (args_loop Q vs s))"

lemma procs_refineD:
  assumes "procs_refine P Q"
  shows "refines (expr P s) (expr Q s)" "refines (expr_loop P v s) (expr_loop Q v s)" "refines (trm P s) (trm Q s)"
    "refines (trm_loop P v s) (trm_loop Q v s)" "refines (factor P s) (factor Q s)" "refines (pwr P s) (pwr Q s)"
    "refines (primary P s) (primary Q s)" "refines (ident P s) (ident Q s)" "refines (args P s) (args Q s)"
    "refines (args_loop P vs s) (args_loop Q vs s)"
  using assms by (simp_all add: procs_refine_def)

lemma refines_bodies:
  assumes "procs_refine P Q"
  shows "refines (parseExpr P s) (parseExpr Q s)" "refines (parseExprLoop A P v s) (parseExprLoop A Q v s)"
    "refines (parseTerm P s) (parseTerm Q s)" "refines (parseTermLoop A P v s) (parseTermLoop A Q v s)"
    "refines (parseFactor A P s) (parseFactor A Q s)" "refines (parsePower A P s) (parsePower A Q s)"
    "refines (parsePrimary A P s) (parsePrimary A Q s)" "refines (parseIdent A P s) (parseIdent A Q s)"
    "refines (parseArgs P s) (parseArgs Q s)" "refines (parseArgsLoop P vs s) (parseArgsLoop Q vs s)"
proof -
  note d = procs_refineD[OF assms] and defs = parseExpr_def parseExprLoop_def parseTerm_def parseTermLoop_def parseFactor_def
    parsePower_def parsePrimary_def parseIdent_def parseArgs_def parseArgsLoop_def Let_def
  show "refines (parseExpr P s) (parseExpr Q s)" "refines (parseExprLoop A P v s) (parseExprLoop A Q v s)"
    "refines (parseTerm P s) (parseTerm Q s)" "refines (parseTermLoop A P v s) (parseTermLoop A Q v s)"
    "refines (parseFactor A P s) (parseFactor A Q s)" "refines (parsePower A P s) (parsePower A Q s)"
    "refines (parsePrimary A P s) (parsePrimary A Q s)" "refines (parseIdent A P s) (parseIdent A Q s)"
    "refines (parseArgs P s) (parseArgs Q s)" "refines (parseArgsLoop P vs s) (parseArgsLoop Q vs s)"
    unfolding defs by (auto intro!: refines_and_then d)
qed

lemma descend_refine: "procs_refine (descend A n) (descend A (Suc n))"
proof (induction n)
  case 0
  show ?case by (simp add: procs_refine_def out_of_fuel_def)
next
  case (Suc n)
  show ?case using refines_bodies[OF Suc] by (simp add: procs_refine_def)
qed

lemma expr_stable:
  assumes "expr (descend A m) s \<noteq> Fuel_Out" and "m \<le> n"
  shows "expr (descend A n) s = expr (descend A m) s"
  using assms(2)
proof (induction n rule: dec_induct)
  case (step n)
  then show ?case using procs_refineD(1)[OF descend_refine[of A n], of s] assms(1) by (auto simp: refines_def)
qed simp

section \<open>The grammar\<close>

text \<open>Phrases, by the rules in the header of the file, and their value from left to right.\<close>

datatype expr_phrase = Expr term_phrase add_phrases
  and add_phrases = No_Adds | Adds bool term_phrase add_phrases
  and term_phrase = Term factor_phrase mul_phrases
  and mul_phrases = No_Muls | Muls char factor_phrase mul_phrases
  and factor_phrase = Minus factor_phrase | Plus factor_phrase | Unsigned power_phrase
  and power_phrase = Plain prim_phrase | Raised prim_phrase factor_phrase
  and prim_phrase = Number string | Paren expr_phrase | Name string | Call string arg_phrases
  and arg_phrases = No_Args | Args expr_phrase more_phrases
  and more_phrases = No_More | More expr_phrase more_phrases

primrec expr_text :: "expr_phrase \<Rightarrow> string"
  and adds_text :: "add_phrases \<Rightarrow> string"
  and term_text :: "term_phrase \<Rightarrow> string"
  and muls_text :: "mul_phrases \<Rightarrow> string"
  and factor_text :: "factor_phrase \<Rightarrow> string"
  and power_text :: "power_phrase \<Rightarrow> string"
  and prim_text :: "prim_phrase \<Rightarrow> string"
  and args_text :: "arg_phrases \<Rightarrow> string"
  and more_text :: "more_phrases \<Rightarrow> string"
where
  "expr_text (Expr t ts) = term_text t @ adds_text ts"
| "adds_text No_Adds = []"
| "adds_text (Adds pl t ts) = (if pl then CHR ''+'' else CHR ''-'') # term_text t @ adds_text ts"
| "term_text (Term f fs) = factor_text f @ muls_text fs"
| "muls_text No_Muls = []"
| "muls_text (Muls c f fs) = c # factor_text f @ muls_text fs"
| "factor_text (Minus f) = CHR ''-'' # factor_text f"
| "factor_text (Plus f) = CHR ''+'' # factor_text f"
| "factor_text (Unsigned p) = power_text p"
| "power_text (Plain p) = prim_text p"
| "power_text (Raised p f) = prim_text p @ ''**'' @ factor_text f"
| "prim_text (Number tok) = tok"
| "prim_text (Paren e) = CHR ''('' # expr_text e @ '')''"
| "prim_text (Name nm) = nm"
| "prim_text (Call nm as) = nm @ CHR ''('' # args_text as @ '')''"
| "args_text No_Args = []"
| "args_text (Args e es) = expr_text e @ more_text es"
| "more_text No_More = []"
| "more_text (More e es) = CHR '','' # expr_text e @ more_text es"

definition ebind :: "string + 'a \<Rightarrow> ('a \<Rightarrow> string + 'b) \<Rightarrow> string + 'b" where
  "ebind x k = (case x of Inl e \<Rightarrow> Inl e | Inr v \<Rightarrow> k v)"

primrec expr_value :: "expr_phrase \<Rightarrow> 'a arith \<Rightarrow> string + 'a"
  and adds_value :: "add_phrases \<Rightarrow> 'a arith \<Rightarrow> 'a \<Rightarrow> string + 'a"
  and term_value :: "term_phrase \<Rightarrow> 'a arith \<Rightarrow> string + 'a"
  and muls_value :: "mul_phrases \<Rightarrow> 'a arith \<Rightarrow> 'a \<Rightarrow> string + 'a"
  and factor_value :: "factor_phrase \<Rightarrow> 'a arith \<Rightarrow> string + 'a"
  and power_value :: "power_phrase \<Rightarrow> 'a arith \<Rightarrow> string + 'a"
  and prim_value :: "prim_phrase \<Rightarrow> 'a arith \<Rightarrow> string + 'a"
  and args_value :: "arg_phrases \<Rightarrow> 'a arith \<Rightarrow> string + 'a list"
  and more_value :: "more_phrases \<Rightarrow> 'a arith \<Rightarrow> 'a list \<Rightarrow> string + 'a list"
where
  "expr_value (Expr t ts) A = ebind (term_value t A) (adds_value ts A)"
| "adds_value No_Adds A v = Inr v"
| "adds_value (Adds pl t ts) A v = ebind (term_value t A) (\<lambda>w. adds_value ts A (if pl then add A v w else sub A v w))"
| "term_value (Term f fs) A = ebind (factor_value f A) (muls_value fs A)"
| "muls_value No_Muls A v = Inr v"
| "muls_value (Muls c f fs) A v = ebind (factor_value f A) (\<lambda>w. ebind (mul_op A c v w) (muls_value fs A))"
| "factor_value (Minus f) A = ebind (factor_value f A) (\<lambda>v. Inr (neg A v))"
| "factor_value (Plus f) A = factor_value f A"
| "factor_value (Unsigned p) A = power_value p A"
| "power_value (Plain p) A = prim_value p A"
| "power_value (Raised p f) A = ebind (prim_value p A) (\<lambda>v. ebind (factor_value f A) (\<lambda>w. Inr (pow A v w)))"
| "prim_value (Number tok) A = (case stod A tok of Some (v, n) \<Rightarrow> Inr v | None \<Rightarrow> Inl ''invalid number'')"
| "prim_value (Paren e) A = expr_value e A"
| "prim_value (Name nm) A = const_value A nm"
| "prim_value (Call nm as) A = ebind (args_value as A) (apply_fun A nm)"
| "args_value No_Args A = Inr []"
| "args_value (Args e es) A = ebind (expr_value e A) (\<lambda>v. more_value es A [v])"
| "more_value No_More A vs = Inr vs"
| "more_value (More e es) A vs = ebind (expr_value e A) (\<lambda>v. more_value es A (vs @ [v]))"

text \<open>Well-formed phrases: numbers that \<open>stod\<close> takes whole, names, operators.\<close>

definition number_ok :: "'a arith \<Rightarrow> string \<Rightarrow> bool" where
  "number_ok A tok \<longleftrightarrow> tok \<noteq> [] \<and> (is_digit (hd tok) \<or> hd tok = CHR ''.'') \<and> number_span None tok = tok \<and>
     last tok \<noteq> CHR ''e'' \<and> last tok \<noteq> CHR ''E'' \<and> (case stod A tok of Some (v, n) \<Rightarrow> n = length tok | None \<Rightarrow> False)"

definition name_ok :: "string \<Rightarrow> bool" where
  "name_ok nm \<longleftrightarrow> nm \<noteq> [] \<and> (is_alpha (hd nm) \<or> hd nm = CHR ''_'') \<and> list_all ident_char nm"

primrec expr_ok :: "expr_phrase \<Rightarrow> 'a arith \<Rightarrow> bool"
  and adds_ok :: "add_phrases \<Rightarrow> 'a arith \<Rightarrow> bool"
  and term_ok :: "term_phrase \<Rightarrow> 'a arith \<Rightarrow> bool"
  and muls_ok :: "mul_phrases \<Rightarrow> 'a arith \<Rightarrow> bool"
  and factor_ok :: "factor_phrase \<Rightarrow> 'a arith \<Rightarrow> bool"
  and power_ok :: "power_phrase \<Rightarrow> 'a arith \<Rightarrow> bool"
  and prim_ok :: "prim_phrase \<Rightarrow> 'a arith \<Rightarrow> bool"
  and args_ok :: "arg_phrases \<Rightarrow> 'a arith \<Rightarrow> bool"
  and more_ok :: "more_phrases \<Rightarrow> 'a arith \<Rightarrow> bool"
where
  "expr_ok (Expr t ts) A \<longleftrightarrow> term_ok t A \<and> adds_ok ts A"
| "adds_ok No_Adds A \<longleftrightarrow> True"
| "adds_ok (Adds pl t ts) A \<longleftrightarrow> term_ok t A \<and> adds_ok ts A"
| "term_ok (Term f fs) A \<longleftrightarrow> factor_ok f A \<and> muls_ok fs A"
| "muls_ok No_Muls A \<longleftrightarrow> True"
| "muls_ok (Muls c f fs) A \<longleftrightarrow> c \<in> {CHR ''*'', CHR ''/'', CHR ''%''} \<and> factor_ok f A \<and> muls_ok fs A"
| "factor_ok (Minus f) A \<longleftrightarrow> factor_ok f A"
| "factor_ok (Plus f) A \<longleftrightarrow> factor_ok f A"
| "factor_ok (Unsigned p) A \<longleftrightarrow> power_ok p A"
| "power_ok (Plain p) A \<longleftrightarrow> prim_ok p A"
| "power_ok (Raised p f) A \<longleftrightarrow> prim_ok p A \<and> factor_ok f A"
| "prim_ok (Number tok) A \<longleftrightarrow> number_ok A tok"
| "prim_ok (Paren e) A \<longleftrightarrow> expr_ok e A"
| "prim_ok (Name nm) A \<longleftrightarrow> name_ok nm"
| "prim_ok (Call nm as) A \<longleftrightarrow> name_ok nm \<and> args_ok as A"
| "args_ok No_Args A \<longleftrightarrow> True"
| "args_ok (Args e es) A \<longleftrightarrow> expr_ok e A \<and> more_ok es A"
| "more_ok No_More A \<longleftrightarrow> True"
| "more_ok (More e es) A \<longleftrightarrow> expr_ok e A \<and> more_ok es A"


text \<open>
  Property C16. Evaluation ends, and the levels of calls are no matter: with any number of them from eight a
  character on, no text runs out, and the outcome is the same; so every text has a value or an
  error message.
\<close>

theorem evalExpr_ends:
  assumes "calc_fuel s \<le> n"
  shows "expr (descend A n) s \<noteq> Fuel_Out \<and> expr (descend A n) s = expr (descend A (calc_fuel s)) s \<and>
    (\<exists>result. evalExpr A s = Some result)"
proof -
  have "ends (length s) (expr (descend A (calc_fuel s)) s)"
    by (rule fedD(1)[OF fed_descend]) (simp add: calc_fuel_def)
  then have "expr (descend A (calc_fuel s)) s \<noteq> Fuel_Out" by auto
  with expr_stable[OF this assms] expr_ends show ?thesis by simp
qed

section \<open>Every phrase is read\<close>

definition runs :: "(nat \<Rightarrow> 'v) \<Rightarrow> 'v \<Rightarrow> bool" where
  "runs f x \<longleftrightarrow> (\<exists>N. \<forall>n \<ge> N. f n = x)"

lemma runs_const: "runs (\<lambda>n. x) x"
  by (simp add: runs_def)

lemma runs_Suc: "runs (\<lambda>n. f (Suc n)) x \<Longrightarrow> runs f x"
proof -
  assume "runs (\<lambda>n. f (Suc n)) x"
  then obtain N where N: "\<forall>n \<ge> N. f (Suc n) = x" unfolding runs_def by blast
  have "f n = x" if "Suc N \<le> n" for n using that N by (cases n) auto
  then show ?thesis unfolding runs_def by blast
qed

lemma runs_seq:
  assumes f: "runs f (lift_result x r)" and k: "\<And>v. x = Inr v \<Longrightarrow> runs (\<lambda>n. k n v r) (lift_result (y v) r')"
  shows "runs (\<lambda>n. and_then (f n) (k n)) (lift_result (ebind x y) r')"
proof -
  obtain N where N: "\<forall>n \<ge> N. f n = lift_result x r" using f unfolding runs_def by blast
  show ?thesis
  proof (cases x)
    case (Inl e)
    then show ?thesis using N unfolding runs_def by (intro exI[of _ N]) (simp add: lift_result_def ebind_def)
  next
    case (Inr v)
    obtain M where M: "\<forall>n \<ge> M. k n v r = lift_result (y v) r'" using k[OF Inr] unfolding runs_def by blast
    show ?thesis using N M unfolding runs_def
      by (intro exI[of _ "max M N"]) (simp add: Inr lift_result_def[of "Inr v"] ebind_def)
  qed
qed

text \<open>What may follow a phrase.\<close>

definition follow :: "char set \<Rightarrow> string \<Rightarrow> bool" where
  "follow S s \<longleftrightarrow> s = [] \<or> hd s \<in> S"

definition after_expr :: "char set" where "after_expr = {CHR '')'', CHR '',''}"
definition after_term :: "char set" where "after_term = after_expr \<union> {CHR ''+'', CHR ''-''}"
definition after_prim :: "char set" where "after_prim = after_term \<union> {CHR ''*'', CHR ''/'', CHR ''%''}"

definition no_power :: "string \<Rightarrow> bool" where
  "no_power s \<longleftrightarrow> follow after_prim s \<and> \<not> (starts (CHR ''*'') s \<and> starts (CHR ''*'') (tl s))"

definition start_char :: "char \<Rightarrow> bool" where
  "start_char c \<longleftrightarrow> is_digit c \<or> is_alpha c \<or> c \<in> {CHR ''+'', CHR ''-'', CHR ''('', CHR ''.'', CHR ''_''}"

lemma start_char_not: "start_char c \<Longrightarrow> \<not> is_space c \<and> c \<noteq> CHR ''*'' \<and> c \<noteq> CHR '')''"
  by (auto simp: start_char_def is_digit_def is_alpha_def is_upper_def is_lower_def is_space_def ccode_def)

lemma after_prim_not: "c \<in> after_prim \<Longrightarrow> \<not> is_space c \<and> \<not> ident_char c \<and> c \<noteq> CHR ''('' \<and> c \<noteq> CHR ''.'' \<and> \<not> is_digit c \<and>
    c \<noteq> CHR ''e'' \<and> c \<noteq> CHR ''E''"
  by (auto simp: after_prim_def after_term_def after_expr_def ident_char_def is_alnum_def is_digit_def is_alpha_def is_upper_def is_lower_def
      is_space_def ccode_def)

lemma skip_follow: "follow after_prim s \<Longrightarrow> skipWs s = s"
  using after_prim_not by (cases s) (auto simp: follow_def skipWs_def)

lemma skip_start: "s \<noteq> [] \<Longrightarrow> start_char (hd s) \<Longrightarrow> skipWs (s @ r) = s @ r"
  using start_char_not by (cases s) (auto simp: skipWs_def)

lemma follow_mono: "follow after_expr s \<Longrightarrow> follow after_term s" "follow after_term s \<Longrightarrow> follow after_prim s" "no_power s \<Longrightarrow> follow after_prim s"
  by (auto simp: follow_def after_term_def after_prim_def no_power_def)

lemma follow_term_power: "follow after_term s \<Longrightarrow> no_power s"
  by (cases s) (auto simp: follow_def after_term_def after_expr_def after_prim_def no_power_def)

lemma name_start: "name_ok nm \<Longrightarrow> nm \<noteq> [] \<and> start_char (hd nm)"
  by (auto simp: name_ok_def start_char_def)

lemma number_start: "number_ok A tok \<Longrightarrow> tok \<noteq> [] \<and> start_char (hd tok)"
  by (auto simp: number_ok_def start_char_def)

lemma phrase_start:
  "expr_ok e A \<Longrightarrow> expr_text e \<noteq> [] \<and> start_char (hd (expr_text e))"
  "adds_ok ts A \<Longrightarrow> True"
  "term_ok t A \<Longrightarrow> term_text t \<noteq> [] \<and> start_char (hd (term_text t))"
  "muls_ok fs A \<Longrightarrow> True"
  "factor_ok f A \<Longrightarrow> factor_text f \<noteq> [] \<and> start_char (hd (factor_text f))"
  "power_ok p A \<Longrightarrow> power_text p \<noteq> [] \<and> start_char (hd (power_text p))"
  "prim_ok q A \<Longrightarrow> prim_text q \<noteq> [] \<and> start_char (hd (prim_text q))"
  "args_ok as A \<Longrightarrow> True"
  "more_ok es A \<Longrightarrow> True"
  by (induction e and ts and t and fs and f and p and q and as and es)
     (auto simp: start_char_def dest: name_start number_start)

lemma adds_follow: "follow after_expr r \<Longrightarrow> follow after_term (adds_text ts @ r)"
  by (cases ts) (auto simp: follow_def after_term_def)

lemma muls_no_power: "muls_ok fs A \<Longrightarrow> follow after_term r \<Longrightarrow> no_power (muls_text fs @ r)"
proof (cases fs)
  case No_Muls
  then show "follow after_term r \<Longrightarrow> no_power (muls_text fs @ r)" by (simp add: follow_term_power)
next
  case (Muls c f gs)
  assume ok: "muls_ok fs A"
  then have "factor_text f \<noteq> []" "hd (factor_text f) \<noteq> CHR ''*''"
    using phrase_start(5)[of f A] start_char_not by (auto simp: Muls)
  then have "\<not> starts (CHR ''*'') (factor_text f @ muls_text gs @ r)" by (cases "factor_text f") auto
  then show "no_power (muls_text fs @ r)" using ok by (auto simp: Muls no_power_def follow_def after_prim_def)
qed

lemma more_follow: "follow after_expr (more_text es @ CHR '')'' # r)"
  by (cases es) (auto simp: follow_def after_expr_def)

lemma number_span_stop:
  "number_span prev tok = tok \<Longrightarrow> follow after_prim r \<Longrightarrow>
    (if tok = [] then prev else Some (last tok)) \<notin> {Some (CHR ''e''), Some (CHR ''E'')} \<Longrightarrow> number_span prev (tok @ r) = tok"
proof (induction tok arbitrary: prev)
  case Nil
  then show ?case using after_prim_not by (cases r) (auto simp: follow_def)
next
  case (Cons c tok)
  then have "number_span (Some c) tok = tok" by (auto split: if_splits)
  then have "number_span (Some c) (tok @ r) = tok" using Cons.prems(2,3) by (intro Cons.IH) (auto split: if_splits)
  then show ?case using Cons.prems(1) by (auto split: if_splits)
qed

lemma p_number_text: "number_ok A tok \<Longrightarrow> follow after_prim r \<Longrightarrow> p_number A (tok @ r) = lift_result (prim_value (Number tok) A) r"
  by (auto simp: number_ok_def p_number_def number_span_stop lift_result_def Let_def split: option.splits)

lemma take_name:
  assumes "name_ok nm" and "r = [] \<or> \<not> ident_char (hd r)"
  shows "takeWhile ident_char (nm @ r) = nm" "dropWhile ident_char (nm @ r) = r"
  using assms by (cases r; auto simp: name_ok_def list_all_iff takeWhile_append2 dropWhile_append2)+


text \<open>One step down for each procedure.\<close>

lemma runs_descend:
  "runs (\<lambda>n. parseExpr (descend A n) s) x \<Longrightarrow> runs (\<lambda>n. expr (descend A n) s) x"
  "runs (\<lambda>n. parseExprLoop A (descend A n) v s) x \<Longrightarrow> runs (\<lambda>n. expr_loop (descend A n) v s) x"
  "runs (\<lambda>n. parseTerm (descend A n) s) x \<Longrightarrow> runs (\<lambda>n. trm (descend A n) s) x"
  "runs (\<lambda>n. parseTermLoop A (descend A n) v s) x \<Longrightarrow> runs (\<lambda>n. trm_loop (descend A n) v s) x"
  "runs (\<lambda>n. parseFactor A (descend A n) s) x \<Longrightarrow> runs (\<lambda>n. factor (descend A n) s) x"
  "runs (\<lambda>n. parsePower A (descend A n) s) x \<Longrightarrow> runs (\<lambda>n. pwr (descend A n) s) x"
  "runs (\<lambda>n. parsePrimary A (descend A n) s) x \<Longrightarrow> runs (\<lambda>n. primary (descend A n) s) x"
  "runs (\<lambda>n. parseIdent A (descend A n) s) x \<Longrightarrow> runs (\<lambda>n. ident (descend A n) s) x"
  "runs (\<lambda>n. parseArgs (descend A n) s) y \<Longrightarrow> runs (\<lambda>n. args (descend A n) s) y"
  "runs (\<lambda>n. parseArgsLoop (descend A n) vs s) y \<Longrightarrow> runs (\<lambda>n. args_loop (descend A n) vs s) y"
  by (rule runs_Suc, simp)+

lemma lift_Inr: "lift_result (Inr v) r = Good v r"
  by (simp add: lift_result_def)

lemma ebind_Inr: "ebind x (\<lambda>v. Inr v) = x"
  by (simp add: ebind_def split: sum.split)

lemma runs_op: "runs (\<lambda>n. k n v r) (lift_result (y v) r') \<Longrightarrow> x = Inr v \<Longrightarrow> runs (\<lambda>n. and_then (lift_result x r) (k n)) (lift_result (ebind x y) r')"
  by (simp add: lift_result_def ebind_def)

lemma runs_op': "(\<And>v. runs (\<lambda>n. k n v r) (lift_result (y v) r')) \<Longrightarrow> runs (\<lambda>n. and_then (lift_result x r) (k n)) (lift_result (ebind x y) r')"
  by (rule runs_seq[OF runs_const])

lemma expr_case:
  assumes t: "\<And>r. follow after_term r \<Longrightarrow> runs (\<lambda>n. trm (descend A n) (term_text t @ r)) (lift_result (term_value t A) r)"
    and ts: "\<And>v. runs (\<lambda>n. expr_loop (descend A n) v (adds_text ts @ r)) (lift_result (adds_value ts A v) r)"
    and r: "follow after_expr r"
  shows "runs (\<lambda>n. expr (descend A n) (expr_text (Expr t ts) @ r)) (lift_result (expr_value (Expr t ts) A) r)"
proof (rule runs_descend)
  have "runs (\<lambda>n. and_then (trm (descend A n) (term_text t @ adds_text ts @ r)) (expr_loop (descend A n)))
      (lift_result (ebind (term_value t A) (adds_value ts A)) r)"
    by (rule runs_seq[OF t[OF adds_follow[OF r]]], rule ts)
  then show "runs (\<lambda>n. parseExpr (descend A n) (expr_text (Expr t ts) @ r)) (lift_result (expr_value (Expr t ts) A) r)"
    by (simp add: parseExpr_def)
qed

lemma adds_case:
  assumes t: "\<And>r. follow after_term r \<Longrightarrow> runs (\<lambda>n. trm (descend A n) (term_text t @ r)) (lift_result (term_value t A) r)"
    and ts: "\<And>v. runs (\<lambda>n. expr_loop (descend A n) v (adds_text ts @ r)) (lift_result (adds_value ts A v) r)"
    and r: "follow after_expr r"
  shows "runs (\<lambda>n. expr_loop (descend A n) v (adds_text (Adds pl t ts) @ r)) (lift_result (adds_value (Adds pl t ts) A v) r)"
proof (rule runs_descend)
  let ?s = "(if pl then CHR ''+'' else CHR ''-'') # term_text t @ adds_text ts @ r"
  have "skipWs ?s = ?s" by (rule skip_follow) (simp add: follow_def after_prim_def after_term_def)
  moreover have "runs (\<lambda>n. and_then (trm (descend A n) (term_text t @ adds_text ts @ r)) (\<lambda>w. expr_loop (descend A n) (if pl then add A v w else sub A v w)))
      (lift_result (ebind (term_value t A) (\<lambda>w. adds_value ts A (if pl then add A v w else sub A v w))) r)"
    by (rule runs_seq[OF t[OF adds_follow[OF r]]], rule ts)
  ultimately show "runs (\<lambda>n. parseExprLoop A (descend A n) v (adds_text (Adds pl t ts) @ r)) (lift_result (adds_value (Adds pl t ts) A v) r)"
    by (cases pl) (simp_all add: parseExprLoop_def Let_def)
qed

lemma adds_end: "follow after_expr r \<Longrightarrow> runs (\<lambda>n. expr_loop (descend A n) v r) (Good v r)"
proof (rule runs_descend)
  assume r: "follow after_expr r"
  then have "skipWs r = r" by (intro skip_follow follow_mono(2)[OF follow_mono(1)])
  moreover have "\<not> starts (CHR ''+'') r" "\<not> starts (CHR ''-'') r" using r by (cases r; auto simp: follow_def after_expr_def)+
  ultimately show "runs (\<lambda>n. parseExprLoop A (descend A n) v r) (Good v r)" by (simp add: parseExprLoop_def Let_def runs_const)
qed

lemma term_case:
  assumes f: "\<And>r. no_power r \<Longrightarrow> runs (\<lambda>n. factor (descend A n) (factor_text f @ r)) (lift_result (factor_value f A) r)"
    and fs: "\<And>v. runs (\<lambda>n. trm_loop (descend A n) v (muls_text fs @ r)) (lift_result (muls_value fs A v) r)"
    and ok: "muls_ok fs A" and r: "follow after_term r"
  shows "runs (\<lambda>n. trm (descend A n) (term_text (Term f fs) @ r)) (lift_result (term_value (Term f fs) A) r)"
proof (rule runs_descend)
  have "runs (\<lambda>n. and_then (factor (descend A n) (factor_text f @ muls_text fs @ r)) (trm_loop (descend A n)))
      (lift_result (ebind (factor_value f A) (muls_value fs A)) r)"
    by (rule runs_seq[OF f[OF muls_no_power[OF ok r]]], rule fs)
  then show "runs (\<lambda>n. parseTerm (descend A n) (term_text (Term f fs) @ r)) (lift_result (term_value (Term f fs) A) r)"
    by (simp add: parseTerm_def)
qed

lemma muls_case:
  assumes f: "\<And>r. no_power r \<Longrightarrow> runs (\<lambda>n. factor (descend A n) (factor_text f @ r)) (lift_result (factor_value f A) r)"
    and fs: "\<And>v. runs (\<lambda>n. trm_loop (descend A n) v (muls_text fs @ r)) (lift_result (muls_value fs A v) r)"
    and ok: "muls_ok (Muls c f fs) A" and r: "follow after_term r"
  shows "runs (\<lambda>n. trm_loop (descend A n) v (muls_text (Muls c f fs) @ r)) (lift_result (muls_value (Muls c f fs) A v) r)"
proof (rule runs_descend)
  let ?s = "c # factor_text f @ muls_text fs @ r"
  have c: "c \<in> {CHR ''*'', CHR ''/'', CHR ''%''}" and fok: "factor_ok f A" "muls_ok fs A" using ok by simp_all
  have np: "no_power ?s" using muls_no_power[OF ok r] by simp
  then have skip: "skipWs ?s = ?s" by (intro skip_follow follow_mono(3))
  have "runs (\<lambda>n. and_then (factor (descend A n) (factor_text f @ muls_text fs @ r))
        (\<lambda>w q. and_then (lift_result (mul_op A c v w) q) (trm_loop (descend A n))))
      (lift_result (ebind (factor_value f A) (\<lambda>w. ebind (mul_op A c v w) (muls_value fs A))) r)"
    by (rule runs_seq[OF f[OF muls_no_power[OF fok(2) r]]]) (rule runs_op', rule fs)
  moreover have st: "starts (CHR ''*'') ?s \<or> starts (CHR ''/'') ?s \<or> starts (CHR ''%'') ?s" using c by auto
  have nn: "\<not> (starts (CHR ''*'') ?s \<and> starts (CHR ''*'') (tl ?s))" using np unfolding no_power_def by (rule conjunct2)
  have "parseTermLoop A (descend A n) v ?s = and_then (factor (descend A n) (factor_text f @ muls_text fs @ r))
        (\<lambda>w q. and_then (lift_result (mul_op A c v w) q) (trm_loop (descend A n)))" for n
    unfolding parseTermLoop_def Let_def skip list.sel if_not_P[OF nn[unfolded list.sel]] if_P[OF st] ..
  ultimately show "runs (\<lambda>n. parseTermLoop A (descend A n) v (muls_text (Muls c f fs) @ r)) (lift_result (muls_value (Muls c f fs) A v) r)"
    by simp
qed

lemma muls_end: "follow after_term r \<Longrightarrow> runs (\<lambda>n. trm_loop (descend A n) v r) (Good v r)"
proof (rule runs_descend)
  assume r: "follow after_term r"
  then have "skipWs r = r" by (intro skip_follow follow_mono(2))
  moreover have "\<not> starts (CHR ''*'') r" "\<not> starts (CHR ''/'') r" "\<not> starts (CHR ''%'') r"
    using r by (cases r; auto simp: follow_def after_term_def after_expr_def)+
  ultimately show "runs (\<lambda>n. parseTermLoop A (descend A n) v r) (Good v r)" by (simp add: parseTermLoop_def Let_def runs_const)
qed


lemma sign_case:
  assumes f: "runs (\<lambda>n. factor (descend A n) (factor_text f @ r)) (lift_result (factor_value f A) r)"
  shows "runs (\<lambda>n. factor (descend A n) (factor_text (Minus f) @ r)) (lift_result (factor_value (Minus f) A) r)"
    and "runs (\<lambda>n. factor (descend A n) (factor_text (Plus f) @ r)) (lift_result (factor_value (Plus f) A) r)"
proof -
  have skip: "skipWs (c # factor_text f @ r) = c # factor_text f @ r" if "c = CHR ''-'' \<or> c = CHR ''+''" for c
    using that by (auto simp: skipWs_def is_space_def ccode_def)
  have "runs (\<lambda>n. and_then (factor (descend A n) (factor_text f @ r)) (\<lambda>v q. Good (neg A v) q))
      (lift_result (ebind (factor_value f A) (\<lambda>v. Inr (neg A v))) r)"
    by (rule runs_seq[OF f]) (simp add: lift_Inr runs_const)
  then show "runs (\<lambda>n. factor (descend A n) (factor_text (Minus f) @ r)) (lift_result (factor_value (Minus f) A) r)"
    by (intro runs_descend) (simp add: parseFactor_def Let_def skip)
  show "runs (\<lambda>n. factor (descend A n) (factor_text (Plus f) @ r)) (lift_result (factor_value (Plus f) A) r)"
    using f by (intro runs_descend) (simp add: parseFactor_def Let_def skip)
qed

lemma unsigned_case:
  assumes p: "runs (\<lambda>n. pwr (descend A n) (power_text p @ r)) (lift_result (power_value p A) r)"
    and ok: "power_ok p A" and first: "hd (power_text p) \<noteq> CHR ''+''" "hd (power_text p) \<noteq> CHR ''-''"
  shows "runs (\<lambda>n. factor (descend A n) (factor_text (Unsigned p) @ r)) (lift_result (factor_value (Unsigned p) A) r)"
proof (rule runs_descend)
  have ne: "power_text p \<noteq> []" "start_char (hd (power_text p))" using phrase_start(6)[OF ok] by simp_all
  have "\<not> starts (CHR ''-'') (power_text p @ r)" "\<not> starts (CHR ''+'') (power_text p @ r)"
    using ne(1) first by (cases "power_text p"; simp)+
  then show "runs (\<lambda>n. parseFactor A (descend A n) (factor_text (Unsigned p) @ r)) (lift_result (factor_value (Unsigned p) A) r)"
    using p skip_start[OF ne, of r] by (simp add: parseFactor_def Let_def)
qed

lemma prim_first: "prim_ok q A \<Longrightarrow> hd (prim_text q @ r) \<noteq> CHR ''+'' \<and> hd (prim_text q @ r) \<noteq> CHR ''-''"
  by (cases q) (auto simp: number_ok_def name_ok_def is_digit_def is_alpha_def is_upper_def is_lower_def ccode_def)

lemma power_first: "power_ok p A \<Longrightarrow> hd (power_text p) \<noteq> CHR ''+'' \<and> hd (power_text p) \<noteq> CHR ''-''"
proof (cases p)
  case (Plain q)
  then show "power_ok p A \<Longrightarrow> ?thesis" using prim_first[of q A "[]"] by simp
next
  case (Raised q f)
  then show "power_ok p A \<Longrightarrow> ?thesis" using prim_first[of q A "''**'' @ factor_text f"] by simp
qed

lemma plain_case:
  assumes q: "\<And>r. follow after_prim r \<Longrightarrow> runs (\<lambda>n. primary (descend A n) (prim_text q @ r)) (lift_result (prim_value q A) r)"
    and r: "no_power r"
  shows "runs (\<lambda>n. pwr (descend A n) (power_text (Plain q) @ r)) (lift_result (power_value (Plain q) A) r)"
proof (rule runs_descend)
  have r': "follow after_prim r" using r by (simp add: no_power_def)
  have "runs (\<lambda>n. and_then (primary (descend A n) (prim_text q @ r)) (\<lambda>b q. let t = skipWs q in
      if starts (CHR ''*'') t \<and> starts (CHR ''*'') (tl t) then and_then (factor (descend A n) (tl (tl t))) (\<lambda>x r'. Good (pow A b x) r') else Good b t))
      (lift_result (ebind (prim_value q A) (\<lambda>v. Inr v)) r)"
  proof (rule runs_seq[OF q[OF r']])
    fix v
    show "runs (\<lambda>n. let t = skipWs r in if starts (CHR ''*'') t \<and> starts (CHR ''*'') (tl t)
        then and_then (factor (descend A n) (tl (tl t))) (\<lambda>x r'. Good (pow A v x) r') else Good v t) (lift_result (Inr v) r)"
      unfolding Let_def skip_follow[OF r'] if_not_P[OF conjunct2[OF r[unfolded no_power_def]]] lift_Inr by (rule runs_const)
  qed
  then show "runs (\<lambda>n. parsePower A (descend A n) (power_text (Plain q) @ r)) (lift_result (power_value (Plain q) A) r)"
    by (simp add: parsePower_def ebind_Inr)
qed

lemma raised_case:
  assumes q: "\<And>r. follow after_prim r \<Longrightarrow> runs (\<lambda>n. primary (descend A n) (prim_text q @ r)) (lift_result (prim_value q A) r)"
    and f: "runs (\<lambda>n. factor (descend A n) (factor_text f @ r)) (lift_result (factor_value f A) r)"
  shows "runs (\<lambda>n. pwr (descend A n) (power_text (Raised q f) @ r)) (lift_result (power_value (Raised q f) A) r)"
proof (rule runs_descend)
  let ?s = "CHR ''*'' # CHR ''*'' # factor_text f @ r"
  have fol: "follow after_prim ?s" by (simp add: follow_def after_prim_def)
  have "runs (\<lambda>n. and_then (primary (descend A n) (prim_text q @ ?s)) (\<lambda>b q. let t = skipWs q in
      if starts (CHR ''*'') t \<and> starts (CHR ''*'') (tl t) then and_then (factor (descend A n) (tl (tl t))) (\<lambda>x r'. Good (pow A b x) r') else Good b t))
      (lift_result (ebind (prim_value q A) (\<lambda>v. ebind (factor_value f A) (\<lambda>w. Inr (pow A v w)))) r)"
  proof (rule runs_seq[OF q[OF fol]])
    fix v
    have "runs (\<lambda>n. and_then (factor (descend A n) (factor_text f @ r)) (\<lambda>x r'. Good (pow A v x) r'))
        (lift_result (ebind (factor_value f A) (\<lambda>w. Inr (pow A v w))) r)"
      by (rule runs_seq[OF f]) (simp add: lift_Inr runs_const)
    then show "runs (\<lambda>n. let t = skipWs ?s in if starts (CHR ''*'') t \<and> starts (CHR ''*'') (tl t)
        then and_then (factor (descend A n) (tl (tl t))) (\<lambda>x r'. Good (pow A v x) r') else Good v t)
        (lift_result (ebind (factor_value f A) (\<lambda>w. Inr (pow A v w))) r)"
      using skip_follow[OF fol] by (simp add: Let_def)
  qed
  then show "runs (\<lambda>n. parsePower A (descend A n) (power_text (Raised q f) @ r)) (lift_result (power_value (Raised q f) A) r)"
    by (simp add: parsePower_def)
qed

lemma number_case:
  assumes ok: "number_ok A tok" and r: "follow after_prim r"
  shows "runs (\<lambda>n. primary (descend A n) (prim_text (Number tok) @ r)) (lift_result (prim_value (Number tok) A) r)"
proof (rule runs_descend)
  have ne: "tok \<noteq> []" "start_char (hd tok)" and dig: "is_digit (hd tok) \<or> hd tok = CHR ''.''"
    using number_start[OF ok] ok by (auto simp: number_ok_def)
  have "\<not> starts (CHR ''('') (tok @ r)" "\<not> is_alpha (hd (tok @ r))" "\<not> starts (CHR ''_'') (tok @ r)"
    "is_digit (hd (tok @ r)) \<or> starts (CHR ''.'') (tok @ r)"
    using ne(1) dig by (cases tok; auto simp: is_digit_def is_alpha_def is_upper_def is_lower_def ccode_def)+
  then have "parsePrimary A (descend A n) (tok @ r) = p_number A (tok @ r)" for n
    using skip_start[OF ne, of r] ne(1) by (simp add: parsePrimary_def Let_def)
  then show "runs (\<lambda>n. parsePrimary A (descend A n) (prim_text (Number tok) @ r)) (lift_result (prim_value (Number tok) A) r)"
    using p_number_text[OF ok r] by (simp add: runs_const)
qed

lemma name_primary:
  assumes ok: "name_ok nm" and r: "r = [] \<or> \<not> ident_char (hd r)"
    and i: "runs (\<lambda>n. ident (descend A n) (nm @ r)) x"
  shows "runs (\<lambda>n. primary (descend A n) (nm @ r)) x"
proof (rule runs_descend)
  have ne: "nm \<noteq> []" "start_char (hd nm)" using name_start[OF ok] by simp_all
  have "\<not> starts (CHR ''('') (nm @ r)" "is_alpha (hd (nm @ r)) \<or> starts (CHR ''_'') (nm @ r)"
    using ne(1) ok by (cases nm; auto simp: name_ok_def is_alpha_def is_upper_def is_lower_def ccode_def)+
  then show "runs (\<lambda>n. parsePrimary A (descend A n) (nm @ r)) x"
    using i skip_start[OF ne, of r] ne(1) by (simp add: parsePrimary_def Let_def)
qed

lemma name_case:
  assumes ok: "name_ok nm" and r: "follow after_prim r"
  shows "runs (\<lambda>n. primary (descend A n) (prim_text (Name nm) @ r)) (lift_result (prim_value (Name nm) A) r)"
proof -
  have r': "r = [] \<or> \<not> ident_char (hd r)" "\<not> starts (CHR ''('') r"
    using r after_prim_not by (cases r; auto simp: follow_def)+
  have "runs (\<lambda>n. parseIdent A (descend A n) (nm @ r)) (lift_result (const_value A nm) r)"
    using take_name[OF ok r'(1)] skip_follow[OF r] r'(2) by (simp add: parseIdent_def Let_def runs_const)
  from name_primary[OF ok r'(1) runs_descend(8)[OF this]] show ?thesis by simp
qed

lemma call_case:
  assumes ok: "name_ok nm" and a: "runs (\<lambda>n. args (descend A n) (args_text as @ CHR '')'' # r)) (lift_result (args_value as A) (CHR '')'' # r))"
  shows "runs (\<lambda>n. primary (descend A n) (prim_text (Call nm as) @ r)) (lift_result (prim_value (Call nm as) A) r)"
proof -
  let ?s = "CHR ''('' # args_text as @ CHR '')'' # r"
  have r': "?s = [] \<or> \<not> ident_char (hd ?s)" by (simp add: ident_char_def is_alnum_def is_digit_def is_alpha_def is_upper_def is_lower_def ccode_def)
  have skip: "skipWs ?s = ?s" "skipWs (CHR '')'' # r) = CHR '')'' # r" by (simp_all add: skipWs_def is_space_def ccode_def)
  have "runs (\<lambda>n. and_then (args (descend A n) (args_text as @ CHR '')'' # r)) (\<lambda>vs q.
        if starts (CHR '')'') (skipWs q) then lift_result (apply_fun A nm vs) (tl (skipWs q)) else Bad (''expected '' @ [sq] @ '')'' @ [sq] @ '' after args'')))
      (lift_result (ebind (args_value as A) (apply_fun A nm)) r)"
    by (rule runs_seq[OF a]) (simp add: skip runs_const)
  then have "runs (\<lambda>n. parseIdent A (descend A n) (nm @ ?s)) (lift_result (prim_value (Call nm as) A) r)"
    using take_name[OF ok r'] skip(1) by (simp add: parseIdent_def Let_def)
  from name_primary[OF ok r' runs_descend(8)[OF this]] show ?thesis by simp
qed

lemma paren_case:
  assumes e: "\<And>r. follow after_expr r \<Longrightarrow> runs (\<lambda>n. expr (descend A n) (expr_text e @ r)) (lift_result (expr_value e A) r)"
  shows "runs (\<lambda>n. primary (descend A n) (prim_text (Paren e) @ r)) (lift_result (prim_value (Paren e) A) r)"
proof (rule runs_descend)
  let ?s = "CHR ''('' # expr_text e @ CHR '')'' # r"
  have skip: "skipWs ?s = ?s" "skipWs (CHR '')'' # r) = CHR '')'' # r" by (simp_all add: skipWs_def is_space_def ccode_def)
  have "runs (\<lambda>n. and_then (expr (descend A n) (expr_text e @ CHR '')'' # r)) (\<lambda>v q.
        if starts (CHR '')'') (skipWs q) then Good v (tl (skipWs q)) else Bad (''expected '' @ [sq] @ '')'' @ [sq])))
      (lift_result (ebind (expr_value e A) (\<lambda>v. Inr v)) r)"
    by (rule runs_seq[OF e]) (simp_all add: skip runs_const lift_Inr follow_def after_expr_def)
  then show "runs (\<lambda>n. parsePrimary A (descend A n) (prim_text (Paren e) @ r)) (lift_result (prim_value (Paren e) A) r)"
    using skip(1) by (simp add: parsePrimary_def Let_def ebind_Inr)
qed

lemma no_args_case: "runs (\<lambda>n. args (descend A n) (CHR '')'' # r)) (Good [] (CHR '')'' # r))"
proof (rule runs_descend)
  have "skipWs (CHR '')'' # r) = CHR '')'' # r" by (simp add: skipWs_def is_space_def ccode_def)
  then show "runs (\<lambda>n. parseArgs (descend A n) (CHR '')'' # r)) (Good [] (CHR '')'' # r))" by (simp add: parseArgs_def Let_def runs_const)
qed

lemma args_case:
  assumes e: "\<And>r. follow after_expr r \<Longrightarrow> runs (\<lambda>n. expr (descend A n) (expr_text e @ r)) (lift_result (expr_value e A) r)"
    and es: "\<And>vs. runs (\<lambda>n. args_loop (descend A n) vs (more_text es @ CHR '')'' # r)) (lift_result (more_value es A vs) (CHR '')'' # r))"
    and ok: "expr_ok e A"
  shows "runs (\<lambda>n. args (descend A n) (args_text (Args e es) @ CHR '')'' # r)) (lift_result (args_value (Args e es) A) (CHR '')'' # r))"
proof (rule runs_descend)
  let ?s = "expr_text e @ more_text es @ CHR '')'' # r"
  have ne: "expr_text e \<noteq> []" "start_char (hd (expr_text e))" using phrase_start(1)[OF ok] by simp_all
  have "\<not> starts (CHR '')'') ?s" using ne start_char_not by (cases "expr_text e") auto
  moreover have "runs (\<lambda>n. and_then (expr (descend A n) ?s) (\<lambda>v q. args_loop (descend A n) [v] q))
      (lift_result (ebind (expr_value e A) (\<lambda>v. more_value es A [v])) (CHR '')'' # r))"
    by (rule runs_seq[OF e[OF more_follow]], rule es)
  ultimately show "runs (\<lambda>n. parseArgs (descend A n) (args_text (Args e es) @ CHR '')'' # r)) (lift_result (args_value (Args e es) A) (CHR '')'' # r))"
    using skip_start[OF ne, of "more_text es @ CHR '')'' # r"] by (simp add: parseArgs_def Let_def)
qed

lemma more_case:
  assumes e: "\<And>r. follow after_expr r \<Longrightarrow> runs (\<lambda>n. expr (descend A n) (expr_text e @ r)) (lift_result (expr_value e A) r)"
    and es: "\<And>vs. runs (\<lambda>n. args_loop (descend A n) vs (more_text es @ CHR '')'' # r)) (lift_result (more_value es A vs) (CHR '')'' # r))"
  shows "runs (\<lambda>n. args_loop (descend A n) vs (more_text (More e es) @ CHR '')'' # r)) (lift_result (more_value (More e es) A vs) (CHR '')'' # r))"
proof (rule runs_descend)
  let ?s = "CHR '','' # expr_text e @ more_text es @ CHR '')'' # r"
  have "skipWs ?s = ?s" by (simp add: skipWs_def is_space_def ccode_def)
  moreover have "runs (\<lambda>n. and_then (expr (descend A n) (expr_text e @ more_text es @ CHR '')'' # r)) (\<lambda>v q. args_loop (descend A n) (vs @ [v]) q))
      (lift_result (ebind (expr_value e A) (\<lambda>v. more_value es A (vs @ [v]))) (CHR '')'' # r))"
    by (rule runs_seq[OF e[OF more_follow]], rule es)
  ultimately show "runs (\<lambda>n. parseArgsLoop (descend A n) vs (more_text (More e es) @ CHR '')'' # r)) (lift_result (more_value (More e es) A vs) (CHR '')'' # r))"
    by (simp add: parseArgsLoop_def Let_def)
qed

lemma no_more_case: "runs (\<lambda>n. args_loop (descend A n) vs (CHR '')'' # r)) (Good vs (CHR '')'' # r))"
proof (rule runs_descend)
  have "skipWs (CHR '')'' # r) = CHR '')'' # r" by (simp add: skipWs_def is_space_def ccode_def)
  then show "runs (\<lambda>n. parseArgsLoop (descend A n) vs (CHR '')'' # r)) (Good vs (CHR '')'' # r))"
    by (simp add: parseArgsLoop_def Let_def runs_const)
qed


lemma phrases_run:
  "expr_ok e A \<Longrightarrow> follow after_expr r \<Longrightarrow> runs (\<lambda>n. expr (descend A n) (expr_text e @ r)) (lift_result (expr_value e A) r)"
  "adds_ok ts A \<Longrightarrow> follow after_expr r \<Longrightarrow> runs (\<lambda>n. expr_loop (descend A n) v (adds_text ts @ r)) (lift_result (adds_value ts A v) r)"
  "term_ok t A \<Longrightarrow> follow after_term r \<Longrightarrow> runs (\<lambda>n. trm (descend A n) (term_text t @ r)) (lift_result (term_value t A) r)"
  "muls_ok fs A \<Longrightarrow> follow after_term r \<Longrightarrow> runs (\<lambda>n. trm_loop (descend A n) v (muls_text fs @ r)) (lift_result (muls_value fs A v) r)"
  "factor_ok f A \<Longrightarrow> no_power r \<Longrightarrow> runs (\<lambda>n. factor (descend A n) (factor_text f @ r)) (lift_result (factor_value f A) r)"
  "power_ok p A \<Longrightarrow> no_power r \<Longrightarrow> runs (\<lambda>n. pwr (descend A n) (power_text p @ r)) (lift_result (power_value p A) r)"
  "prim_ok q A \<Longrightarrow> follow after_prim r \<Longrightarrow> runs (\<lambda>n. primary (descend A n) (prim_text q @ r)) (lift_result (prim_value q A) r)"
  "args_ok as A \<Longrightarrow> runs (\<lambda>n. args (descend A n) (args_text as @ CHR '')'' # r)) (lift_result (args_value as A) (CHR '')'' # r))"
  "more_ok es A \<Longrightarrow> runs (\<lambda>n. args_loop (descend A n) vs (more_text es @ CHR '')'' # r)) (lift_result (more_value es A vs) (CHR '')'' # r))"
proof (induction e and ts and t and fs and f and p and q and as and es arbitrary: r and r v and r and r v and r and r and r and r and r vs)
  case (Expr t ts)
  then show ?case by (intro expr_case) simp_all
next
  case No_Adds
  then show ?case using adds_end by (simp add: lift_Inr)
next
  case (Adds pl t ts)
  then show ?case by (intro adds_case) simp_all
next
  case (Term f fs)
  then show ?case by (intro term_case) simp_all
next
  case No_Muls
  then show ?case using muls_end by (simp add: lift_Inr)
next
  case (Muls c f fs)
  then show ?case by (intro muls_case) simp_all
next
  case (Minus f)
  then show ?case by (intro sign_case) simp_all
next
  case (Plus f)
  then show ?case by (intro sign_case) simp_all
next
  case (Unsigned p)
  then show ?case using power_first[of p A] by (intro unsigned_case) simp_all
next
  case (Plain q)
  then show ?case by (intro plain_case) simp_all
next
  case (Raised q f)
  then show ?case by (intro raised_case) simp_all
next
  case (Number tok)
  then show ?case by (intro number_case) simp_all
next
  case (Paren e)
  then show ?case by (intro paren_case) simp_all
next
  case (Name nm)
  then show ?case by (intro name_case) simp_all
next
  case (Call nm as)
  then show ?case by (intro call_case) simp_all
next
  case No_Args
  then show ?case using no_args_case by (simp add: lift_Inr)
next
  case (Args e es)
  then show ?case by (intro args_case) simp_all
next
  case No_More
  then show ?case using no_more_case by (simp add: lift_Inr)
next
  case (More e es)
  then show ?case by (intro more_case) simp_all
qed

definition checked :: "'a arith \<Rightarrow> string + 'a \<Rightarrow> string + 'a" where
  "checked A x = ebind x (\<lambda>v. if is_nan A v then Inl ''result is NaN'' else if is_inf A v then Inl ''result is infinite'' else Inr v)"

text \<open>
  Property C17. Every phrase of the documented grammar is evaluated as the grammar groups it: sums and
  products from the left, powers from the right, a sign looser than a power, and its value or
  first error is the result.
\<close>

theorem evalExpr_phrase:
  assumes "expr_ok e A"
  shows "evalExpr A (expr_text e) = Some (checked A (expr_value e A))"
proof -
  let ?s = "expr_text e"
  have start: "?s \<noteq> []" "start_char (hd ?s)" using phrase_start(1)[OF assms] by simp_all
  have blank: "\<not> list_all is_space ?s" using start start_char_not by (cases ?s) auto
  have "follow after_expr []" by (simp add: follow_def)
  from phrases_run(1)[OF assms this]
  obtain N where N: "\<forall>n \<ge> N. expr (descend A n) ?s = lift_result (expr_value e A) []" by (auto simp: runs_def)
  have "ends (length ?s) (expr (descend A (calc_fuel ?s)) ?s)" by (rule fedD(1)[OF fed_descend]) (simp add: calc_fuel_def)
  then have "expr (descend A (calc_fuel ?s)) ?s \<noteq> Fuel_Out" by auto
  from expr_stable[OF this, of "max N (calc_fuel ?s)"] N
  have "expr (descend A (calc_fuel ?s)) ?s = lift_result (expr_value e A) []" by simp
  then show ?thesis
    using blank by (cases "expr_value e A") (simp_all add: evalExpr_def checked_def ebind_def lift_result_def skipWs_def)
qed

text \<open>Numbers of one digit over the integers, with the power of the library: \<open>-2**2+7\<close>.\<close>

definition digit_stod :: "string \<Rightarrow> (int \<times> nat) option" where
  "digit_stod tok = (case tok of [c] \<Rightarrow> Some (int (digit_val c), 1) | _ \<Rightarrow> None)"

definition int_arith :: "int arith" where
  "int_arith = \<lparr>add = (+), sub = (-), mul = (*), quot = (div), fmod = (mod), pow = (\<lambda>x y. x ^ nat y), neg = uminus, zero = 0,
     pi_const = 3, e_const = 2, is_zero = (\<lambda>x. x = 0), less = (<), of_count = int, cmath = (\<lambda>f x. x),
     stod = digit_stod, is_nan = (\<lambda>_. False), is_inf = (\<lambda>_. False)\<rparr>"

definition small_phrase :: expr_phrase where
  "small_phrase = Expr (Term (Minus (Unsigned (Raised (Number ''2'') (Unsigned (Plain (Number ''2'')))))) No_Muls)
     (Adds True (Term (Unsigned (Plain (Number ''7''))) No_Muls) No_Adds)"

theorem evalExpr_phrase_witness: "evalExpr int_arith ''-2**2+7'' = Some (Inr 3)"
proof -
  have tx: "expr_text small_phrase = ''-2**2+7''" by (simp add: small_phrase_def)
  have ok: "expr_ok small_phrase int_arith"
    by (simp add: small_phrase_def int_arith_def number_ok_def is_digit_def ccode_def digit_stod_def)
  have val: "checked int_arith (expr_value small_phrase int_arith) = Inr 3"
    by (simp add: small_phrase_def int_arith_def checked_def ebind_def digit_stod_def digit_val_def ccode_def)
  show ?thesis using evalExpr_phrase[OF ok] unfolding tx val .
qed

theorem evalExpr_ends_witness:
  "expr (descend int_arith 40) ''2*3'' \<noteq> Fuel_Out \<and>
   expr (descend int_arith 40) ''2*3'' = expr (descend int_arith (calc_fuel ''2*3'')) ''2*3'' \<and> (\<exists>result. evalExpr int_arith ''2*3'' = Some result)"
  by (rule evalExpr_ends) (simp add: calc_fuel_def)

section \<open>The command\<close>

definition calc_usage :: string where
  "calc_usage = unlines
    [''Usage: icmg calc '' @ [dq] @ ''<expression>'' @ [dq] @ '' [--json]'', [],
     ''Offline expression evaluator -- use instead of shelling out to python/node'',
     ''for a quick number. Pure + deterministic.'', [],
     ''Operators:  + - * / %  ** (power, right-assoc)  ( )  unary -'',
     ''Functions:  sqrt abs floor ceil round log ln exp sin cos tan'',
     ''            min max sum avg   (last four are variadic)'',
     ''Constants:  pi e'', [], ''Examples:'',
     ''  icmg calc '' @ [dq] @ ''2**32'' @ [dq] @ ''            -> 4294967296'',
     ''  icmg calc '' @ [dq] @ ''50/200*100'' @ [dq] @ ''       -> 25'',
     ''  icmg calc '' @ [dq] @ ''avg(1,2,3,4)'' @ [dq] @ ''     -> 2.5'',
     ''  icmg calc '' @ [dq] @ ''sqrt(144)'' @ [dq] @ '' --json -> {'' @ [dq] @ ''ok'' @ [dq] @ '':true,'' @ [dq] @ ''value'' @ [dq] @ '':12}'']"

definition json_key :: "string \<Rightarrow> string" where
  "json_key k = [dq] @ k @ [dq] @ '':''"

text \<open>The command; the printed form of a number is an argument.\<close>

definition calc_run :: "'a arith \<Rightarrow> ('a \<Rightarrow> string) \<Rightarrow> string list \<Rightarrow> outcome option" where
  "calc_run A formatCalc argv =
     (if hasFlag argv ''--help'' then Some \<lparr>exit_code = 0, out = calc_usage, err = []\<rparr>
      else (let json = hasFlag argv ''--json'';
                parts = filter (\<lambda>a. a \<noteq> ''--json'' \<and> a \<noteq> ''--help'') argv in
        if parts = []
        then Some (if json then \<lparr>exit_code = 2, out = ''{'' @ json_key ''ok'' @ ''false,'' @ json_key ''error'' @ [dq] @ ''no expression'' @ [dq] @ ''}'' @ [nl], err = []\<rparr>
             else \<lparr>exit_code = 2, out = [], err = ''icmg calc: no expression given (try: icmg calc '' @ [dq] @ ''2+3'' @ [dq] @ '')'' @ [nl]\<rparr>)
        else (case evalExpr A (join '' '' parts) of
            None \<Rightarrow> None
          | Some (Inr v) \<Rightarrow> Some \<lparr>exit_code = 0,
              out = (if json then ''{'' @ json_key ''ok'' @ ''true,'' @ json_key ''value'' @ formatCalc v @ ''}'' @ [nl] else formatCalc v @ [nl]), err = []\<rparr>
          | Some (Inl e) \<Rightarrow> Some (if json
              then \<lparr>exit_code = 1, out = ''{'' @ json_key ''ok'' @ ''false,'' @ json_key ''error'' @ [dq] @ e @ [dq] @ ''}'' @ [nl], err = []\<rparr>
              else \<lparr>exit_code = 1, out = [], err = ''icmg calc: '' @ e @ [nl]\<rparr>))))"

lemma calc_run_ends: "\<exists>result. calc_run A fmt argv = Some result"
proof -
  obtain x where "evalExpr A (join '' '' (filter (\<lambda>a. a \<noteq> ''--json'' \<and> a \<noteq> ''--help'') argv)) = Some x"
    using expr_ends[of A] by blast
  then show ?thesis by (auto simp: calc_run_def Let_def split: sum.split)
qed

lemma descend_Suc:
  "expr (descend A (Suc n)) = parseExpr (descend A n)" "trm (descend A (Suc n)) = parseTerm (descend A n)"
  "factor (descend A (Suc n)) = parseFactor A (descend A n)" "pwr (descend A (Suc n)) = parsePower A (descend A n)"
  by simp_all

text \<open>The JSON form of an error carries the error unescaped: for a quote it is not JSON.\<close>

lemma json_error_unescaped:
  "calc_run A fmt [[dq], ''--json''] = Some \<lparr>exit_code = 1,
     out = ''{'' @ json_key ''ok'' @ ''false,'' @ json_key ''error'' @ [dq] @ ''unexpected character '' @ [sq, dq, sq] @ [dq] @ ''}'' @ [nl], err = []\<rparr>"
proof -
  let ?e = "''unexpected character '' @ [sq, dq, sq]"
  have skip: "skipWs [dq] = [dq]" by (simp add: skipWs_def is_space_def ccode_def)
  have p1: "primary (descend A (Suc n)) [dq] = Bad ?e" for n
    by (simp add: parsePrimary_def Let_def skip is_alpha_def is_upper_def is_lower_def is_digit_def ccode_def)
  have p2: "pwr (descend A (Suc (Suc n))) [dq] = Bad ?e" for n
    by (simp only: descend_Suc(4) parsePower_def p1 and_then.simps)
  have p3: "factor (descend A (Suc (Suc (Suc n)))) [dq] = Bad ?e" for n
    by (simp add: descend_Suc(3) parseFactor_def Let_def skip p2 del: descend.simps)
  have p4: "trm (descend A (Suc (Suc (Suc (Suc n))))) [dq] = Bad ?e" for n
    by (simp only: descend_Suc(2) parseTerm_def p3 and_then.simps)
  have p5: "expr (descend A (Suc (Suc (Suc (Suc (Suc n)))))) [dq] = Bad ?e" for n
    by (simp only: descend_Suc(1) parseExpr_def p4 and_then.simps)
  have "calc_fuel [dq] = Suc (Suc (Suc (Suc (Suc 11))))" by (simp add: calc_fuel_def)
  then have "expr (descend A (calc_fuel [dq])) [dq] = Bad ?e" using p5[of 11] by (simp only:)
  then have "evalExpr A [dq] = Some (Inl ?e)" by (simp add: evalExpr_def is_space_def ccode_def)
  then show ?thesis by (simp add: calc_run_def hasFlag_def)
qed

end
