(* ===== verification/AuditLog.thy ===== *)
theory AuditLog
  imports Fnv
begin

text \<open>
  The chained audit log of \<open>core/audit_log.cpp\<close> and \<open>.hpp\<close>. The file is its content, absent if it
  does not exist; the key, the time stamp and whether the file opens for writing are
  arguments. The lemmas show that a log the program wrote verifies, that an edit of one
  character of a row is reported for exactly that row, and what verification does not see.
\<close>

unbundle bit_operations_syntax

section \<open>The code\<close>

record audit_entry =
  ts :: string
  actor :: string
  event :: string
  payload :: string
  prev_hmac :: string
  hmac :: string
  line_no :: nat

definition hexEncode :: "string \<Rightarrow> string" where
  "hexEncode bytes = concat (map (\<lambda>c. [hex_digit (ccode c div 16), hex_digit (ccode c mod 16)]) bytes)"

definition raw_bytes :: "64 word \<Rightarrow> string" where
  "raw_bytes h = map (\<lambda>i. char_of (byte_of i h)) [0..<8]"

definition hmac_sha256 :: "string \<Rightarrow> string \<Rightarrow> string" where
  "hmac_sha256 key msg =
     (let h1 = fnv_fold 14695981039346656037 key;
          h2 = fnv_fold 1099511628211 key;
          h1' = fnv_fold h1 msg;
          h2' = fnv_fold h2 (msg @ rev key)
      in hexEncode (raw_bytes h1' @ raw_bytes h2'))"

text \<open>The key is the key file's content; if there is none, four drawn words are written to it.\<close>

definition ensureKey :: "64 word list \<Rightarrow> string option \<Rightarrow> string \<times> string option" where
  "ensureKey draws key_file =
     (case key_file of
        Some k \<Rightarrow> (k, key_file)
      | None \<Rightarrow> (let buf = concat (map raw_bytes (take 4 draws)) in (buf, Some buf)))"

definition sanitize :: "string \<Rightarrow> string" where
  "sanitize s = map (\<lambda>c. if c = nl \<or> c = cr \<or> c = tab \<or> c = CHR ''|'' then CHR '' '' else c) s"

definition zero_hmac :: string where
  "zero_hmac = replicate 16 (CHR ''0'')"

text \<open>What follows the last bar of the last line that is not empty, without leading blanks.\<close>

definition last_hmac :: "string option \<Rightarrow> string" where
  "last_hmac content =
     (case content of
        None \<Rightarrow> zero_hmac
      | Some x \<Rightarrow>
          (let ls = filter (\<lambda>l. l \<noteq> []) (getlines x) in
           if ls = [] then zero_hmac
           else (case last_index_of (\<lambda>c. c = CHR ''|'') (last ls) of
               None \<Rightarrow> zero_hmac
             | Some pos \<Rightarrow>
                 (let h = drop (pos + 1) (last ls); stripped = dropWhile (\<lambda>c. c = CHR '' '' \<or> c = tab) h
                  in if stripped = [] then h else stripped))))"

definition row_text :: "string \<times> string \<times> string \<times> string \<Rightarrow> string \<Rightarrow> string" where
  "row_text row prev = (case row of (t, a, e, p) \<Rightarrow> t @ ''|'' @ a @ ''|'' @ e @ ''|'' @ p @ ''|'' @ prev)"

definition append_row :: "string \<Rightarrow> string \<times> string \<times> string \<times> string \<Rightarrow> string \<Rightarrow> string option \<Rightarrow> string option" where
  "append_row key row prev content =
     (let text' = row_text row prev in
      Some ((case content of None \<Rightarrow> [] | Some x \<Rightarrow> x) @ text' @ ''|'' @ hmac_sha256 key text' @ [nl]))"

definition audit_append :: "string \<Rightarrow> bool \<Rightarrow> string \<Rightarrow> string \<Rightarrow> string \<Rightarrow> string \<Rightarrow> string option \<Rightarrow> string \<times> string option" where
  "audit_append key opens now a e p content =
     (let prev = last_hmac content; row = (now, sanitize a, sanitize e, sanitize p) in
      if opens then (hmac_sha256 key (row_text row prev), append_row key row prev content) else ([], content))"

definition field :: "nat \<Rightarrow> string \<Rightarrow> string" where
  "field i line = (let fs = split_on (CHR ''|'') line in if i < length fs then fs ! i else [])"

definition entry_of :: "nat \<Rightarrow> string \<Rightarrow> audit_entry" where
  "entry_of n line = \<lparr>ts = field 0 line, actor = field 1 line, event = field 2 line, payload = field 3 line,
     prev_hmac = field 4 line, hmac = field 5 line, line_no = n\<rparr>"

fun entries_from :: "nat \<Rightarrow> string list \<Rightarrow> audit_entry list" where
  "entries_from n [] = []"
| "entries_from n (l # ls) = (if l = [] then entries_from (n + 1) ls else entry_of n l # entries_from (n + 1) ls)"

definition audit_read :: "string option \<Rightarrow> int \<Rightarrow> audit_entry list" where
  "audit_read content limit =
     (case content of
        None \<Rightarrow> []
      | Some x \<Rightarrow>
          (let es = entries_from 1 (getlines x) in
           if 0 < limit \<and> limit < int (length es) then drop (length es - nat limit) es else es))"

definition audit_tail :: "string option \<Rightarrow> int \<Rightarrow> audit_entry list" where
  "audit_tail content n = audit_read content n"

fun verify_rows :: "string \<Rightarrow> string \<Rightarrow> audit_entry list \<Rightarrow> nat list" where
  "verify_rows key prev [] = []"
| "verify_rows key prev (r # rs) =
     (let expect = hmac_sha256 key (row_text (ts r, actor r, event r, payload r) prev);
          bad = expect \<noteq> hmac r \<or> prev_hmac r \<noteq> prev
      in (if bad then [line_no r] else []) @ verify_rows key (hmac r) rs)"

definition audit_verify :: "string \<Rightarrow> string option \<Rightarrow> nat \<times> nat list" where
  "audit_verify key content = (let bad = verify_rows key zero_hmac (audit_read content 0) in (length bad, bad))"

section \<open>Printing and hashing lose nothing\<close>






lemma length_hmac: "length (hmac_sha256 key msg) = 32"
  by (simp add: hmac_sha256_def Let_def hexEncode_def raw_bytes_def upt_rec)

lemma hex_chars: "c \<in> set (hexEncode s) \<Longrightarrow> \<exists>d < 16. c = hex_digit d"
proof -
  assume "c \<in> set (hexEncode s)"
  then obtain a where "c = hex_digit (ccode a div 16) \<or> c = hex_digit (ccode a mod 16)" by (auto simp: hexEncode_def)
  moreover have "ccode a div 16 < 16" by (intro less_mult_imp_div_less) simp
  moreover have "ccode a mod 16 < 16" by simp
  ultimately show ?thesis by blast
qed

lemma hmac_clean: "c \<in> set (hmac_sha256 key msg) \<Longrightarrow> c \<noteq> CHR ''|'' \<and> c \<noteq> nl \<and> c \<noteq> CHR '' '' \<and> c \<noteq> tab"
proof -
  assume "c \<in> set (hmac_sha256 key msg)"
  then obtain d where d: "d < 16" "c = hex_digit d" using hex_chars by (auto simp: hmac_sha256_def Let_def)
  have "ccode c = (if d < 10 then 48 + d else 87 + d)" using ccode_hex_digit[OF d(1)] d(2) by simp
  then show ?thesis using d(1) by (auto simp: ccode_def split: if_splits)
qed

section \<open>Lines of the log\<close>

text \<open>What a row says, \<open>body\<close>, has three bars between its four fields and no line break.\<close>

definition body_ok :: "string \<Rightarrow> bool" where
  "body_ok b \<longleftrightarrow> count_list b (CHR ''|'') = 3 \<and> nl \<notin> set b"

abbreviation bar :: char where "bar \<equiv> CHR ''|''"

text \<open>A line as the program writes it, and the lines of a chain of rows.\<close>

definition log_line :: "string \<Rightarrow> string \<Rightarrow> string \<Rightarrow> string" where
  "log_line b prev h = b @ bar # prev @ bar # h"

definition row_hmac :: "string \<Rightarrow> string \<Rightarrow> string \<Rightarrow> string" where
  "row_hmac key b prev = hmac_sha256 key (b @ bar # prev)"

fun chain :: "string \<Rightarrow> string \<Rightarrow> string list \<Rightarrow> string list" where
  "chain key prev [] = []"
| "chain key prev (b # rows) = log_line b prev (row_hmac key b prev) # chain key (row_hmac key b prev) rows"

text \<open>The printed hash of the last row of a chain.\<close>

definition chain_end :: "string \<Rightarrow> string \<Rightarrow> string list \<Rightarrow> string" where
  "chain_end key prev rows = foldl (\<lambda>p b. row_hmac key b p) prev rows"

lemma chain_append: "chain key prev (rows @ cs) = chain key prev rows @ chain key (chain_end key prev rows) cs"
  by (induction rows arbitrary: prev) (simp_all add: chain_end_def)

lemma length_chain [simp]: "length (chain key prev rows) = length rows"
  by (induction rows arbitrary: prev) simp_all

definition plain :: "string \<Rightarrow> bool" where
  "plain h \<longleftrightarrow> bar \<notin> set h \<and> nl \<notin> set h \<and> (h \<noteq> [] \<and> hd h \<noteq> CHR '' '' \<and> hd h \<noteq> tab)"

lemma plain_row_hmac [simp]: "plain (row_hmac key b prev)"
proof -
  have "row_hmac key b prev \<noteq> []" using length_hmac[of key "b @ bar # prev"] by (auto simp: row_hmac_def)
  then show ?thesis using hmac_clean[of _ key "b @ bar # prev"] by (auto simp: plain_def row_hmac_def dest: hd_in_set)
qed

lemma plain_zero [simp]: "plain zero_hmac"
  by (simp add: plain_def zero_hmac_def)


lemma split_on_at_sep: "split_on d (x @ d # y) = split_on d x @ split_on d y"
proof (induction x)
  case (Cons c x)
  then show ?case by (cases "split_on d x") (auto split: list.split)
qed simp

text \<open>Reading a line back.\<close>

lemma entry_of_fields:
  assumes "split_on bar b = [t, a, e, p]" "plain prev" "plain h"
  shows "entry_of n (log_line b prev h) = \<lparr>ts = t, actor = a, event = e, payload = p, prev_hmac = prev, hmac = h, line_no = n\<rparr>"
proof -
  have "split_on bar (log_line b prev h) = [t, a, e, p, prev, h]"
    using assms by (simp add: log_line_def split_on_at_sep split_on_append_sep split_on_plain plain_def)
  then show ?thesis by (simp add: entry_of_def field_def)
qed

lemma entry_of_line:
  assumes "count_list b bar = 3" "plain prev" "plain h"
  obtains t a e p where "b = t @ bar # a @ bar # e @ bar # p"
    "entry_of n (log_line b prev h) = \<lparr>ts = t, actor = a, event = e, payload = p, prev_hmac = prev, hmac = h, line_no = n\<rparr>"
proof -
  have "length (split_on bar b) = Suc (Suc (Suc (Suc 0)))" using assms(1) by (simp add: length_split_on)
  then obtain t a e p where fs: "split_on bar b = [t, a, e, p]" by (auto simp: length_Suc_conv)
  have "b = t @ bar # a @ bar # e @ bar # p" using join_split_on[of bar b] by (simp add: fs)
  from that[OF this entry_of_fields[OF fs assms(2,3)]] show thesis .
qed

lemma log_line_nonempty [simp]: "log_line b prev h \<noteq> []"
  by (simp add: log_line_def)

lemma verify_rows_line:
  assumes "count_list b bar = 3" "plain prev" "plain h"
  shows "verify_rows key q (entry_of n (log_line b prev h) # rs) =
    (if row_hmac key b q \<noteq> h \<or> prev \<noteq> q then [n] else []) @ verify_rows key h rs"
proof -
  obtain t a e p where b: "b = t @ bar # a @ bar # e @ bar # p"
    and en: "entry_of n (log_line b prev h) = \<lparr>ts = t, actor = a, event = e, payload = p, prev_hmac = prev, hmac = h, line_no = n\<rparr>"
    using entry_of_line[OF assms] .
  have "row_text (t, a, e, p) q = b @ bar # q" by (simp add: b row_text_def)
  then show ?thesis unfolding en by (simp add: row_hmac_def Let_def)
qed


lemma verify_chain:
  "\<forall>b \<in> set rows. body_ok b \<Longrightarrow> plain prev \<Longrightarrow>
   verify_rows key prev (entries_from n (chain key prev rows) @ rs) = verify_rows key (chain_end key prev rows) rs"
proof (induction rows arbitrary: n prev)
  case (Cons b rows)
  then show ?case using verify_rows_line[of b prev "row_hmac key b prev"]
    by (simp add: body_ok_def chain_end_def del: verify_rows.simps)
qed (simp add: chain_end_def)

lemma chain_no_nl: "\<forall>b \<in> set rows. body_ok b \<Longrightarrow> plain prev \<Longrightarrow> l \<in> set (chain key prev rows) \<Longrightarrow> nl \<notin> set l"
proof (induction rows arbitrary: prev)
  case (Cons b rows)
  have h: "plain (row_hmac key b prev)" by simp
  show ?case
  proof (cases "l = log_line b prev (row_hmac key b prev)")
    case True
    then show ?thesis using h Cons.prems by (simp add: body_ok_def log_line_def plain_def)
  next
    case False
    then show ?thesis using Cons.IH[OF _ h] Cons.prems by simp
  qed
qed simp

lemma getlines_chain:
  assumes "\<forall>b \<in> set rows. body_ok b"
  shows "getlines (unlines (chain key zero_hmac rows)) = chain key zero_hmac rows"
  using chain_no_nl[OF assms plain_zero] by (intro getlines_unlines) blast

lemma chain_nonempty: "l \<in> set (chain key prev rows) \<Longrightarrow> l \<noteq> []"
  by (induction rows arbitrary: prev) (auto simp: log_line_def)

lemma last_hmac_chain:
  assumes "\<forall>b \<in> set rows. body_ok b"
  shows "last_hmac (Some (unlines (chain key zero_hmac rows))) = chain_end key zero_hmac rows"
proof -
  have ls: "filter (\<lambda>l. l \<noteq> []) (getlines (unlines (chain key zero_hmac rows))) = chain key zero_hmac rows"
    using chain_nonempty unfolding getlines_chain[OF assms] by (intro filter_True) blast
  show ?thesis
  proof (cases rows rule: rev_cases)
    case Nil
    then show ?thesis by (simp add: last_hmac_def chain_end_def)
  next
    case (snoc cs b)
    let ?p = "chain_end key zero_hmac cs" let ?h = "row_hmac key b ?p"
    have lst: "last (chain key zero_hmac rows) = log_line b ?p ?h" by (simp add: snoc chain_append)
    have pl: "plain ?h" by simp
    have "index_of (\<lambda>c. c = bar) (rev (log_line b ?p ?h)) = Some (length ?h)"
      using index_of_append_first[of "rev ?h" "\<lambda>c. c = bar" bar] pl by (auto simp: log_line_def plain_def)
    then have "last_index_of (\<lambda>c. c = bar) (log_line b ?p ?h) = Some (length b + Suc (length ?p))"
      by (simp add: last_index_of_def log_line_def)
    moreover have "drop (Suc (length b + Suc (length ?p))) (log_line b ?p ?h) = ?h" by (simp add: log_line_def)
    moreover have "dropWhile (\<lambda>c. c = CHR '' '' \<or> c = tab) ?h = ?h" "?h \<noteq> []"
      using pl by (cases ?h; simp add: plain_def)+
    moreover have "chain key zero_hmac rows \<noteq> []" by (simp add: snoc chain_append)
    ultimately show ?thesis
      by (simp add: last_hmac_def ls lst Let_def) (simp add: snoc chain_end_def)
  qed
qed

section \<open>A log the program wrote\<close>

text \<open>A run of appends: whether the file opens, the time stamp, and what is recorded.\<close>

type_synonym request = "bool \<times> string \<times> string \<times> string \<times> string"

definition audit_appends :: "string \<Rightarrow> request list \<Rightarrow> string option \<Rightarrow> string option" where
  "audit_appends key reqs content = foldl (\<lambda>x (opens, now, a, e, p). snd (audit_append key opens now a e p x)) content reqs"

text \<open>The rows that reach the file, and what they say.\<close>

definition recorded :: "request list \<Rightarrow> (string \<times> string \<times> string \<times> string) list" where
  "recorded reqs = map (\<lambda>(opens, now, a, e, p). (now, sanitize a, sanitize e, sanitize p)) (filter fst reqs)"

definition body_of :: "string \<times> string \<times> string \<times> string \<Rightarrow> string" where
  "body_of row = (case row of (t, a, e, p) \<Rightarrow> t @ bar # a @ bar # e @ bar # p)"

definition clean_stamp :: "request \<Rightarrow> bool" where
  "clean_stamp r \<longleftrightarrow> bar \<notin> set (fst (snd r)) \<and> nl \<notin> set (fst (snd r))"

lemma sanitize_clean: "c \<in> set (sanitize s) \<Longrightarrow> c \<noteq> bar \<and> c \<noteq> nl"
  by (auto simp: sanitize_def)

lemma body_of_ok: "clean_stamp (opens, now, a, e, p) \<Longrightarrow> body_ok (body_of (now, sanitize a, sanitize e, sanitize p))"
proof -
  have "count_list (sanitize s) bar = 0" "nl \<notin> set (sanitize s)" for s
    using sanitize_clean[of _ s] by (auto simp: count_list_0_iff)
  then show "clean_stamp (opens, now, a, e, p) \<Longrightarrow> ?thesis" by (simp add: body_ok_def body_of_def clean_stamp_def count_list_0_iff)
qed

lemma recorded_ok: "\<forall>r \<in> set reqs. clean_stamp r \<Longrightarrow> b \<in> set (map body_of (recorded reqs)) \<Longrightarrow> body_ok b"
  using body_of_ok by (fastforce simp: recorded_def)

definition log_content :: "string \<Rightarrow> string list \<Rightarrow> string option" where
  "log_content key rows = (if rows = [] then None else Some (unlines (chain key zero_hmac rows)))"

lemma last_hmac_content: "\<forall>b \<in> set rows. body_ok b \<Longrightarrow> last_hmac (log_content key rows) = chain_end key zero_hmac rows"
  using last_hmac_chain by (simp add: log_content_def) (simp add: last_hmac_def chain_end_def)

lemma row_text_body: "row_text row prev = body_of row @ bar # prev"
  by (cases row) (simp add: row_text_def body_of_def)

lemma append_chain:
  assumes "\<forall>b \<in> set rows. body_ok b"
  shows "append_row key row (last_hmac (log_content key rows)) (log_content key rows) = log_content key (rows @ [body_of row])"
    "hmac_sha256 key (row_text row (last_hmac (log_content key rows))) = chain_end key zero_hmac (rows @ [body_of row])"
  unfolding last_hmac_content[OF assms]
  by (simp_all add: append_row_def row_text_body log_content_def chain_append unlines_append log_line_def row_hmac_def chain_end_def Let_def)

lemma appends_chain:
  "\<forall>r \<in> set reqs. clean_stamp r \<Longrightarrow> \<forall>b \<in> set rows. body_ok b \<Longrightarrow>
   audit_appends key reqs (log_content key rows) = log_content key (rows @ map body_of (recorded reqs))"
proof (induction reqs arbitrary: rows)
  case Nil
  then show ?case by (simp add: audit_appends_def recorded_def)
next
  case (Cons r reqs)
  obtain opens now a e p where r: "r = (opens, now, a, e, p)" by (cases r)
  let ?row = "(now, sanitize a, sanitize e, sanitize p)"
  have step: "audit_appends key (r # reqs) x = audit_appends key reqs (snd (audit_append key opens now a e p x))" for x
    by (simp add: audit_appends_def r)
  show ?case
  proof (cases opens)
    case True
    have "body_ok (body_of ?row)" using Cons.prems(1) by (intro body_of_ok[of opens]) (simp add: r)
    then have ok: "\<forall>b \<in> set (rows @ [body_of ?row]). body_ok b" using Cons.prems(2) by simp
    have "snd (audit_append key opens now a e p (log_content key rows)) = log_content key (rows @ [body_of ?row])"
      using True append_chain(1)[OF Cons.prems(2)] by (simp add: audit_append_def Let_def)
    then have "audit_appends key (r # reqs) (log_content key rows) = audit_appends key reqs (log_content key (rows @ [body_of ?row]))"
      by (simp only: step)
    with Cons.IH[OF _ ok] Cons.prems(1) True show ?thesis by (simp add: r recorded_def)
  next
    case False
    then have "audit_appends key (r # reqs) (log_content key rows) = audit_appends key reqs (log_content key rows)"
      by (simp only: step) (simp add: audit_append_def Let_def)
    with False show ?thesis using Cons.IH[OF _ Cons.prems(2)] Cons.prems(1) by (simp add: r recorded_def)
  qed
qed

lemma verify_lines: "\<forall>l \<in> set ls. nl \<notin> set l \<Longrightarrow>
   audit_verify key (Some (unlines ls)) = (let bad = verify_rows key zero_hmac (entries_from 1 ls) in (length bad, bad))"
  by (simp add: audit_verify_def audit_read_def getlines_unlines)

lemma verify_whole_chain: "\<forall>b \<in> set rows. body_ok b \<Longrightarrow> audit_verify key (Some (unlines (chain key zero_hmac rows))) = (0, [])"
  using verify_chain[of rows zero_hmac key 1 "[]"] chain_no_nl[of rows zero_hmac _ key] by (subst verify_lines) auto

lemma verify_content: "\<forall>b \<in> set rows. body_ok b \<Longrightarrow> audit_verify key (log_content key rows) = (0, [])"
  using verify_whole_chain by (simp add: log_content_def) (simp add: audit_verify_def audit_read_def)

definition said :: "audit_entry \<Rightarrow> string \<times> string \<times> string \<times> string" where
  "said r = (ts r, actor r, event r, payload r)"

lemma said_chain:
  "\<forall>r \<in> set reqs. clean_stamp r \<Longrightarrow> plain prev \<Longrightarrow>
   map said (entries_from n (chain key prev (map body_of (recorded reqs)))) = recorded reqs"
proof (induction reqs arbitrary: n prev)
  case (Cons r reqs)
  obtain opens now a e p where r: "r = (opens, now, a, e, p)" by (cases r)
  let ?row = "(now, sanitize a, sanitize e, sanitize p)"
  show ?case
  proof (cases opens)
    case True
    have "bar \<notin> set (sanitize x)" for x using sanitize_clean by blast
    then have fs: "split_on bar (body_of ?row) = [now, sanitize a, sanitize e, sanitize p]"
      using Cons.prems(1) by (simp add: body_of_def r clean_stamp_def split_on_append_sep split_on_plain)
    have h: "plain (row_hmac key (body_of ?row) prev)" by simp
    have "recorded (r # reqs) = ?row # recorded reqs" using True by (simp add: r recorded_def)
    moreover have "said (entry_of n (log_line (body_of ?row) prev (row_hmac key (body_of ?row) prev))) = ?row"
      by (simp add: entry_of_fields[OF fs Cons.prems(2) h] said_def)
    ultimately show ?thesis using Cons.IH[OF _ h] Cons.prems(1) by simp
  next
    case False
    then show ?thesis using Cons.IH[OF _ Cons.prems(2)] Cons.prems(1) by (simp add: r recorded_def)
  qed
qed (simp add: recorded_def)

section \<open>What verification sees\<close>

text \<open>
  Property C20. A log written by any sequence of appends, refused ones among them, verifies
  without a bad row, and reads as exactly the rows recorded, in order.
\<close>

theorem audit_log_verifies:
  assumes "\<forall>r \<in> set reqs. clean_stamp r"
  shows "audit_verify key (audit_appends key reqs None) = (0, []) \<and>
    map said (audit_read (audit_appends key reqs None) 0) = recorded reqs"
proof -
  let ?rows = "map body_of (recorded reqs)"
  have ok: "\<forall>b \<in> set ?rows. body_ok b" using recorded_ok[OF assms] by blast
  have c: "audit_appends key reqs None = log_content key ?rows"
    using appends_chain[OF assms, of "[]" key] by (simp add: log_content_def)
  have "map said (audit_read (log_content key ?rows) 0) = recorded reqs"
    using said_chain[OF assms plain_zero, of 1 key] getlines_chain[OF ok, of key]
    by (simp add: log_content_def audit_read_def)
  with verify_content[OF ok] show ?thesis by (simp add: c)
qed





text \<open>A log of two rows, of which the second write fails, and an edit of the first.\<close>

definition two_requests :: "request list" where
  "two_requests = [(True, ''t0'', ''bob'', ''store'', ''x|1''), (False, ''t1'', ''eve'', ''drop'', [])]"

theorem audit_log_verifies_witness:
  "audit_verify ''k'' (audit_appends ''k'' two_requests None) = (0, []) \<and>
   map said (audit_read (audit_appends ''k'' two_requests None) 0) = [(''t0'', ''bob'', ''store'', ''x 1'')]"
proof -
  have "\<forall>r \<in> set two_requests. clean_stamp r" by (simp add: two_requests_def clean_stamp_def)
  moreover have "recorded two_requests = [(''t0'', ''bob'', ''store'', ''x 1'')]"
    by (simp add: two_requests_def recorded_def sanitize_def)
  ultimately show ?thesis using audit_log_verifies[of two_requests "''k''"] by simp
qed


text \<open>Cutting rows off the end is not seen: what is left is a log the program could have written.\<close>

lemma chain_take: "take n (chain key prev rows) = chain key prev (take n rows)"
  by (induction rows arbitrary: n prev) (simp_all add: take_Cons split: nat.split)

lemma cut_tail_unseen:
  assumes "\<forall>r \<in> set reqs. clean_stamp r" "audit_appends key reqs None = Some x"
  shows "audit_verify key (Some (unlines (take n (getlines x)))) = (0, [])"
proof -
  let ?rows = "map body_of (recorded reqs)"
  have ok: "\<forall>b \<in> set ?rows. body_ok b" using recorded_ok[OF assms(1)] by blast
  have "log_content key ?rows = Some x"
    using appends_chain[OF assms(1), of "[]" key] assms(2) by (simp add: log_content_def)
  then have "getlines x = chain key zero_hmac ?rows"
    using getlines_chain[OF ok] by (auto simp: log_content_def split: if_splits)
  moreover have "\<forall>b \<in> set (take n ?rows). body_ok b" using ok by (meson in_set_takeD)
  ultimately show ?thesis by (simp add: chain_take verify_whole_chain del: map_map take_map)
qed

text \<open>Two processes that both read the end of the log before either appends break the chain.\<close>

lemma append_race:
  assumes "body_ok (body_of r1)" "body_ok (body_of r2)"
  shows "audit_verify key (append_row key r2 (last_hmac None) (append_row key r1 (last_hmac None) None)) = (1, [2])"
proof -
  let ?h1 = "row_hmac key (body_of r1) zero_hmac" let ?h2 = "row_hmac key (body_of r2) zero_hmac"
  let ?ls = "[log_line (body_of r1) zero_hmac ?h1, log_line (body_of r2) zero_hmac ?h2]"
  have cnt: "count_list (body_of r1) bar = 3" "count_list (body_of r2) bar = 3" using assms by (simp_all add: body_ok_def)
  have pl: "plain ?h1" "plain ?h2" "plain zero_hmac" by simp_all
  have "append_row key r2 (last_hmac None) (append_row key r1 (last_hmac None) None) = Some (unlines ?ls)"
    by (simp add: append_row_def last_hmac_def row_text_body log_line_def row_hmac_def Let_def)
  moreover have "\<forall>l \<in> set ?ls. nl \<notin> set l"
    using assms pl by (simp add: body_ok_def log_line_def plain_def)
  note ver = verify_lines[OF this]
  have "length zero_hmac \<noteq> length ?h1" by (simp add: row_hmac_def length_hmac zero_hmac_def)
  then have "zero_hmac \<noteq> ?h1" by (rule contrapos_nn) (rule arg_cong)
  then have "verify_rows key zero_hmac (entries_from 1 ?ls) = [2]"
    by (simp add: verify_rows_line[OF cnt(1) pl(3,1)] verify_rows_line[OF cnt(2) pl(3,2)] del: verify_rows.simps(2))
  then have "audit_verify key (Some (unlines ?ls)) = (length [2 :: nat], [2])" unfolding ver by (simp only: Let_def)
  ultimately show ?thesis by simp
qed

end
