(* ===== verification/Recall.thy ===== *)
theory Recall
  imports TkilDedup Complex_Main "HOL-Library.Multiset"
begin

text \<open>
  The scoring of memories at recall: \<open>imem/scorer.cpp\<close>, the tokenizer of
  \<open>imem/bm25_tokenize.cpp\<close>, the tiers of \<open>imem/memory_tier.hpp\<close>,
  \<open>imem/recall_confidence.hpp\<close> and \<open>imem/retrieval_tier.hpp\<close>, and the helpers of
  \<open>imem/memory_node.hpp\<close>. Doubles are real numbers; the clock is an argument. The lemmas show
  what a ranking contains and in which order, and the range of each factor of a score.
\<close>

section \<open>Memory nodes\<close>

record memory_node =
  node_id :: int
  topic :: string
  content :: string
  node_keywords :: string
  importance :: int
  frequency :: int
  last_used :: int
  created_at :: int
  expires_at :: int
  deleted_at :: int
  zone :: string
  pinned :: int
  git_sha :: string
  source :: string
  valid_from :: int
  invalidated_at :: int
  superseded_by :: int
  score :: real
  bm25_score :: real
  recency :: real
  freq_score :: real
  importance_mult :: real
  feedback_bias :: real

definition importanceName :: "int \<Rightarrow> string" where
  "importanceName i = (if i = 0 then ''low'' else if i = 1 then ''med'' else if i = 2 then ''high'' else if i = 3 then ''crit'' else ''med'')"

definition importanceFromName :: "string \<Rightarrow> int" where
  "importanceFromName s =
     (if s = ''low'' then 0 else if s = ''med'' \<or> s = ''medium'' then 1 else if s = ''high'' then 2
      else if s = ''crit'' \<or> s = ''critical'' then 3 else 1)"

definition importanceDecayMultiplier :: "int \<Rightarrow> real" where
  "importanceDecayMultiplier i = (if i = 3 then 0 else if i = 2 then 1/2 else if i = 0 then 2 else 1)"

section \<open>Tokens\<close>

definition bm25_stopwords :: "string list" where
  "bm25_stopwords =
     [''a'', ''an'', ''the'', ''and'', ''or'', ''but'', ''if'', ''of'', ''to'', ''in'', ''on'', ''at'', ''by'',
      ''for'', ''with'', ''from'', ''as'', ''is'', ''are'', ''was'', ''were'', ''be'', ''been'', ''being'',
      ''am'', ''do'', ''does'', ''did'', ''have'', ''has'', ''had'', ''i'', ''me'', ''my'', ''we'', ''our'',
      ''you'', ''your'', ''he'', ''she'', ''it'', ''its'', ''they'', ''them'', ''their'', ''this'', ''that'',
      ''these'', ''those'', ''what'', ''which'', ''who'', ''whom'', ''when'', ''where'', ''why'', ''how'',
      ''can'', ''could'', ''would'', ''should'', ''will'', ''shall'', ''may'', ''might'', ''must'', ''not'',
      ''no'', ''so'', ''than'', ''too'', ''very'', ''just'', ''about'', ''into'', ''over'', ''under'',
      ''again'', ''then'', ''there'', ''here'', ''all'', ''any'', ''some'', ''such'', ''only'', ''own'',
      ''same'', ''other'', ''more'', ''most'', ''s'', ''t'', ''don'']"

definition wordByte :: "char \<Rightarrow> bool" where
  "wordByte c \<longleftrightarrow> is_digit c \<or> is_lower c \<or> is_upper c \<or> 128 \<le> ccode c"

definition isBm25Stopword :: "string \<Rightarrow> bool" where
  "isBm25Stopword w \<longleftrightarrow> w \<in> set bm25_stopwords"

definition flush_word :: "string \<Rightarrow> string list" where
  "flush_word cur = (if 2 \<le> length cur \<and> \<not> isBm25Stopword cur then [cur] else [])"

fun word_tokens :: "string \<Rightarrow> string \<Rightarrow> string list" where
  "word_tokens cur [] = flush_word cur"
| "word_tokens cur (c # cs) =
     (if wordByte c then word_tokens (cur @ [to_lower c]) cs else flush_word cur @ word_tokens [] cs)"

definition wordTokenize :: "string \<Rightarrow> string list" where
  "wordTokenize s = word_tokens [] s"

text \<open>The words of a stream, \<open>while (ss >> t)\<close>.\<close>

fun stream_words :: "string \<Rightarrow> string \<Rightarrow> string list" where
  "stream_words cur [] = (if cur = [] then [] else [cur])"
| "stream_words cur (c # cs) =
     (if is_space c then (if cur = [] then [] else [cur]) @ stream_words [] cs else stream_words (cur @ [c]) cs)"

definition strip_punct :: "string \<Rightarrow> string" where
  "strip_punct t = rev (dropWhile (\<lambda>c. \<not> is_alnum c) (rev (dropWhile (\<lambda>c. \<not> is_alnum c) t)))"

text \<open>\<open>legacy\<close> is the setting of the environment that asks for the old tokenizer.\<close>

definition tokenize :: "bool \<Rightarrow> string \<Rightarrow> string list" where
  "tokenize legacy text' =
     (if \<not> legacy then wordTokenize text'
      else filter (\<lambda>t. 2 \<le> length t) (map (\<lambda>t. strip_punct (lower_str t)) (stream_words [] text')))"

definition document :: "memory_node \<Rightarrow> string" where
  "document n = topic n @ '' '' @ topic n @ '' '' @ content n @ '' '' @ node_keywords n"

section \<open>The corpus\<close>

record scorer =
  df :: "string \<Rightarrow> nat"
  corpus_size :: nat
  avgdl :: real
  dirty :: bool

definition fresh_scorer :: scorer where
  "fresh_scorer = \<lparr>df = (\<lambda>_. 0), corpus_size = 0, avgdl = 0, dirty = True\<rparr>"

definition invalidate :: "scorer \<Rightarrow> scorer" where
  "invalidate S = S\<lparr>dirty := True\<rparr>"

definition bump_all :: "string list \<Rightarrow> (string \<Rightarrow> nat) \<Rightarrow> string \<Rightarrow> nat" where
  "bump_all ts f = foldl (\<lambda>g t. g(t := g t + 1)) f ts"

definition fit :: "bool \<Rightarrow> memory_node list \<Rightarrow> scorer \<Rightarrow> scorer" where
  "fit legacy corpus S =
     (if \<not> dirty S then S
      else (let docs = map (\<lambda>n. tokenize legacy (document n)) corpus; total = sum_list (map (\<lambda>d. real (length d)) docs)
            in \<lparr>df = foldl (\<lambda>f d. bump_all (remdups d) f) (\<lambda>_. 0) docs, corpus_size = length corpus,
                avgdl = (if corpus = [] then total else total / real (length corpus)), dirty = False\<rparr>))"

definition idf :: "scorer \<Rightarrow> string \<Rightarrow> real" where
  "idf S t = ln (real (corpus_size S + 1) / real (df S t + 1) + 1)"

definition len_norm :: "scorer \<Rightarrow> string list \<Rightarrow> real" where
  "len_norm S ds = 3/2 * (1 - 3/4 + 3/4 * (if 0 < avgdl S then real (length ds) / avgdl S else 1))"

definition bm25_term :: "scorer \<Rightarrow> string list \<Rightarrow> string \<Rightarrow> real" where
  "bm25_term S ds t =
     (if t \<notin> set ds then 0
      else (let tf = real (count_list ds t) in idf S t * (tf * (3/2 + 1)) / (tf + len_norm S ds)))"

definition bm25 :: "bool \<Rightarrow> scorer \<Rightarrow> string \<Rightarrow> memory_node \<Rightarrow> real" where
  "bm25 legacy S query n =
     foldl (\<lambda>acc t. acc + bm25_term S (tokenize legacy (document n)) t) 0 (tokenize legacy query)"

section \<open>Decay\<close>

definition recencyDecay :: "int \<Rightarrow> int \<Rightarrow> real" where
  "recencyDecay now used = (if used \<le> 0 then 1/2 else exp (- (1/100) * (real_of_int (now - used) / 3600)))"

definition accessAwareDecay :: "int \<Rightarrow> int \<Rightarrow> int \<Rightarrow> real" where
  "accessAwareDecay now used freq =
     (let base = recencyDecay now used in
      if freq \<le> 0 then base
      else (let boost = 1 / (1 + real_of_int freq * (1/10)) in base + (1 - base) * (1 - boost)))"

definition ageDecay :: "int \<Rightarrow> int \<Rightarrow> int \<Rightarrow> real" where
  "ageDecay now created imp =
     (if created \<le> 0 then 1
      else (let tier_mult = importanceDecayMultiplier imp in
            if tier_mult \<le> 0 then 1 else exp (- (77/10000) * tier_mult * (real_of_int (now - created) / 86400))))"

section \<open>Scores\<close>

record score_detail =
  sd_bm25 :: real
  sd_recency :: real
  sd_freq :: real
  sd_importance :: real
  total :: real
  matched_tokens :: "string list"

definition importance_weight :: "int \<Rightarrow> real" where
  "importance_weight i = [1/2, 1, 3/2, 2] ! nat (max 0 (min 3 i))"

definition scoreDetailed :: "bool \<Rightarrow> scorer \<Rightarrow> int \<Rightarrow> string \<Rightarrow> memory_node \<Rightarrow> score_detail" where
  "scoreDetailed legacy S now query n =
     (let b = bm25 legacy S query n; r = accessAwareDecay now (last_used n) (frequency n);
          f = ln (2 + real_of_int (frequency n)); im = importance_weight (importance n);
          age_mult = ageDecay now (created_at n) (importance n); pin_mult = (if pinned n \<noteq> 0 then 10 else 1);
          ds = tokenize legacy (document n)
      in \<lparr>sd_bm25 = b, sd_recency = r, sd_freq = f, sd_importance = im,
          total = b * r * f * im * feedback_bias n * age_mult * pin_mult,
          matched_tokens = filter (\<lambda>t. t \<in> set ds) (tokenize legacy query)\<rparr>)"

definition annotate :: "bool \<Rightarrow> scorer \<Rightarrow> int \<Rightarrow> string \<Rightarrow> memory_node \<Rightarrow> memory_node" where
  "annotate legacy S now query n =
     (let d = scoreDetailed legacy S now query n
      in n\<lparr>score := total d, bm25_score := sd_bm25 d, recency := sd_recency d, freq_score := sd_freq d,
           importance_mult := sd_importance d\<rparr>)"

text \<open>
  The ranking, given the sort: with \<open>ICMG_RECALL_TIER_BOOST\<close> the one by \<open>tier_before\<close> below, else
  the one by score alone (\<open>sort_key\<close> is stable, as \<open>std::stable_sort\<close> is). \<open>None\<close> is the
  exception of \<open>resize\<close> for a negative limit.
\<close>

definition rank_with :: "(memory_node list \<Rightarrow> memory_node list) \<Rightarrow> bool \<Rightarrow> scorer \<Rightarrow> int \<Rightarrow> string \<Rightarrow> memory_node list \<Rightarrow> int \<Rightarrow> memory_node list option" where
  "rank_with srt legacy S now query nodes limit =
     (let ranked = srt (map (annotate legacy S now query) nodes);
          hits = filter (\<lambda>n. \<not> score n \<le> 0) ranked
      in if limit < int (length hits) then (if limit < 0 then None else Some (take (nat limit) hits)) else Some hits)"

definition rank_nodes :: "bool \<Rightarrow> scorer \<Rightarrow> int \<Rightarrow> string \<Rightarrow> memory_node list \<Rightarrow> int \<Rightarrow> memory_node list option" where
  "rank_nodes legacy S now query nodes limit = rank_with (sort_key (\<lambda>n. - score n)) legacy S now query nodes limit"

section \<open>Tiers\<close>

datatype mem_tier = Hot | Warm | Cold

text \<open>Division of C++, towards zero.\<close>

definition cdiv :: "int \<Rightarrow> int \<Rightarrow> int" where
  "cdiv a b = (if a < 0 then - ((- a) div b) else a div b)"

definition memoryTier :: "int \<Rightarrow> int \<Rightarrow> int \<Rightarrow> int \<Rightarrow> mem_tier" where
  "memoryTier used freq imp now =
     (if 3 \<le> imp then Hot
      else (let age_days = (if 0 < used then cdiv (now - used) 86400 else 1000000) in
            if age_days \<le> 2 \<or> 5 \<le> freq then Hot
            else if age_days \<le> 30 \<or> 2 \<le> freq then Warm else Cold))"

fun memTierName :: "mem_tier \<Rightarrow> string" where
  "memTierName Hot = ''hot''"
| "memTierName Warm = ''warm''"
| "memTierName Cold = ''cold''"

definition memTierFromName :: "string \<Rightarrow> mem_tier" where
  "memTierFromName s = (if s = ''hot'' then Hot else if s = ''cold'' then Cold else Warm)"

definition tierPasses :: "string \<Rightarrow> int \<Rightarrow> int \<Rightarrow> int \<Rightarrow> int \<Rightarrow> bool" where
  "tierPasses flt used freq imp now \<longleftrightarrow> flt = [] \<or> memTierName (memoryTier used freq imp now) = flt"

fun tierRankOrder :: "mem_tier \<Rightarrow> int" where
  "tierRankOrder Hot = 2"
| "tierRankOrder Warm = 1"
| "tierRankOrder Cold = 0"

definition scoresTied :: "real \<Rightarrow> real \<Rightarrow> bool" where
  "scoresTied a b \<longleftrightarrow> (let m = max \<bar>a\<bar> \<bar>b\<bar> in if m \<le> 0 then True else \<bar>a - b\<bar> \<le> 5/1000 * m)"

text \<open>The comparison that the sort uses when the tier is to break ties.\<close>

definition tier_before :: "int \<Rightarrow> memory_node \<Rightarrow> memory_node \<Rightarrow> bool" where
  "tier_before now a b \<longleftrightarrow>
     (if \<not> scoresTied (score a) (score b) then score a > score b
      else (let ra = tierRankOrder (memoryTier (last_used a) (frequency a) (importance a) now);
                rb = tierRankOrder (memoryTier (last_used b) (frequency b) (importance b) now)
            in if ra \<noteq> rb then ra > rb else score a > score b))"

definition confidenceTier :: "real \<Rightarrow> real \<Rightarrow> string" where
  "confidenceTier s flr =
     (if flr \<le> 0 then (if 0 < s then ''high'' else ''low'')
      else if 3 * flr \<le> s then ''high'' else if 3/2 * flr \<le> s then ''med'' else ''low'')"

datatype retrieval_tier = Cheap | Deep

record tier_signal =
  top_score :: real
  strong_hits :: int
  candidate_count :: int
  query_tokens :: int

record tier_thresholds =
  strong_score :: real
  long_query :: int
  marginal :: real

definition classifyRetrievalTier :: "tier_signal \<Rightarrow> tier_thresholds \<Rightarrow> retrieval_tier" where
  "classifyRetrievalTier s t =
     (if candidate_count s \<le> 0 then Deep
      else (let hasStrong = strong_score t \<le> top_score s in
            if long_query t \<le> query_tokens s then (if hasStrong \<and> marginal t \<le> top_score s then Cheap else Deep)
            else if hasStrong then Cheap else Deep))"

section \<open>Other signals\<close>

definition normalizeMinMax :: "real list \<Rightarrow> real list" where
  "normalizeMinMax raw =
     (case raw of [] \<Rightarrow> []
      | x # _ \<Rightarrow>
          (let lo = foldl (\<lambda>l v. if v < l then v else l) x raw; hi = foldl (\<lambda>h v. if h < v then v else h) x raw; range = hi - lo
           in if range \<le> 0 then map (\<lambda>_. 1) raw else map (\<lambda>v. (v - lo) / range) raw))"

definition entityOverlapScore :: "string list \<Rightarrow> string \<Rightarrow> real" where
  "entityOverlapScore ents kw =
     (if ents = [] then 0 else real (length (filter (\<lambda>e. e \<noteq> [] \<and> contains e kw) ents)) / real (length ents))"

definition scorer_levenshtein :: "string \<Rightarrow> string \<Rightarrow> int \<Rightarrow> int" where
  "scorer_levenshtein a b cap =
     (if cap < \<bar>int (length a) - int (length b)\<bar> then cap + 1
      else (let d = lev_rows cap 1 (map int [0..<Suc (length b)]) a b in if cap < d then cap + 1 else d))"

definition fuzzyTokenOverlap :: "string list \<Rightarrow> string list \<Rightarrow> int \<Rightarrow> real" where
  "fuzzyTokenOverlap qs cs k =
     (if qs = [] then 0
      else real (length (filter (\<lambda>q. \<exists>c \<in> set cs. scorer_levenshtein q c k \<le> k) qs)) / real (length qs))"


section \<open>Each factor of a score\<close>

lemma recencyDecay_pos: "0 < recencyDecay now used"
  by (simp add: recencyDecay_def)

lemma recencyDecay_le_1: "used \<le> now \<Longrightarrow> recencyDecay now used \<le> 1"
  by (simp add: recencyDecay_def)

text \<open>Frequent use moves the decay towards one, never past it.\<close>

definition flatness :: "int \<Rightarrow> real" where
  "flatness freq = (if freq \<le> 0 then 0 else 1 - 1 / (1 + real_of_int freq * (1/10)))"

lemma access_mix: "accessAwareDecay now used freq = recencyDecay now used + flatness freq * (1 - recencyDecay now used)"
  by (simp add: flatness_def accessAwareDecay_def Let_def mult.commute)

lemma flatness_range: "0 \<le> flatness freq" "flatness freq < 1"
  by (simp_all add: flatness_def)

lemma flatness_mono: "f \<le> g \<Longrightarrow> flatness f \<le> flatness g"
  by (simp add: flatness_def frac_le)

lemma accessAwareDecay_pos: "0 < accessAwareDecay now used freq"
proof -
  have "0 < (1 - flatness freq) * recencyDecay now used"
    using flatness_range(2)[of freq] recencyDecay_pos[of now used] by (intro mult_pos_pos) simp_all
  moreover have "accessAwareDecay now used freq = (1 - flatness freq) * recencyDecay now used + flatness freq"
    unfolding access_mix by (simp add: algebra_simps)
  ultimately show ?thesis using flatness_range(1)[of freq] by linarith
qed

lemma accessAwareDecay_between:
  assumes "used \<le> now"
  shows "recencyDecay now used \<le> accessAwareDecay now used freq \<and> accessAwareDecay now used freq \<le> 1"
proof -
  have r: "0 \<le> 1 - recencyDecay now used" using recencyDecay_le_1[OF assms] by simp
  define x where "x = flatness freq * (1 - recencyDecay now used)"
  have "0 \<le> x" unfolding x_def using flatness_range(1)[of freq] r by (rule mult_nonneg_nonneg)
  moreover have "x \<le> 1 * (1 - recencyDecay now used)"
    unfolding x_def using flatness_range(2)[of freq] r by (intro mult_right_mono) simp_all
  ultimately show ?thesis unfolding access_mix x_def[symmetric] by simp
qed

lemma accessAwareDecay_mono:
  assumes "used \<le> now" "f \<le> g"
  shows "accessAwareDecay now used f \<le> accessAwareDecay now used g"
  unfolding access_mix using flatness_mono[OF assms(2)] recencyDecay_le_1[OF assms(1)]
  by (intro add_left_mono mult_right_mono) simp_all

lemma ageDecay_pos: "0 < ageDecay now created imp"
  by (simp add: ageDecay_def Let_def)

lemma ageDecay_critical: "ageDecay now created 3 = 1"
  by (simp add: ageDecay_def importanceDecayMultiplier_def)

lemma importance_weight_pos: "0 < importance_weight i"
proof -
  have "nat (max 0 (min 3 i)) \<in> {0, 1, 2, 3}" by auto
  then show ?thesis by (auto simp: importance_weight_def numeral_2_eq_2 numeral_3_eq_3)
qed

lemma idf_pos: "0 < idf S t"
proof -
  have "0 < real (corpus_size S + 1) / real (df S t + 1)" by simp
  then show ?thesis unfolding idf_def by (intro ln_gt_zero) linarith
qed

lemma len_norm_pos: "0 < len_norm S ds"
proof -
  define x where "x = (if 0 < avgdl S then real (length ds) / avgdl S else 1)"
  have "0 \<le> x" by (simp add: x_def)
  then show ?thesis unfolding len_norm_def x_def[symmetric] by simp
qed

lemma bm25_term_pos: "t \<in> set ds \<Longrightarrow> 0 < bm25_term S ds t"
proof -
  assume t: "t \<in> set ds"
  then have tf: "0 < real (count_list ds t)" using count_list_0_iff[of ds t] by (cases "count_list ds t") auto
  then have "0 < idf S t * (real (count_list ds t) * (3/2 + 1)) / (real (count_list ds t) + len_norm S ds)"
    using len_norm_pos[of S ds] by (intro divide_pos_pos mult_pos_pos idf_pos) linarith+
  then show ?thesis using t by (simp add: bm25_term_def Let_def)
qed

lemma bm25_sum: "bm25 legacy S query n = sum_list (map (bm25_term S (tokenize legacy (document n))) (tokenize legacy query))"
proof -
  have "foldl (\<lambda>acc t. acc + f t) a xs = a + sum_list (map f xs)" for f :: "string \<Rightarrow> real" and a xs
    by (induction xs arbitrary: a) simp_all
  then show ?thesis by (simp add: bm25_def)
qed

text \<open>A node matches when it has a token of the query.\<close>

definition matches :: "bool \<Rightarrow> string \<Rightarrow> memory_node \<Rightarrow> bool" where
  "matches legacy query n \<longleftrightarrow> (\<exists>t \<in> set (tokenize legacy query). t \<in> set (tokenize legacy (document n)))"

lemma bm25_term_nonneg: "0 \<le> bm25_term S ds t"
  using bm25_term_pos[of t ds S] by (cases "t \<in> set ds") (simp_all add: bm25_term_def)

lemma bm25_pos_iff: "0 < bm25 legacy S query n \<longleftrightarrow> matches legacy query n"
proof
  assume "matches legacy query n"
  then obtain t where t: "t \<in> set (tokenize legacy query)" "t \<in> set (tokenize legacy (document n))" by (auto simp: matches_def)
  have "bm25_term S (tokenize legacy (document n)) t \<le> bm25 legacy S query n"
    unfolding bm25_sum using t(1) bm25_term_nonneg by (intro member_le_sum_list) auto
  then show "0 < bm25 legacy S query n" using bm25_term_pos[OF t(2)] by (rule less_le_trans[rotated])
next
  assume pos: "0 < bm25 legacy S query n"
  show "matches legacy query n"
  proof (rule ccontr)
    assume "\<not> matches legacy query n"
    then have "\<forall>t \<in> set (tokenize legacy query). bm25_term S (tokenize legacy (document n)) t = 0" by (auto simp: matches_def bm25_term_def)
    then have "bm25 legacy S query n = 0" unfolding bm25_sum by (simp add: sum_list_0 cong: map_cong)
    with pos show False by simp
  qed
qed

definition sane :: "memory_node \<Rightarrow> bool" where
  "sane n \<longleftrightarrow> 0 \<le> frequency n \<and> 0 < feedback_bias n"

lemma total_pos_iff:
  assumes "sane n"
  shows "0 < total (scoreDetailed legacy S now query n) \<longleftrightarrow> matches legacy query n"
proof -
  let ?rest = "accessAwareDecay now (last_used n) (frequency n) * ln (2 + real_of_int (frequency n)) * importance_weight (importance n)
     * feedback_bias n * ageDecay now (created_at n) (importance n) * (if pinned n \<noteq> 0 then 10 else 1)"
  have f: "0 < ln (2 + real_of_int (frequency n))" "0 < feedback_bias n" using assms by (simp_all add: sane_def)
  have rest: "0 < ?rest" by (intro mult_pos_pos f accessAwareDecay_pos importance_weight_pos ageDecay_pos) simp
  have "total (scoreDetailed legacy S now query n) = bm25 legacy S query n * ?rest"
    by (simp add: scoreDetailed_def Let_def mult.assoc)
  then show ?thesis unfolding bm25_pos_iff[symmetric, of legacy query n S] using rest mult_pos_pos[OF _ rest] zero_less_mult_pos2[OF _ rest] by metis
qed

section \<open>The ranking\<close>

lemma score_annotate [simp]: "score (annotate legacy S now query n) = total (scoreDetailed legacy S now query n)"
  by (simp add: annotate_def Let_def)

lemma filter_sort_key: "filter P (sort_key f xs) = sort_key f (filter P xs)"
  by (rule filter_sort[symmetric, THEN sym]) 

text \<open>The nodes a ranking chooses from: those that match, with their scores filled in.\<close>

definition candidates :: "bool \<Rightarrow> scorer \<Rightarrow> int \<Rightarrow> string \<Rightarrow> memory_node list \<Rightarrow> memory_node list" where
  "candidates legacy S now query nodes = map (annotate legacy S now query) (filter (matches legacy query) nodes)"

lemma rank_hits:
  assumes "\<forall>n \<in> set nodes. sane n"
  shows "filter (\<lambda>n. \<not> score n \<le> 0) (sort_key (\<lambda>n. - score n) (map (annotate legacy S now query) nodes))
    = sort_key (\<lambda>n. - score n) (candidates legacy S now query nodes)"
proof -
  have "filter (\<lambda>n. \<not> score n \<le> 0) (map (annotate legacy S now query) nodes) = candidates legacy S now query nodes"
    unfolding candidates_def filter_map using assms total_pos_iff
    by (intro arg_cong[where f = "map _"] filter_cong) (auto simp: not_le)
  then show ?thesis by (simp add: filter_sort)
qed

text \<open>
  Property C15. A ranking with a limit that is not negative returns the matching nodes of highest
  score, as many as the limit allows: with the matching nodes left out behind them they are all
  the matching nodes, in falling order of score, and nodes of equal score in the order given.
\<close>

theorem rank_nodes_best:
  assumes "\<forall>n \<in> set nodes. sane n" "0 \<le> limit"
  shows "\<exists>hits rest. rank_nodes legacy S now query nodes limit = Some hits \<and>
    length hits = min (nat limit) (length (filter (matches legacy query) nodes)) \<and>
    mset (hits @ rest) = mset (candidates legacy S now query nodes) \<and>
    sorted_wrt (\<lambda>a b. score b \<le> score a) (hits @ rest) \<and>
    (\<forall>x. filter (\<lambda>n. score n = x) (hits @ rest) = filter (\<lambda>n. score n = x) (candidates legacy S now query nodes))"
proof -
  let ?c = "candidates legacy S now query nodes" let ?s = "sort_key (\<lambda>n. - score n) ?c"
  have len: "length ?s = length (filter (matches legacy query) nodes)" by (simp add: candidates_def)
  have run: "rank_nodes legacy S now query nodes limit = Some (take (nat limit) ?s)"
    using assms(2) by (auto simp: rank_nodes_def rank_with_def rank_hits[OF assms(1)] Let_def)
  have srt: "sorted_wrt (\<lambda>a b. score b \<le> score a) ?s"
    using sorted_sort_key[of "\<lambda>n. - score n" ?c] by (simp add: sorted_wrt_map)
  have stable: "filter (\<lambda>n. score n = x) ?s = filter (\<lambda>n. score n = x) ?c" for x
    using sort_key_stable[of "\<lambda>n. - score n" "- x" ?c] by simp
  have split: "take (nat limit) ?s @ drop (nat limit) ?s = ?s" by simp
  show ?thesis
    by (rule exI[of _ "take (nat limit) ?s"], rule exI[of _ "drop (nat limit) ?s"])
      (simp only: split run srt stable mset_sort length_take len, simp add: min.commute)
qed

text \<open>A node that does not match is never returned, whatever its age, use, rank and pin.\<close>

lemma unmatched_not_recalled:
  assumes "\<forall>n \<in> set nodes. sane n" "rank_nodes legacy S now query nodes limit = Some hits" "h \<in> set hits"
  shows "\<exists>n \<in> set nodes. matches legacy query n \<and> h = annotate legacy S now query n"
proof -
  have "set hits \<subseteq> set (candidates legacy S now query nodes)"
    using assms(2) by (auto simp: rank_nodes_def rank_with_def rank_hits[OF assms(1)] Let_def split: if_splits dest: in_set_takeD)
  then show ?thesis using assms(3) by (auto simp: candidates_def)
qed

section \<open>The corpus counts documents\<close>

lemma bump_all_count: "bump_all ts f t = f t + count_list ts t"
  unfolding bump_all_def by (induction ts arbitrary: f) simp_all

lemma count_remdups: "count_list (remdups xs) x = (if x \<in> set xs then 1 else 0)"
  by (induction xs) auto

text \<open>
  After a fit, the document frequency of a term is the number of nodes with the term
  among their tokens, and no more than the number of nodes.
\<close>

theorem fit_counts_documents:
  assumes "dirty S"
  shows "df (fit legacy corpus S) t = length (filter (\<lambda>n. t \<in> set (tokenize legacy (document n))) corpus) \<and>
    df (fit legacy corpus S) t \<le> corpus_size (fit legacy corpus S) \<and>
    fit legacy other (fit legacy corpus S) = fit legacy corpus S"
proof -
  have fold: "foldl (\<lambda>f d. bump_all (remdups d) f) f ds t = f t + length (filter (\<lambda>d. t \<in> set d) ds)" for ds f
    by (induction ds arbitrary: f) (simp_all add: bump_all_count count_remdups)
  have "df (fit legacy corpus S) t = length (filter (\<lambda>n. t \<in> set (tokenize legacy (document n))) corpus)"
    using assms by (simp add: fit_def Let_def fold filter_map comp_def)
  moreover have "corpus_size (fit legacy corpus S) = length corpus" "\<not> dirty (fit legacy corpus S)"
    using assms by (simp_all add: fit_def Let_def)
  ultimately show ?thesis by (simp add: fit_def[of _ other])
qed

section \<open>Scores between zero and one\<close>

lemma foldl_min: "foldl (\<lambda>l v. if v < l then v else l) x xs = Min (set (x # xs))" for x :: real
proof (induction xs arbitrary: x)
  case (Cons a xs)
  have "foldl (\<lambda>l v. if v < l then v else l) x (a # xs) = foldl (\<lambda>l v. if v < l then v else l) (min x a) xs" by (simp add: min_def)
  then have "foldl (\<lambda>l v. if v < l then v else l) x (a # xs) = Min (set (min x a # xs))" unfolding Cons .
  also have "\<dots> = Min (set (x # a # xs))" by (cases "set xs = {}") (simp_all add: min.assoc)
  finally show ?case .
qed simp

lemma foldl_max: "foldl (\<lambda>h v. if h < v then v else h) x xs = Max (set (x # xs))" for x :: real
proof (induction xs arbitrary: x)
  case (Cons a xs)
  have "foldl (\<lambda>h v. if h < v then v else h) x (a # xs) = foldl (\<lambda>h v. if h < v then v else h) (max x a) xs" by (simp add: max_def)
  then have "foldl (\<lambda>h v. if h < v then v else h) x (a # xs) = Max (set (max x a # xs))" unfolding Cons .
  also have "\<dots> = Max (set (x # a # xs))" by (cases "set xs = {}") (simp_all add: max.assoc)
  finally show ?case .
qed simp

text \<open>
  Normalised scores lie between zero and one, the greatest is one, and the order of
  the scores is kept.
\<close>

theorem normalizeMinMax_range:
  assumes "i < length raw" "j < length raw" "raw ! i \<le> raw ! j"
  shows "length (normalizeMinMax raw) = length raw \<and> 0 \<le> normalizeMinMax raw ! i \<and>
    normalizeMinMax raw ! i \<le> normalizeMinMax raw ! j \<and> normalizeMinMax raw ! j \<le> 1 \<and> 1 \<in> set (normalizeMinMax raw)"
proof -
  obtain x xs where raw: "raw = x # xs" using assms(1) by (cases raw) auto
  define lo hi where "lo = Min (set raw)" and "hi = Max (set raw)"
  have ends: "foldl (\<lambda>l v. if v < l then v else l) x raw = lo" "foldl (\<lambda>h v. if h < v then v else h) x raw = hi"
    unfolding foldl_min foldl_max lo_def hi_def by (simp_all add: raw)
  have nm: "normalizeMinMax raw = (if hi - lo \<le> 0 then map (\<lambda>_. 1) raw else map (\<lambda>v. (v - lo) / (hi - lo)) raw)"
    using ends unfolding normalizeMinMax_def raw by (simp add: Let_def)
  have in_range: "lo \<le> v" "v \<le> hi" if "v \<in> set raw" for v using that by (simp_all add: lo_def hi_def)
  have hi: "hi \<in> set raw" unfolding hi_def using raw by (intro Max_in) auto
  show ?thesis
  proof (cases "hi - lo \<le> 0")
    case True
    then show ?thesis using assms hi by (auto simp: nm image_iff)
  next
    case False
    then have pos: "0 < hi - lo" by simp
    have "1 = (hi - lo) / (hi - lo)" using pos by simp
    then have "1 \<in> set (map (\<lambda>v. (v - lo) / (hi - lo)) raw)" using hi by force
    moreover have "0 \<le> (raw ! i - lo) / (hi - lo)" "(raw ! i - lo) / (hi - lo) \<le> (raw ! j - lo) / (hi - lo)" "(raw ! j - lo) / (hi - lo) \<le> 1"
      using pos assms in_range[OF nth_mem[OF assms(1)]] in_range[OF nth_mem[OF assms(2)]] by (simp_all add: divide_right_mono)
    ultimately show ?thesis using False assms by (simp add: nm)
  qed
qed

theorem normalizeMinMax_range_witness:
  "length (normalizeMinMax [3, 1, 2]) = length [3, 1, 2 :: real] \<and> 0 \<le> normalizeMinMax [3, 1, 2] ! 1 \<and>
    normalizeMinMax [3, 1, 2] ! 1 \<le> normalizeMinMax [3, 1, 2] ! 2 \<and> normalizeMinMax [3, 1, 2] ! 2 \<le> 1 \<and> 1 \<in> set (normalizeMinMax [3, 1, 2])"
  by (rule normalizeMinMax_range) simp_all

lemma fraction_range: "0 \<le> real (length (filter P xs)) / real (length xs)" "real (length (filter P xs)) / real (length xs) \<le> 1"
  using length_filter_le[of P xs] by (auto simp: divide_le_eq_1)

lemma entityOverlap_range: "0 \<le> entityOverlapScore ents kw \<and> entityOverlapScore ents kw \<le> 1"
  unfolding entityOverlapScore_def using fraction_range[of _ ents] by auto

text \<open>The scorer's own copy of the capped distance decides the distance, too.\<close>

lemma scorer_levenshtein_decides:
  assumes "0 \<le> cap"
  shows "scorer_levenshtein a b cap \<le> cap \<longleftrightarrow> (\<exists>n \<le> cap. edits n a b)"
proof (cases "cap < \<bar>int (length a) - int (length b)\<bar>")
  case True
  then show ?thesis using dist_length_diff[of a b] by (simp add: scorer_levenshtein_def dist_edits)
next
  case False
  then show ?thesis unfolding dist_edits table_decides[of cap b a, symmetric] by (simp add: scorer_levenshtein_def Let_def del: upt_Suc)
qed

text \<open>The overlap is the fraction of the query's tokens that are within the distance of a token of the corpus.\<close>

lemma fuzzyTokenOverlap_fraction:
  assumes "0 \<le> k" "qs \<noteq> []"
  shows "fuzzyTokenOverlap qs cs k = real (length (filter (\<lambda>q. \<exists>c \<in> set cs. \<exists>n \<le> k. edits n q c) qs)) / real (length qs)"
  using assms by (simp add: fuzzyTokenOverlap_def scorer_levenshtein_decides)

section \<open>Tiers\<close>

lemma tier_names: "memTierFromName (memTierName t) = t"
  by (cases t) (simp_all add: memTierFromName_def)

lemma importance_names: "0 \<le> i \<Longrightarrow> i \<le> 3 \<Longrightarrow> importanceFromName (importanceName i) = i"
proof -
  assume "0 \<le> i" "i \<le> 3"
  then have "i \<in> {0, 1, 2, 3}" by auto
  then show ?thesis by (auto simp: importanceName_def importanceFromName_def)
qed

lemma cdiv_mono: "a \<le> b \<Longrightarrow> 0 < d \<Longrightarrow> cdiv a d \<le> cdiv b d"
  using zdiv_mono1[of a b d] zdiv_mono1[of "- b" "- a" d] pos_imp_zdiv_nonneg_iff[of d b] pos_imp_zdiv_nonneg_iff[of d "- a"]
  by (auto simp: cdiv_def)

text \<open>More recent use, more use and more weight never lower the tier.\<close>

lemma memoryTier_mono:
  assumes "0 < u" "u \<le> u'" "f \<le> f'" "i \<le> i'"
  shows "tierRankOrder (memoryTier u f i now) \<le> tierRankOrder (memoryTier u' f' i' now)"
proof -
  have "cdiv (now - u') 86400 \<le> cdiv (now - u) 86400" using assms by (intro cdiv_mono) simp_all
  then show ?thesis using assms by (auto simp: memoryTier_def Let_def)
qed

text \<open>Three nodes of nearly the same score, each less than a half per cent apart from the next.\<close>

definition blank_node :: memory_node where
  "blank_node = \<lparr>node_id = 0, topic = [], content = [], node_keywords = [], importance = 1, frequency = 1, last_used = 0, created_at = 0,
     expires_at = 0, deleted_at = 0, zone = ''default'', pinned = 0, git_sha = [], source = ''unknown'', valid_from = 0,
     invalidated_at = 0, superseded_by = 0, score = 0, bm25_score = 0, recency = 0, freq_score = 0, importance_mult = 0, feedback_bias = 1\<rparr>"

text \<open>
  Property C38. With the tier as tie-breaker the comparison is no order: a cold node can come before a
  hot one by its score, the hot one before a warm one of nearly its score, and the warm one
  before the cold one, so no arrangement of the three agrees with it.
\<close>

theorem tier_tie_break_cycles:
  "\<exists>a b c. tier_before now a c \<and> tier_before now c b \<and> tier_before now b a \<and> \<not> scoresTied (score a) (score c) \<and> score c < score a \<and>
    memoryTier (last_used a) (frequency a) (importance a) now = Cold \<and> memoryTier (last_used c) (frequency c) (importance c) now = Hot"
proof -
  let ?a = "blank_node\<lparr>score := 1000\<rparr>" let ?b = "blank_node\<lparr>score := 997, frequency := 2\<rparr>" let ?c = "blank_node\<lparr>score := 994, frequency := 5\<rparr>"
  show ?thesis
    by (rule exI[of _ ?a], rule exI[of _ ?b], rule exI[of _ ?c])
      (simp add: tier_before_def scoresTied_def Let_def memoryTier_def blank_node_def)
qed

text \<open>A memory on the cache and one on the parser.\<close>

definition cache_memory :: memory_node where
  "cache_memory = blank_node\<lparr>content := ''Cache eviction''\<rparr>"

definition parser_memory :: memory_node where
  "parser_memory = blank_node\<lparr>content := ''the parser''\<rparr>"

lemma sample_tokens:
  "tokenize False ''the CACHE'' = [''cache'']"
  "tokenize False (document cache_memory) = [''cache'', ''eviction'']"
  "tokenize False (document parser_memory) = [''parser'']"
proof -
  have d: "document cache_memory = ''  Cache eviction ''" "document parser_memory = ''  the parser ''"
    by (simp_all add: document_def cache_memory_def parser_memory_def blank_node_def)
  show "tokenize False ''the CACHE'' = [''cache'']" by code_simp
  show "tokenize False (document cache_memory) = [''cache'', ''eviction'']" unfolding d by code_simp
  show "tokenize False (document parser_memory) = [''parser'']" unfolding d by code_simp
qed

theorem rank_nodes_best_witness:
  "\<exists>hits. rank_nodes False fresh_scorer 0 ''the CACHE'' [parser_memory, cache_memory] 5 = Some hits \<and> length hits = 1"
proof -
  have sane: "\<forall>n \<in> set [parser_memory, cache_memory]. sane n" by (simp add: sane_def cache_memory_def parser_memory_def blank_node_def)
  have "filter (matches False ''the CACHE'') [parser_memory, cache_memory] = [cache_memory]" by (simp add: matches_def sample_tokens)
  then show ?thesis using rank_nodes_best[OF sane, of 5 False fresh_scorer 0 "''the CACHE''"] by auto
qed

theorem fit_counts_documents_witness: "df (fit False [parser_memory, cache_memory, cache_memory] fresh_scorer) ''cache'' = 2"
  using fit_counts_documents[of fresh_scorer False "[parser_memory, cache_memory, cache_memory]" "''cache''" "[]"]
  by (simp add: fresh_scorer_def sample_tokens)

end
