(* ===== verification/Centrality.thy ===== *)
theory Centrality
  imports CxxString Complex_Main
begin

text \<open>
  PageRank over the code graph, \<open>graph/graph_centrality.hpp\<close>, with the edge confidence, the
  degrees and the escaping of \<open>graph/graph_report.hpp\<close>, the call filter of
  \<open>graph/graph_node.hpp\<close> and the selection of \<open>graph/graph_prune.hpp\<close>. Doubles are exact
  rationals. The lemmas show that every iteration keeps the total mass at one, what one
  iteration computes, and where the mass of a personalised ranking goes.
\<close>

section \<open>Nodes and edges\<close>

record graph_node =
  gn_id :: int
  path :: string
  lang :: string
  context_text :: string
  symbols :: string
  size_bytes :: int
  file_hash :: string
  updated_at :: int
  access_count :: int
  zone :: string
  parent_id :: int
  kind :: string
  symbol_name :: string
  signature :: string
  line_start :: int
  line_end :: int
  body_hash :: string

record graph_edge =
  src :: int
  dst :: int
  edge_type :: string
  weight :: rat
  confidence :: string

definition filterCallTargets :: "int list \<Rightarrow> int \<Rightarrow> nat \<Rightarrow> int list" where
  "filterCallTargets cands self maxFanout =
     (let res = filter (\<lambda>d. d \<noteq> self) cands in if maxFanout < length res then [] else res)"

definition selectMissingNodes :: "graph_node list \<Rightarrow> (string \<Rightarrow> bool) \<Rightarrow> string list" where
  "selectMissingNodes nodes existsFn =
     map path (filter (\<lambda>n. kind n = ''file'' \<and> path n \<noteq> [] \<and> \<not> existsFn (path n)) nodes)"

definition edgeConfidence :: "graph_edge \<Rightarrow> rat" where
  "edgeConfidence e =
     (if dst e \<le> 0 then 30/100
      else if edge_type e = ''inherits'' then 97/100
      else if edge_type e = ''includes'' then 93/100
      else if edge_type e = ''imports'' then 90/100
      else if edge_type e = ''calls'' then 70/100
      else (let w = (if 0 < weight e then weight e else 1); c = 6/10 + 1/10 * (w - 1)
            in if c < 3/10 then 3/10 else if 95/100 < c then 95/100 else c))"

definition bump_degree :: "int \<Rightarrow> (int \<rightharpoonup> nat) \<Rightarrow> int \<rightharpoonup> nat" where
  "bump_degree i deg = (case deg i of None \<Rightarrow> deg | Some k \<Rightarrow> deg(i \<mapsto> k + 1))"

definition degreeCentrality :: "graph_node list \<Rightarrow> graph_edge list \<Rightarrow> int \<rightharpoonup> nat" where
  "degreeCentrality nodes edges =
     foldl (\<lambda>deg e. let deg' = bump_degree (src e) deg in if 0 < dst e then bump_degree (dst e) deg' else deg')
       (foldl (\<lambda>deg n. deg(gn_id n \<mapsto> 0)) Map.empty nodes) edges"

fun json_escape_char :: "char \<Rightarrow> string" where
  "json_escape_char c =
     (if c = dq then [bs, dq] else if c = bs then [bs, bs] else if c = nl then [bs, CHR ''n'']
      else if c = cr then [bs, CHR ''r''] else if c = tab then [bs, CHR ''t'']
      else if c = CHR ''<'' then bs # ''u003c'' else if c = CHR ''>'' then bs # ''u003e''
      else if c = CHR ''&'' then bs # ''u0026'' else [c])"

definition jsonEscape :: "string \<Rightarrow> string" where
  "jsonEscape s = concat (map json_escape_char s)"

section \<open>PageRank\<close>

text \<open>The position of each node id; of equal ids the last position counts.\<close>

definition node_index :: "graph_node list \<Rightarrow> int \<rightharpoonup> nat" where
  "node_index nodes = foldl (\<lambda>m (i, n). m(gn_id n \<mapsto> i)) Map.empty (enumerate 0 nodes)"

record adjacency =
  targets :: "(nat \<times> rat) list list"
  out_sum :: "rat list"

definition edge_mass :: "graph_edge \<Rightarrow> rat" where
  "edge_mass e = edgeConfidence e * (if 0 < weight e then weight e else 1)"

definition add_edge :: "(int \<rightharpoonup> nat) \<Rightarrow> adjacency \<Rightarrow> graph_edge \<Rightarrow> adjacency" where
  "add_edge idx A e =
     (case idx (src e) of
        None \<Rightarrow> A
      | Some i \<Rightarrow>
          if dst e \<le> 0 then A
          else (case idx (dst e) of
              None \<Rightarrow> A
            | Some j \<Rightarrow>
                (let w = edge_mass e
                 in if w \<le> 0 then A
                    else \<lparr>targets = (targets A)[i := targets A ! i @ [(j, w)]],
                          out_sum = (out_sum A)[i := out_sum A ! i + w]\<rparr>)))"

definition adjacency_of :: "graph_node list \<Rightarrow> graph_edge list \<Rightarrow> adjacency" where
  "adjacency_of nodes edges =
     foldl (add_edge (node_index nodes)) \<lparr>targets = replicate (length nodes) [], out_sum = replicate (length nodes) 0\<rparr> edges"

definition add_teleport :: "(int \<rightharpoonup> nat) \<Rightarrow> rat list \<times> rat \<Rightarrow> int \<times> rat \<Rightarrow> rat list \<times> rat" where
  "add_teleport idx st kv =
     (case st of (tele, s) \<Rightarrow>
        (case idx (fst kv) of
           None \<Rightarrow> st
         | Some i \<Rightarrow> if 0 < snd kv then (tele[i := tele ! i + snd kv], s + snd kv) else st))"

definition teleport :: "graph_node list \<Rightarrow> (int \<times> rat) list \<Rightarrow> rat list" where
  "teleport nodes personalization =
     (case foldl (add_teleport (node_index nodes)) (replicate (length nodes) 0, 0) personalization of
        (tele, s) \<Rightarrow>
          if s \<le> 0 then map (\<lambda>_. 1 / of_nat (length nodes)) tele else map (\<lambda>x. x / s) tele)"

definition dangling_mass :: "rat list \<Rightarrow> rat list \<Rightarrow> rat" where
  "dangling_mass osum rnk = sum_list (map (\<lambda>i. if osum ! i \<le> 0 then rnk ! i else 0) [0..<length rnk])"

definition spread :: "rat \<Rightarrow> adjacency \<Rightarrow> rat list \<Rightarrow> rat list \<Rightarrow> nat \<Rightarrow> rat list" where
  "spread d A rnk nxt i =
     (if out_sum A ! i \<le> 0 then nxt
      else (let share = d * rnk ! i / out_sum A ! i
            in foldl (\<lambda>nx (j, w). nx[j := nx ! j + share * w]) nxt (targets A ! i)))"

definition rank_step :: "rat \<Rightarrow> adjacency \<Rightarrow> rat list \<Rightarrow> rat list \<Rightarrow> rat list" where
  "rank_step d A tele rnk =
     (let dangling = dangling_mass (out_sum A) rnk;
          base = map (\<lambda>i. (1 - d) * tele ! i + d * dangling * tele ! i) [0..<length rnk]
      in foldl (spread d A rnk) base [0..<length rnk])"

definition pageRankCore :: "graph_node list \<Rightarrow> graph_edge list \<Rightarrow> (int \<times> rat) list \<Rightarrow> rat \<Rightarrow> int \<Rightarrow> int \<rightharpoonup> rat" where
  "pageRankCore nodes edges personalization d iters =
     (let n = length nodes; A = adjacency_of nodes edges; tele = teleport nodes personalization;
          rnk = (rank_step d A tele ^^ nat iters) (replicate n (1 / of_nat n))
      in foldl (\<lambda>m (i, x). m(gn_id x \<mapsto> rnk ! i)) Map.empty (enumerate 0 nodes))"

definition pageRank :: "graph_node list \<Rightarrow> graph_edge list \<Rightarrow> rat \<Rightarrow> int \<Rightarrow> int \<rightharpoonup> rat" where
  "pageRank nodes edges d iters = pageRankCore nodes edges [] d iters"

definition personalizedPageRank :: "graph_node list \<Rightarrow> graph_edge list \<Rightarrow> (int \<times> rat) list \<Rightarrow> rat \<Rightarrow> int \<Rightarrow> int \<rightharpoonup> rat" where
  "personalizedPageRank nodes edges seed d iters = pageRankCore nodes edges seed d iters"

section \<open>A seed from the text of a task\<close>

fun task_tokens :: "string \<Rightarrow> string \<Rightarrow> string list" where
  "task_tokens cur [] = (if 3 \<le> length cur then [cur] else [])"
| "task_tokens cur (c # cs) =
     (if is_alnum c then task_tokens (cur @ [to_lower c]) cs
      else (if 3 \<le> length cur then [cur] else []) @ task_tokens [] cs)"

definition base_name :: "string \<Rightarrow> string" where
  "base_name p = (case last_index_of (\<lambda>c. c = CHR ''/'' \<or> c = bs) p of None \<Rightarrow> p | Some i \<Rightarrow> drop (i + 1) p)"

definition haystack :: "graph_node \<Rightarrow> string" where
  "haystack n = lower_str (symbol_name n @ '' '' @ base_name (path n))"

definition seedFromTask :: "graph_node list \<Rightarrow> string \<Rightarrow> int \<rightharpoonup> rat" where
  "seedFromTask nodes task =
     (let toks = remdups (task_tokens [] task)
      in foldl (\<lambda>m n. let k = length (filter (\<lambda>t. contains t (haystack n)) toks) in if 0 < k then m(gn_id n \<mapsto> of_nat k) else m)
           Map.empty nodes)"

section \<open>Sums over lists that are updated\<close>

lemma sum_update: "i < length xs \<Longrightarrow> sum_list (xs[i := x]) = sum_list xs + (x - xs ! i)" for x :: rat
  by (induction xs arbitrary: i) (auto split: nat.split)

text \<open>Adding shares to the entries of a list.\<close>

lemma push_shares:
  fixes c :: rat and nx :: "rat list"
  assumes "\<forall>p \<in> set ps. fst p < length nx"
  shows "length (foldl (\<lambda>nx (j, w). nx[j := nx ! j + c * w]) nx ps) = length nx"
    "sum_list (foldl (\<lambda>nx (j, w). nx[j := nx ! j + c * w]) nx ps) = sum_list nx + c * sum_list (map snd ps)"
    "k < length nx \<Longrightarrow> foldl (\<lambda>nx (j, w). nx[j := nx ! j + c * w]) nx ps ! k = nx ! k + c * sum_list (map snd (filter (\<lambda>p. fst p = k) ps))"
proof -
  have "length (foldl (\<lambda>nx (j, w). nx[j := nx ! j + c * w]) nx ps) = length nx \<and>
    sum_list (foldl (\<lambda>nx (j, w). nx[j := nx ! j + c * w]) nx ps) = sum_list nx + c * sum_list (map snd ps) \<and>
    (\<forall>k < length nx. foldl (\<lambda>nx (j, w). nx[j := nx ! j + c * w]) nx ps ! k = nx ! k + c * sum_list (map snd (filter (\<lambda>p. fst p = k) ps)))"
    using assms
  proof (induction ps arbitrary: nx)
    case (Cons p ps)
    obtain j w where p: "p = (j, w)" by (cases p)
    have j: "j < length nx" and rest: "\<forall>p \<in> set ps. fst p < length (nx[j := nx ! j + c * w])" using Cons.prems by (simp_all add: p)
    from Cons.IH[OF rest] show ?case using j by (simp add: p sum_update algebra_simps nth_list_update)
  qed simp
  then show "length (foldl (\<lambda>nx (j, w). nx[j := nx ! j + c * w]) nx ps) = length nx"
    "sum_list (foldl (\<lambda>nx (j, w). nx[j := nx ! j + c * w]) nx ps) = sum_list nx + c * sum_list (map snd ps)"
    "k < length nx \<Longrightarrow> foldl (\<lambda>nx (j, w). nx[j := nx ! j + c * w]) nx ps ! k = nx ! k + c * sum_list (map snd (filter (\<lambda>p. fst p = k) ps))"
    by blast+
qed

section \<open>The adjacency\<close>

text \<open>Targets in range, weights positive, and the sum of the weights kept beside them.\<close>

definition adj_ok :: "nat \<Rightarrow> adjacency \<Rightarrow> bool" where
  "adj_ok n A \<longleftrightarrow> length (targets A) = n \<and> length (out_sum A) = n \<and>
     (\<forall>i < n. (\<forall>p \<in> set (targets A ! i). fst p < n \<and> 0 < snd p) \<and> out_sum A ! i = sum_list (map snd (targets A ! i)))"

lemma node_index_range: "node_index nodes k = Some i \<Longrightarrow> i < length nodes \<and> gn_id (nodes ! i) = k"
proof -
  have "foldl (\<lambda>m (i, x). m(gn_id x \<mapsto> i)) m (enumerate a xs) k = Some i \<Longrightarrow>
    m k = Some i \<or> a \<le> i \<and> i < a + length xs \<and> gn_id (xs ! (i - a)) = k" for m a xs
  proof (induction xs arbitrary: a m)
    case (Cons x xs)
    from Cons.IH[of "m(gn_id x \<mapsto> a)" "Suc a"] Cons.prems show ?case
      by (auto simp: nth_Cons' split: if_splits)
  qed simp
  from this[of Map.empty 0 nodes] show "node_index nodes k = Some i \<Longrightarrow> i < length nodes \<and> gn_id (nodes ! i) = k"
    by (auto simp: node_index_def)
qed

lemma add_edge_ok:
  assumes "adj_ok (length nodes) A"
  shows "adj_ok (length nodes) (add_edge (node_index nodes) A e)"
proof -
  have "adj_ok n \<lparr>targets = (targets A)[i := targets A ! i @ [(j, w)]], out_sum = (out_sum A)[i := out_sum A ! i + w]\<rparr>"
    if "adj_ok n A" "i < n" "j < n" "0 < w" for n i j w
    using that by (auto simp: adj_ok_def nth_list_update)
  then show ?thesis using assms node_index_range
    by (auto simp: add_edge_def Let_def not_le split: option.split)
qed

lemma adjacency_ok: "adj_ok (length nodes) (adjacency_of nodes edges)"
proof -
  have fold: "adj_ok (length nodes) A \<Longrightarrow> adj_ok (length nodes) (foldl (add_edge (node_index nodes)) A es)" for A es
    by (induction es arbitrary: A) (simp_all add: add_edge_ok)
  show ?thesis unfolding adjacency_of_def by (rule fold) (simp add: adj_ok_def)
qed

lemma out_sum_zero: "adj_ok n A \<Longrightarrow> i < n \<Longrightarrow> out_sum A ! i \<le> 0 \<longleftrightarrow> targets A ! i = []"
proof -
  assume a: "adj_ok n A" "i < n"
  then have s: "out_sum A ! i = sum_list (map snd (targets A ! i))" and pos: "\<forall>p \<in> set (targets A ! i). 0 < snd p"
    by (auto simp: adj_ok_def)
  show ?thesis
  proof (cases "targets A ! i")
    case (Cons p ps)
    then have p: "0 < snd p" and "\<forall>q \<in> set ps. 0 \<le> snd q" using pos by (simp_all add: less_imp_le)
    then have "0 \<le> sum_list (map snd ps)" by (intro sum_list_nonneg) auto
    then show ?thesis using p Cons s by simp
  qed (simp add: s)
qed

section \<open>One iteration\<close>

lemma spread_facts:
  assumes "adj_ok n A" "length nxt = n" "i < n"
  shows "length (spread d A rnk nxt i) = n"
    "sum_list (spread d A rnk nxt i) = sum_list nxt + (if out_sum A ! i \<le> 0 then 0 else d * rnk ! i)"
    "j < n \<Longrightarrow> spread d A rnk nxt i ! j = nxt ! j + (if out_sum A ! i \<le> 0 then 0
       else d * rnk ! i / out_sum A ! i * sum_list (map snd (filter (\<lambda>p. fst p = j) (targets A ! i))))"
proof -
  have rng: "\<forall>p \<in> set (targets A ! i). fst p < length nxt" and s: "sum_list (map snd (targets A ! i)) = out_sum A ! i"
    using assms by (auto simp: adj_ok_def)
  show "length (spread d A rnk nxt i) = n"
    "sum_list (spread d A rnk nxt i) = sum_list nxt + (if out_sum A ! i \<le> 0 then 0 else d * rnk ! i)"
    "j < n \<Longrightarrow> spread d A rnk nxt i ! j = nxt ! j + (if out_sum A ! i \<le> 0 then 0
       else d * rnk ! i / out_sum A ! i * sum_list (map snd (filter (\<lambda>p. fst p = j) (targets A ! i))))"
    using push_shares[OF rng, where c = "d * rnk ! i / out_sum A ! i"] s assms(2) by (auto simp: spread_def Let_def)
qed

lemma spread_all:
  assumes "adj_ok n A" "length nxt = n" "\<forall>i \<in> set is'. i < n"
  shows "length (foldl (spread d A rnk) nxt is') = n"
    "sum_list (foldl (spread d A rnk) nxt is') = sum_list nxt + sum_list (map (\<lambda>i. if out_sum A ! i \<le> 0 then 0 else d * rnk ! i) is')"
    "j < n \<Longrightarrow> foldl (spread d A rnk) nxt is' ! j = nxt ! j + sum_list (map (\<lambda>i. if out_sum A ! i \<le> 0 then 0
       else d * rnk ! i / out_sum A ! i * sum_list (map snd (filter (\<lambda>p. fst p = j) (targets A ! i)))) is')"
proof -
  have "length (foldl (spread d A rnk) nxt is') = n \<and>
    sum_list (foldl (spread d A rnk) nxt is') = sum_list nxt + sum_list (map (\<lambda>i. if out_sum A ! i \<le> 0 then 0 else d * rnk ! i) is') \<and>
    (\<forall>j < n. foldl (spread d A rnk) nxt is' ! j = nxt ! j + sum_list (map (\<lambda>i. if out_sum A ! i \<le> 0 then 0
       else d * rnk ! i / out_sum A ! i * sum_list (map snd (filter (\<lambda>p. fst p = j) (targets A ! i)))) is'))"
    using assms(2,3)
  proof (induction is' arbitrary: nxt)
    case (Cons i is')
    then have i: "i < n" by simp
    note f = spread_facts[OF assms(1) Cons.prems(1) i, where d = d and rnk = rnk]
    from Cons.IH[OF f(1)] Cons.prems show ?case by (simp add: f add.assoc)
  qed simp
  then show "length (foldl (spread d A rnk) nxt is') = n"
    "sum_list (foldl (spread d A rnk) nxt is') = sum_list nxt + sum_list (map (\<lambda>i. if out_sum A ! i \<le> 0 then 0 else d * rnk ! i) is')"
    "j < n \<Longrightarrow> foldl (spread d A rnk) nxt is' ! j = nxt ! j + sum_list (map (\<lambda>i. if out_sum A ! i \<le> 0 then 0
       else d * rnk ! i / out_sum A ! i * sum_list (map snd (filter (\<lambda>p. fst p = j) (targets A ! i)))) is')"
    by blast+
qed

section \<open>Where the mass goes\<close>

lemma teleport_sum:
  assumes "nodes \<noteq> []"
  shows "length (teleport nodes ps) = length nodes" "sum_list (teleport nodes ps) = 1" "\<forall>x \<in> set (teleport nodes ps). 0 \<le> x"
proof -
  let ?n = "length nodes"
  let ?inv = "\<lambda>st :: rat list \<times> rat. length (fst st) = ?n \<and> sum_list (fst st) = snd st \<and> (\<forall>x \<in> set (fst st). 0 \<le> x)"
  have upd: "\<forall>x \<in> set (ts[i := y]). 0 \<le> x" if "\<forall>x \<in> set ts. 0 \<le> x" "0 \<le> y" for ts :: "rat list" and i y
    using that set_update_subset_insert[of ts i y] by auto
  have step: "?inv (add_teleport (node_index nodes) st kv)" if inv: "?inv st" for st kv
  proof (cases "node_index nodes (fst kv)")
    case (Some i)
    then have i: "i < length (fst st)" using node_index_range inv by fastforce
    have eq: "add_teleport (node_index nodes) st kv =
      (if 0 < snd kv then ((fst st)[i := fst st ! i + snd kv], snd st + snd kv) else st)"
      by (cases st) (simp add: add_teleport_def Some)
    have "0 \<le> fst st ! i" using inv nth_mem[OF i] by blast
    then have "0 < snd kv \<Longrightarrow> \<forall>x \<in> set ((fst st)[i := fst st ! i + snd kv]). 0 \<le> x"
      using inv by (intro upd) simp_all
    moreover have "sum_list ((fst st)[i := fst st ! i + snd kv]) = sum_list (fst st) + snd kv" by (simp add: sum_update[OF i])
    ultimately show ?thesis using inv unfolding eq by simp
  qed (use inv in \<open>simp add: add_teleport_def split: prod.split\<close>)
  have "?inv (foldl (add_teleport (node_index nodes)) st qs)" if "?inv st" for st qs
    using that
  proof (induction qs arbitrary: st)
    case (Cons q qs)
    show ?case unfolding foldl.simps by (rule Cons.IH[OF step[OF Cons.prems]])
  qed simp
  from this[of "(replicate ?n 0, 0)" ps]
  obtain ts s where res: "foldl (add_teleport (node_index nodes)) (replicate ?n 0, 0) ps = (ts, s)"
    and ts: "length ts = ?n" "sum_list ts = s" "\<forall>x \<in> set ts. 0 \<le> x" by (cases "foldl (add_teleport (node_index nodes)) (replicate ?n 0, 0) ps") (auto simp: sum_list_replicate)
  have scale: "sum_list (map (\<lambda>x. x / c) xs) = sum_list xs / c" for c :: rat and xs by (induction xs) (simp_all add: add_divide_distrib)
  have const: "sum_list (map (\<lambda>_. c) xs) = of_nat (length xs) * c" for c :: rat and xs :: "rat list" by (induction xs) (simp_all add: algebra_simps)
  show "length (teleport nodes ps) = ?n" "sum_list (teleport nodes ps) = 1" "\<forall>x \<in> set (teleport nodes ps). 0 \<le> x"
    using ts assms by (auto simp: teleport_def res scale const)
qed

lemma rank_step_facts:
  assumes "adj_ok n A" "length rnk = n" "length tele = n"
  shows "length (rank_step d A tele rnk) = n"
    "sum_list tele = 1 \<Longrightarrow> sum_list (rank_step d A tele rnk) = 1 - d + d * sum_list rnk"
    "j < n \<Longrightarrow> rank_step d A tele rnk ! j = (1 - d) * tele ! j + d * dangling_mass (out_sum A) rnk * tele ! j +
       (\<Sum>i \<leftarrow> [0..<n]. if targets A ! i = [] then 0 else d * rnk ! i / out_sum A ! i * sum_list (map snd (filter (\<lambda>p. fst p = j) (targets A ! i))))"
proof -
  let ?dang = "dangling_mass (out_sum A) rnk"
  let ?base = "map (\<lambda>i. (1 - d) * tele ! i + d * ?dang * tele ! i) [0..<n]"
  have step: "rank_step d A tele rnk = foldl (spread d A rnk) ?base [0..<n]" by (simp add: rank_step_def Let_def assms(2))
  have all: "\<forall>i \<in> set [0..<n]. i < n" and lb: "length ?base = n" by simp_all
  note sp = spread_all[OF assms(1) lb all, where d = d and rnk = rnk]
  show "length (rank_step d A tele rnk) = n" by (simp only: step sp)
  have "?base = map (\<lambda>x. (1 - d + d * ?dang) * x) tele"
    by (rule nth_equalityI) (simp_all add: assms(3) algebra_simps)
  then have base: "sum_list ?base = (1 - d + d * ?dang) * sum_list tele" by (simp add: sum_list_const_mult)
  have "?dang + sum_list (map (\<lambda>i. if out_sum A ! i \<le> 0 then 0 else rnk ! i) [0..<n]) = sum_list (map ((!) rnk) [0..<n])"
    unfolding dangling_mass_def assms(2) sum_list_addf[symmetric] by (intro arg_cong[where f = sum_list] map_cong) auto
  also have "\<dots> = sum_list rnk" unfolding assms(2)[symmetric] map_nth ..
  finally have mass: "?dang + sum_list (map (\<lambda>i. if out_sum A ! i \<le> 0 then 0 else rnk ! i) [0..<n]) = sum_list rnk" .
  have "sum_list (map (\<lambda>i. if out_sum A ! i \<le> 0 then 0 else d * rnk ! i) [0..<n])
    = d * sum_list (map (\<lambda>i. if out_sum A ! i \<le> 0 then 0 else rnk ! i) [0..<n])"
    unfolding sum_list_const_mult[symmetric] by (intro arg_cong[where f = sum_list] map_cong) auto
  then show "sum_list tele = 1 \<Longrightarrow> sum_list (rank_step d A tele rnk) = 1 - d + d * sum_list rnk"
    unfolding step sp(2) base mass[symmetric] by (simp add: algebra_simps)
  assume j: "j < n"
  have "rank_step d A tele rnk ! j = ?base ! j + sum_list (map (\<lambda>i. if out_sum A ! i \<le> 0 then 0
       else d * rnk ! i / out_sum A ! i * sum_list (map snd (filter (\<lambda>p. fst p = j) (targets A ! i)))) [0..<n])"
    unfolding step by (rule sp(3)[OF j])
  also have "map (\<lambda>i. if out_sum A ! i \<le> 0 then 0
       else d * rnk ! i / out_sum A ! i * sum_list (map snd (filter (\<lambda>p. fst p = j) (targets A ! i)))) [0..<n]
    = map (\<lambda>i. if targets A ! i = [] then 0
       else d * rnk ! i / out_sum A ! i * sum_list (map snd (filter (\<lambda>p. fst p = j) (targets A ! i)))) [0..<n]"
    by (intro map_cong refl) (simp add: out_sum_zero[OF assms(1)])
  finally show "rank_step d A tele rnk ! j = (1 - d) * tele ! j + d * ?dang * tele ! j +
       (\<Sum>i \<leftarrow> [0..<n]. if targets A ! i = [] then 0 else d * rnk ! i / out_sum A ! i * sum_list (map snd (filter (\<lambda>p. fst p = j) (targets A ! i))))"
    using j by simp
qed

section \<open>All iterations\<close>

definition ranks :: "graph_node list \<Rightarrow> graph_edge list \<Rightarrow> (int \<times> rat) list \<Rightarrow> rat \<Rightarrow> nat \<Rightarrow> rat list" where
  "ranks nodes edges ps d k = (rank_step d (adjacency_of nodes edges) (teleport nodes ps) ^^ k) (replicate (length nodes) (1 / of_nat (length nodes)))"

lemma ranks_Suc: "ranks nodes edges ps d (Suc k) = rank_step d (adjacency_of nodes edges) (teleport nodes ps) (ranks nodes edges ps d k)"
  by (simp add: ranks_def)

lemma ranks_mass:
  assumes "nodes \<noteq> []"
  shows "length (ranks nodes edges ps d k) = length nodes \<and> sum_list (ranks nodes edges ps d k) = 1"
proof (induction k)
  case 0
  then show ?case using assms by (simp add: ranks_def sum_list_replicate)
next
  case (Suc k)
  then show ?case
    using rank_step_facts(1,2)[OF adjacency_ok[of nodes edges] _ teleport_sum(1)[OF assms, of ps], of "ranks nodes edges ps d k" d]
      teleport_sum(2)[OF assms, of ps] by (simp add: ranks_Suc)
qed

lemma sum_list_nonneg_map: "(\<And>x. x \<in> set xs \<Longrightarrow> 0 \<le> f x) \<Longrightarrow> 0 \<le> sum_list (map f xs)" for f :: "'a \<Rightarrow> rat"
  by (induction xs) simp_all

lemma ranks_nonneg:
  assumes "nodes \<noteq> []" "0 \<le> d" "d \<le> 1"
  shows "j < length nodes \<Longrightarrow> 0 \<le> ranks nodes edges ps d k ! j"
    "j < length nodes \<Longrightarrow> (1 - d) * teleport nodes ps ! j \<le> ranks nodes edges ps d (Suc k) ! j"
proof -
  have step: "(1 - d) * teleport nodes ps ! j \<le> rank_step d (adjacency_of nodes edges) (teleport nodes ps) rnk ! j"
    if "length rnk = length nodes" "\<forall>i < length nodes. 0 \<le> rnk ! i" "j < length nodes" for rnk j
  proof -
    let ?A = "adjacency_of nodes edges"
    have ok: "adj_ok (length nodes) ?A" by (rule adjacency_ok)
    have tele: "0 \<le> teleport nodes ps ! j" using teleport_sum(1,3)[OF assms(1), of ps] that(3) nth_mem by metis
    have dang: "0 \<le> dangling_mass (out_sum ?A) rnk" unfolding dangling_mass_def using that(1,2) by (intro sum_list_nonneg_map) auto
    have "0 \<le> (\<Sum>i \<leftarrow> [0..<length nodes]. if targets ?A ! i = [] then 0
      else d * rnk ! i / out_sum ?A ! i * sum_list (map snd (filter (\<lambda>p. fst p = j) (targets ?A ! i))))"
    proof (rule sum_list_nonneg_map)
      fix i assume "i \<in> set [0..<length nodes]"
      then have i: "i < length nodes" by simp
      then have pos: "\<forall>p \<in> set (targets ?A ! i). 0 < snd p" and s: "out_sum ?A ! i = sum_list (map snd (targets ?A ! i))"
        using ok by (simp_all add: adj_ok_def)
      have "0 \<le> sum_list (map snd (targets ?A ! i))" "0 \<le> sum_list (map snd (filter (\<lambda>p. fst p = j) (targets ?A ! i)))"
        by (intro sum_list_nonneg_map less_imp_le; use pos in auto)+
      moreover have "0 \<le> rnk ! i" using that(2) i by blast
      ultimately show "0 \<le> (if targets ?A ! i = [] then 0
        else d * rnk ! i / out_sum ?A ! i * sum_list (map snd (filter (\<lambda>p. fst p = j) (targets ?A ! i))))"
        using assms(2) by (auto simp: s intro!: mult_nonneg_nonneg divide_nonneg_nonneg)
    qed
    moreover have "0 \<le> d * dangling_mass (out_sum ?A) rnk * teleport nodes ps ! j"
      using assms(2) dang tele by (intro mult_nonneg_nonneg)
    ultimately show ?thesis
      using rank_step_facts(3)[OF ok that(1) teleport_sum(1)[OF assms(1)] that(3), of d ps] by linarith
  qed
  have len: "length (ranks nodes edges ps d k) = length nodes" for k using ranks_mass[OF assms(1)] by blast
  have nn: "\<forall>i < length nodes. 0 \<le> ranks nodes edges ps d k ! i" for k
  proof (induction k)
    case 0
    then show ?case by (simp add: ranks_def)
  next
    case (Suc k)
    have "0 \<le> (1 - d) * teleport nodes ps ! i" if "i < length nodes" for i
      using that assms(3) teleport_sum(1,3)[OF assms(1), of ps] nth_mem[of i "teleport nodes ps"] by simp
    then show ?case using step[OF len Suc] unfolding ranks_Suc by (meson order_trans)
  qed
  show "j < length nodes \<Longrightarrow> 0 \<le> ranks nodes edges ps d k ! j" using nn by blast
  show "j < length nodes \<Longrightarrow> (1 - d) * teleport nodes ps ! j \<le> ranks nodes edges ps d (Suc k) ! j"
    unfolding ranks_Suc by (rule step[OF len nn])
qed

lemma fold_put:
  assumes "distinct (map gn_id nodes)"
  shows "j < length nodes \<Longrightarrow> foldl (\<lambda>m (i, x). m(gn_id x \<mapsto> f i)) Map.empty (enumerate 0 nodes) (gn_id (nodes ! j)) = Some (f j)"
    "dom (foldl (\<lambda>m (i, x). m(gn_id x \<mapsto> f i)) Map.empty (enumerate 0 nodes)) = gn_id ` set nodes"
proof -
  have gen: "distinct (map gn_id xs) \<Longrightarrow> foldl (\<lambda>m (i, x). m(gn_id x \<mapsto> f i)) m (enumerate a xs) k =
    (if k \<in> gn_id ` set xs then Some (f (a + (LEAST j. j < length xs \<and> gn_id (xs ! j) = k))) else m k)" for m a xs k
  proof (induction xs arbitrary: a m)
    case (Cons x xs)
    show ?case
    proof (cases "k = gn_id x")
      case True
      have "(LEAST j. j < length (x # xs) \<and> gn_id ((x # xs) ! j) = k) = 0" using True by (intro Least_equality) simp_all
      then show ?thesis using Cons True by (auto simp: image_iff)
    next
      case False
      show ?thesis
      proof (cases "k \<in> gn_id ` set xs")
        case inx: True
        then obtain j0 where j0: "j0 < length xs" "gn_id (xs ! j0) = k" by (metis imageE in_set_conv_nth)
        have "(LEAST j. j < length (x # xs) \<and> gn_id ((x # xs) ! j) = k) = Suc (LEAST j. Suc j < length (x # xs) \<and> gn_id ((x # xs) ! Suc j) = k)"
          using j0 False by (intro Least_Suc[of _ "Suc j0"]) simp_all
        then show ?thesis using Cons inx by simp
      next
        case False
        then show ?thesis using Cons \<open>k \<noteq> gn_id x\<close> by simp
      qed
    qed
  qed simp
  show "dom (foldl (\<lambda>m (i, x). m(gn_id x \<mapsto> f i)) Map.empty (enumerate 0 nodes)) = gn_id ` set nodes"
    using gen[OF assms, of Map.empty 0] by (auto simp: dom_def split: if_splits)
  assume j: "j < length nodes"
  have "(LEAST i. i < length nodes \<and> gn_id (nodes ! i) = gn_id (nodes ! j)) = j"
    using assms j by (intro Least_equality) (auto simp: distinct_conv_nth)
  then show "foldl (\<lambda>m (i, x). m(gn_id x \<mapsto> f i)) Map.empty (enumerate 0 nodes) (gn_id (nodes ! j)) = Some (f j)"
    using gen[OF assms, of Map.empty 0 "gn_id (nodes ! j)"] j by simp
qed

lemma core_ranks:
  assumes "distinct (map gn_id nodes)" "j < length nodes"
  shows "pageRankCore nodes edges ps d t (gn_id (nodes ! j)) = Some (ranks nodes edges ps d (nat t) ! j)"
  using fold_put(1)[OF assms, of "\<lambda>i. ranks nodes edges ps d (nat t) ! i"] by (simp add: pageRankCore_def Let_def ranks_def)

text \<open>The score of a node, zero for ids that have none.\<close>

definition score_of :: "graph_node list \<Rightarrow> graph_edge list \<Rightarrow> (int \<times> rat) list \<Rightarrow> rat \<Rightarrow> int \<Rightarrow> graph_node \<Rightarrow> rat" where
  "score_of nodes edges ps d t n = (case pageRankCore nodes edges ps d t (gn_id n) of None \<Rightarrow> 0 | Some x \<Rightarrow> x)"

lemma map_score: "distinct (map gn_id nodes) \<Longrightarrow> nodes \<noteq> [] \<Longrightarrow> map (score_of nodes edges ps d t) nodes = ranks nodes edges ps d (nat t)"
  using ranks_mass by (intro nth_equalityI) (simp_all add: score_of_def core_ranks)

text \<open>
  Property C21. After any number of iterations, with any damping factor and any seed, each node of the
  graph has a score and no other id has, and the scores add up to one.
\<close>

theorem pageRank_mass:
  assumes "distinct (map gn_id nodes)" "nodes \<noteq> []"
  shows "sum_list (map (score_of nodes edges ps d t) nodes) = 1 \<and> dom (pageRankCore nodes edges ps d t) = gn_id ` set nodes"
  using ranks_mass[OF assms(2)] fold_put(2)[OF assms(1)] by (simp add: map_score[OF assms] pageRankCore_def Let_def)

section \<open>The iteration over edges\<close>

text \<open>What the edges carry from one node to another, and what they carry away from a node.\<close>

definition carried :: "graph_edge list \<Rightarrow> int \<Rightarrow> int \<Rightarrow> rat" where
  "carried edges u v = (\<Sum>e \<leftarrow> edges. if src e = u \<and> dst e = v \<and> 0 < dst e then edge_mass e else 0)"

definition carried_away :: "graph_node list \<Rightarrow> graph_edge list \<Rightarrow> int \<Rightarrow> rat" where
  "carried_away nodes edges u = (\<Sum>e \<leftarrow> edges. if src e = u \<and> 0 < dst e \<and> dst e \<in> gn_id ` set nodes then edge_mass e else 0)"

lemma edge_mass_pos: "0 < edge_mass e"
proof -
  have clamp: "0 < (if c < 3/10 then 3/10 else if 95/100 < c then 95/100 else c)" for c :: rat by auto
  have "0 < edgeConfidence e" unfolding edgeConfidence_def Let_def using clamp by (auto simp only: split: if_split)
  then show ?thesis by (simp add: edge_mass_def)
qed

lemma node_index_of:
  assumes "distinct (map gn_id nodes)"
  shows "i < length nodes \<Longrightarrow> node_index nodes k = Some i \<longleftrightarrow> k = gn_id (nodes ! i)"
    "node_index nodes k = None \<longleftrightarrow> k \<notin> gn_id ` set nodes"
proof -
  show none: "node_index nodes k = None \<longleftrightarrow> k \<notin> gn_id ` set nodes" for k
    using fold_put(2)[OF assms, of "\<lambda>i. i"] domIff[of k "node_index nodes"] unfolding node_index_def[symmetric] by blast
  show "i < length nodes \<Longrightarrow> node_index nodes k = Some i \<longleftrightarrow> k = gn_id (nodes ! i)"
    using fold_put(1)[OF assms, of i "\<lambda>i. i"] node_index_range[of nodes k i] by (auto simp: node_index_def)
qed

lemma adjacency_edges:
  assumes "distinct (map gn_id nodes)" "i < length nodes" "j < length nodes"
  shows "sum_list (map snd (filter (\<lambda>p. fst p = j) (targets (adjacency_of nodes edges) ! i))) = carried edges (gn_id (nodes ! i)) (gn_id (nodes ! j))"
    "out_sum (adjacency_of nodes edges) ! i = carried_away nodes edges (gn_id (nodes ! i))"
proof -
  let ?idx = "node_index nodes"
  have "adj_ok (length nodes) A \<Longrightarrow>
    sum_list (map snd (filter (\<lambda>p. fst p = j) (targets (foldl (add_edge ?idx) A es) ! i)))
      = sum_list (map snd (filter (\<lambda>p. fst p = j) (targets A ! i))) + carried es (gn_id (nodes ! i)) (gn_id (nodes ! j)) \<and>
    out_sum (foldl (add_edge ?idx) A es) ! i = out_sum A ! i + carried_away nodes es (gn_id (nodes ! i))" for A es
  proof (induction es arbitrary: A)
    case Nil
    then show ?case by (simp add: carried_def carried_away_def)
  next
    case (Cons e es)
    have lens: "i < length (targets A)" "i < length (out_sum A)" using Cons.prems assms(2) by (simp_all add: adj_ok_def)
    have one: "sum_list (map snd (filter (\<lambda>p. fst p = j) (targets (add_edge ?idx A e) ! i)))
        = sum_list (map snd (filter (\<lambda>p. fst p = j) (targets A ! i))) + carried [e] (gn_id (nodes ! i)) (gn_id (nodes ! j)) \<and>
      out_sum (add_edge ?idx A e) ! i = out_sum A ! i + carried_away nodes [e] (gn_id (nodes ! i))"
    proof (cases "?idx (src e)")
      case None
      then have "src e \<noteq> gn_id (nodes ! i)" using node_index_of(2)[OF assms(1), of "src e"] assms(2) by auto
      then show ?thesis using None by (simp add: add_edge_def carried_def carried_away_def)
    next
      case (Some a)
      then have a: "a < length nodes" "src e = gn_id (nodes ! a)" using node_index_range[OF Some] by simp_all
      have same: "a = i \<longleftrightarrow> src e = gn_id (nodes ! i)" using nth_eq_iff_index_eq[OF assms(1), of a i] assms(2) a by simp
      show ?thesis
      proof (cases "0 < dst e")
        case pos: True
        show ?thesis
        proof (cases "?idx (dst e)")
          case None
          then have "dst e \<notin> gn_id ` set nodes" using node_index_of(2)[OF assms(1)] by simp
          then have "dst e \<noteq> gn_id (nodes ! j)" using assms(3) by auto
          then show ?thesis using Some None \<open>dst e \<notin> _\<close> pos by (simp add: add_edge_def carried_def carried_away_def)
        next
          case (Some b)
          then have b: "b < length nodes" "dst e = gn_id (nodes ! b)" using node_index_range[OF Some] by simp_all
          have same': "b = j \<longleftrightarrow> dst e = gn_id (nodes ! j)" using nth_eq_iff_index_eq[OF assms(1), of b j] assms(3) b by simp
          have step: "add_edge ?idx A e = \<lparr>targets = (targets A)[a := targets A ! a @ [(b, edge_mass e)]],
            out_sum = (out_sum A)[a := out_sum A ! a + edge_mass e]\<rparr>"
            using \<open>?idx (src e) = Some a\<close> Some pos edge_mass_pos[of e] by (simp add: add_edge_def Let_def)
          have "dst e \<in> gn_id ` set nodes" using b by auto
          then show ?thesis unfolding step using lens same same' pos
            by (cases "a = i"; cases "b = j") (simp_all add: carried_def carried_away_def)
        qed
      next
        case False
        then show ?thesis using Some by (simp add: add_edge_def carried_def carried_away_def)
      qed
    qed
    from Cons.IH[OF add_edge_ok[OF Cons.prems, of e]] one show ?case by (simp add: carried_def carried_away_def)
  qed
  from this[of "\<lparr>targets = replicate (length nodes) [], out_sum = replicate (length nodes) 0\<rparr>" edges]
  show "sum_list (map snd (filter (\<lambda>p. fst p = j) (targets (adjacency_of nodes edges) ! i))) = carried edges (gn_id (nodes ! i)) (gn_id (nodes ! j))"
    "out_sum (adjacency_of nodes edges) ! i = carried_away nodes edges (gn_id (nodes ! i))"
    using assms(2) by (simp_all add: adjacency_of_def adj_ok_def)
qed

text \<open>
  An edge without a target makes no difference. The header's comment says that its share of the
  mass is redistributed by the teleport; this happens only at a node with no other edge.
\<close>

lemma unresolved_edge_ignored:
  assumes "dst e \<le> 0"
  shows "pageRankCore nodes (es @ e # es') ps d t = pageRankCore nodes (es @ es') ps d t"
proof -
  have "add_edge idx A e = A" for idx A using assms by (simp add: add_edge_def split: option.split)
  then have "adjacency_of nodes (es @ e # es') = adjacency_of nodes (es @ es')" by (simp add: adjacency_of_def)
  then show ?thesis by (simp add: pageRankCore_def)
qed

text \<open>
  Property C14. An iteration gives each node its share of the teleport, its share by the teleport of
  the mass of the nodes no edge leaves, and from every other node the damped part of that
  node's score which its edges carry here, by their confidence and weight. \<open>carried_away\<close> counts
  only the edges whose target is a node: an edge with no known target carries nothing and takes
  nothing from the others of its node, which share out the whole score.
\<close>

theorem pageRank_recurrence:
  assumes "distinct (map gn_id nodes)" "0 \<le> t" "j < length nodes"
  shows "score_of nodes edges ps d (t + 1) (nodes ! j) =
    ((1 - d) + d * (\<Sum>u \<leftarrow> nodes. if carried_away nodes edges (gn_id u) \<le> 0 then score_of nodes edges ps d t u else 0)) * teleport nodes ps ! j
    + (\<Sum>u \<leftarrow> nodes. if carried_away nodes edges (gn_id u) \<le> 0 then 0
        else d * score_of nodes edges ps d t u * carried edges (gn_id u) (gn_id (nodes ! j)) / carried_away nodes edges (gn_id u))"
proof -
  let ?A = "adjacency_of nodes edges" and ?r = "ranks nodes edges ps d (nat t)" and ?n = "length nodes"
  have ne: "nodes \<noteq> []" using assms(3) by auto
  have len: "length ?r = ?n" using ranks_mass[OF ne] by blast
  have sc: "score_of nodes edges ps d t (nodes ! i) = ?r ! i" if "i < ?n" for i
    using that by (simp add: score_of_def core_ranks[OF assms(1)])
  have sum: "sum_list (map f nodes) = sum_list (map (\<lambda>i. f (nodes ! i)) [0..<?n])" for f :: "graph_node \<Rightarrow> rat"
    by (rule arg_cong[where f = sum_list], rule nth_equalityI) simp_all
  have "score_of nodes edges ps d (t + 1) (nodes ! j) = rank_step d ?A (teleport nodes ps) ?r ! j"
    using assms(2) by (simp add: score_of_def core_ranks[OF assms(1,3)] nat_add_distrib ranks_Suc)
  also have "\<dots> = (1 - d) * teleport nodes ps ! j + d * dangling_mass (out_sum ?A) ?r * teleport nodes ps ! j +
    (\<Sum>i \<leftarrow> [0..<?n]. if targets ?A ! i = [] then 0 else d * ?r ! i / out_sum ?A ! i * sum_list (map snd (filter (\<lambda>p. fst p = j) (targets ?A ! i))))"
    by (rule rank_step_facts(3)[OF adjacency_ok len teleport_sum(1)[OF ne] assms(3)])
  also have "dangling_mass (out_sum ?A) ?r = (\<Sum>u \<leftarrow> nodes. if carried_away nodes edges (gn_id u) \<le> 0 then score_of nodes edges ps d t u else 0)"
    unfolding dangling_mass_def len sum
    by (intro arg_cong[where f = sum_list] map_cong refl) (simp add: adjacency_edges(2)[OF assms(1)] sc assms(3))
  also have "map (\<lambda>i. if targets ?A ! i = [] then 0 else d * ?r ! i / out_sum ?A ! i * sum_list (map snd (filter (\<lambda>p. fst p = j) (targets ?A ! i)))) [0..<?n]
    = map (\<lambda>i. if carried_away nodes edges (gn_id (nodes ! i)) \<le> 0 then 0
        else d * score_of nodes edges ps d t (nodes ! i) * carried edges (gn_id (nodes ! i)) (gn_id (nodes ! j)) / carried_away nodes edges (gn_id (nodes ! i))) [0..<?n]"
  proof (intro map_cong refl)
    fix i assume "i \<in> set [0..<?n]"
    then have i: "i < ?n" by simp
    note e = adjacency_edges[OF assms(1) i assms(3), of edges]
    show "(if targets ?A ! i = [] then 0 else d * ?r ! i / out_sum ?A ! i * sum_list (map snd (filter (\<lambda>p. fst p = j) (targets ?A ! i))))
      = (if carried_away nodes edges (gn_id (nodes ! i)) \<le> 0 then 0
        else d * score_of nodes edges ps d t (nodes ! i) * carried edges (gn_id (nodes ! i)) (gn_id (nodes ! j)) / carried_away nodes edges (gn_id (nodes ! i)))"
      by (simp only: out_sum_zero[OF adjacency_ok i, symmetric] e sc[OF i]) simp
  qed
  finally show ?thesis by (simp only: sum[of "\<lambda>u. if carried_away nodes edges (gn_id u) \<le> 0 then 0
        else d * score_of nodes edges ps d t u * carried edges (gn_id u) (gn_id (nodes ! j)) / carried_away nodes edges (gn_id u)"] distrib_right)
qed

text \<open>Two nodes, the first calling the second.\<close>

definition file_node :: "int \<Rightarrow> string \<Rightarrow> graph_node" where
  "file_node i p = \<lparr>gn_id = i, path = p, lang = ''cpp'', context_text = [], symbols = [], size_bytes = 0, file_hash = [], updated_at = 0,
     access_count = 0, zone = ''default'', parent_id = 0, kind = ''file'', symbol_name = [], signature = [], line_start = 0,
     line_end = 0, body_hash = []\<rparr>"

definition call_edge :: "int \<Rightarrow> int \<Rightarrow> graph_edge" where
  "call_edge u v = \<lparr>src = u, dst = v, edge_type = ''calls'', weight = 1, confidence = ''EXTRACTED''\<rparr>"

theorem pageRank_mass_witness:
  "sum_list (map (score_of [file_node 1 ''a'', file_node 2 ''b''] [call_edge 1 2] [(2, 3)] (85/100) 30) [file_node 1 ''a'', file_node 2 ''b'']) = 1 \<and>
    dom (pageRankCore [file_node 1 ''a'', file_node 2 ''b''] [call_edge 1 2] [(2, 3)] (85/100) 30) = {1, 2}"
  using pageRank_mass[of "[file_node 1 ''a'', file_node 2 ''b'']" "[call_edge 1 2]" "[(2, 3)]" "85/100" 30] by (simp add: file_node_def)

theorem pageRank_recurrence_witness:
  "score_of [file_node 1 ''a'', file_node 2 ''b''] [call_edge 1 2] [] (1/2) 1 (file_node 2 ''b'') = 5/8"
proof -
  let ?ns = "[file_node 1 ''a'', file_node 2 ''b'']" and ?es = "[call_edge 1 2]"
  have d: "distinct (map gn_id ?ns)" by (simp add: file_node_def)
  have t: "teleport ?ns [] ! Suc 0 = 1/2" by (simp add: teleport_def)
  have s: "score_of ?ns ?es [] (1/2) 0 (file_node 1 ''a'') = 1/2" "score_of ?ns ?es [] (1/2) 0 (file_node 2 ''b'') = 1/2"
    using core_ranks[OF d, of 0 ?es "[]" "1/2" 0] core_ranks[OF d, of 1 ?es "[]" "1/2" 0] by (simp_all add: score_of_def ranks_def)
  have c: "carried_away ?ns ?es 1 = 7/10" "carried_away ?ns ?es 2 = 0" "carried ?es 1 2 = 7/10"
    by (simp_all add: carried_away_def carried_def call_edge_def file_node_def edge_mass_def edgeConfidence_def)
  have ids: "gn_id (file_node i p) = i" for i p by (simp add: file_node_def)
  show ?thesis using pageRank_recurrence[OF d, of 0 1 ?es "[]" "1/2"] by (simp add: t s c ids)
qed

text \<open>A seed that names no node of the graph gives the global ranking.\<close>

lemma seed_without_match:
  assumes "distinct (map gn_id nodes)" "\<forall>kv \<in> set ps. snd kv \<le> 0 \<or> fst kv \<notin> gn_id ` set nodes"
  shows "pageRankCore nodes edges ps d t = pageRank nodes edges d t"
proof -
  have step: "add_teleport (node_index nodes) st kv = st" if "snd kv \<le> 0 \<or> fst kv \<notin> gn_id ` set nodes" for st kv
    using that node_index_of(2)[OF assms(1), of "fst kv"] by (cases st) (auto simp: add_teleport_def split: option.split)
  have "foldl (add_teleport (node_index nodes)) st ps = st" for st
    using assms(2) by (induction ps) (simp_all add: step)
  then show ?thesis by (simp add: pageRank_def pageRankCore_def teleport_def)
qed

text \<open>A seed's weights count the tokens of the task found in the node's symbol or file name.\<close>

lemma seed_counts:
  assumes "seedFromTask nodes task i = Some w"
  shows "\<exists>n \<in> set nodes. gn_id n = i \<and> 0 < w \<and> w = of_nat (length (filter (\<lambda>t. contains t (haystack n)) (remdups (task_tokens [] task))))"
proof -
  let ?k = "\<lambda>n. length (filter (\<lambda>t. contains t (haystack n)) (remdups (task_tokens [] task)))"
  have "foldl (\<lambda>m n. let k = ?k n in if 0 < k then m(gn_id n \<mapsto> of_nat k) else m) m ns i = Some w \<Longrightarrow>
    m i = Some w \<or> (\<exists>n \<in> set ns. gn_id n = i \<and> 0 < w \<and> w = of_nat (?k n))" for m ns
  proof (induction ns arbitrary: m)
    case (Cons n ns)
    from Cons.IH[of "if 0 < ?k n then m(gn_id n \<mapsto> of_nat (?k n)) else m"] Cons.prems show ?case
      by (auto simp: Let_def split: if_splits)
  qed simp
  from this[of Map.empty nodes] assms show ?thesis by (simp add: seedFromTask_def Let_def)
qed

text \<open>Text escaped for the page has no character that could close the script element or break the line.\<close>

lemma jsonEscape_safe: "CHR ''<'' \<notin> set (jsonEscape s) \<and> CHR ''>'' \<notin> set (jsonEscape s) \<and> nl \<notin> set (jsonEscape s)"
  by (auto simp: jsonEscape_def)

lemma filterCallTargets_fanout: "length (filterCallTargets cands self k) \<le> k \<and> self \<notin> set (filterCallTargets cands self k)"
  by (simp add: filterCallTargets_def Let_def)

end
