(* ===== verification/ContextDelta.thy ===== *)
theory ContextDelta
  imports CxxString Complex_Main "HOL-Library.Sublist"
begin

text \<open>
  What is shown again and what is left out: the line delta of a file shown before
  (\<open>cli/content_delta.hpp\<close>) and the branch of \<open>cli/commands/bundle_cmd.cpp\<close> that prints it and
  keeps the baseline, \<open>cli/pack_delta.hpp\<close>, \<open>core/structural_trim.hpp\<close>, the window of slices
  injected lately (\<open>core/cross_turn_dedup.hpp\<close>) and the injected ids with their lifetime
  (\<open>cli/session_dedup.hpp\<close>). Files are their content; ratios are exact rationals. The lemmas show
  what a delta prints and what it does not see, that the trim keeps every line with a word
  once, and that a slice stays suppressed for as long as the window reaches.
\<close>

section \<open>The delta of a file\<close>

record content_delta =
  delta_text :: string
  changed_lines :: nat
  total_lines :: nat
  identical :: bool

definition rtrim_eol :: "string \<Rightarrow> string" where
  "rtrim_eol s = rev (dropWhile (\<lambda>c. c = cr \<or> c = nl) (rev s))"

definition body_lines :: "string \<Rightarrow> string list" where
  "body_lines s = map rtrim_eol (getlines s)"

definition setw :: "nat \<Rightarrow> string \<Rightarrow> string" where
  "setw n s = replicate (n - length s) (CHR '' '') @ s"

definition changed_at :: "string \<Rightarrow> string list \<Rightarrow> bool list" where
  "changed_at prev ls = map (\<lambda>l. l \<noteq> [] \<and> l \<notin> set (body_lines prev)) ls"

text \<open>The lines around a change: each change switches its window on.\<close>

definition mark_window :: "nat \<Rightarrow> bool list \<Rightarrow> nat \<Rightarrow> bool list" where
  "mark_window ctx vis i =
     (let lo = (if ctx \<le> i then i - ctx else 0); hi = (if length vis \<le> i + ctx then length vis - 1 else i + ctx)
      in foldl (\<lambda>v j. v[j := True]) vis [lo..<hi + 1])"

definition visible_at :: "nat \<Rightarrow> bool list \<Rightarrow> bool list" where
  "visible_at ctx changed =
     foldl (\<lambda>vis i. if changed ! i then mark_window ctx vis i else vis) (replicate (length changed) False) [0..<length changed]"

text \<open>The lines with their marks, from line \<open>i\<close> on; the hidden ones counted in a run.\<close>

function render_delta :: "nat \<Rightarrow> (bool \<times> string) list \<Rightarrow> string" where
  "render_delta i [] = []"
| "render_delta i ((True, l) # ls) = setw 6 (nat_str (i + 1)) @ ''  '' @ l @ [nl] @ render_delta (i + 1) ls"
| "render_delta i ((False, l) # ls) =
     (let run = takeWhile (\<lambda>p. \<not> fst p) ((False, l) # ls)
      in ''        ... '' @ nat_str (length run) @ '' unchanged line(s) ...'' @ [nl]
         @ render_delta (i + length run) (dropWhile (\<lambda>p. \<not> fst p) ((False, l) # ls)))"
  by pat_completeness auto
termination by (relation "measure (\<lambda>(i, ls). length ls)") (auto simp: le_imp_less_Suc length_dropWhile_le)

definition computeContentDelta :: "string \<Rightarrow> string \<Rightarrow> int \<Rightarrow> content_delta" where
  "computeContentDelta prev new context_lines =
     (let ls = body_lines new; changed = changed_at prev ls; n = length (filter id changed);
          ctx = (if context_lines < 0 then 0 else nat context_lines)
      in if n = 0 then \<lparr>delta_text = [], changed_lines = 0, total_lines = length ls, identical = True\<rparr>
         else \<lparr>delta_text = render_delta 0 (zip (visible_at ctx changed) ls), changed_lines = n,
               total_lines = length ls, identical = False\<rparr>)"

definition shouldContextDiff :: "bool \<Rightarrow> bool \<Rightarrow> bool \<Rightarrow> bool \<Rightarrow> bool" where
  "shouldContextDiff explicit_diff no_diff baseline_exists diff_reset =
     (if diff_reset then False else if no_diff then False else if explicit_diff then True else baseline_exists)"

text \<open>The content part of \<open>icmg context\<close>: what is printed, and the baseline it leaves.\<close>

definition context_content :: "string \<Rightarrow> bool \<Rightarrow> bool \<Rightarrow> bool \<Rightarrow> nat \<Rightarrow> string \<Rightarrow> string option \<Rightarrow> string \<times> string option" where
  "context_content resolved explicit_diff no_diff diff_reset budget body baseline =
     (let baseline_exists = (\<not> diff_reset \<and> baseline \<noteq> None);
          prev = (if baseline_exists then the baseline else []);
          want_diff = shouldContextDiff explicit_diff no_diff baseline_exists diff_reset;
          out =
            (if want_diff \<and> prev \<noteq> []
             then (let d = computeContentDelta prev body 2 in
                   if identical d then [nl] @ ''--- Content ('' @ resolved @ ''; unchanged since last shown) ---'' @ [nl]
                   else (let truncated = budget < length (delta_text d); dt = (if truncated then take budget (delta_text d) else delta_text d)
                         in [nl] @ ''--- Delta ('' @ resolved @ ''; '' @ nat_str (changed_lines d) @ ''/'' @ nat_str (total_lines d)
                            @ '' line(s) changed'' @ (if truncated then ''; truncated'' else []) @ '') ---'' @ [nl] @ dt
                            @ (if truncated then [nl] @ ''--- [delta truncated; raise --max-bytes] ---'' @ [nl] else [])))
             else (let truncated = budget < length body; b2 = (if truncated then take budget body else body);
                       why = (if explicit_diff then ''; --diff baseline seeded, full shown''
                              else if diff_reset then ''; baseline reset, full shown'' else [])
                   in [nl] @ ''--- Content ('' @ resolved @ why @ (if truncated then ''; truncated'' else []) @ '') ---'' @ [nl] @ b2
                      @ (if truncated then [nl] @ ''--- [content truncated; raise --max-bytes for more] ---'' @ [nl] else [])))
      in (out, Some body))"

definition strip_crs :: "string \<Rightarrow> string" where
  "strip_crs s = rev (dropWhile (\<lambda>c. c = cr) (rev s))"

definition computePackDelta :: "string \<Rightarrow> string \<Rightarrow> string" where
  "computePackDelta prev new =
     (let known = filter (\<lambda>l. l \<noteq> []) (map strip_crs (getlines prev))
      in unlines (filter (\<lambda>l. strip_crs l = [] \<or> strip_crs l \<notin> set known) (getlines new)))"

section \<open>Trimming\<close>

definition isBoilerplateLine :: "string \<Rightarrow> bool" where
  "isBoilerplateLine l \<longleftrightarrow> (if list_all is_space l then True else \<not> list_ex is_alnum l)"

fun trim_lines :: "string list \<Rightarrow> string list \<Rightarrow> string list" where
  "trim_lines seen [] = []"
| "trim_lines seen (l # ls) =
     (let c = chop_cr l in
      if isBoilerplateLine c \<or> c \<in> set seen then trim_lines seen ls else c # trim_lines (c # seen) ls)"

definition structuralTrim :: "string \<Rightarrow> string" where
  "structuralTrim s = join [nl] (trim_lines [] (getlines s))"

section \<open>The window of injected slices\<close>

fun word_list :: "string \<Rightarrow> string \<Rightarrow> string list" where
  "word_list cur [] = (if 2 \<le> length cur then [cur] else [])"
| "word_list cur (c # cs) =
     (if is_alnum c then word_list (cur @ [to_lower c]) cs else (if 2 \<le> length cur then [cur] else []) @ word_list [] cs)"

text \<open>The set of words, as the list of its elements.\<close>

definition wordSet :: "string \<Rightarrow> string list" where
  "wordSet s = remdups (word_list [] s)"

definition jaccardSets :: "string list \<Rightarrow> string list \<Rightarrow> rat" where
  "jaccardSets a b =
     (if a = [] \<and> b = [] then 1
      else if a = [] \<or> b = [] then 0
      else (let inter = length (filter (\<lambda>w. w \<in> set b) a); uni = length a + length b - inter
            in if uni = 0 then 0 else of_nat inter / of_nat uni))"

definition isDuplicateInWindow :: "string \<Rightarrow> string list \<Rightarrow> rat \<Rightarrow> bool" where
  "isDuplicateInWindow piece window threshold \<longleftrightarrow>
     list_ex (\<lambda>w. threshold \<le> jaccardSets (wordSet piece) (wordSet w)) window"

definition dedupeAgainstWindow :: "string list \<Rightarrow> string list \<Rightarrow> rat \<Rightarrow> string list" where
  "dedupeAgainstWindow pieces window threshold =
     foldl (\<lambda>kept s. if isDuplicateInWindow s window threshold \<or> isDuplicateInWindow s kept threshold then kept else kept @ [s]) [] pieces"

definition window_lines :: "string option \<Rightarrow> string list" where
  "window_lines content = (case content of None \<Rightarrow> [] | Some x \<Rightarrow> filter (\<lambda>l. l \<noteq> []) (map chop_cr (getlines x)))"

definition dedupAgainstWindowFile :: "string \<Rightarrow> rat \<Rightarrow> nat \<Rightarrow> string option \<Rightarrow> bool \<times> string option" where
  "dedupAgainstWindowFile piece threshold maxWindow content =
     (if wordSet piece = [] then (False, content)
      else (let win = window_lines content in
            if isDuplicateInWindow piece win threshold then (True, content)
            else (let win' = win @ [piece] in (False, Some (unlines (drop (length win' - maxWindow) win'))))))"

section \<open>Injected ids\<close>

text \<open>The lifetime, from the environment if it holds a positive number.\<close>

definition recallDedupTTL :: "string option \<Rightarrow> int" where
  "recallDedupTTL env =
     (case env of None \<Rightarrow> 2700 | Some e \<Rightarrow> (case stoll e of None \<Rightarrow> 2700 | Some v \<Rightarrow> if 0 < v then v else 2700))"

fun injected_in :: "string list \<Rightarrow> string \<Rightarrow> int \<Rightarrow> int \<Rightarrow> bool" where
  "injected_in [] i ttl now = False"
| "injected_in (l # ls) i ttl now =
     (case cut_at tab l of
        None \<Rightarrow> l = i \<or> injected_in ls i ttl now
      | Some (stamp, rest) \<Rightarrow>
          (case stoll stamp of
             None \<Rightarrow> injected_in ls i ttl now
           | Some t \<Rightarrow> (\<not> ttl < now - t \<and> rest = i) \<or> injected_in ls i ttl now))"

definition wasInjectedRecently :: "string option \<Rightarrow> string \<Rightarrow> int \<Rightarrow> int \<Rightarrow> bool" where
  "wasInjectedRecently content i ttl now = (case content of None \<Rightarrow> False | Some x \<Rightarrow> injected_in (getlines x) i ttl now)"

definition markInjected :: "string \<Rightarrow> int \<Rightarrow> string option \<Rightarrow> string option" where
  "markInjected i now content = Some ((case content of None \<Rightarrow> [] | Some x \<Rightarrow> x) @ int_str now @ [tab] @ i @ [nl])"

definition formatPriorRefLine :: "string list \<Rightarrow> string" where
  "formatPriorRefLine ids =
     (if ids = [] then []
      else ''['' @ nat_str (length ids) @ '' prior memor'' @ (if length ids = 1 then ''y'' else ''ies'')
           @ '' still appl'' @ (if length ids = 1 then ''ies'' else ''y'') @ '':''
           @ concat (map (\<lambda>i. '' #'' @ i) ids) @ '']'')"

section \<open>What the delta shows\<close>

lemma set_positions:
  "length (foldl (\<lambda>v j. v[j := True]) vis js) = length vis"
  "j < length vis \<Longrightarrow> foldl (\<lambda>v j. v[j := True]) vis js ! j \<longleftrightarrow> vis ! j \<or> j \<in> set js"
proof -
  have "length (foldl (\<lambda>v j. v[j := True]) vis js) = length vis \<and>
    (\<forall>j < length vis. foldl (\<lambda>v j. v[j := True]) vis js ! j \<longleftrightarrow> vis ! j \<or> j \<in> set js)"
  proof (induction js arbitrary: vis)
    case (Cons k js)
    have "vis[k := True] ! j \<longleftrightarrow> j = k \<or> vis ! j" if "j < length vis" for j using that by (cases "j = k") simp_all
    then show ?case using Cons[of "vis[k := True]"] by auto
  qed simp
  then show "length (foldl (\<lambda>v j. v[j := True]) vis js) = length vis"
    "j < length vis \<Longrightarrow> foldl (\<lambda>v j. v[j := True]) vis js ! j \<longleftrightarrow> vis ! j \<or> j \<in> set js" by blast+
qed

lemma mark_window_at:
  "length (mark_window ctx vis i) = length vis"
  "i < length vis \<Longrightarrow> j < length vis \<Longrightarrow> mark_window ctx vis i ! j \<longleftrightarrow> vis ! j \<or> (i \<le> j + ctx \<and> j \<le> i + ctx)"
  by (simp_all add: mark_window_def Let_def set_positions) auto

lemma visible_at_iff:
  "length (visible_at ctx changed) = length changed"
  "j < length changed \<Longrightarrow> visible_at ctx changed ! j \<longleftrightarrow> (\<exists>i < length changed. changed ! i \<and> i \<le> j + ctx \<and> j \<le> i + ctx)"
proof -
  have "length vis = length changed \<Longrightarrow> \<forall>i \<in> set is'. i < length changed \<Longrightarrow>
    length (foldl (\<lambda>vis i. if changed ! i then mark_window ctx vis i else vis) vis is') = length changed \<and>
    (\<forall>j < length changed. foldl (\<lambda>vis i. if changed ! i then mark_window ctx vis i else vis) vis is' ! j \<longleftrightarrow>
      vis ! j \<or> (\<exists>i \<in> set is'. changed ! i \<and> i \<le> j + ctx \<and> j \<le> i + ctx))" for vis is'
    by (induction is' arbitrary: vis) (auto simp: mark_window_at)
  from this[of "replicate (length changed) False" "[0..<length changed]"]
  show "length (visible_at ctx changed) = length changed"
    "j < length changed \<Longrightarrow> visible_at ctx changed ! j \<longleftrightarrow> (\<exists>i < length changed. changed ! i \<and> i \<le> j + ctx \<and> j \<le> i + ctx)"
    by (auto simp: visible_at_def)
qed

text \<open>A rendered delta read back: the lines with their numbers, and how many are left out between.\<close>

datatype delta_item = Line nat string | Skipped nat

fun item_text :: "delta_item \<Rightarrow> string" where
  "item_text (Line n l) = setw 6 (nat_str n) @ ''  '' @ l @ [nl]"
| "item_text (Skipped k) = ''        ... '' @ nat_str k @ '' unchanged line(s) ...'' @ [nl]"

fun item_lines :: "delta_item \<Rightarrow> nat" where
  "item_lines (Line n l) = 1"
| "item_lines (Skipped k) = k"

definition line_items :: "delta_item list \<Rightarrow> (nat \<times> string) list" where
  "line_items items = concat (map (\<lambda>x. case x of Line n l \<Rightarrow> [(n, l)] | Skipped k \<Rightarrow> []) items)"

lemma no_marked: "\<forall>p \<in> set run. \<not> fst p \<Longrightarrow> filter (\<lambda>(i, p). fst p) (enumerate a run) = []"
  by (induction run arbitrary: a) auto

lemma items_of_render:
  "\<exists>items. render_delta a ls = concat (map item_text items) \<and> sum_list (map item_lines items) = length ls \<and>
    line_items items = map (\<lambda>(i, p). (i + 1, snd p)) (filter (\<lambda>(i, p). fst p) (enumerate a ls)) \<and>
    (\<forall>k. Skipped k \<in> set items \<longrightarrow> 0 < k)"
proof (induction a ls rule: render_delta.induct)
  case (1 a)
  show ?case by (rule exI[of _ "[]"]) (simp add: line_items_def)
next
  case (2 a l ls)
  then obtain items where it: "render_delta (a + 1) ls = concat (map item_text items)" "sum_list (map item_lines items) = length ls"
    "line_items items = map (\<lambda>(i, p). (i + 1, snd p)) (filter (\<lambda>(i, p). fst p) (enumerate (a + 1) ls))" "\<forall>k. Skipped k \<in> set items \<longrightarrow> 0 < k"
    by blast
  show ?case by (rule exI[of _ "Line (a + 1) l # items"]) (use it in \<open>auto simp: line_items_def\<close>)
next
  case (3 a l ls)
  let ?all = "(False, l) # ls" let ?run = "takeWhile (\<lambda>p. \<not> fst p) ?all" let ?rest = "dropWhile (\<lambda>p. \<not> fst p) ?all"
  from 3[OF refl] obtain items where it: "render_delta (a + length ?run) ?rest = concat (map item_text items)"
    "sum_list (map item_lines items) = length ?rest"
    "line_items items = map (\<lambda>(i, p). (i + 1, snd p)) (filter (\<lambda>(i, p). fst p) (enumerate (a + length ?run) ?rest))"
    "\<forall>k. Skipped k \<in> set items \<longrightarrow> 0 < k" by blast
  have len: "length ?run + length ?rest = length ?all" by (metis length_append takeWhile_dropWhile_id)
  have "enumerate a ?all = enumerate a ?run @ enumerate (a + length ?run) ?rest"
    by (metis enumerate_append_eq takeWhile_dropWhile_id)
  moreover have "filter (\<lambda>(i, p). fst p) (enumerate a ?run) = []"
    by (intro no_marked) (auto dest: set_takeWhileD)
  ultimately have en: "filter (\<lambda>(i, p). fst p) (enumerate a ?all) = filter (\<lambda>(i, p). fst p) (enumerate (a + length ?run) ?rest)" by simp
  have "render_delta a ?all = item_text (Skipped (length ?run)) @ concat (map item_text items)"
    unfolding render_delta.simps Let_def it(1) by simp
  then show ?case unfolding en using it(2-4) len
    by (intro exI[of _ "Skipped (length ?run) # items"]) (simp add: line_items_def)
qed

text \<open>The lines of the new text, numbered from one, that are within the window of a changed line.\<close>

definition near_change :: "string \<Rightarrow> nat \<Rightarrow> string list \<Rightarrow> nat \<Rightarrow> bool" where
  "near_change prev ctx ls j \<longleftrightarrow>
     (\<exists>i < length ls. ls ! i \<noteq> [] \<and> ls ! i \<notin> set (body_lines prev) \<and> i \<le> j + ctx \<and> j \<le> i + ctx)"

definition delta_window :: "string \<Rightarrow> nat \<Rightarrow> string list \<Rightarrow> (nat \<times> string) list" where
  "delta_window prev ctx ls = map (\<lambda>j. (j + 1, ls ! j)) (filter (near_change prev ctx ls) [0..<length ls])"

lemma filter_zip_enumerate:
  "length bs' = length ls \<Longrightarrow> map (\<lambda>(i, p). (i + 1, snd p)) (filter (\<lambda>(i, p). fst p) (enumerate a (zip bs' ls)))
    = map (\<lambda>j. (a + j + 1, ls ! j)) (filter (\<lambda>j. bs' ! j) [0..<length ls])"
proof (induction bs' ls arbitrary: a rule: list_induct2)
  case (Cons b bs' l ls)
  have upt: "[0..<length (l # ls)] = 0 # map Suc [0..<length ls]" by (simp add: upt_conv_Cons map_Suc_upt del: upt_Suc)
  show ?case using Cons.IH[of "Suc a"] unfolding upt by (simp add: filter_map comp_def)
qed simp

lemma some_change: "filter id (changed_at prev ls) = [] \<longleftrightarrow> (\<forall>l \<in> set ls. l = [] \<or> l \<in> set (body_lines prev))"
  by (auto simp: changed_at_def filter_empty_conv)

lemma visible_near:
  "j < length ls \<Longrightarrow> visible_at ctx (changed_at prev ls) ! j \<longleftrightarrow> near_change prev ctx ls j"
  by (auto simp: visible_at_iff changed_at_def near_change_def)

lemma delta_identical:
  "\<forall>l \<in> set (body_lines new). l = [] \<or> l \<in> set (body_lines prev) \<Longrightarrow>
   identical (computeContentDelta prev new ctx) \<and> delta_text (computeContentDelta prev new ctx) = []"
  using some_change[of prev "body_lines new"] by (simp add: computeContentDelta_def Let_def)

lemma covered_unchanged:
  assumes "set (body_lines new) \<subseteq> set (body_lines prev)" "prev \<noteq> []"
  shows "context_content f e False False budget new (Some prev)
    = ([nl] @ ''--- Content ('' @ f @ ''; unchanged since last shown) ---'' @ [nl], Some new)"
  using assms delta_identical[of new prev 2] by (auto simp: context_content_def shouldContextDiff_def Let_def)

text \<open>
  Property C18. Where a delta is printed it holds exactly the lines of the new text within the
  asked distance of a line that the old text does not have, with their numbers and in order,
  and its markers count all the other lines; it is left out as identical exactly when the old
  text has all the lines that are not empty.
\<close>

theorem content_delta_exact:
  fixes prev new :: string and ctx :: int
  defines "d \<equiv> computeContentDelta prev new ctx" and "ls \<equiv> body_lines new"
  shows "if \<forall>l \<in> set ls. l = [] \<or> l \<in> set (body_lines prev)
    then identical d \<and> delta_text d = []
    else \<not> identical d \<and> (\<exists>items. delta_text d = concat (map item_text items) \<and>
      line_items items = delta_window prev (nat (max 0 ctx)) ls \<and> sum_list (map item_lines items) = total_lines d \<and>
      total_lines d = length ls \<and> Skipped 0 \<notin> set items)"
proof (cases "\<forall>l \<in> set ls. l = [] \<or> l \<in> set (body_lines prev)")
  case True
  then show ?thesis using some_change[of prev ls] unfolding d_def ls_def by (simp add: computeContentDelta_def Let_def)
next
  case False
  let ?n = "nat (max 0 ctx)" let ?vis = "visible_at ?n (changed_at prev ls)"
  have len: "length ?vis = length ls" by (simp add: visible_at_iff changed_at_def)
  have "(if ctx < 0 then 0 else nat ctx) = ?n" by simp
  then have d: "d = \<lparr>delta_text = render_delta 0 (zip ?vis ls), changed_lines = length (filter id (changed_at prev ls)),
    total_lines = length ls, identical = False\<rparr>"
    using False some_change[of prev ls] unfolding d_def ls_def by (simp add: computeContentDelta_def Let_def)
  obtain items where it: "render_delta 0 (zip ?vis ls) = concat (map item_text items)" "sum_list (map item_lines items) = length (zip ?vis ls)"
    "line_items items = map (\<lambda>(i, p). (i + 1, snd p)) (filter (\<lambda>(i, p). fst p) (enumerate 0 (zip ?vis ls)))"
    "\<forall>k. Skipped k \<in> set items \<longrightarrow> 0 < k" using items_of_render by blast
  have "line_items items = delta_window prev ?n ls"
    unfolding it(3) filter_zip_enumerate[OF len] delta_window_def using visible_near by (auto intro!: arg_cong[where f = "map _"] filter_cong)
  then show ?thesis using False it len by (auto simp: d)
qed

theorem content_delta_exact_witness:
  "\<exists>items. delta_text (computeContentDelta (unlines [''a'', ''b'', ''c'']) (unlines [''a'', ''b'', ''x'']) 1) = concat (map item_text items) \<and>
    line_items items = [(2, ''b''), (3, ''x'')] \<and> sum_list (map item_lines items) = 3"
proof -
  let ?p = "unlines [''a'', ''b'', ''c'']" and ?n = "unlines [''a'', ''b'', ''x'']"
  have bl: "body_lines ?p = [''a'', ''b'', ''c'']" "body_lines ?n = [''a'', ''b'', ''x'']" by code_simp+
  have near: "near_change ?p 1 [''a'', ''b'', ''x''] j \<longleftrightarrow> 2 \<le> j + 1 \<and> j \<le> 3" for j
    unfolding near_change_def bl by (auto simp: less_Suc_eq intro: exI[of _ 2])
  have win: "delta_window ?p 1 [''a'', ''b'', ''x''] = [(2, ''b''), (3, ''x'')]" unfolding delta_window_def near by (simp add: upt_rec)
  have "\<not> (\<forall>l \<in> set [''a'', ''b'', ''x'']. l = [] \<or> l \<in> set [''a'', ''b'', ''c''])" by simp
  with content_delta_exact[of ?n ?p 1, unfolded bl] win show ?thesis by auto
qed

text \<open>
  Lines taken out of a file leave no trace: the file is reported as unchanged since it was
  last shown, and the shorter text becomes the baseline.
\<close>

theorem deletion_reported_unchanged:
  assumes "set (body_lines new) \<subseteq> set (body_lines prev)" "prev \<noteq> []"
  shows "context_content f False False False budget new (Some prev)
    = ([nl] @ ''--- Content ('' @ f @ ''; unchanged since last shown) ---'' @ [nl], Some new)"
  by (rule covered_unchanged[OF assms])

theorem deletion_reported_unchanged_witness:
  "context_content ''a'' False False False 9 (unlines [''x'']) (Some (unlines [''x'', ''y'']))
    = ([nl] @ ''--- Content (a; unchanged since last shown) ---'' @ [nl], Some (unlines [''x'']))"
proof -
  have "set (body_lines (unlines [''x''])) \<subseteq> set (body_lines (unlines [''x'', ''y'']))" by code_simp
  from deletion_reported_unchanged[OF this, of "''a''" 9] show ?thesis by simp
qed

text \<open>
  What was cut off at the budget counts as shown: asked again, the command says that nothing
  changed, although the rest was never printed.
\<close>

lemma cut_content_never_shown:
  assumes "budget < length body"
  shows "context_content f False False False budget body None = ([nl] @ ''--- Content ('' @ f @ ''; truncated) ---'' @ [nl] @ take budget body
      @ [nl] @ ''--- [content truncated; raise --max-bytes for more] ---'' @ [nl], Some body)"
    "context_content f False False False budget body (Some body) = ([nl] @ ''--- Content ('' @ f @ ''; unchanged since last shown) ---'' @ [nl], Some body)"
proof -
  show "context_content f False False False budget body None = ([nl] @ ''--- Content ('' @ f @ ''; truncated) ---'' @ [nl] @ take budget body
      @ [nl] @ ''--- [content truncated; raise --max-bytes for more] ---'' @ [nl], Some body)"
    using assms by (simp add: context_content_def shouldContextDiff_def)
  show "context_content f False False False budget body (Some body) = ([nl] @ ''--- Content ('' @ f @ ''; unchanged since last shown) ---'' @ [nl], Some body)"
    using assms by (intro covered_unchanged) auto
qed

section \<open>Trimming keeps every line with a word\<close>

lemma trim_lines_spec:
  "distinct (trim_lines seen ls) \<and> set (trim_lines seen ls) = {c \<in> set (map chop_cr ls). \<not> isBoilerplateLine c} - set seen \<and>
   subseq (trim_lines seen ls) (map chop_cr ls)"
proof (induction ls arbitrary: seen)
  case (Cons l ls)
  show ?case
  proof (cases "isBoilerplateLine (chop_cr l) \<or> chop_cr l \<in> set seen")
    case True
    then show ?thesis using Cons[of seen] by (auto simp: Let_def intro: list_emb_Cons)
  next
    case False
    then show ?thesis using Cons[of "chop_cr l # seen"] by (auto simp: Let_def)
  qed
qed simp

text \<open>
  The trim keeps the first occurrence of every line that has a letter or digit, in
  order, and nothing else.
\<close>

theorem structuralTrim_keeps:
  "\<exists>kept. structuralTrim s = join [nl] kept \<and> distinct kept \<and> subseq kept (map chop_cr (getlines s)) \<and>
    set kept = {c \<in> set (map chop_cr (getlines s)). list_ex is_alnum c}"
proof -
  have b: "isBoilerplateLine c \<longleftrightarrow> \<not> list_ex is_alnum c" for c
  proof -
    have "\<not> is_space x" if "is_alnum x" for x
      using that by (auto simp: is_alnum_def is_alpha_def is_upper_def is_lower_def is_digit_def is_space_def)
    then show ?thesis unfolding isBoilerplateLine_def by (auto simp: list_all_iff list_ex_iff)
  qed
  show ?thesis using trim_lines_spec[of "[]" "getlines s"]
    by (intro exI[of _ "trim_lines [] (getlines s)"]) (simp add: structuralTrim_def b)
qed

section \<open>A slice stays suppressed while the window reaches\<close>

lemma jaccard_self: "jaccardSets a a = 1"
  by (simp add: jaccardSets_def Let_def)

text \<open>
  The window as a list of lines: what stays after a slice was offered. A slice of several lines
  takes a place for each of them.
\<close>

definition window_entries :: "string list \<Rightarrow> string list" where
  "window_entries xs = filter (\<lambda>l. l \<noteq> []) (map chop_cr (concat (map (split_on nl) xs)))"

definition window_step :: "rat \<Rightarrow> nat \<Rightarrow> string \<Rightarrow> string list \<Rightarrow> string list" where
  "window_step thr k x ws =
     (if wordSet x = [] \<or> isDuplicateInWindow x ws thr then ws else window_entries (drop (length (ws @ [x]) - k) (ws @ [x])))"

lemma window_entries_append: "window_entries (xs @ ys) = window_entries xs @ window_entries ys"
  by (simp add: window_entries_def)

lemma window_lines_unlines: "window_lines (Some (unlines xs)) = window_entries xs"
proof -
  have "unlines xs = unlines (concat (map (split_on nl) xs))"
    by (induction xs) (simp_all add: unlines_append unlines_join split_on_nonempty join_split_on)
  moreover have "\<forall>l \<in> set (concat (map (split_on nl) xs)). nl \<notin> set l" by (auto dest: split_on_no_sep)
  ultimately show ?thesis by (simp add: window_lines_def window_entries_def getlines_unlines)
qed

lemma dedup_step:
  "window_lines (snd (dedupAgainstWindowFile x thr k content)) = window_step thr k x (window_lines content)"
  "fst (dedupAgainstWindowFile x thr k content) \<longleftrightarrow> wordSet x \<noteq> [] \<and> isDuplicateInWindow x (window_lines content) thr"
  by (simp_all add: dedupAgainstWindowFile_def window_step_def window_lines_unlines Let_def del: drop_append)

text \<open>Taking a carriage return off the end of a line leaves its words.\<close>

lemma word_list_cr: "word_list cur (l @ [cr]) = word_list cur l"
  by (induction cur l rule: word_list.induct) (simp_all add: is_alnum_def char_class_defs)

lemma wordSet_chop: "wordSet (chop_cr l) = wordSet l"
  by (cases l rule: rev_cases) (auto simp: chop_cr_def wordSet_def word_list_cr)

lemma word_entry:
  assumes "nl \<notin> set w" "wordSet w \<noteq> []"
  shows "window_entries [w] = [chop_cr w]"
proof -
  have "chop_cr w \<noteq> []" using assms(2) wordSet_chop[of w] by (auto simp: wordSet_def)
  then show ?thesis using assms(1) by (simp add: window_entries_def split_on_plain)
qed

lemma length_window_entries: "length (window_entries xs) \<le> (\<Sum>x \<leftarrow> xs. Suc (count_list x nl))"
proof -
  have "length (concat (map (split_on nl) xs)) = (\<Sum>x \<leftarrow> xs. Suc (count_list x nl))"
    by (simp add: length_concat comp_def length_split_on)
  then show ?thesis unfolding window_entries_def by (metis length_filter_le length_map)
qed

text \<open>A line with the words of the slice, with at most \<open>m\<close> lines behind it.\<close>

definition in_window :: "string \<Rightarrow> nat \<Rightarrow> string list \<Rightarrow> bool" where
  "in_window s m ws \<longleftrightarrow> (\<exists>a w b. ws = a @ w # b \<and> wordSet w = wordSet s \<and> length b \<le> m)"

lemma step_keeps:
  assumes "in_window s m ws" "wordSet s \<noteq> []" "\<forall>w \<in> set ws. nl \<notin> set w" "m + Suc (count_list x nl) < k"
  shows "in_window s (m + Suc (count_list x nl)) (window_step thr k x ws)"
proof (cases "wordSet x = [] \<or> isDuplicateInWindow x ws thr")
  case True
  then show ?thesis using assms(1) by (fastforce simp: in_window_def window_step_def)
next
  case False
  obtain a w b where ws: "ws = a @ w # b" "wordSet w = wordSet s" "length b \<le> m" using assms(1) by (auto simp: in_window_def)
  have "drop (length (ws @ [x]) - k) (ws @ [x]) = drop (length (ws @ [x]) - k) a @ [w] @ b @ [x]"
    using assms(4) ws(1,3) by simp
  then have "window_step thr k x ws = window_entries (drop (length (ws @ [x]) - k) a) @ window_entries [w] @ window_entries b @ window_entries [x]"
    using False by (simp add: window_step_def window_entries_append[symmetric])
  moreover have "window_entries [w] = [chop_cr w]" using word_entry assms(2,3) ws by simp
  moreover have "length (window_entries b) \<le> length b"
    using length_window_entries[of b] assms(3) ws(1) by (simp add: sum_list_Suc count_list_0_iff cong: map_cong)
  moreover have "length (window_entries [x]) \<le> Suc (count_list x nl)" using length_window_entries[of "[x]"] by simp
  ultimately show ?thesis unfolding in_window_def
    using ws(2,3) wordSet_chop[of w] by (intro exI[of _ "window_entries (drop (length (ws @ [x]) - k) a)"] exI[of _ "chop_cr w"] exI[of _ "window_entries b @ window_entries [x]"]) simp
qed

lemma window_lines_no_nl: "w \<in> set (window_lines content) \<Longrightarrow> nl \<notin> set w"
  by (auto simp: window_lines_def chop_cr_def split: option.splits if_splits dest: getlines_on_no_sep in_set_butlastD)

lemma steps_keep:
  assumes "in_window s m (window_lines content)" "wordSet s \<noteq> []" "m + (\<Sum>x \<leftarrow> xs. Suc (count_list x nl)) < k"
  shows "in_window s (m + (\<Sum>x \<leftarrow> xs. Suc (count_list x nl))) (window_lines (foldl (\<lambda>c x. snd (dedupAgainstWindowFile x thr k c)) content xs))"
  using assms
proof (induction xs arbitrary: m content)
  case (Cons x xs)
  have "in_window s (m + Suc (count_list x nl)) (window_lines (snd (dedupAgainstWindowFile x thr k content)))"
    unfolding dedup_step(1) using Cons.prems step_keeps window_lines_no_nl by simp
  from Cons.IH[OF this] Cons.prems show ?case by (simp add: add.assoc)
qed simp

text \<open>
  Property C19. A slice of one line that was let through is suppressed when it comes again, as
  long as the slices offered in between, whatever they hold, have fewer lines altogether than
  the window, and whatever the file held before. The slice must hold a word, that is, two
  letters or digits in a row: slices without one are never recorded.
\<close>

theorem injected_slice_suppressed:
  assumes "nl \<notin> set s" "wordSet s \<noteq> []" "thr \<le> 1"
    and "dedupAgainstWindowFile s thr k content = (False, content')"
    and "(\<Sum>x \<leftarrow> later. Suc (count_list x nl)) < k"
  shows "fst (dedupAgainstWindowFile s thr k (foldl (\<lambda>c x. snd (dedupAgainstWindowFile x thr k c)) content' later))"
proof -
  let ?ws = "window_lines content" let ?c = "foldl (\<lambda>c x. snd (dedupAgainstWindowFile x thr k c)) content' later"
  have "\<not> isDuplicateInWindow s ?ws thr" using dedup_step(2)[of s thr k content] assms(2,4) by simp
  then have "window_step thr k s ?ws = window_entries (drop (length ?ws + 1 - k) ?ws) @ window_entries [s]"
    using assms(2,5) by (simp add: window_step_def window_entries_append[symmetric])
  also have "\<dots> = window_entries (drop (length ?ws + 1 - k) ?ws) @ chop_cr s # []" using word_entry assms(1,2) by simp
  finally have "window_lines content' = window_entries (drop (length ?ws + 1 - k) ?ws) @ chop_cr s # []"
    using dedup_step(1)[of s thr k content] assms(4) by simp
  then have "in_window s 0 (window_lines content')" unfolding in_window_def using wordSet_chop[of s] by force
  from steps_keep[OF this assms(2), of later k thr] obtain a w b where "window_lines ?c = a @ w # b" "wordSet w = wordSet s"
    using assms(5) by (auto simp: in_window_def)
  then have "isDuplicateInWindow s (window_lines ?c) thr"
    using assms(3) jaccard_self[of "wordSet s"] by (simp add: isDuplicateInWindow_def)
  then show ?thesis using dedup_step(2)[of s thr k ?c] assms(2) by simp
qed

theorem injected_slice_suppressed_witness:
  "fst (dedupAgainstWindowFile ''cache rules'' (85/100) 64 (snd (dedupAgainstWindowFile (''parser'' @ [nl] @ ''table'') (85/100) 64 (Some (''old slice'' @ [nl] @ ''cache rules'' @ [nl])))))"
proof -
  have ne: "wordSet ''cache rules'' \<noteq> []" by code_simp
  have one: "dedupAgainstWindowFile ''cache rules'' (85/100) 64 (Some (''old slice'' @ [nl])) = (False, Some (''old slice'' @ [nl] @ ''cache rules'' @ [nl]))"
    by code_simp
  show ?thesis using injected_slice_suppressed[OF _ ne _ one, of "[''parser'' @ [nl] @ ''table'']"] by simp
qed

text \<open>A slice of two lines is not recognised when it comes again at once: the file gives back its lines one by one.\<close>

lemma two_line_slice_repeats:
  "fst (dedupAgainstWindowFile (''alpha beta'' @ [nl] @ ''gamma delta'') (85/100) 64
     (snd (dedupAgainstWindowFile (''alpha beta'' @ [nl] @ ''gamma delta'') (85/100) 64 None))) = False"
  by code_simp

section \<open>Injected ids expire, except old ones\<close>

lemma injected_in_append: "injected_in (ls @ ms) i ttl now \<longleftrightarrow> injected_in ls i ttl now \<or> injected_in ms i ttl now"
  by (induction ls) (auto split: option.split)

text \<open>An id marked at a time is suppressed from then on for exactly its lifetime, if nothing else suppresses it.\<close>

lemma marked_until_expiry:
  assumes "\<forall>l \<in> set ls. nl \<notin> set l" "nl \<notin> set i" "fits64 t"
  shows "wasInjectedRecently (markInjected i t (Some (unlines ls))) i ttl now \<longleftrightarrow> injected_in ls i ttl now \<or> now - t \<le> ttl"
proof -
  have tabs: "tab \<notin> set (int_str t)" "nl \<notin> set (int_str t)"
    using int_str_chars[of tab t] int_str_chars[of nl t] by (auto simp: is_digit_def ccode_def)
  have "unlines ls @ int_str t @ [tab] @ i @ [nl] = unlines (ls @ [int_str t @ tab # i])" by (simp add: unlines_append)
  moreover have "\<forall>l \<in> set (ls @ [int_str t @ tab # i]). nl \<notin> set l" using assms(1,2) tabs(2) by simp
  ultimately have "wasInjectedRecently (markInjected i t (Some (unlines ls))) i ttl now \<longleftrightarrow> injected_in (ls @ [int_str t @ tab # i]) i ttl now"
    unfolding wasInjectedRecently_def markInjected_def by (simp only: option.case getlines_unlines)
  then show ?thesis using cut_at_append[OF tabs(1), of i] assms(3)
    by (simp add: injected_in_append stoll_int_str not_less)
qed

text \<open>A line without a time stamp suppresses its id for ever.\<close>

lemma legacy_never_expires:
  assumes "tab \<notin> set i" "i \<in> set ls"
  shows "injected_in ls i ttl now"
proof -
  obtain xs ys where "ls = xs @ i # ys" using assms(2) by (meson split_list)
  moreover have "injected_in (i # ys) i ttl now" using assms(1) cut_at_None[of tab i] by simp
  ultimately show ?thesis by (simp only: injected_in_append simp_thms)
qed

end
