(* ===== verification/CsvImport.thy ===== *)
theory CsvImport
  imports CxxString
begin

text \<open>
  The CSV importer, \<open>import/csv_importer.cpp\<close>, and the transaction around every import,
  \<open>import/base_importer.hpp\<close>. The tables are their rows in the order of insertion; the clock and
  the refusals of the database are arguments. The lemmas show that a printed row is split into
  its fields, what an import of printed rows leaves in the table, and that a failed import
  leaves nothing.
\<close>

section \<open>Rows\<close>

record import_stats =
  memory_nodes :: nat
  graph_nodes :: nat
  graph_edges :: nat
  abbreviations :: nat
  stored_procs :: nat
  rules :: nat
  errors :: nat
  error_messages :: "string list"

definition no_stats :: import_stats where
  "no_stats = \<lparr>memory_nodes = 0, graph_nodes = 0, graph_edges = 0, abbreviations = 0, stored_procs = 0, rules = 0, errors = 0, error_messages = []\<rparr>"

record abbreviation_row =
  short_form :: string
  full_form :: string
  dom_name :: string
  scope_path :: string
  abbr_frequency :: int
  abbr_created :: int

record memory_row =
  mem_topic :: string
  mem_content :: string
  mem_keywords :: string
  mem_importance :: int
  mem_frequency :: int
  mem_last_used :: int
  mem_created :: int

record tables =
  abbrs :: "abbreviation_row list"
  mems :: "memory_row list"

text \<open>\<open>INSERT OR IGNORE\<close> with the uniqueness of the short form and the domain.\<close>

text \<open>
  The database's schema, in \<open>migrations/0001_initial_schema.sql\<close>, makes the short form together with the
  domain unique, and the insertion is \<open>INSERT OR IGNORE\<close>.
\<close>

definition unique_key :: "abbreviation_row \<Rightarrow> string \<times> string" where
  "unique_key r = (short_form r, dom_name r)"

definition insert_abbr :: "abbreviation_row \<Rightarrow> tables \<Rightarrow> tables" where
  "insert_abbr r T =
     (if list_ex (\<lambda>x. unique_key x = unique_key r) (abbrs T) then T else T\<lparr>abbrs := abbrs T @ [r]\<rparr>)"

definition insert_memory :: "memory_row \<Rightarrow> tables \<Rightarrow> tables" where
  "insert_memory r T = T\<lparr>mems := mems T @ [r]\<rparr>"

section \<open>Splitting\<close>

fun split_csv :: "bool \<Rightarrow> string \<Rightarrow> string \<Rightarrow> string list" where
  "split_csv inQuote fld [] = [fld]"
| "split_csv inQuote fld (c # cs) =
     (if c = dq then
        (if inQuote \<and> cs \<noteq> [] \<and> hd cs = dq then split_csv inQuote (fld @ [dq]) (tl cs)
         else split_csv (\<not> inQuote) fld cs)
      else if c = CHR '','' \<and> \<not> inQuote then fld # split_csv inQuote [] cs
      else split_csv inQuote (fld @ [c]) cs)"

definition splitCsv :: "string \<Rightarrow> string list" where
  "splitCsv line = split_csv False [] line"

definition trim_blanks :: "string \<Rightarrow> string" where
  "trim_blanks s = rev (dropWhile (\<lambda>c. c = CHR '' '') (rev (dropWhile (\<lambda>c. c = CHR '' '') s)))"

definition colIndex :: "string list \<Rightarrow> string \<Rightarrow> nat option" where
  "colIndex headers name = (if name \<in> set headers then Some (length (takeWhile (\<lambda>h. h \<noteq> name) headers)) else None)"

definition or_else :: "nat option \<Rightarrow> nat option \<Rightarrow> nat option" where
  "or_else a b = (case a of None \<Rightarrow> b | Some i \<Rightarrow> a)"

definition getField :: "string list \<Rightarrow> nat option \<Rightarrow> string \<Rightarrow> string" where
  "getField row idx def = (case idx of None \<Rightarrow> def | Some i \<Rightarrow> if length row \<le> i then def else trim_blanks (row ! i))"

text \<open>The exception text for a null byte in a field.\<close>

definition validateString :: "string \<Rightarrow> string \<Rightarrow> string option" where
  "validateString s fld = (if CHR 0x00 \<in> set s then Some (''Field '' @ [sq] @ fld @ [sq] @ '' contains null byte'') else None)"

definition stat_error :: "string \<Rightarrow> import_stats \<Rightarrow> import_stats" where
  "stat_error msg st = st\<lparr>errors := errors st + 1, error_messages := error_messages st @ [msg]\<rparr>"

definition number_or :: "int \<Rightarrow> string \<Rightarrow> int" where
  "number_or d s = (case stoi s of None \<Rightarrow> d | Some v \<Rightarrow> v)"

section \<open>Abbreviations\<close>

definition abbr_line :: "(string list \<Rightarrow> string option) \<Rightarrow> string list \<Rightarrow> int \<Rightarrow> import_stats \<times> tables \<Rightarrow> string \<Rightarrow> import_stats \<times> tables" where
  "abbr_line refuses headers now acc raw =
     (case acc of (st, T) \<Rightarrow>
       (let line = chop_cr raw in
        if line = [] then acc
        else (let row = splitCsv line;
                  sf = getField row (or_else (colIndex headers ''short'') (colIndex headers ''short_form'')) [];
                  ff = getField row (or_else (colIndex headers ''full'') (colIndex headers ''full_form'')) [];
                  dm = getField row (colIndex headers ''domain'') ''general'';
                  sp = getField row (colIndex headers ''scope_path'') [];
                  freq = number_or 1 (getField row (colIndex headers ''frequency'') ''1'')
              in if sf = [] \<or> ff = [] then acc
                 else (case validateString sf ''short_form'' of
                     Some e \<Rightarrow> (stat_error e st, T)
                   | None \<Rightarrow>
                       (case validateString ff ''full_form'' of
                          Some e \<Rightarrow> (stat_error e st, T)
                        | None \<Rightarrow>
                            (case refuses [sf, ff, dm, sp, int_str freq, int_str now] of
                               Some e \<Rightarrow> (stat_error (''abbr insert: '' @ e) st, T)
                             | None \<Rightarrow>
                                 (st\<lparr>abbreviations := abbreviations st + 1\<rparr>,
                                  insert_abbr \<lparr>short_form = sf, full_form = ff, dom_name = dm, scope_path = sp,
                                    abbr_frequency = freq, abbr_created = now\<rparr> T)))))))"

definition importAbbreviations ::
  "(string list \<Rightarrow> string option) \<Rightarrow> string list \<Rightarrow> string list \<Rightarrow> int \<Rightarrow> tables \<Rightarrow> string + import_stats \<times> tables" where
  "importAbbreviations refuses headers ls now T =
     (if or_else (colIndex headers ''short'') (colIndex headers ''short_form'') = None
          \<or> or_else (colIndex headers ''full'') (colIndex headers ''full_form'') = None
      then Inl (''CSV abbreviation requires '' @ [sq] @ ''short'' @ [sq] @ '' and '' @ [sq] @ ''full'' @ [sq] @ '' columns'')
      else Inr (foldl (abbr_line refuses headers now) (no_stats, T) ls))"

section \<open>Memories\<close>

definition importance_of :: "string \<Rightarrow> int" where
  "importance_of s =
     (let imp = (if s = ''low'' \<or> s = ''0'' then 0 else if s = ''med'' \<or> s = ''1'' then 1 else if s = ''high'' \<or> s = ''2'' then 2
                 else if s = ''crit'' \<or> s = ''3'' then 3 else number_or 1 s)
      in max 0 (min 3 imp))"

definition memory_line :: "(string list \<Rightarrow> string option) \<Rightarrow> string list \<Rightarrow> int \<Rightarrow> import_stats \<times> tables \<Rightarrow> string \<Rightarrow> import_stats \<times> tables" where
  "memory_line refuses headers now acc raw =
     (case acc of (st, T) \<Rightarrow>
       (let line = chop_cr raw in
        if line = [] then acc
        else (let row = splitCsv line;
                  tp = getField row (colIndex headers ''topic'') [];
                  ct = getField row (colIndex headers ''content'') [];
                  imp_s = getField row (colIndex headers ''importance'') ''1'';
                  kw = getField row (colIndex headers ''keywords'') [];
                  freq_s = getField row (colIndex headers ''frequency'') ''1''
              in if tp = [] \<or> ct = [] then acc
                 else (let imp = importance_of imp_s; freq = number_or 1 freq_s in
                   case validateString tp ''topic'' of
                     Some e \<Rightarrow> (stat_error e st, T)
                   | None \<Rightarrow>
                       (case validateString ct ''content'' of
                          Some e \<Rightarrow> (stat_error e st, T)
                        | None \<Rightarrow>
                            (case refuses [tp, ct, kw, int_str imp, int_str freq, int_str now, int_str now] of
                               Some e \<Rightarrow> (stat_error (''memory insert: '' @ e) st, T)
                             | None \<Rightarrow>
                                 (st\<lparr>memory_nodes := memory_nodes st + 1\<rparr>,
                                  insert_memory \<lparr>mem_topic = tp, mem_content = ct, mem_keywords = kw, mem_importance = imp,
                                    mem_frequency = freq, mem_last_used = now, mem_created = now\<rparr> T)))))))"

definition importMemory ::
  "(string list \<Rightarrow> string option) \<Rightarrow> string list \<Rightarrow> string list \<Rightarrow> int \<Rightarrow> tables \<Rightarrow> string + import_stats \<times> tables" where
  "importMemory refuses headers ls now T =
     (if colIndex headers ''topic'' = None \<or> colIndex headers ''content'' = None
      then Inl (''CSV memory requires '' @ [sq] @ ''topic'' @ [sq] @ '' and '' @ [sq] @ ''content'' @ [sq] @ '' columns'')
      else Inr (foldl (memory_line refuses headers now) (no_stats, T) ls))"

section \<open>The import\<close>

definition checkFileSize :: "string \<Rightarrow> string option \<Rightarrow> string option" where
  "checkFileSize source content =
     (case content of None \<Rightarrow> None
      | Some x \<Rightarrow> if 100 * 1024 * 1024 < length x then Some (''Import file too large (max 100MB): '' @ source) else None)"

definition header_names :: "string \<Rightarrow> string list" where
  "header_names line = map (\<lambda>h. trim_blanks (lower_str h)) (splitCsv line)"

definition csv_type :: "string \<Rightarrow> string list \<Rightarrow> string \<Rightarrow> string + string" where
  "csv_type project headers headerLine =
     (if project \<noteq> [] then Inr project
      else if ''short'' \<in> set headers \<or> ''short_form'' \<in> set headers then Inr ''abbreviation''
      else if ''topic'' \<in> set headers then Inr ''memory''
      else Inl (''Cannot infer CSV type from header: '' @ headerLine))"

definition csv_doImport ::
  "(string list \<Rightarrow> string option) \<Rightarrow> string \<Rightarrow> string option \<Rightarrow> string \<Rightarrow> int \<Rightarrow> tables \<Rightarrow> string + import_stats \<times> tables" where
  "csv_doImport refuses source content project now T =
     (case checkFileSize source content of
        Some e \<Rightarrow> Inl e
      | None \<Rightarrow>
          (case content of
             None \<Rightarrow> Inl (''Cannot open: '' @ source)
           | Some x \<Rightarrow>
               (case getlines x of
                  [] \<Rightarrow> Inl ''CSV is empty''
                | first # ls \<Rightarrow>
                    (let headerLine = chop_cr first; headers = header_names headerLine in
                     case csv_type project headers headerLine of
                       Inl e \<Rightarrow> Inl e
                     | Inr ty \<Rightarrow>
                         if ty = ''abbreviation'' \<or> ty = ''abbr'' then importAbbreviations refuses headers ls now T
                         else if ty = ''memory'' then importMemory refuses headers ls now T
                         else Inl (''Unknown CSV type: '' @ ty @ '' (use '' @ [sq] @ ''abbreviation'' @ [sq] @ '' or '' @ [sq] @ ''memory'' @ [sq] @ '')'')))))"

text \<open>The import in its transaction: what it answers or throws, and the tables after it.\<close>

definition import_in_transaction :: "(tables \<Rightarrow> string + import_stats \<times> tables) \<Rightarrow> tables \<Rightarrow> (string + import_stats) \<times> tables" where
  "import_in_transaction doImport T =
     (case doImport T of Inl e \<Rightarrow> (Inl e, T) | Inr (st, T') \<Rightarrow> (Inr st, T'))"

section \<open>Printed rows\<close>

text \<open>A field as CSV writes it: between quotes with its quotes doubled, or bare.\<close>

definition escape_quotes :: "string \<Rightarrow> string" where
  "escape_quotes f = concat (map (\<lambda>c. if c = dq then [dq, dq] else [c]) f)"

definition print_field :: "bool \<times> string \<Rightarrow> string" where
  "print_field qf = (if fst qf then dq # escape_quotes (snd qf) @ [dq] else snd qf)"

definition print_row :: "(bool \<times> string) list \<Rightarrow> string" where
  "print_row fs = join '','' (map print_field fs)"

definition bare_ok :: "bool \<times> string \<Rightarrow> bool" where
  "bare_ok qf \<longleftrightarrow> fst qf \<or> dq \<notin> set (snd qf) \<and> CHR '','' \<notin> set (snd qf) \<and> cr \<notin> set (snd qf)"

lemma split_bare:
  "dq \<notin> set f \<Longrightarrow> CHR '','' \<notin> set f \<Longrightarrow> split_csv False acc (f @ rest) = split_csv False (acc @ f) rest"
  by (induction f arbitrary: acc) auto

lemma split_quoted:
  "rest = [] \<or> hd rest \<noteq> dq \<Longrightarrow> split_csv True acc (escape_quotes f @ dq # rest) = split_csv False (acc @ f) rest"
  by (induction f arbitrary: acc) (auto simp: escape_quotes_def)

lemma split_field:
  assumes "bare_ok qf" "rest = [] \<or> hd rest \<noteq> dq"
  shows "split_csv False [] (print_field qf @ rest) = split_csv False (snd qf) rest"
proof (cases "fst qf")
  case True
  have "split_csv False [] (dq # escape_quotes (snd qf) @ dq # rest) = split_csv True [] (escape_quotes (snd qf) @ dq # rest)" by simp
  then show ?thesis using True split_quoted[OF assms(2), of "[]" "snd qf"] by (simp add: print_field_def)
next
  case False
  then show ?thesis using assms(1) split_bare[of "snd qf" "[]" rest] by (simp add: print_field_def bare_ok_def)
qed

lemma split_row: "fs \<noteq> [] \<Longrightarrow> \<forall>qf \<in> set fs. bare_ok qf \<Longrightarrow> splitCsv (print_row fs) = map snd fs"
proof (induction fs rule: induct_list012)
  case (2 qf)
  then show ?case using split_field[of qf "[]"] by (simp add: splitCsv_def print_row_def)
next
  case (3 a b fs)
  have "split_csv False [] (print_field a @ CHR '','' # print_row (b # fs)) = split_csv False (snd a) (CHR '','' # print_row (b # fs))"
    using 3(4) by (intro split_field) simp_all
  then show ?case using 3 by (simp add: splitCsv_def print_row_def)
qed simp

text \<open>
  A row printed as CSV, each field quoted or, where it has no comma, quote or carriage
  return, bare, is split into exactly its fields.
\<close>

theorem splitCsv_print_row:
  assumes "fs \<noteq> []" "\<forall>qf \<in> set fs. bare_ok qf"
  shows "splitCsv (print_row fs) = map snd fs"
  by (rule split_row[OF assms])

theorem splitCsv_print_row_witness: "splitCsv (print_row [(True, ''a'' @ [dq] @ '',b''), (False, [])]) = [''a'' @ [dq] @ '',b'', []]"
  using splitCsv_print_row[of "[(True, ''a'' @ [dq] @ '',b''), (False, [])]"] by (simp add: bare_ok_def)

section \<open>Importing printed abbreviations\<close>

text \<open>Short form, full form and domain, each with the choice of quotes.\<close>

type_synonym printed_abbr = "(bool \<times> string) \<times> (bool \<times> string) \<times> (bool \<times> string)"

definition fields_of :: "printed_abbr \<Rightarrow> (bool \<times> string) list" where
  "fields_of r = (case r of (a, b, c) \<Rightarrow> [a, b, c])"

definition tidy :: "string \<Rightarrow> bool" where
  "tidy s \<longleftrightarrow> trim_blanks s = s \<and> nl \<notin> set s \<and> CHR 0x00 \<notin> set s"

definition printable_abbr :: "printed_abbr \<Rightarrow> bool" where
  "printable_abbr r \<longleftrightarrow> (\<forall>qf \<in> set (fields_of r). bare_ok qf \<and> tidy (snd qf)) \<and> snd (fst r) \<noteq> [] \<and> snd (fst (snd r)) \<noteq> []"

definition abbr_of :: "int \<Rightarrow> printed_abbr \<Rightarrow> abbreviation_row" where
  "abbr_of now r = (case r of (a, b, c) \<Rightarrow> \<lparr>short_form = snd a, full_form = snd b, dom_name = snd c, scope_path = [], abbr_frequency = 1, abbr_created = now\<rparr>)"

definition abbr_headers :: "string list" where
  "abbr_headers = [''short'', ''full'', ''domain'']"

definition abbr_csv :: "printed_abbr list \<Rightarrow> string" where
  "abbr_csv rs = unlines (''short,full,domain'' # map (\<lambda>r. print_row (fields_of r)) rs)"

lemma no_cr_at_end: "bare_ok qf \<Longrightarrow> print_field qf \<noteq> [] \<Longrightarrow> last (print_field qf) \<noteq> cr"
  by (cases "fst qf") (auto simp: print_field_def bare_ok_def dest: last_in_set)

lemma chop_printed: "printable_abbr r \<Longrightarrow> chop_cr (print_row (fields_of r)) = print_row (fields_of r) \<and> print_row (fields_of r) \<noteq> []"
proof -
  assume r: "printable_abbr r"
  obtain a b c where abc: "r = (a, b, c)" by (cases r)
  have row: "print_row (fields_of r) = print_field a @ CHR '','' # print_field b @ CHR '','' # print_field c"
    by (simp add: abc fields_of_def print_row_def)
  have "bare_ok c" using r by (simp add: abc printable_abbr_def fields_of_def)
  then have "last (CHR '','' # print_field c) \<noteq> cr" using no_cr_at_end[of c] by (cases "print_field c = []") simp_all
  then show ?thesis unfolding row chop_cr_def by simp
qed

lemma number_one: "number_or 1 ''1'' = 1"
  by code_simp

lemma abbr_line_printed:
  assumes "printable_abbr r" "\<And>vs. refuses vs = None"
  shows "abbr_line refuses abbr_headers now (st, T) (print_row (fields_of r))
    = (st\<lparr>abbreviations := abbreviations st + 1\<rparr>, insert_abbr (abbr_of now r) T)"
proof -
  obtain a b c where abc: "r = (a, b, c)" by (cases r)
  have sp: "splitCsv (print_row (fields_of r)) = [snd a, snd b, snd c]"
    using split_row[of "fields_of r"] assms(1) by (simp add: abc printable_abbr_def fields_of_def)
  have cols: "colIndex abbr_headers ''short'' = Some 0" "colIndex abbr_headers ''full'' = Some 1" "colIndex abbr_headers ''domain'' = Some 2"
    "colIndex abbr_headers ''scope_path'' = None" "colIndex abbr_headers ''frequency'' = None"
    by (simp_all add: colIndex_def abbr_headers_def)
  have flds: "trim_blanks (snd a) = snd a" "trim_blanks (snd b) = snd b" "trim_blanks (snd c) = snd c" "snd a \<noteq> []" "snd b \<noteq> []"
    "CHR 0x00 \<notin> set (snd a)" "CHR 0x00 \<notin> set (snd b)"
    using assms(1) by (simp_all add: abc printable_abbr_def fields_of_def tidy_def)
  show ?thesis using chop_printed[OF assms(1)] sp flds
    by (simp add: abbr_line_def Let_def cols or_else_def getField_def validateString_def assms(2) number_one abbr_of_def abc)
qed

lemma header_abbr: "chop_cr ''short,full,domain'' = ''short,full,domain''" "header_names ''short,full,domain'' = abbr_headers"
  unfolding abbr_headers_def by code_simp+

lemma print_field_nl: "nl \<in> set (print_field qf) \<longleftrightarrow> nl \<in> set (snd qf)"
  by (auto simp: print_field_def escape_quotes_def)

text \<open>
  What the table holds after the import: the rows it held, then each printed row that is the first
  with its short form and domain, in order, if the table had no such row.
\<close>

definition abbr_key :: "printed_abbr \<Rightarrow> string \<times> string" where
  "abbr_key r = (case r of (a, b, c) \<Rightarrow> (snd a, snd c))"

definition fresh_rows :: "(string \<times> string) set \<Rightarrow> printed_abbr list \<Rightarrow> printed_abbr list" where
  "fresh_rows known rs = map (\<lambda>i. rs ! i) (filter (\<lambda>i. abbr_key (rs ! i) \<notin> known \<union> abbr_key ` set (take i rs)) [0..<length rs])"

definition table_keys :: "tables \<Rightarrow> (string \<times> string) set" where
  "table_keys T = (\<lambda>x. (short_form x, dom_name x)) ` set (abbrs T)"

lemma fresh_rows_snoc:
  "fresh_rows known (rs @ [r]) = fresh_rows known rs @ (if abbr_key r \<in> known \<union> abbr_key ` set rs then [] else [r])"
proof -
  have "filter (\<lambda>i. abbr_key ((rs @ [r]) ! i) \<notin> known \<union> abbr_key ` set (take i (rs @ [r]))) [0..<length rs]
    = filter (\<lambda>i. abbr_key (rs ! i) \<notin> known \<union> abbr_key ` set (take i rs)) [0..<length rs]"
    by (intro filter_cong refl) (simp add: nth_append)
  moreover have "map (\<lambda>i. (rs @ [r]) ! i) (filter P [0..<length rs]) = map (\<lambda>i. rs ! i) (filter P [0..<length rs])" for P
    by (intro map_cong refl) (simp add: nth_append)
  ultimately show ?thesis by (simp add: fresh_rows_def)
qed

lemma insert_abbrs_fresh:
  "abbrs (foldl (\<lambda>T r. insert_abbr (abbr_of now r) T) T rs) = abbrs T @ map (abbr_of now) (fresh_rows (table_keys T) rs) \<and>
   mems (foldl (\<lambda>T r. insert_abbr (abbr_of now r) T) T rs) = mems T \<and>
   table_keys (foldl (\<lambda>T r. insert_abbr (abbr_of now r) T) T rs) = table_keys T \<union> abbr_key ` set rs"
proof (induction rs rule: rev_induct)
  case (snoc r rs)
  let ?S = "foldl (\<lambda>T r. insert_abbr (abbr_of now r) T) T rs"
  have key: "(short_form (abbr_of now r), dom_name (abbr_of now r)) = abbr_key r"
    by (cases r) (simp add: abbr_of_def abbr_key_def)
  then have "list_ex (\<lambda>x. unique_key x = unique_key (abbr_of now r)) (abbrs ?S) \<longleftrightarrow> abbr_key r \<in> table_keys ?S"
    unfolding list_ex_iff unique_key_def table_keys_def key by force
  then have known: "list_ex (\<lambda>x. unique_key x = unique_key (abbr_of now r)) (abbrs ?S) \<longleftrightarrow> abbr_key r \<in> table_keys T \<union> abbr_key ` set rs"
    using snoc by (simp only:)
  show ?case
  proof (cases "abbr_key r \<in> table_keys T \<union> abbr_key ` set rs")
    case True
    then show ?thesis using snoc known by (simp add: insert_abbr_def fresh_rows_snoc insert_absorb)
  next
    case False
    then have S: "insert_abbr (abbr_of now r) ?S = ?S\<lparr>abbrs := abbrs ?S @ [abbr_of now r]\<rparr>" using known by (simp add: insert_abbr_def)
    have "table_keys (?S\<lparr>abbrs := abbrs ?S @ [abbr_of now r]\<rparr>) = insert (abbr_key r) (table_keys ?S)" by (simp add: table_keys_def key)
    then show ?thesis using snoc False by (simp add: S fresh_rows_snoc)
  qed
qed (simp add: fresh_rows_def)

text \<open>
  Property C27. Importing a printed table of abbreviations adds its rows in order, each but those
  whose short form and domain together are in the table already, be it from before or from an
  earlier row; nothing else changes, and the answer counts every row, the ignored ones too.
\<close>

theorem abbreviations_imported:
  assumes "\<forall>r \<in> set rs. printable_abbr r" "\<And>vs. refuses vs = None" "length (abbr_csv rs) \<le> 100 * 1024 * 1024"
  shows "import_in_transaction (csv_doImport refuses f (Some (abbr_csv rs)) [] now) T
    = (Inr (no_stats\<lparr>abbreviations := length rs\<rparr>), T\<lparr>abbrs := abbrs T @ map (abbr_of now) (fresh_rows (table_keys T) rs)\<rparr>)"
proof -
  have nls: "\<forall>l \<in> set (''short,full,domain'' # map (\<lambda>r. print_row (fields_of r)) rs). nl \<notin> set l"
  proof -
    have "nl \<notin> set (print_row (fields_of r))" if "printable_abbr r" for r
      using that by (cases r) (auto simp: print_row_def fields_of_def printable_abbr_def tidy_def print_field_nl)
    then show ?thesis using assms(1) by auto
  qed
  have lines: "getlines (abbr_csv rs) = ''short,full,domain'' # map (\<lambda>r. print_row (fields_of r)) rs"
    unfolding abbr_csv_def by (rule getlines_unlines[OF nls])
  have "foldl (abbr_line refuses abbr_headers now) (st, T) (map (\<lambda>r. print_row (fields_of r)) rs)
    = (st\<lparr>abbreviations := abbreviations st + length rs\<rparr>, foldl (\<lambda>T r. insert_abbr (abbr_of now r) T) T rs)" for st T
    using assms(1) by (induction rs arbitrary: st T) (simp_all add: abbr_line_printed[OF _ assms(2)])
  from this[of no_stats T] have fold: "foldl (abbr_line refuses abbr_headers now) (no_stats, T) (map (\<lambda>r. print_row (fields_of r)) rs)
    = (no_stats\<lparr>abbreviations := length rs\<rparr>, foldl (\<lambda>T r. insert_abbr (abbr_of now r) T) T rs)" by (simp add: no_stats_def)
  have imp: "importAbbreviations refuses abbr_headers (map (\<lambda>r. print_row (fields_of r)) rs) now T
    = Inr (no_stats\<lparr>abbreviations := length rs\<rparr>, foldl (\<lambda>T r. insert_abbr (abbr_of now r) T) T rs)"
    unfolding importAbbreviations_def fold by (simp add: colIndex_def abbr_headers_def or_else_def)
  have ty: "csv_type [] abbr_headers ''short,full,domain'' = Inr ''abbreviation''" by (simp add: csv_type_def abbr_headers_def)
  have "csv_doImport refuses f (Some (abbr_csv rs)) [] now T
    = Inr (no_stats\<lparr>abbreviations := length rs\<rparr>, foldl (\<lambda>T r. insert_abbr (abbr_of now r) T) T rs)"
    using assms(3) by (simp add: csv_doImport_def checkFileSize_def lines header_abbr ty imp Let_def)
  moreover have "foldl (\<lambda>T r. insert_abbr (abbr_of now r) T) T rs = T\<lparr>abbrs := abbrs T @ map (abbr_of now) (fresh_rows (table_keys T) rs)\<rparr>"
    using insert_abbrs_fresh[of now T rs] by (intro tables.equality) simp_all
  ultimately show ?thesis by (simp add: import_in_transaction_def)
qed

definition three_rows :: "printed_abbr list" where
  "three_rows = [((False, ''db''), (True, ''data,base''), (False, ''sql'')), ((False, ''db''), (False, ''daybook''), (False, ''sql'')),
     ((False, ''db''), (False, ''decibel''), (False, ''audio''))]"

theorem abbreviations_imported_witness:
  "import_in_transaction (csv_doImport (\<lambda>_. None) ''a.csv'' (Some (abbr_csv three_rows)) [] 5) \<lparr>abbrs = [], mems = []\<rparr>
    = (Inr (no_stats\<lparr>abbreviations := 3\<rparr>),
       \<lparr>abbrs = [\<lparr>short_form = ''db'', full_form = ''data,base'', dom_name = ''sql'', scope_path = [], abbr_frequency = 1, abbr_created = 5\<rparr>,
          \<lparr>short_form = ''db'', full_form = ''decibel'', dom_name = ''audio'', scope_path = [], abbr_frequency = 1, abbr_created = 5\<rparr>], mems = []\<rparr>)"
proof -
  have p: "\<forall>r \<in> set three_rows. printable_abbr r" by code_simp
  have l: "length (abbr_csv three_rows) \<le> 100 * 1024 * 1024"
    by (simp add: three_rows_def abbr_csv_def print_row_def fields_of_def print_field_def escape_quotes_def)
  have "map (abbr_of 5) (fresh_rows (table_keys \<lparr>abbrs = [], mems = []\<rparr>) three_rows)
    = [\<lparr>short_form = ''db'', full_form = ''data,base'', dom_name = ''sql'', scope_path = [], abbr_frequency = 1, abbr_created = 5\<rparr>,
       \<lparr>short_form = ''db'', full_form = ''decibel'', dom_name = ''audio'', scope_path = [], abbr_frequency = 1, abbr_created = 5\<rparr>]" by code_simp
  then show ?thesis
    using abbreviations_imported[OF p _ l, of "\<lambda>_. None" "''a.csv''" 5 "\<lparr>abbrs = [], mems = []\<rparr>"] by (simp add: three_rows_def)
qed

text \<open>A failed import leaves the tables as they were.\<close>

lemma failed_import_leaves_tables: "fst (import_in_transaction doImport T) = Inl e \<Longrightarrow> snd (import_in_transaction doImport T) = T"
  by (auto simp: import_in_transaction_def split: sum.splits)

text \<open>No short form stands twice in one domain.\<close>

definition unique_abbrs :: "tables \<Rightarrow> bool" where
  "unique_abbrs T \<longleftrightarrow> distinct (map (\<lambda>r. (short_form r, dom_name r)) (abbrs T))"

lemma insert_unique: "unique_abbrs T \<Longrightarrow> unique_abbrs (insert_abbr r T)"
  by (auto simp: unique_abbrs_def insert_abbr_def unique_key_def list_ex_iff)

lemma abbr_line_unique: "unique_abbrs (snd acc) \<Longrightarrow> unique_abbrs (snd (abbr_line refuses hs now acc raw))"
  by (cases acc) (auto simp: abbr_line_def Let_def insert_unique split: option.splits)

lemma memory_line_unique: "unique_abbrs (snd acc) \<Longrightarrow> unique_abbrs (snd (memory_line refuses hs now acc raw))"
  by (cases acc) (auto simp: memory_line_def Let_def unique_abbrs_def insert_memory_def split: option.splits)

lemma foldl_snd_keeps: "(\<And>acc x. P (snd acc) \<Longrightarrow> P (snd (f acc x))) \<Longrightarrow> P (snd acc) \<Longrightarrow> P (snd (foldl f acc xs))"
  by (induction xs arbitrary: acc) auto

text \<open>Whatever the file, the import keeps the uniqueness of the abbreviations.\<close>

lemma import_keeps_unique:
  assumes "unique_abbrs T"
  shows "unique_abbrs (snd (import_in_transaction (csv_doImport refuses f content project now) T))"
proof (cases "csv_doImport refuses f content project now T")
  case (Inl e)
  then show ?thesis using assms by (simp add: import_in_transaction_def)
next
  case (Inr r)
  have a: "unique_abbrs (snd (foldl (abbr_line refuses hs now) (no_stats, T) ls))" for hs ls
    by (rule foldl_snd_keeps[where P = unique_abbrs]) (simp_all add: abbr_line_unique assms)
  have m: "unique_abbrs (snd (foldl (memory_line refuses hs now) (no_stats, T) ls))" for hs ls
    by (rule foldl_snd_keeps[where P = unique_abbrs]) (simp_all add: memory_line_unique assms)
  have "unique_abbrs (snd r)" using Inr a m
    by (auto simp: csv_doImport_def importAbbreviations_def importMemory_def Let_def split: option.splits list.splits sum.splits if_splits)
  then show ?thesis using Inr by (cases r) (simp add: import_in_transaction_def)
qed

end
