(* ===== verification/IntentSlice.thy ===== *)
theory IntentSlice
  imports ContextDelta "HOL-Library.Multiset" "HOL-Library.List_Lexorder" "HOL-Library.Product_Lexorder" "HOL-Library.Char_ord"
begin

text \<open>
  Slices of files by intent: \<open>core/intent_slice.hpp\<close>, the windows of lines of one file that
  \<open>icmg context --for\<close> shows, and \<open>cli/find_slices.hpp\<close>, the ranking of files of
  \<open>icmg find\<close>. Line numbers are unbounded integers counted from one, scores of files are reals.
  The lemmas show that windows are disjoint, hold only lines near a hit, and hold all of them
  when the limits allow, and which files are returned.
\<close>

section \<open>Terms of an intent\<close>

definition intent_stop :: "string list" where
  "intent_stop = [''the'', ''and'', ''or'', ''for'', ''is'', ''of'', ''to'', ''in'', ''a'', ''an'', ''with'',
     ''this'', ''that'', ''on'', ''at'', ''by'', ''it'', ''as'', ''be'']"

definition flush_term :: "string \<Rightarrow> string list" where
  "flush_term cur = (if 2 \<le> length cur \<and> cur \<notin> set intent_stop then [cur] else [])"

fun intent_words :: "string \<Rightarrow> string \<Rightarrow> string list" where
  "intent_words cur [] = flush_term cur"
| "intent_words cur (c # cs) =
     (if is_alnum c then intent_words (cur @ [to_lower c]) cs else flush_term cur @ intent_words [] cs)"

definition intentTokens :: "string \<Rightarrow> string list" where
  "intentTokens q = intent_words [] q"

section \<open>Windows of one file\<close>

record win =
  w_start :: int
  w_end :: int
  w_score :: int

definition line_score :: "string list \<Rightarrow> string \<Rightarrow> int" where
  "line_score terms l = int (length (filter (\<lambda>t. contains t (lower_str l)) terms))"

definition hit_windows :: "string list \<Rightarrow> int \<Rightarrow> string list \<Rightarrow> win list" where
  "hit_windows terms ctx ls =
     concat (map (\<lambda>(i, l). let s = line_score terms l in
       if s \<le> 0 then []
       else [\<lparr>w_start = max 1 (int i + 1 - ctx), w_end = min (int (length ls)) (int i + 1 + ctx), w_score = s\<rparr>])
       (enumerate 0 ls))"

text \<open>The windows merged so far, the last one first.\<close>

fun merge_wins :: "win list \<Rightarrow> win list \<Rightarrow> win list" where
  "merge_wins acc [] = rev acc"
| "merge_wins [] (w # ws) = merge_wins [w] ws"
| "merge_wins (m # acc) (w # ws) =
     (if w_start w \<le> w_end m + 1
      then merge_wins (m\<lparr>w_end := max (w_end m) (w_end w), w_score := w_score m + w_score w\<rparr> # acc) ws
      else merge_wins (w # m # acc) ws)"

fun keep_wins :: "int \<Rightarrow> int \<Rightarrow> win list \<Rightarrow> int \<Rightarrow> win list \<Rightarrow> win list" where
  "keep_wins maxRanges maxTotal kept used [] = kept"
| "keep_wins maxRanges maxTotal kept used (w # ws) =
     (if maxRanges \<le> int (length kept) then kept
      else (let len = w_end w - w_start w + 1 in
        if kept \<noteq> [] \<and> maxTotal < used + len then keep_wins maxRanges maxTotal kept used ws
        else keep_wins maxRanges maxTotal (kept @ [w]) (used + len) ws))"

text \<open>
  The sorts of the code are not stable; windows of equal start are merged whatever their order,
  and the merged ones have different starts, so \<open>sort_key\<close> gives the order of any sort.
\<close>

definition intentSliceRanges :: "string \<Rightarrow> string \<Rightarrow> int \<Rightarrow> int \<Rightarrow> int \<Rightarrow> (int \<times> int) list" where
  "intentSliceRanges body query ctx maxRanges maxTotal =
     (let terms = intentTokens query; ls = getlines body in
      if terms = [] \<or> ls = [] then []
      else (let wins = hit_windows terms ctx ls in
        if wins = [] then []
        else (let merged = merge_wins [] (sort_key w_start wins);
                  kept = keep_wins maxRanges maxTotal [] 0 (sort_key (\<lambda>w. (- w_score w, w_start w)) merged)
              in map (\<lambda>w. (w_start w, w_end w)) (sort_key w_start kept))))"

section \<open>Ranking of files\<close>

function countOccurrences :: "string \<Rightarrow> string \<Rightarrow> nat" where
  "countOccurrences hay needle =
     (if needle = [] then 0
      else (case find_sub needle hay of
          None \<Rightarrow> 0
        | Some p \<Rightarrow> Suc (countOccurrences (drop (p + length needle) hay) needle)))"
  by pat_completeness auto
termination
proof (relation "measure (\<lambda>(h, n). length h)")
  fix hay needle :: string and p
  assume "needle \<noteq> []" "find_sub needle hay = Some p"
  with find_sub_Some[of needle hay p] show "((drop (p + length needle) hay, needle), (hay, needle)) \<in> measure (\<lambda>(h, n). length h)"
    by (cases needle) auto
qed simp

record file_slice =
  fs_file :: string
  fs_ranges :: "(int \<times> int) list"
  fs_score :: real

definition term_weight :: "string list \<Rightarrow> string \<Rightarrow> real" where
  "term_weight lows t = ln ((real (length lows) + 1) / (real (length (filter (contains t) lows)) + 1)) + 1"

definition raw_score :: "string list \<Rightarrow> string list \<Rightarrow> string \<Rightarrow> real" where
  "raw_score lows terms low = sum_list (map (\<lambda>t. real (countOccurrences low t) * term_weight lows t) terms)"

definition recency_boost :: "(string \<rightharpoonup> real) option \<Rightarrow> real \<Rightarrow> real \<Rightarrow> string \<Rightarrow> real \<Rightarrow> real" where
  "recency_boost ageSec halflife alpha f sc =
     (case ageSec of None \<Rightarrow> sc
      | Some m \<Rightarrow> (case m f of None \<Rightarrow> sc | Some age \<Rightarrow> if 0 \<le> age then sc * (1 + alpha * exp (- age / halflife)) else sc))"

definition slice_file ::
  "string list \<Rightarrow> string list \<Rightarrow> string \<Rightarrow> int \<Rightarrow> int \<Rightarrow> (string \<rightharpoonup> real) option \<Rightarrow> real \<Rightarrow> real \<Rightarrow> string \<times> string \<Rightarrow> file_slice list" where
  "slice_file lows terms intent ctx maxWindows ageSec halflife alpha f =
     (let sc = raw_score lows terms (lower_str (snd f)) in
      if sc \<le> 0 then []
      else (let ranges = intentSliceRanges (snd f) intent ctx maxWindows 60 in
        if ranges = [] then []
        else [\<lparr>fs_file = fst f, fs_ranges = ranges, fs_score = recency_boost ageSec halflife alpha (fst f) sc\<rparr>]))"

definition rankFileSlices ::
  "(string \<times> string) list \<Rightarrow> string \<Rightarrow> int \<Rightarrow> int \<Rightarrow> int \<Rightarrow> (string \<rightharpoonup> real) option \<Rightarrow> real \<Rightarrow> real \<Rightarrow> file_slice list option" where
  "rankFileSlices files intent ctx maxFiles maxWindows ageSec halflife alpha =
     (let terms = intentTokens intent in
      if terms = [] \<or> files = [] then Some []
      else (let lows = map (\<lambda>f. lower_str (snd f)) files;
                out = sort_key (\<lambda>s. (- fs_score s, fs_file s))
                        (concat (map (slice_file lows terms intent ctx maxWindows ageSec halflife alpha) files))
            in if maxFiles < int (length out) then (if maxFiles < 0 then None else Some (take (nat maxFiles) out)) else Some out))"

section \<open>Windows near the hits\<close>

definition span :: "win \<Rightarrow> int set" where
  "span w = {w_start w..w_end w}"

definition len :: "win \<Rightarrow> int" where
  "len w = w_end w - w_start w + 1"

definition apart :: "win list \<Rightarrow> bool" where
  "apart ws \<longleftrightarrow> sorted_wrt (\<lambda>m n. w_end m + 1 < w_start n) ws"

definition proper :: "win list \<Rightarrow> bool" where
  "proper ws \<longleftrightarrow> (\<forall>w \<in> set ws. w_start w \<le> w_end w)"

text \<open>A line is near if a line with a term is at most \<open>ctx\<close> lines away.\<close>

definition hit :: "string list \<Rightarrow> string list \<Rightarrow> int \<Rightarrow> bool" where
  "hit terms ls k \<longleftrightarrow> 1 \<le> k \<and> k \<le> int (length ls) \<and> (\<exists>t \<in> set terms. contains t (lower_str (ls ! nat (k - 1))))"

definition near_lines :: "string list \<Rightarrow> int \<Rightarrow> string list \<Rightarrow> int set" where
  "near_lines terms ctx ls = {k. 1 \<le> k \<and> k \<le> int (length ls) \<and> (\<exists>h. hit terms ls h \<and> \<bar>h - k\<bar> \<le> ctx)}"

lemma line_score_pos: "0 < line_score terms l \<longleftrightarrow> (\<exists>t \<in> set terms. contains t (lower_str l))"
  by (auto simp: line_score_def filter_empty_conv)

lemma set_hit_windows:
  "set (hit_windows terms ctx ls) =
     (\<lambda>h. \<lparr>w_start = max 1 (h - ctx), w_end = min (int (length ls)) (h + ctx), w_score = line_score terms (ls ! nat (h - 1))\<rparr>) ` {h. hit terms ls h}"
    (is "_ = ?f ` _")
proof -
  have e: "set (hit_windows terms ctx ls) = (\<lambda>i. ?f (int i + 1)) ` {i. i < length ls \<and> 0 < line_score terms (ls ! i)}"
    by (force simp: hit_windows_def Let_def in_set_enumerate_eq image_iff split: if_splits)
  have "{h. hit terms ls h} = (\<lambda>i. int i + 1) ` {i. i < length ls \<and> 0 < line_score terms (ls ! i)}" (is "?L = ?R")
  proof
    show "?L \<subseteq> ?R"
    proof
      fix h assume "h \<in> ?L"
      then have "h = int (nat (h - 1)) + 1" "nat (h - 1) < length ls" "0 < line_score terms (ls ! nat (h - 1))"
        by (auto simp: hit_def line_score_pos)
      then show "h \<in> ?R" by blast
    qed
  qed (auto simp: hit_def line_score_pos)
  then show ?thesis unfolding e by (simp add: image_image)
qed

lemma hit_windows_proper: "0 \<le> ctx \<Longrightarrow> proper (hit_windows terms ctx ls)"
  by (auto simp: proper_def set_hit_windows hit_def)

lemma hit_windows_cover: "0 \<le> ctx \<Longrightarrow> \<Union> (span ` set (hit_windows terms ctx ls)) = near_lines terms ctx ls"
  by (force simp: set_hit_windows span_def near_lines_def abs_le_iff)

lemma merge_wins_spec:
  assumes "sorted (map w_start ws)" "proper ws" "proper acc" "apart (rev acc)"
    "acc \<noteq> [] \<Longrightarrow> \<forall>w \<in> set ws. w_start (hd acc) \<le> w_start w"
  shows "apart (merge_wins acc ws) \<and> proper (merge_wins acc ws) \<and>
    \<Union> (span ` set (merge_wins acc ws)) = \<Union> (span ` set acc) \<union> \<Union> (span ` set ws) \<and>
    (\<forall>m \<in> set (merge_wins acc ws). \<exists>w \<in> set acc \<union> set ws. span w \<subseteq> span m)"
  using assms
proof (induction acc ws rule: merge_wins.induct)
  case (1 acc)
  then show ?case by (auto simp: proper_def)
next
  case (2 w ws)
  then show ?case by (auto simp: proper_def apart_def)
next
  case (3 m acc w ws)
  let ?m = "m\<lparr>w_end := max (w_end m) (w_end w), w_score := w_score m + w_score w\<rparr>"
  have le: "w_start m \<le> w_start w" "w_start w \<le> w_end w" "w_start m \<le> w_end m"
    using "3.prems" by (auto simp: proper_def)
  show ?case
  proof (cases "w_start w \<le> w_end m + 1")
    case True
    have spans: "span ?m = span m \<union> span w" using le True by (auto simp: span_def)
    have ap: "apart (rev (?m # acc))" using "3.prems"(4) by (simp add: apart_def sorted_wrt_append)
    have "apart (merge_wins (?m # acc) ws) \<and> proper (merge_wins (?m # acc) ws) \<and>
      \<Union> (span ` set (merge_wins (?m # acc) ws)) = \<Union> (span ` set (?m # acc)) \<union> \<Union> (span ` set ws) \<and>
      (\<forall>n \<in> set (merge_wins (?m # acc) ws). \<exists>w \<in> set (?m # acc) \<union> set ws. span w \<subseteq> span n)"
      by (rule "3.IH"(1)[OF True]) (use "3.prems" le ap in \<open>auto simp: proper_def\<close>)
    then show ?thesis using True spans by (auto 0 4)
  next
    case False
    have ap: "apart (rev (w # m # acc))"
      using "3.prems"(4) False by (auto simp: apart_def sorted_wrt_append) (smt (verit) "3.prems"(3) le(3) list.set_intros proper_def set_ConsD)
    have "apart (merge_wins (w # m # acc) ws) \<and> proper (merge_wins (w # m # acc) ws) \<and>
      \<Union> (span ` set (merge_wins (w # m # acc) ws)) = \<Union> (span ` set (w # m # acc)) \<union> \<Union> (span ` set ws) \<and>
      (\<forall>n \<in> set (merge_wins (w # m # acc) ws). \<exists>v \<in> set (w # m # acc) \<union> set ws. span v \<subseteq> span n)"
      by (rule "3.IH"(2)[OF False]) (use "3.prems" ap in \<open>auto simp: proper_def\<close>)
    then show ?thesis using False by auto
  qed
qed


lemma keep_wins_set: "set (keep_wins r t kept used ws) \<subseteq> set kept \<union> set ws"
  by (induction r t kept used ws rule: keep_wins.induct) (auto simp: Let_def)

lemma keep_wins_distinct: "distinct (kept @ ws) \<Longrightarrow> distinct (keep_wins r t kept used ws)"
  by (induction r t kept used ws rule: keep_wins.induct) (auto simp: Let_def)

lemma keep_wins_length: "int (length kept) \<le> max 0 r \<Longrightarrow> int (length (keep_wins r t kept used ws)) \<le> max 0 r"
  by (induction r t kept used ws rule: keep_wins.induct) (auto simp: Let_def)

lemma keep_wins_total:
  "used = sum_list (map len kept) \<Longrightarrow> used \<le> t \<or> length kept \<le> 1 \<Longrightarrow>
   sum_list (map len (keep_wins r t kept used ws)) \<le> t \<or> length (keep_wins r t kept used ws) \<le> 1"
proof (induction r t kept used ws rule: keep_wins.induct)
  case (2 r t kept used w ws)
  show ?case
  proof (cases "r \<le> int (length kept)")
    case False
    show ?thesis
    proof (cases "kept \<noteq> [] \<and> t < used + (w_end w - w_start w + 1)")
      case True
      then show ?thesis using False "2.IH"(1)[OF False refl True] "2.prems" by simp
    next
      case skip: False
      have "sum_list (map len (keep_wins r t (kept @ [w]) (used + (w_end w - w_start w + 1)) ws)) \<le> t
        \<or> length (keep_wins r t (kept @ [w]) (used + (w_end w - w_start w + 1)) ws) \<le> 1"
        by (rule "2.IH"(2)[OF False refl skip]) (use skip "2.prems" in \<open>auto simp: len_def\<close>)
      then show ?thesis using False skip by (auto simp: Let_def)
    qed
  qed (use 2 in simp)
qed simp

lemma keep_wins_all:
  "int (length kept + length ws) \<le> r \<Longrightarrow> used + sum_list (map len ws) \<le> t \<Longrightarrow> \<forall>w \<in> set ws. 0 \<le> len w \<Longrightarrow>
   keep_wins r t kept used ws = kept @ ws"
proof (induction r t kept used ws rule: keep_wins.induct)
  case (2 r t kept used w ws)
  have "0 \<le> sum_list (map len ws)" using "2.prems"(3) by (intro sum_list_nonneg) auto
  moreover have "used + (len w + sum_list (map len ws)) \<le> t" using "2.prems"(2) by simp
  moreover have "len w = w_end w - w_start w + 1" by (simp add: len_def)
  ultimately have "\<not> t < used + (w_end w - w_start w + 1)" by linarith
  then have fits: "\<not> r \<le> int (length kept)" "\<not> (kept \<noteq> [] \<and> t < used + (w_end w - w_start w + 1))"
    using "2.prems"(1) by simp_all
  show ?case using "2.IH"(2)[OF fits(1) refl fits(2)] "2.prems" fits by (auto simp: len_def Let_def)
qed simp

lemma apart_pair:
  assumes "apart ws" "m \<in> set ws" "n \<in> set ws" "m \<noteq> n"
  shows "w_end m + 1 < w_start n \<or> w_end n + 1 < w_start m"
  using assms unfolding apart_def by (metis in_set_conv_nth linorder_neqE_nat sorted_wrt_iff_nth_less)

lemma apart_distinct: "apart ws \<Longrightarrow> proper ws \<Longrightarrow> distinct ws"
  unfolding apart_def proper_def by (induction ws) force+

lemma apart_resort:
  assumes "apart ws" "proper ws" "set ks \<subseteq> set ws" "distinct ks"
  shows "apart (sort_key w_start ks)"
proof -
  have "w_end (sort_key w_start ks ! i) + 1 < w_start (sort_key w_start ks ! j)" if "i < j" "j < length ks" for i j
  proof -
    let ?s = "sort_key w_start ks"
    have mem: "?s ! i \<in> set ws" "?s ! j \<in> set ws" using that assms(3) nth_mem[of i ?s] nth_mem[of j ?s] by auto
    have "?s ! i \<noteq> ?s ! j" using that assms(4) nth_eq_iff_index_eq[of ?s i j] by simp
    from apart_pair[OF assms(1) mem this] show ?thesis
    proof
      assume "w_end (?s ! j) + 1 < w_start (?s ! i)"
      moreover have "w_start (?s ! i) \<le> w_start (?s ! j)"
        using that sorted_nth_mono[of "map w_start ?s" i j] by simp
      moreover have "w_start (?s ! j) \<le> w_end (?s ! j)" using mem(2) assms(2) by (simp add: proper_def)
      ultimately show ?thesis by simp
    qed
  qed
  then show ?thesis by (simp add: apart_def sorted_wrt_iff_nth_less)
qed

lemma apart_sum: "apart ws \<Longrightarrow> proper ws \<Longrightarrow> sum_list (map len ws) = int (card (\<Union> (span ` set ws)))"
proof (induction ws)
  case (Cons w ws)
  have disj: "span w \<inter> \<Union> (span ` set ws) = {}" using Cons.prems(1) by (force simp: apart_def span_def)
  have "int (card (span w)) = len w" using Cons.prems(2) by (simp add: span_def len_def proper_def)
  moreover have "card (\<Union> (span ` set (w # ws))) = card (span w) + card (\<Union> (span ` set ws))"
    using card_Un_disjoint[OF _ _ disj] by (simp add: span_def)
  ultimately show ?case using Cons by (simp add: apart_def proper_def)
qed simp

lemma near_card: "card (near_lines terms ctx ls) \<le> length ls"
proof -
  have "near_lines terms ctx ls \<subseteq> {1..int (length ls)}" by (auto simp: near_lines_def)
  from card_mono[OF _ this] show ?thesis by simp
qed


lemma sum_sort_key: "sum_list (map f (sort_key k xs)) = sum_list (map f xs)" for f :: "'a \<Rightarrow> int"
  by (simp flip: sum_mset_sum_list)

lemma slice_form:
  assumes "0 \<le> ctx"
  obtains merged where "apart merged" "proper merged" "\<Union> (span ` set merged) = near_lines (intentTokens query) ctx (getlines body)"
    "\<forall>m \<in> set merged. \<exists>h. hit (intentTokens query) (getlines body) h \<and> h \<in> span m"
    "intentSliceRanges body query ctx r t
      = map (\<lambda>w. (w_start w, w_end w)) (sort_key w_start (keep_wins r t [] 0 (sort_key (\<lambda>w. (- w_score w, w_start w)) merged)))"
proof -
  let ?terms = "intentTokens query" and ?ls = "getlines body"
  let ?wins = "hit_windows ?terms ctx ?ls"
  let ?merged = "merge_wins [] (sort_key w_start ?wins)"
  have spec: "apart ?merged \<and> proper ?merged \<and> \<Union> (span ` set ?merged) = \<Union> (span ` set []) \<union> \<Union> (span ` set (sort_key w_start ?wins)) \<and>
    (\<forall>m \<in> set ?merged. \<exists>w \<in> set [] \<union> set (sort_key w_start ?wins). span w \<subseteq> span m)"
    using hit_windows_proper[OF assms, of ?terms ?ls] by (intro merge_wins_spec) (simp_all add: proper_def apart_def)
  have hits: "\<exists>h. hit ?terms ?ls h \<and> h \<in> span w" if "w \<in> set ?wins" for w
    using that assms by (auto simp: set_hit_windows span_def hit_def)
  have none: "?wins = []" if "?terms = [] \<or> ?ls = []"
    using that by (auto simp: hit_windows_def line_score_def)
  show ?thesis
  proof (rule that[of ?merged])
    show "\<forall>m \<in> set ?merged. \<exists>h. hit ?terms ?ls h \<and> h \<in> span m" using spec hits by fastforce
    show "intentSliceRanges body query ctx r t
      = map (\<lambda>w. (w_start w, w_end w)) (sort_key w_start (keep_wins r t [] 0 (sort_key (\<lambda>w. (- w_score w, w_start w)) ?merged)))"
      using none by (simp add: intentSliceRanges_def Let_def)
  qed (use spec hit_windows_cover[OF assms, of ?terms ?ls] in simp_all)
qed

definition lines_of :: "(int \<times> int) list \<Rightarrow> int set" where
  "lines_of rs = (\<Union>r \<in> set rs. {fst r..snd r})"

definition lines_count :: "(int \<times> int) list \<Rightarrow> int" where
  "lines_count rs = sum_list (map (\<lambda>r. snd r - fst r + 1) rs)"

lemma slice_window_facts:
  assumes "0 \<le> ctx"
  shows "sorted_wrt (\<lambda>x y. snd x + 1 < fst y) (intentSliceRanges body query ctx r t)"
    and "lines_of (intentSliceRanges body query ctx r t) \<subseteq> near_lines (intentTokens query) ctx (getlines body)"
    and "\<forall>w \<in> set (intentSliceRanges body query ctx r t). \<exists>h. hit (intentTokens query) (getlines body) h \<and> fst w \<le> h \<and> h \<le> snd w"
    and "int (length (intentSliceRanges body query ctx r t)) \<le> max 0 r"
    and "lines_count (intentSliceRanges body query ctx r t) \<le> t \<or> length (intentSliceRanges body query ctx r t) \<le> 1"
proof -
  let ?near = "near_lines (intentTokens query) ctx (getlines body)" and ?hit = "hit (intentTokens query) (getlines body)"
  obtain merged where m: "apart merged" "proper merged" "\<Union> (span ` set merged) = ?near"
    "\<forall>m \<in> set merged. \<exists>h. ?hit h \<and> h \<in> span m"
    "intentSliceRanges body query ctx r t
      = map (\<lambda>w. (w_start w, w_end w)) (sort_key w_start (keep_wins r t [] 0 (sort_key (\<lambda>w. (- w_score w, w_start w)) merged)))"
    using slice_form[OF assms] by blast
  define ks where "ks = keep_wins r t [] 0 (sort_key (\<lambda>w. (- w_score w, w_start w)) merged)"
  have R: "intentSliceRanges body query ctx r t = map (\<lambda>w. (w_start w, w_end w)) (sort_key w_start ks)" using m(5) by (simp add: ks_def)
  have ks: "set ks \<subseteq> set merged" "distinct ks" using keep_wins_set[of r t "[]" 0 "sort_key (\<lambda>w. (- w_score w, w_start w)) merged"]
      keep_wins_distinct[of "[]" "sort_key (\<lambda>w. (- w_score w, w_start w)) merged" r t 0] apart_distinct[OF m(1,2)]
    by (simp_all add: ks_def)
  show "sorted_wrt (\<lambda>x y. snd x + 1 < fst y) (intentSliceRanges body query ctx r t)"
    using apart_resort[OF m(1,2) ks] by (simp add: R sorted_wrt_map apart_def)
  show "lines_of (intentSliceRanges body query ctx r t) \<subseteq> ?near"
    using ks(1) m(3) by (auto simp: R lines_of_def span_def)
  show "\<forall>w \<in> set (intentSliceRanges body query ctx r t). \<exists>h. ?hit h \<and> fst w \<le> h \<and> h \<le> snd w"
    using ks(1) m(4) by (fastforce simp: R span_def)
  show "int (length (intentSliceRanges body query ctx r t)) \<le> max 0 r"
    using keep_wins_length[of "[]" r t 0] by (simp add: R ks_def)
  have "lines_count (intentSliceRanges body query ctx r t) = sum_list (map len (sort_key w_start ks))"
    by (simp add: R lines_count_def len_def[abs_def] comp_def)
  also have "\<dots> = sum_list (map len ks)" by (rule sum_sort_key)
  finally show "lines_count (intentSliceRanges body query ctx r t) \<le> t \<or> length (intentSliceRanges body query ctx r t) \<le> 1"
    using keep_wins_total[of 0 "[]" t r] by (simp add: R ks_def)
qed

text \<open>
  The windows of an intent come in reading order with at least one line between them,
  hold only lines near a line with a term, each at least one such line; there are no more of
  them than asked for, and a single window or no more lines than asked for.
\<close>

theorem slice_windows_near:
  assumes "0 \<le> ctx"
  shows "sorted_wrt (\<lambda>x y. snd x + 1 < fst y) (intentSliceRanges body query ctx r t) \<and>
    lines_of (intentSliceRanges body query ctx r t) \<subseteq> near_lines (intentTokens query) ctx (getlines body) \<and>
    (\<forall>w \<in> set (intentSliceRanges body query ctx r t). \<exists>h. hit (intentTokens query) (getlines body) h \<and> fst w \<le> h \<and> h \<le> snd w) \<and>
    int (length (intentSliceRanges body query ctx r t)) \<le> max 0 r \<and>
    (lines_count (intentSliceRanges body query ctx r t) \<le> t \<or> length (intentSliceRanges body query ctx r t) \<le> 1)"
  using slice_window_facts[OF assms, of body query r t] by blast

text \<open>
  With limits as large as the file, the windows hold exactly the lines that are at most
  \<open>ctx\<close> lines away from a line with a term of the intent.
\<close>

theorem slice_windows_complete:
  assumes "0 \<le> ctx" "int (length (getlines body)) \<le> r" "int (length (getlines body)) \<le> t"
  shows "lines_of (intentSliceRanges body query ctx r t) = near_lines (intentTokens query) ctx (getlines body)"
proof -
  let ?near = "near_lines (intentTokens query) ctx (getlines body)"
  obtain merged where m: "apart merged" "proper merged" "\<Union> (span ` set merged) = ?near"
    "\<forall>m \<in> set merged. \<exists>h. hit (intentTokens query) (getlines body) h \<and> h \<in> span m"
    "intentSliceRanges body query ctx r t
      = map (\<lambda>w. (w_start w, w_end w)) (sort_key w_start (keep_wins r t [] 0 (sort_key (\<lambda>w. (- w_score w, w_start w)) merged)))"
    using slice_form[OF assms(1)] by blast
  define ws where "ws = sort_key (\<lambda>w. (- w_score w, w_start w)) merged"
  have perm: "sum_list (map len ws) = sum_list (map len merged)" unfolding ws_def by (rule sum_sort_key)
  have pos: "1 \<le> len w" if "w \<in> set merged" for w using that m(2) by (simp add: len_def proper_def)
  have "sum_list (map len merged) \<le> int (length (getlines body))" using apart_sum[OF m(1,2)] near_card[of "intentTokens query" ctx "getlines body"] m(3) by simp
  moreover have "int (length merged) \<le> sum_list (map len merged)" using sum_list_mono[of merged "\<lambda>_. 1" len] pos by (simp add: sum_list_triv)
  moreover have "\<forall>w \<in> set ws. 0 \<le> len w" using pos by (force simp: ws_def)
  moreover have "length ws = length merged" by (simp add: ws_def)
  ultimately have "keep_wins r t [] 0 ws = [] @ ws" using assms(2,3) perm by (intro keep_wins_all) simp_all
  then have keep: "keep_wins r t [] 0 ws = ws" by simp
  have R: "intentSliceRanges body query ctx r t = map (\<lambda>w. (w_start w, w_end w)) (sort_key w_start (keep_wins r t [] 0 ws))"
    unfolding ws_def by (rule m(5))
  have "lines_of (intentSliceRanges body query ctx r t) = \<Union> (span ` set ws)" unfolding R keep lines_of_def span_def by simp
  then show ?thesis unfolding m(3)[symmetric] ws_def by simp
qed


section \<open>Which files are returned\<close>

lemma weight_pos: "0 < term_weight lows t"
proof -
  have "length (filter (contains t) lows) \<le> length lows" by (rule length_filter_le)
  then have "1 \<le> (real (length lows) + 1) / (real (length (filter (contains t) lows)) + 1)" by (simp add: field_simps)
  then have "0 \<le> ln ((real (length lows) + 1) / (real (length (filter (contains t) lows)) + 1))" by (rule ln_ge_zero)
  then show ?thesis unfolding term_weight_def by linarith
qed

lemma count_pos: "t \<noteq> [] \<Longrightarrow> 0 < countOccurrences s t \<longleftrightarrow> contains t s"
  by (subst countOccurrences.simps) (simp add: contains_def split: option.split)

lemma lower_nl: "to_lower c = nl \<longleftrightarrow> c = nl"
proof -
  have n: "ccode nl = 10" by (simp add: ccode_def)
  have "ccode (to_lower c) = 10 \<longleftrightarrow> ccode c = 10" by (auto simp: to_lower_def is_upper_def ccode_char_of)
  then show ?thesis by (metis ccode_inject n)
qed

lemma lower_not_nl: "is_alnum c \<Longrightarrow> to_lower c \<noteq> nl"
  by (auto simp: lower_nl char_class_defs ccode_def)

lemma intent_words_good: "\<forall>t \<in> set (intent_words cur cs). t \<noteq> [] \<and> (nl \<notin> set cur \<longrightarrow> nl \<notin> set t)"
proof (induction cur cs rule: intent_words.induct)
  case (2 cur c cs)
  show ?case
  proof (cases "is_alnum c")
    case True
    then have "to_lower c \<noteq> nl" by (rule lower_not_nl)
    then show ?thesis using 2 True by auto
  qed (use 2 in \<open>auto simp: flush_term_def\<close>)
qed (auto simp: flush_term_def)

lemma intentTokens_good: "t \<in> set (intentTokens q) \<Longrightarrow> t \<noteq> [] \<and> nl \<notin> set t"
  using intent_words_good[of "[]" q] by (simp add: intentTokens_def)

lemma raw_score_pos:
  assumes "\<forall>t \<in> set terms. t \<noteq> []"
  shows "0 < raw_score lows terms s \<longleftrightarrow> (\<exists>t \<in> set terms. contains t s)"
  using assms
proof (induction terms)
  case (Cons t ts)
  have nonneg: "0 \<le> raw_score lows ts s" unfolding raw_score_def
    by (rule sum_list_nonneg) (auto intro!: mult_nonneg_nonneg less_imp_le[OF weight_pos])
  have "0 < real (countOccurrences s t) * term_weight lows t \<longleftrightarrow> contains t s"
    using Cons.prems weight_pos[of lows t] count_pos[of t s] by (simp add: zero_less_mult_iff)
  moreover have "0 \<le> real (countOccurrences s t) * term_weight lows t" using weight_pos[of lows t] by simp
  ultimately show ?case using Cons nonneg unfolding raw_score_def by (auto simp: add_pos_nonneg add_nonneg_pos)
qed (simp add: raw_score_def)

lemma text_induct [case_names empty last line]:
  assumes "P []" "\<And>l. l \<noteq> [] \<Longrightarrow> nl \<notin> set l \<Longrightarrow> P l" "\<And>l s. nl \<notin> set l \<Longrightarrow> P s \<Longrightarrow> P (l @ nl # s)"
  shows "P s"
proof (induction "length s" arbitrary: s rule: less_induct)
  case less
  show ?case
  proof (cases "nl \<in> set s")
    case True
    then obtain l r where "s = l @ nl # r" "nl \<notin> set l" by (meson split_list_first)
    then show ?thesis using less assms(3) by simp
  qed (use assms(1,2) in \<open>cases "s = []"; simp\<close>)
qed

lemma term_in_line: "t \<noteq> [] \<Longrightarrow> nl \<notin> set t \<Longrightarrow> contains t s \<Longrightarrow> \<exists>l \<in> set (getlines s). contains t l"
proof (induction s rule: text_induct)
  case (line l s)
  then show ?case by (auto simp: getlines_on_Cons contains_sep)
qed (auto simp: getlines_on_last contains_sublist)

lemma nl_lower_str [simp]: "nl \<in> set (lower_str l) \<longleftrightarrow> nl \<in> set l"
  by (induction l) (auto simp: lower_str_def lower_nl eq_commute[of nl])

lemma line_sublist: "l \<in> set (getlines s) \<Longrightarrow> sublist l s"
proof (induction s rule: text_induct)
  case (line l' s)
  then show ?case using contains_append[of l s "l' @ [nl]" "[]"] by (auto simp: getlines_on_Cons contains_sublist)
qed (auto simp: getlines_on_last)

lemma getlines_lower: "getlines (lower_str s) = map lower_str (getlines s)"
proof (induction s rule: text_induct)
  case (last l)
  then show ?case by (simp add: getlines_on_last)
next
  case (line l s)
  have "lower_str (l @ nl # s) = lower_str l @ nl # lower_str s" by (simp add: lower_str_def lower_nl)
  then show ?case using line by (simp add: getlines_on_Cons)
qed (simp add: lower_str_def)

lemma sublist_lower: "sublist l s \<Longrightarrow> sublist (lower_str l) (lower_str s)"
  unfolding sublist_def lower_str_def by (metis map_append)

lemma keep_wins_keeps: "set kept \<subseteq> set (keep_wins r t kept used ws)"
  by (induction r t kept used ws rule: keep_wins.induct) (auto simp: Let_def)

definition has_term :: "string \<Rightarrow> string \<Rightarrow> bool" where
  "has_term intent body \<longleftrightarrow> (\<exists>t \<in> set (intentTokens intent). contains t (lower_str body))"

lemma has_term_hit: "has_term intent body \<longleftrightarrow> (\<exists>h. hit (intentTokens intent) (getlines body) h)"
proof
  assume "has_term intent body"
  then obtain t where t: "t \<in> set (intentTokens intent)" "contains t (lower_str body)" by (auto simp: has_term_def)
  then obtain l where "l \<in> set (getlines body)" "contains t (lower_str l)"
    using term_in_line[of t "lower_str body"] intentTokens_good[of t intent] by (auto simp: getlines_lower)
  then obtain i where "i < length (getlines body)" "contains t (lower_str (getlines body ! i))" by (metis in_set_conv_nth)
  then have "hit (intentTokens intent) (getlines body) (int i + 1)" using t(1) by (auto simp: hit_def)
  then show "\<exists>h. hit (intentTokens intent) (getlines body) h" by blast
next
  assume "\<exists>h. hit (intentTokens intent) (getlines body) h"
  then obtain h t where ht: "1 \<le> h" "h \<le> int (length (getlines body))" "t \<in> set (intentTokens intent)"
    "contains t (lower_str (getlines body ! nat (h - 1)))" by (auto simp: hit_def)
  have "getlines body ! nat (h - 1) \<in> set (getlines body)" using ht(1,2) by simp
  then have "sublist (getlines body ! nat (h - 1)) body" by (rule line_sublist)
  then have "sublist (lower_str (getlines body ! nat (h - 1))) (lower_str body)" by (rule sublist_lower)
  then have "contains t (lower_str body)" using ht(4) by (auto simp: contains_sublist)
  then show "has_term intent body" using ht(3) by (auto simp: has_term_def)
qed

lemma sort_key_Nil: "sort_key k xs = [] \<longleftrightarrow> xs = []"
  by (metis length_0_conv length_sort)

lemma slice_nonempty:
  assumes "0 \<le> ctx" "1 \<le> r"
  shows "intentSliceRanges body intent ctx r t \<noteq> [] \<longleftrightarrow> has_term intent body"
proof -
  obtain merged where m: "apart merged" "proper merged" "\<Union> (span ` set merged) = near_lines (intentTokens intent) ctx (getlines body)"
    "\<forall>m \<in> set merged. \<exists>h. hit (intentTokens intent) (getlines body) h \<and> h \<in> span m"
    "intentSliceRanges body intent ctx r t
      = map (\<lambda>w. (w_start w, w_end w)) (sort_key w_start (keep_wins r t [] 0 (sort_key (\<lambda>w. (- w_score w, w_start w)) merged)))"
    by (rule slice_form[OF assms(1), where query = intent and body = body and r = r and t = t])
  have some: "keep_wins r t [] 0 ws \<noteq> [] \<longleftrightarrow> ws \<noteq> []" for ws
    using assms(2) keep_wins_keeps[of "[hd ws]" r t "len (hd ws)" "tl ws"] by (cases ws) (auto simp: len_def)
  have "merged \<noteq> [] \<longleftrightarrow> (\<exists>h. hit (intentTokens intent) (getlines body) h)"
  proof
    assume "\<exists>h. hit (intentTokens intent) (getlines body) h"
    then obtain h where "hit (intentTokens intent) (getlines body) h" ..
    then have "h \<in> near_lines (intentTokens intent) ctx (getlines body)" using assms(1) by (auto simp: near_lines_def hit_def intro!: exI[of _ h])
    then show "merged \<noteq> []" using m(3) by auto
  qed (use m(4) in \<open>cases merged; auto\<close>)
  then show ?thesis unfolding m(5) has_term_hit by (simp add: sort_key_Nil some)
qed

text \<open>
  The ranking of files is the first part, as long as asked for, of a list of exactly the files
  with a term of the intent, in falling order of score.
\<close>

theorem rankFileSlices_matches:
  assumes "0 \<le> ctx" "1 \<le> maxWindows" "0 \<le> maxFiles"
  shows "\<exists>all. rankFileSlices files intent ctx maxFiles maxWindows ages halflife alpha = Some (take (nat maxFiles) all) \<and>
    mset (map fs_file all) = mset (map fst (filter (\<lambda>f. has_term intent (snd f)) files)) \<and>
    sorted_wrt (\<lambda>a b. fs_score b \<le> fs_score a) all"
proof -
  let ?terms = "intentTokens intent" and ?lows = "map (\<lambda>f. lower_str (snd f)) files"
  define all where "all = sort_key (\<lambda>s. (- fs_score s, fs_file s)) (concat (map (slice_file ?lows ?terms intent ctx maxWindows ages halflife alpha) files))"
  have one: "map fs_file (slice_file ?lows ?terms intent ctx maxWindows ages halflife alpha f) = (if has_term intent (snd f) then [fst f] else [])" for f
  proof -
    have pos: "0 < raw_score ?lows ?terms (lower_str (snd f)) \<longleftrightarrow> has_term intent (snd f)"
      unfolding has_term_def by (rule raw_score_pos) (use intentTokens_good in blast)
    show ?thesis
    proof (cases "has_term intent (snd f)")
      case True
      then have "intentSliceRanges (snd f) intent ctx maxWindows 60 \<noteq> []" using slice_nonempty[OF assms(1,2)] by blast
      then show ?thesis using True pos by (auto simp: slice_file_def Let_def)
    next
      case False
      then show ?thesis using pos by (simp add: slice_file_def Let_def not_less)
    qed
  qed
  have "map fs_file (concat (map (slice_file ?lows ?terms intent ctx maxWindows ages halflife alpha) fs))
    = map fst (filter (\<lambda>f. has_term intent (snd f)) fs)" for fs by (induction fs) (simp_all add: one)
  note names = this[of files]
  have files: "mset (map fs_file all) = mset (map fst (filter (\<lambda>f. has_term intent (snd f)) files))"
    unfolding names[symmetric] unfolding mset_map all_def mset_sort by (rule refl)
  have "sorted (map (\<lambda>s. (- fs_score s, fs_file s)) all)" by (simp add: all_def)
  then have sorted: "sorted_wrt (\<lambda>a b. fs_score b \<le> fs_score a) all"
    unfolding sorted_wrt_map by (rule sorted_wrt_mono_rel[rotated]) (auto simp: less_eq_prod_def)
  have "rankFileSlices files intent ctx maxFiles maxWindows ages halflife alpha = Some (take (nat maxFiles) all)"
  proof (cases "?terms = [] \<or> files = []")
    case True
    then have "filter (\<lambda>f. has_term intent (snd f)) files = []" by (auto simp: has_term_def)
    then have "all = []" using files by simp
    then show ?thesis using True by (simp add: rankFileSlices_def)
  qed (use assms(3) in \<open>simp add: rankFileSlices_def all_def Let_def\<close>)
  then show ?thesis using files sorted by blast
qed

lemma recency_boost_bounded:
  assumes "0 < sc" "0 \<le> alpha" "0 < halflife"
  shows "sc \<le> recency_boost ages halflife alpha f sc \<and> recency_boost ages halflife alpha f sc \<le> sc * (1 + alpha)"
  using assms by (auto simp: recency_boost_def mult_le_cancel_left1 mult_left_le split: option.split)

section \<open>On concrete texts\<close>

definition fable :: string where
  "fable = unlines [''a dog'', ''one Fox'', ''two'', ''three'']"

lemma fable_lines: "getlines fable = [''a dog'', ''one Fox'', ''two'', ''three'']"
  unfolding fable_def by (rule getlines_unlines) simp

lemma fable_terms: "intentTokens ''The fox?'' = [''fox'']"
  by code_simp

lemma fable_hit: "hit [''fox''] [''a dog'', ''one Fox'', ''two'', ''three''] h \<longleftrightarrow> h = 2"
proof -
  have "contains ''fox'' (lower_str ''one Fox'')" "\<not> contains ''fox'' (lower_str ''a dog'')"
    "\<not> contains ''fox'' (lower_str ''two'')" "\<not> contains ''fox'' (lower_str ''three'')" by code_simp+
  moreover have "h = 1 \<or> h = 2 \<or> h = 3 \<or> h = 4" if "1 \<le> h" "h \<le> 4" using that by linarith
  ultimately show ?thesis by (auto simp: hit_def)
qed

theorem slice_windows_near_witness:
  "\<forall>w \<in> set (intentSliceRanges fable ''The fox?'' 1 4 80). fst w \<le> 2 \<and> 2 \<le> snd w"
  using slice_windows_near[of 1 fable "''The fox?''" 4 80] by (simp add: fable_lines fable_terms fable_hit)

theorem slice_windows_complete_witness: "lines_of (intentSliceRanges fable ''The fox?'' 1 4 80) = {1, 2, 3}"
proof -
  have "near_lines [''fox''] 1 [''a dog'', ''one Fox'', ''two'', ''three''] = {1, 2, 3}"
    by (auto simp: near_lines_def fable_hit)
  then show ?thesis using slice_windows_complete[of 1 fable 4 80 "''The fox?''"] by (simp add: fable_lines fable_terms)
qed

theorem rankFileSlices_matches_witness:
  "\<exists>all. rankFileSlices [(''a.txt'', ''none''), (''b.txt'', fable)] ''The fox?'' 4 5 3 None 86400 (1/4) = Some (take 5 all) \<and>
    mset (map fs_file all) = {#''b.txt''#}"
proof -
  have "\<not> has_term ''The fox?'' ''none''" "has_term ''The fox?'' fable" unfolding has_term_def fable_def by code_simp+
  then show ?thesis
    using rankFileSlices_matches[of 4 3 5 "[(''a.txt'', ''none''), (''b.txt'', fable)]" "''The fox?''" None 86400 "1/4"] by auto
qed

text \<open>A term said twice counts twice.\<close>

lemma repeated_term_counts: "line_score (intentTokens ''cache cache eviction'') ''the cache'' = 2 \<and> line_score (intentTokens ''cache eviction cachet'') ''eviction cache'' = 2"
  by code_simp

end
