(* ===== verification/BashHook.thy ===== *)
theory BashHook
  imports Recall
begin

text \<open>
  What the hooks do with a noisy command: the advice of \<open>cli/bash_redirect.hpp\<close> with the
  \<open>bash-advice\<close> event of \<open>cli/commands/hook_cmd.cpp\<close>, and the rewriting of commands in
  \<open>core/cmd_densify.hpp\<close>. The lemmas show that a shell reads the advised command back as one
  word, and that rewriting is idempotent and keeps the words of the command.
\<close>

section \<open>Advice\<close>

datatype redirect_kind = Exempt | RedirectPlain | RedirectQuoted

record redirect_decision =
  rd_kind :: redirect_kind
  rd_message :: string

definition trim_spaces :: "string \<Rightarrow> string" where
  "trim_spaces s = rev (dropWhile is_space (rev (dropWhile is_space s)))"

definition firstToken :: "string \<Rightarrow> string" where
  "firstToken s = takeWhile (\<lambda>c. \<not> is_space c) (trim_spaces s)"

definition isSelfFilter :: "string \<Rightarrow> bool" where
  "isSelfFilter t \<longleftrightarrow> t \<in> {''grep'', ''egrep'', ''fgrep'', ''rg'', ''ag'',
     ''head'', ''tail'', ''wc'', ''sort'', ''uniq'', ''cut'', ''Select-String'', ''findstr'',
     ''Measure-Object'', ''Sort-Object'', ''Where-Object'', ''Select-Object''}"

text \<open>
  The position of the last single bar: \<open>i\<close> is the position of the text, \<open>bar\<close> whether a bar
  stands before it, and the second of two bars is skipped.
\<close>

fun pipe_scan :: "nat \<Rightarrow> bool \<Rightarrow> nat option \<Rightarrow> string \<Rightarrow> nat option" where
  "pipe_scan i bar found [] = found"
| "pipe_scan i bar found [c] = (if c = CHR ''|'' \<and> \<not> bar then Some i else found)"
| "pipe_scan i bar found (c # d # cs) =
     (if c = CHR ''|''
      then (if d = CHR ''|'' then pipe_scan (i + 2) True found cs
            else pipe_scan (i + 1) True (if bar then found else Some i) (d # cs))
      else pipe_scan (i + 1) False found (d # cs))"

definition lastPipeStage :: "string \<Rightarrow> string" where
  "lastPipeStage cmd = (case pipe_scan 0 False None cmd of None \<Rightarrow> [] | Some k \<Rightarrow> drop (k + 1) cmd)"

definition hasRealPipe :: "string \<Rightarrow> bool" where
  "hasRealPipe cmd \<longleftrightarrow> lastPipeStage cmd \<noteq> [] \<or> CHR ''|'' \<in> set cmd \<and> \<not> contains ''||'' cmd"

definition quote_special :: "char \<Rightarrow> bool" where
  "quote_special c \<longleftrightarrow> c = dq \<or> c = CHR ''$'' \<or> c = CHR 0x60 \<or> c = bs"

definition sq_char :: "char \<Rightarrow> string" where
  "sq_char c = (if c = sq then [sq, bs, sq, sq] else [c])"

definition shellQuote :: "string \<Rightarrow> string" where
  "shellQuote cmd =
     (if list_ex quote_special cmd then sq # concat (map sq_char cmd) @ [sq] else dq # cmd @ [dq])"

definition bq :: string where
  "bq = [CHR 0x60]"

definition plain_advice :: "string \<Rightarrow> string \<Rightarrow> string" where
  "plain_advice tok cmd =
     (if tok = ''sed''
      then ''For in-place edits use '' @ bq @ ''icmg fuzzy-edit <file> --old <text> --new <text>'' @ bq
           @ '' (tolerant of indent/CRLF drift). For stream filtering wrap with '' @ bq @ ''icmg run '' @ cmd @ bq @ ''. Bypass: RAW=1.''
      else if tok \<in> {''python'', ''python3'', ''py'', ''node'', ''deno'', ''bun''}
      then ''If this is a quick calculation use '' @ bq @ ''icmg calc '' @ [dq] @ ''<expr>'' @ [dq] @ bq
           @ '' (offline, no interpreter). Otherwise wrap with '' @ bq @ ''icmg run '' @ cmd @ bq @ '' for filtered output. Bypass: RAW=1.''
      else if tok = ''tail'' \<or> tok = ''head''
      then ''For first/last N lines of a file use '' @ bq @ ''icmg context <file> --head N'' @ bq @ '' / '' @ bq @ ''--tail N'' @ bq
           @ '' (line-numbered, memory-aware). Bypass: RAW=1.''
      else ''Use '' @ bq @ ''icmg run '' @ cmd @ bq @ '' for token-filtered output (60-90% smaller). Bypass with RAW=1 prefix.'')"

definition classifyBashRedirect :: "string \<Rightarrow> redirect_decision" where
  "classifyBashRedirect cmd_in =
     (let cmd = trim_spaces cmd_in; rest = lastPipeStage cmd in
      if rest \<noteq> []
      then (if isSelfFilter (firstToken rest) then \<lparr>rd_kind = Exempt, rd_message = []\<rparr>
            else \<lparr>rd_kind = RedirectQuoted,
              rd_message = ''This is a pipe. Wrap the WHOLE pipeline so icmg filters it: '' @ bq @ ''icmg run '' @ shellQuote cmd @ bq
                @ '' (the quotes matter -- unquoted, the outer shell splits the pipe and the tail stage leaks to native). Bypass: RAW=1.''\<rparr>)
      else \<lparr>rd_kind = RedirectPlain, rd_message = plain_advice (firstToken cmd) cmd\<rparr>)"

text \<open>The event: the command is the arguments or, without any, the input; the answer is the text and the exit code.\<close>

definition strip_eols :: "string \<Rightarrow> string" where
  "strip_eols s = rev (dropWhile (\<lambda>c. c = nl \<or> c = cr) (rev s))"

definition advice_words :: "string list \<Rightarrow> string" where
  "advice_words args = foldl (\<lambda>cmd a. (if cmd = [] then [] else cmd @ '' '') @ a) [] args"

definition bash_advice :: "string list \<Rightarrow> string \<Rightarrow> string \<times> int" where
  "bash_advice args input =
     (let cmd = (if advice_words args = [] then strip_eols input else advice_words args) in
      if cmd = [] then ([], 0)
      else (let d = classifyBashRedirect cmd in if rd_kind d = Exempt then ([], 0) else (rd_message d @ [nl], 2)))"

section \<open>Rewriting\<close>

definition hasShellComposition :: "string \<Rightarrow> bool" where
  "hasShellComposition c \<longleftrightarrow> list_ex (\<lambda>b. contains b c) [''&&'', ''||'', ''|'', '';'', ''$('', bq, ''<<'', [nl]]"

definition densifyHasFlag :: "string list \<Rightarrow> string list \<Rightarrow> bool" where
  "densifyHasFlag w flags \<longleftrightarrow> list_ex (\<lambda>t. list_ex (\<lambda>f. t = f \<or> prefix (f @ ''='') t) flags) w"

definition is_pytest :: "string list \<Rightarrow> bool" where
  "is_pytest w \<longleftrightarrow> hd w = ''pytest'' \<or>
     3 \<le> length w \<and> (hd w = ''python'' \<or> hd w = ''python3'') \<and> w ! 1 = ''-m'' \<and> w ! 2 = ''pytest''"

text \<open>The flags to append, from the first rule that fits.\<close>

definition densify_flags :: "string list \<Rightarrow> string option" where
  "densify_flags w =
     (if prefix [''git'', ''status''] w \<and> \<not> densifyHasFlag w [''--porcelain'', ''-s'', ''--short'']
        then Some ''--porcelain=v2 --branch''
      else if prefix [''git'', ''log''] w \<and> \<not> densifyHasFlag w [''--oneline'', ''--format'', ''--pretty'', ''--graph'', ''-p'', ''--stat'']
        then Some ''--oneline''
      else if prefix [''pip'', ''list''] w \<and> \<not> densifyHasFlag w [''--format'']
        then Some ''--format=freeze''
      else if (prefix [''npm'', ''list''] w \<or> prefix [''npm'', ''ls''] w) \<and> \<not> densifyHasFlag w [''--depth'']
        then Some ''--depth=0''
      else if is_pytest w \<and> \<not> densifyHasFlag w [''-v'', ''--verbose'', ''-q'', ''--quiet'', ''--tb'']
        then Some ''-q --tb=line''
      else if hd w = ''tsc'' \<and> \<not> densifyHasFlag w [''--pretty'']
        then Some ''--pretty false''
      else None)"

definition densifyCommand :: "string \<Rightarrow> string" where
  "densifyCommand cmd =
     (if hasShellComposition cmd then cmd
      else (let w = stream_words [] cmd in
        if w = [] then cmd
        else (case densify_flags w of None \<Rightarrow> cmd | Some flags \<Rightarrow> cmd @ '' '' @ flags)))"

section \<open>How a shell reads a command\<close>

text \<open>
  Words of a POSIX shell before any expansion: single quotes keep everything, double quotes
  everything but expansions and some backslashes. What would be expanded or ends the command
  is \<open>None\<close>.
\<close>

datatype sh_state = Between | Bare | Single | Double

definition sh_active :: "char \<Rightarrow> bool" where
  "sh_active c \<longleftrightarrow> c \<in> set ''|&;<>()$*?[~#'' \<or> c = CHR 0x60 \<or> c = nl"

fun sh_words :: "sh_state \<Rightarrow> string \<Rightarrow> string \<Rightarrow> string list option" where
  "sh_words Between cur [] = Some []"
| "sh_words Bare cur [] = Some [cur]"
| "sh_words Single cur [] = None"
| "sh_words Double cur [] = None"
| "sh_words Single cur (c # cs) = (if c = sq then sh_words Bare cur cs else sh_words Single (cur @ [c]) cs)"
| "sh_words Double cur (c # cs) =
     (if c = dq then sh_words Bare cur cs
      else if c = CHR ''$'' \<or> c = CHR 0x60 then None
      else if c = bs
      then (case cs of [] \<Rightarrow> None
            | d # ds \<Rightarrow> if quote_special d then sh_words Double (cur @ [d]) ds else if d = nl then sh_words Double cur ds
                        else sh_words Double (cur @ [c, d]) ds)
      else sh_words Double (cur @ [c]) cs)"
| "sh_words st cur (c # cs) =
     (if c = CHR '' '' \<or> c = tab then (if st = Bare then map_option (Cons cur) (sh_words Between [] cs) else sh_words Between [] cs)
      else if c = sq then sh_words Single cur cs
      else if c = dq then sh_words Double cur cs
      else if c = bs then (case cs of [] \<Rightarrow> None | d # ds \<Rightarrow> sh_words Bare (cur @ [d]) ds)
      else if sh_active c then None
      else sh_words Bare (cur @ [c]) cs)"

lemma single_quoted: "sh_words Single cur (concat (map sq_char cmd) @ sq # rest) = sh_words Bare (cur @ cmd) rest"
  by (induction cmd arbitrary: cur) (auto simp: sq_char_def)

lemma double_quoted:
  "\<not> list_ex quote_special cmd \<Longrightarrow> sh_words Double cur (cmd @ dq # rest) = sh_words Bare (cur @ cmd) rest"
  by (induction cmd arbitrary: cur) (auto simp: quote_special_def)

lemma shellQuote_word: "sh_words Between [] (shellQuote cmd @ rest) = sh_words Bare cmd rest"
proof (cases "list_ex quote_special cmd")
  case True
  then show ?thesis using single_quoted[of "[]" cmd rest] by (simp add: shellQuote_def)
next
  case False
  then show ?thesis using double_quoted[of cmd "[]" rest] by (simp add: shellQuote_def)
qed

text \<open>
  A command quoted for the advice is read by a shell as one word, the command itself, so
  that the advised line runs icmg with the whole command as its argument.
\<close>

theorem shellQuote_read_back: "sh_words Between [] (''icmg run '' @ shellQuote cmd) = Some [''icmg'', ''run'', cmd]"
proof -
  have "sh_words Between [] (''icmg run '' @ s) = map_option (Cons ''icmg'') (map_option (Cons ''run'') (sh_words Between [] s))" for s
    by (simp add: sh_active_def)
  then show ?thesis using shellQuote_word[of cmd "[]"] by simp
qed

text \<open>Without the quotes a compound command is not one command to the shell, yet it is advised so.\<close>

lemma plain_advice_splits:
  "rd_message (classifyBashRedirect ''cd app && make'') =
     ''Use '' @ bq @ ''icmg run cd app && make'' @ bq @ '' for token-filtered output (60-90% smaller). Bypass with RAW=1 prefix.'' \<and>
   sh_words Between [] ''icmg run cd app && make'' = None"
  by code_simp

text \<open>A bar inside quotes is taken for a pipe.\<close>

lemma quoted_bar_is_a_pipe: "rd_kind (classifyBashRedirect (''awk '' @ [sq] @ ''/a|b/'' @ [sq] @ '' log'')) = RedirectQuoted"
  by code_simp

section \<open>Rewriting twice\<close>

lemma stream_words_append: "stream_words cur (x @ CHR '' '' # y) = stream_words cur x @ stream_words [] y"
proof (induction x arbitrary: cur)
  case Nil
  have "is_space (CHR '' '')" by (simp add: is_space_def ccode_def)
  then show ?case by simp
qed auto

definition extra_flags :: "string list" where
  "extra_flags = [''--porcelain=v2 --branch'', ''--oneline'', ''--format=freeze'', ''--depth=0'', ''-q --tb=line'', ''--pretty false'']"

lemma composition_append: "f \<in> set extra_flags \<Longrightarrow> hasShellComposition (cmd @ '' '' @ f) = hasShellComposition cmd"
proof -
  assume f: "f \<in> set extra_flags"
  have c: "contains b (cmd @ '' '' @ f) \<longleftrightarrow> contains b cmd" if "b \<in> set [''&&'', ''||'', ''|'', '';'', ''$('', bq, ''<<'', [nl]]" for b
  proof -
    have "list_all (\<lambda>b. CHR '' '' \<notin> set b \<and> list_all (\<lambda>f. \<not> contains b f) extra_flags) [''&&'', ''||'', ''|'', '';'', ''$('', bq, ''<<'', [nl]]"
      by code_simp
    then have "CHR '' '' \<notin> set b" "\<not> contains b f" using that f by (auto simp: list_all_iff)
    then show ?thesis using contains_sep[of "CHR '' ''" b cmd f] by simp
  qed
  then show ?thesis by (simp add: hasShellComposition_def)
qed

lemma flag_words:
  "stream_words [] ''--porcelain=v2 --branch'' = [''--porcelain=v2'', ''--branch'']" "stream_words [] ''--oneline'' = [''--oneline'']"
  "stream_words [] ''--format=freeze'' = [''--format=freeze'']" "stream_words [] ''--depth=0'' = [''--depth=0'']"
  "stream_words [] ''-q --tb=line'' = [''-q'', ''--tb=line'']" "stream_words [] ''--pretty false'' = [''--pretty'', ''false'']"
  by code_simp+

lemma prefix_two: "prefix [a, b] w \<longleftrightarrow> (\<exists>r. w = a # b # r)"
  by (auto simp: prefix_def)

lemma pytest_form:
  assumes "w \<noteq> []" "is_pytest w"
  shows "(\<exists>r. w = ''pytest'' # r) \<or> (\<exists>x r. w = x # ''-m'' # ''pytest'' # r \<and> (x = ''python'' \<or> x = ''python3''))"
proof -
  obtain x xs where w: "w = x # xs" using assms(1) by (cases w) auto
  show ?thesis
  proof (cases "x = ''pytest''")
    case False
    then have len: "3 \<le> length w" and at: "x = ''python'' \<or> x = ''python3''" "w ! 1 = ''-m''" "w ! 2 = ''pytest''" using assms(2) w by (auto simp: is_pytest_def)
    then obtain y z r where "xs = y # z # r" using w by (cases xs; cases "tl xs") auto
    then show ?thesis using at w by auto
  qed (use w in simp)
qed

lemma six_rules:
  "(if a1 \<and> b1 then Some x1 else if a2 \<and> b2 then Some x2 else if a3 \<and> b3 then Some x3 else if (a4 \<or> a4') \<and> b4 then Some x4
    else if a5 \<and> b5 then Some x5 else if a6 \<and> b6 then Some x6 else None) = Some f \<Longrightarrow>
   a1 \<and> f = x1 \<or> a2 \<and> f = x2 \<or> a3 \<and> f = x3 \<or> a4 \<and> f = x4 \<or> a4' \<and> f = x4 \<or> a5 \<and> f = x5 \<or> a6 \<and> f = x6"
  by (auto split: if_splits)

lemma densify_flags_in: "densify_flags w = Some f \<Longrightarrow> f \<in> set extra_flags"
  unfolding densify_flags_def extra_flags_def by (drule six_rules) auto

lemma no_flags_twice: "w \<noteq> [] \<Longrightarrow> densify_flags w = Some f \<Longrightarrow> densify_flags (w @ stream_words [] f) = None"
proof -
  assume w: "w \<noteq> []" and f: "densify_flags w = Some f"
  have none: "densify_flags (''git'' # ''status'' # r @ [''--porcelain=v2'', ''--branch'']) = None" "densify_flags (''git'' # ''log'' # r @ [''--oneline'']) = None"
    "densify_flags (''pip'' # ''list'' # r @ [''--format=freeze'']) = None" "densify_flags (''npm'' # ''list'' # r @ [''--depth=0'']) = None"
    "densify_flags (''npm'' # ''ls'' # r @ [''--depth=0'']) = None" "densify_flags (''pytest'' # r @ [''-q'', ''--tb=line'']) = None"
    "densify_flags (''python'' # ''-m'' # ''pytest'' # r @ [''-q'', ''--tb=line'']) = None"
    "densify_flags (''python3'' # ''-m'' # ''pytest'' # r @ [''-q'', ''--tb=line'']) = None"
    "densify_flags (''tsc'' # r @ [''--pretty'', ''false'']) = None" for r
    by (simp_all add: densify_flags_def is_pytest_def densifyHasFlag_def)
  from six_rules[OF f[unfolded densify_flags_def]] show ?thesis
  proof (elim disjE conjE)
    assume "is_pytest w" "f = ''-q --tb=line''"
    with pytest_form[OF w] show ?thesis by (auto simp: flag_words none simp del: stream_words.simps)
  next
    assume "hd w = ''tsc''" "f = ''--pretty false''"
    with w show ?thesis by (cases w) (simp_all add: flag_words none del: stream_words.simps)
  qed (auto simp: prefix_two flag_words none simp del: stream_words.simps)
qed

text \<open>
  Rewriting a rewritten command changes nothing more.
\<close>

theorem densify_idempotent: "densifyCommand (densifyCommand cmd) = densifyCommand cmd"
proof (cases "hasShellComposition cmd \<or> stream_words [] cmd = [] \<or> densify_flags (stream_words [] cmd) = None")
  case False
  then obtain f where f: "\<not> hasShellComposition cmd" "stream_words [] cmd \<noteq> []" "densify_flags (stream_words [] cmd) = Some f" by auto
  have d: "densifyCommand cmd = cmd @ '' '' @ f" using f by (simp add: densifyCommand_def)
  have "\<not> hasShellComposition (cmd @ '' '' @ f)" using f composition_append[OF densify_flags_in[OF f(3)], of cmd] by simp
  moreover have "stream_words [] (cmd @ '' '' @ f) = stream_words [] cmd @ stream_words [] f"
    using stream_words_append[of "[]" cmd f] by simp
  ultimately show ?thesis unfolding d using no_flags_twice[OF f(2,3)] f(2) by (simp add: densifyCommand_def)
next
  case True
  then have "densifyCommand cmd = cmd" by (auto simp: densifyCommand_def Let_def)
  then show ?thesis by simp
qed

text \<open>The words of the command stay, with at most flags after them.\<close>

lemma densify_keeps_words: "prefix (stream_words [] cmd) (stream_words [] (densifyCommand cmd))"
  using stream_words_append[of "[]" cmd] by (auto simp: densifyCommand_def Let_def split: option.split)

text \<open>Flags go behind a double dash and behind a background operator as well.\<close>

lemma flags_in_wrong_place:
  "densifyCommand ''git log -- src'' = ''git log -- src --oneline'' \<and> densifyCommand ''pytest &'' = ''pytest & -q --tb=line''"
  by code_simp

end
