(* ===== verification/NlRules.thy ===== *)
theory NlRules
  imports CxxString Complex_Main "HOL-Library.Multiset"
begin

text \<open>
  Rules and skills by plain sentences, \<open>cli/auto_rule.hpp\<close>: what a chat line asks for, which
  stored rule it means, and what is done. The stores are arguments; what the handler calls on
  them is a list of calls. Scores are reals. The lemmas show that a rule is disabled or changed
  only when it is the clear best match, and what an unclear match does.
\<close>

section \<open>What a line asks for\<close>

datatype nl_action = NoAction | AddRule | RemoveRule | EditRule | AddSkill | RemoveSkill

record nl_detect =
  nl_action_of :: nl_action
  target_name :: string
  nl_content :: string

definition no_detect :: nl_detect where
  "no_detect = \<lparr>nl_action_of = NoAction, target_name = [], nl_content = []\<rparr>"

definition trim_token :: "string \<Rightarrow> string" where
  "trim_token s = dropWhile (\<lambda>c. c = CHR '' '' \<or> c = tab) (rev (dropWhile (\<lambda>c. c \<in> set ''.,!? '' \<or> c = tab) (rev s)))"

definition remove_rule_prefixes :: "string list" where
  "remove_rule_prefixes = [''hapus rule '', ''buang rule '', ''ilangin rule '', ''remove rule '', ''delete rule '', ''drop rule '']"

definition edit_rule_prefixes :: "string list" where
  "edit_rule_prefixes = [''ubah rule '', ''ganti rule '', ''update rule '', ''edit rule '', ''change rule '']"

definition add_skill_prefixes :: "string list" where
  "add_skill_prefixes = [''tambah skill '', ''buat skill '', ''add skill '', ''create skill '']"

definition remove_skill_prefixes :: "string list" where
  "remove_skill_prefixes = [''hapus skill '', ''buang skill '', ''remove skill '', ''delete skill '']"

definition add_rule_triggers :: "string list" where
  "add_rule_triggers = [''ingat ya'', ''tolong ingat'', ''aturannya '', ''aturan baru'',
     ''jangan pernah '', ''selalu '', ''harus selalu'', ''mulai sekarang'',
     ''sejak sekarang'', ''peraturan baru:'',
     ''remember '', ''from now on'', ''please always'', ''please never'',
     ''always '', ''never '', ''rule:'']"

definition match_prefix :: "string list \<Rightarrow> string \<Rightarrow> string option" where
  "match_prefix ps lc = find (\<lambda>p. prefix p lc) ps"

text \<open>The first separator of an edit: its place and its length.\<close>

definition edit_cut :: "string \<Rightarrow> (nat \<times> nat) option" where
  "edit_cut rest =
     foldl (\<lambda>cut s. case find_sub s rest of None \<Rightarrow> cut
        | Some pos \<Rightarrow> (case cut of None \<Rightarrow> Some (pos, length s) | Some (c, n) \<Rightarrow> if pos < c then Some (pos, length s) else cut))
       None ['' jadi '', '' to '', '' => '']"

definition named :: "nl_action \<Rightarrow> string \<Rightarrow> nl_detect" where
  "named act rest = (let t = trim_token rest in \<lparr>nl_action_of = (if t = [] then NoAction else act), target_name = t, nl_content = []\<rparr>)"

definition named_with :: "nl_action \<Rightarrow> string \<Rightarrow> string \<Rightarrow> nl_detect" where
  "named_with act a b =
     (let t = trim_token a; c = trim_token b
      in \<lparr>nl_action_of = (if t = [] \<or> c = [] then NoAction else act), target_name = t, nl_content = c\<rparr>)"

text \<open>\<open>off\<close> is the setting that turns the detection off.\<close>

definition detectNL :: "bool \<Rightarrow> string \<Rightarrow> nl_detect" where
  "detectNL off line =
     (if off \<or> length line < 8 \<or> 500 < length line then no_detect
      else (let lc = lower_str (take 80 line) in
        case match_prefix remove_rule_prefixes lc of
          Some p \<Rightarrow> named RemoveRule (drop (length p) line)
        | None \<Rightarrow>
            (case match_prefix edit_rule_prefixes lc of
               Some p \<Rightarrow>
                 (let rest = drop (length p) line in
                  case edit_cut rest of None \<Rightarrow> no_detect
                  | Some (k, n) \<Rightarrow> named_with EditRule (take k rest) (drop (k + n) rest))
             | None \<Rightarrow>
                 (case match_prefix remove_skill_prefixes lc of
                    Some p \<Rightarrow> named RemoveSkill (drop (length p) line)
                  | None \<Rightarrow>
                      (case match_prefix add_skill_prefixes lc of
                         Some p \<Rightarrow>
                           (let rest = drop (length p) line in
                            case index_of (\<lambda>c. c = CHR '' '') rest of None \<Rightarrow> no_detect
                            | Some sp \<Rightarrow> named_with AddSkill (take sp rest) (drop (sp + 1) rest))
                       | None \<Rightarrow>
                           (if match_prefix add_rule_triggers lc \<noteq> None
                            then \<lparr>nl_action_of = AddRule, target_name = [], nl_content = line\<rparr> else no_detect))))))"

section \<open>Which rule is meant\<close>

record rule_record =
  rule_id :: string
  rule_name :: string
  rule_content :: string

record fuzzy_match =
  fm_id :: string
  fm_name :: string
  fm_score :: real

definition ascii_alnum :: "char \<Rightarrow> bool" where
  "ascii_alnum c \<longleftrightarrow> is_lower c \<or> is_digit c"

fun tokens_lower :: "string \<Rightarrow> string \<Rightarrow> string list" where
  "tokens_lower cur [] = (if cur = [] then [] else [cur])"
| "tokens_lower cur (c # cs) =
     (let l = to_lower c in
      if ascii_alnum l then tokens_lower (cur @ [l]) cs
      else if cur = [] then tokens_lower [] cs else cur # tokens_lower [] cs)"

definition tokenize_lower :: "string \<Rightarrow> string list" where
  "tokenize_lower s = tokens_lower [] s"

definition token_score :: "string list \<Rightarrow> string list \<Rightarrow> string \<Rightarrow> real" where
  "token_score names body qt =
     sum_list (map (\<lambda>nt. if nt = qt then 3 else if contains qt nt then 3/2 else 0) names)
     + sum_list (map (\<lambda>bt. if bt = qt then 1 else 0) body)"

definition rule_score :: "string list \<Rightarrow> rule_record \<Rightarrow> real" where
  "rule_score qtoks r =
     (let names = tokenize_lower (rule_name r); body = tokenize_lower (rule_content r);
          s = sum_list (map (token_score names body) qtoks);
          denom = (if names = [] then 1 else sqrt (real (length names)))
      in min 1 (s / denom / 3))"

text \<open>The sort of the code leaves the order of equal scores open; what is done with the matches does not depend on it.\<close>

definition fuzzyFind :: "string \<Rightarrow> rule_record list \<Rightarrow> real \<Rightarrow> fuzzy_match list" where
  "fuzzyFind query corpus threshold =
     (let q = tokenize_lower query in
      if q = [] \<or> corpus = [] then []
      else sort_key (\<lambda>m. - fm_score m)
        (map (\<lambda>r. \<lparr>fm_id = rule_id r, fm_name = rule_name r, fm_score = rule_score q r\<rparr>)
          (filter (\<lambda>r. threshold \<le> rule_score q r) corpus)))"

definition listAmbiguous :: "string \<Rightarrow> rule_record list \<Rightarrow> real \<Rightarrow> nat \<Rightarrow> fuzzy_match list" where
  "listAmbiguous query corpus threshold limit = take limit (fuzzyFind query corpus threshold)"

definition ambiguous_mark :: string where
  "ambiguous_mark = ''__AMBIGUOUS__''"

definition resolve :: "string \<Rightarrow> rule_record list \<Rightarrow> string" where
  "resolve target corpus =
     (case fuzzyFind target corpus (1/2) of
        [] \<Rightarrow> []
      | [a] \<Rightarrow> fm_id a
      | a # b # _ \<Rightarrow> if fm_score a - fm_score b < 5/100 then ambiguous_mark else fm_id a)"

section \<open>What is done\<close>

datatype store_call =
    SaveRule string string bool
  | DisableRule string
  | SaveSkill string string bool
  | DropSkill string

text \<open>The stores: what their listings hold, and the code each call answers; an absent one is \<open>None\<close>.\<close>

record nl_adapters =
  rule_save :: "(string \<Rightarrow> string \<Rightarrow> bool \<Rightarrow> int) option"
  rule_disable :: "(string \<Rightarrow> int) option"
  rule_list :: "rule_record list option"
  skill_save :: "(string \<Rightarrow> string \<Rightarrow> bool \<Rightarrow> int) option"
  skill_remove :: "(string \<Rightarrow> int) option"
  skill_list :: "rule_record list option"

definition name_of :: "rule_record list \<Rightarrow> string \<Rightarrow> string" where
  "name_of corpus i = (case find (\<lambda>r. rule_id r = i) corpus of None \<Rightarrow> [] | Some r \<Rightarrow> rule_name r)"

definition outcome :: "int \<Rightarrow> string \<Rightarrow> string \<Rightarrow> store_call \<Rightarrow> string \<times> store_call list" where
  "outcome rc good bad call = (if rc = 0 then good else bad, [call])"

definition no_match :: "string \<Rightarrow> string \<Rightarrow> string \<Rightarrow> string" where
  "no_match kind target hint = ''(no '' @ kind @ '' matching '' @ [dq] @ target @ [dq] @ '' - '' @ hint @ '')''"

definition handle_add_rule :: "nl_adapters \<Rightarrow> int \<Rightarrow> nl_detect \<Rightarrow> string \<times> store_call list" where
  "handle_add_rule A now d =
     (case rule_save A of None \<Rightarrow> ([], [])
      | Some save \<Rightarrow>
          (let name = ''chat-auto-'' @ int_str now in
           outcome (save name (nl_content d) False) (''(auto-rule saved: '' @ name @ '' - '' @ [bs] @ ''unrule to remove)'')
             ''(rule save failed)'' (SaveRule name (nl_content d) False)))"

definition handle_remove_rule :: "nl_adapters \<Rightarrow> nl_detect \<Rightarrow> string \<times> store_call list" where
  "handle_remove_rule A d =
     (case (rule_list A, rule_disable A) of
        (Some corpus, Some disable) \<Rightarrow>
          (let i = resolve (target_name d) corpus in
           if i = [] then (no_match ''rule'' (target_name d) ([bs] @ ''rules to list''), [])
           else if i = ambiguous_mark then (''(ambiguous match - use '' @ [bs] @ ''unrule with ID)'', [])
           else outcome (disable i) (''(rule disabled: '' @ target_name d @ '' - reversible via icmg rule enable)'')
             ''(rule disable failed)'' (DisableRule i))
      | _ \<Rightarrow> ([], []))"

definition handle_edit_rule :: "nl_adapters \<Rightarrow> nl_detect \<Rightarrow> string \<times> store_call list" where
  "handle_edit_rule A d =
     (case (rule_list A, rule_save A) of
        (Some corpus, Some save) \<Rightarrow>
          (let i = resolve (target_name d) corpus in
           if i = [] then (no_match ''rule'' (target_name d) ([bs] @ ''rules to list''), [])
           else if i = ambiguous_mark then (''(ambiguous match - use '' @ [bs] @ ''rule with ID)'', [])
           else (let name = name_of corpus i in
             outcome (save name (nl_content d) True) (''(rule updated: '' @ name @ '')'') ''(rule update failed)'' (SaveRule name (nl_content d) True)))
      | _ \<Rightarrow> ([], []))"

definition handle_add_skill :: "nl_adapters \<Rightarrow> nl_detect \<Rightarrow> string \<times> store_call list" where
  "handle_add_skill A d =
     (case skill_save A of None \<Rightarrow> ([], [])
      | Some save \<Rightarrow>
          outcome (save (target_name d) (nl_content d) False) (''(skill saved: '' @ target_name d @ '')'')
            ''(skill save failed)'' (SaveSkill (target_name d) (nl_content d) False))"

definition handle_remove_skill :: "nl_adapters \<Rightarrow> nl_detect \<Rightarrow> string \<times> store_call list" where
  "handle_remove_skill A d =
     (case (skill_list A, skill_remove A) of
        (Some corpus, Some remove) \<Rightarrow>
          (let i = resolve (target_name d) corpus in
           if i = [] then (no_match ''skill'' (target_name d) ''icmg skill list'', [])
           else if i = ambiguous_mark then (''(ambiguous skill match)'', [])
           else (let name = name_of corpus i in
             outcome (remove name) (''(skill removed: '' @ name @ '')'') ''(skill remove failed)'' (DropSkill name)))
      | _ \<Rightarrow> ([], []))"

definition handleNL :: "bool \<Rightarrow> nl_adapters \<Rightarrow> int \<Rightarrow> string \<Rightarrow> string \<times> store_call list" where
  "handleNL off A now line =
     (let d = detectNL off line in
      case nl_action_of d of
        NoAction \<Rightarrow> ([], [])
      | AddRule \<Rightarrow> handle_add_rule A now d
      | RemoveRule \<Rightarrow> handle_remove_rule A d
      | EditRule \<Rightarrow> handle_edit_rule A d
      | AddSkill \<Rightarrow> handle_add_skill A d
      | RemoveSkill \<Rightarrow> handle_remove_skill A d)"

section \<open>Only the clear best match\<close>

text \<open>Every other rule has less than the threshold or is at least a twentieth behind.\<close>

definition clear_best :: "string \<Rightarrow> rule_record \<Rightarrow> rule_record multiset \<Rightarrow> bool" where
  "clear_best target r others \<longleftrightarrow>
     1/2 \<le> rule_score (tokenize_lower target) r \<and>
     (\<forall>x \<in># others. rule_score (tokenize_lower target) x < 1/2 \<or> rule_score (tokenize_lower target) x + 5/100 \<le> rule_score (tokenize_lower target) r)"

definition clear_in :: "rule_record list \<Rightarrow> string \<Rightarrow> string \<Rightarrow> bool" where
  "clear_in corpus target i \<longleftrightarrow> (\<exists>r others. mset corpus = add_mset r others \<and> rule_id r = i \<and> clear_best target r others)"

lemma resolve_clear:
  assumes "resolve target corpus = i" "i \<noteq> []" "i \<noteq> ambiguous_mark"
  shows "clear_in corpus target i"
proof -
  define q where "q = tokenize_lower target"
  define f where "f = (\<lambda>r. \<lparr>fm_id = rule_id r, fm_name = rule_name r, fm_score = rule_score q r\<rparr>)"
  define good where "good = (\<lambda>r. 1/2 \<le> rule_score q r)"
  define ms where "ms = fuzzyFind target corpus (1/2)"
  have ne: "ms \<noteq> []" using assms(1,2) by (auto simp: resolve_def ms_def)
  then have ms: "ms = sort_key (\<lambda>m. - fm_score m) (map f (filter good corpus))"
    by (auto simp: ms_def fuzzyFind_def q_def[symmetric] f_def good_def Let_def split: if_splits)
  obtain a rest where a: "ms = a # rest" using ne by (cases ms) auto
  have "a \<in> set (map f (filter good corpus))" using ms a by (metis list.set_intros(1) set_sort)
  then obtain r where r: "r \<in> set corpus" "good r" "a = f r" by auto
  define others where "others = mset corpus - {#r#}"
  have split: "mset corpus = add_mset r others" using r(1) by (simp add: others_def)
  have "mset ms = image_mset f (filter_mset good (mset corpus))" unfolding ms by simp
  then have rest: "mset rest = image_mset f (filter_mset good others)" using r(2,3) unfolding split a by simp
  have i: "fm_id a = i \<and> (\<forall>b bs'. rest = b # bs' \<longrightarrow> 5/100 \<le> fm_score a - fm_score b)"
    using assms a by (cases rest) (auto simp: resolve_def ms_def split: if_splits)
  have srt: "sorted (map (\<lambda>m. - fm_score m) (a # rest))" unfolding a[symmetric] ms by simp
  have behind: "fm_score m + 5/100 \<le> fm_score a" if m: "m \<in> set rest" for m
  proof -
    obtain b bs' where b: "rest = b # bs'" using m by (cases rest) auto
    then have "fm_score m \<le> fm_score b" using srt m by auto
    then show ?thesis using i b by auto
  qed
  have "clear_best target r others" unfolding clear_best_def q_def[symmetric]
  proof (intro conjI ballI)
    show "1/2 \<le> rule_score q r" using r(2) by (simp add: good_def)
    fix x assume x: "x \<in># others"
    show "rule_score q x < 1/2 \<or> rule_score q x + 5/100 \<le> rule_score q r"
    proof (cases "good x")
      case True
      then have "f x \<in># mset rest" using x unfolding rest by auto
      then show ?thesis using behind[of "f x"] r(3) by (simp add: f_def)
    qed (simp add: good_def not_le)
  qed
  then show ?thesis using split i r(3) by (auto simp: clear_in_def f_def)
qed

text \<open>What an action may be: which rule it is about, if it is about one.\<close>

definition allowed_call :: "nl_adapters \<Rightarrow> string \<Rightarrow> store_call \<Rightarrow> bool" where
  "allowed_call A target call = (case call of
       DisableRule i \<Rightarrow> \<exists>corpus. rule_list A = Some corpus \<and> clear_in corpus target i
     | SaveRule n c upd \<Rightarrow> \<not> upd \<or> (\<exists>corpus i. rule_list A = Some corpus \<and> clear_in corpus target i \<and> n = name_of corpus i)
     | DropSkill n \<Rightarrow> \<exists>corpus i. skill_list A = Some corpus \<and> clear_in corpus target i \<and> n = name_of corpus i
     | SaveSkill n c upd \<Rightarrow> \<not> upd)"

text \<open>
  A chat line leads to at most one call on the stores; a rule is disabled or changed, and
  a skill removed, only if it is the clear best match of the name in the line.
\<close>

theorem nl_changes_clear_best:
  "length (snd (handleNL off A now line)) \<le> 1 \<and>
   list_all (allowed_call A (target_name (detectNL off line))) (snd (handleNL off A now line))"
proof (cases "nl_action_of (detectNL off line)")
  case RemoveRule
  then show ?thesis
    by (auto simp: handleNL_def handle_remove_rule_def Let_def outcome_def allowed_call_def split: option.split intro!: exI resolve_clear[OF refl])
next
  case EditRule
  then show ?thesis
    by (auto simp: handleNL_def handle_edit_rule_def Let_def outcome_def allowed_call_def split: option.split intro!: exI resolve_clear[OF refl])
next
  case RemoveSkill
  then show ?thesis
    by (auto simp: handleNL_def handle_remove_skill_def Let_def outcome_def allowed_call_def split: option.split intro!: exI resolve_clear[OF refl])
qed (auto simp: handleNL_def handle_add_rule_def handle_add_skill_def Let_def outcome_def allowed_call_def split: option.split)

section \<open>And the clear best match is found\<close>

lemma score_without_tokens: "rule_score [] r = 0"
  by (simp add: rule_score_def)

text \<open>
  A rule that is the clear best match of a name is the one the name means.
\<close>

theorem resolve_finds_clear_best:
  assumes "mset corpus = add_mset r others" "clear_best target r others"
  shows "resolve target corpus = rule_id r"
proof -
  define q where "q = tokenize_lower target"
  define f where "f = (\<lambda>r. \<lparr>fm_id = rule_id r, fm_name = rule_name r, fm_score = rule_score q r\<rparr>)"
  define good where "good = (\<lambda>r. 1/2 \<le> rule_score q r)"
  define ms where "ms = fuzzyFind target corpus (1/2)"
  have r: "good r" using assms(2) by (simp add: clear_best_def good_def q_def)
  then have "q \<noteq> []" by (auto simp: good_def score_without_tokens)
  moreover have "corpus \<noteq> []" using assms(1) by auto
  ultimately have ms: "ms = sort_key (\<lambda>m. - fm_score m) (map f (filter good corpus))"
    by (simp add: ms_def fuzzyFind_def q_def[symmetric] f_def good_def Let_def)
  have all: "mset ms = add_mset (f r) (image_mset f (filter_mset good others))" unfolding ms using assms(1) r by simp
  have behind: "fm_score m + 5/100 \<le> fm_score (f r)" if m: "m \<in># image_mset f (filter_mset good others)" for m
    using m assms(2) by (auto simp: f_def good_def clear_best_def q_def)
  obtain a rest where a: "ms = a # rest" using all by (cases ms) auto
  have srt: "sorted (map (\<lambda>m. - fm_score m) (a # rest))" unfolding a[symmetric] ms by simp
  have "a = f r"
  proof (rule ccontr)
    assume ne: "a \<noteq> f r"
    have "a \<in># mset ms" "f r \<in># mset ms" by (simp add: a, simp add: all)
    then have "a \<in># image_mset f (filter_mset good others)" "f r \<in> set rest" using ne by (simp add: all, simp add: a)
    then show False using behind[of a] srt by auto
  qed
  then have rest: "mset rest = image_mset f (filter_mset good others)" using all a by simp
  show ?thesis
  proof (cases rest)
    case Nil
    then show ?thesis using a \<open>a = f r\<close> by (simp add: resolve_def ms_def f_def)
  next
    case (Cons b bs')
    then have "b \<in># image_mset f (filter_mset good others)" by (simp flip: rest)
    then have "\<not> fm_score a - fm_score b < 5/100" using behind[of b] \<open>a = f r\<close> by simp
    then show ?thesis using a Cons \<open>a = f r\<close> by (simp add: resolve_def ms_def f_def)
  qed
qed

section \<open>On concrete rules\<close>

definition plain_rule :: "string \<Rightarrow> string \<Rightarrow> rule_record" where
  "plain_rule i n = \<lparr>rule_id = i, rule_name = n, rule_content = []\<rparr>"

lemma rule_tokens:
  "tokenize_lower ''cache eviction'' = [''cache'', ''eviction'']" "tokenize_lower ''Cache'' = [''cache'']" "tokenize_lower ''log'' = [''log'']"
  "tokenize_lower [] = []" "contains ''cache'' ''eviction'' = False" "contains ''eviction'' ''cache'' = False"
  "contains ''cache'' ''log'' = False" "contains ''eviction'' ''log'' = False" "contains ''log'' ''cache'' = False"
  by code_simp+

lemma rule_scores:
  "rule_score [''cache'', ''eviction''] (plain_rule i ''cache eviction'') = 1" "rule_score [''cache'', ''eviction''] (plain_rule i ''Cache'') = 1"
  "rule_score [''cache''] (plain_rule i ''Cache'') = 1" "rule_score [''cache''] (plain_rule i ''log'') = 0"
proof -
  have "sqrt 2 * sqrt 2 = 2" by simp
  then have "2 / sqrt 2 = sqrt 2" by (simp add: field_simps)
  moreover have "1 \<le> sqrt 2" by simp
  ultimately have "min 1 (6 / sqrt 2 / 3) = 1" by simp
  then show "rule_score [''cache'', ''eviction''] (plain_rule i ''cache eviction'') = 1"
    by (simp add: rule_score_def plain_rule_def rule_tokens token_score_def Let_def)
qed (simp_all add: rule_score_def plain_rule_def rule_tokens token_score_def)

text \<open>
  The score is cut at one before scores are compared: a rule named in full is ambiguous if
  another rule bears one of the words.
\<close>

lemma full_name_ambiguous:
  "resolve ''cache eviction'' [plain_rule ''1'' ''cache eviction'', plain_rule ''2'' ''Cache''] = ambiguous_mark"
  by (simp add: resolve_def fuzzyFind_def rule_tokens rule_scores)

theorem resolve_finds_clear_best_witness: "resolve ''Cache'' [plain_rule ''1'' ''log'', plain_rule ''2'' ''Cache''] = ''2''"
proof -
  have "clear_best ''Cache'' (plain_rule ''2'' ''Cache'') {#plain_rule ''1'' ''log''#}"
    by (simp add: clear_best_def rule_tokens rule_scores)
  then show ?thesis
    using resolve_finds_clear_best[of "[plain_rule ''1'' ''log'', plain_rule ''2'' ''Cache'']" "plain_rule ''2'' ''Cache''" "{#plain_rule ''1'' ''log''#}" "''Cache''"]
    by (simp add: plain_rule_def)
qed

end
