(* ===== verification/ToolPath.thy ===== *)
theory ToolPath
  imports BashHook Mcp
begin

text \<open>
  The MCP tools that build a shell command from their arguments: the check of paths in
  \<open>core/path_utils.cpp\<close>, \<open>mcp/tools/ingest_tool.cpp\<close> and \<open>mcp/tools/port_apply_tool.cpp\<close>.
  The command line is read back by the shell of BashHook. The lemmas show that without a
  backslash the arguments arrive as given, and what a backslash at the end of one does.
\<close>

section \<open>The check\<close>

definition unsafe_char :: "char \<Rightarrow> bool" where
  "unsafe_char c \<longleftrightarrow> ccode c < 32 \<or> c = dq \<or> c = sq \<or> c \<in> set '';|&$<>*'' \<or> c = CHR 0x60"

definition isSafeToolPath :: "string \<Rightarrow> bool" where
  "isSafeToolPath p \<longleftrightarrow>
     (if p = [] then False
      else if list_ex unsafe_char p then False
      else (let n = map (\<lambda>c. if c = bs then CHR ''/'' else c) p in
        n \<noteq> ''..'' \<and> \<not> prefix ''../'' n \<and> \<not> contains ''/../'' n \<and> \<not> suffix ''/..'' n))"

section \<open>The commands\<close>

definition arg_text :: "json \<Rightarrow> string \<Rightarrow> string option" where
  "arg_text args k = Option.bind (member args k) text_of"

definition quoted :: "string \<Rightarrow> string" where
  "quoted s = [dq] @ s @ [dq]"

definition flag_on :: "json \<Rightarrow> string \<Rightarrow> bool" where
  "flag_on args k \<longleftrightarrow> (case member args k of Some (Boolean b) \<Rightarrow> b | _ \<Rightarrow> False)"

definition cut32 :: "int \<Rightarrow> int" where
  "cut32 n = (n + 2 ^ 31) mod 2 ^ 32 - 2 ^ 31"

text \<open>The refusals of the tools; \<open>exists_at\<close> says which files there are.\<close>

definition ingest_refusal :: "(string \<Rightarrow> bool) \<Rightarrow> json \<Rightarrow> string option" where
  "ingest_refusal exists_at args =
     (let p = (case arg_text args ''path'' of None \<Rightarrow> [] | Some p \<Rightarrow> p) in
      if \<not> isSafeToolPath p then Some ''unsafe path (shell-meta or traversal rejected)''
      else if p = [] \<or> \<not> exists_at p then Some (''file not found: '' @ p) else None)"

definition ingest_command :: "string \<Rightarrow> json \<Rightarrow> string" where
  "ingest_command icmg args =
     (let p = (case arg_text args ''path'' of None \<Rightarrow> [] | Some p \<Rightarrow> p);
          min_chars = (case member args ''min_chars'' of Some (Number n) \<Rightarrow> cut32 n | _ \<Rightarrow> 30)
      in quoted icmg @ '' ingest '' @ quoted p @ '' --json'' @ '' --min-chars '' @ int_str min_chars
         @ (if flag_on args ''refresh'' then '' --refresh'' else []) @ (if flag_on args ''raw'' then '' --raw'' else []))"

definition port_arg_refusal :: "json \<Rightarrow> string \<Rightarrow> string option" where
  "port_arg_refusal args k =
     (case arg_text args k of
        None \<Rightarrow> Some (''missing required arg: '' @ k)
      | Some p \<Rightarrow> if p = [] then Some (''missing required arg: '' @ k)
                  else if \<not> isSafeToolPath p then Some (''unsafe path (shell-meta/traversal) in arg: '' @ k) else None)"

definition port_refusal :: "json \<Rightarrow> string option" where
  "port_refusal args =
     (case port_arg_refusal args ''artifact'' of
        Some e \<Rightarrow> Some e
      | None \<Rightarrow>
          (case port_arg_refusal args ''to'' of
             Some e \<Rightarrow> Some e
           | None \<Rightarrow>
               (case arg_text args ''path_map'' of
                  None \<Rightarrow> None
                | Some m \<Rightarrow> if isSafeToolPath m then None else Some ''unsafe path_map (shell-meta/traversal)'')))"

text \<open>A switch that is there and no Boolean throws.\<close>

definition bool_or_throw :: "json \<Rightarrow> string \<Rightarrow> bool option" where
  "bool_or_throw args k = (case member args k of None \<Rightarrow> Some False | Some (Boolean b) \<Rightarrow> Some b | Some _ \<Rightarrow> None)"

definition port_command :: "string \<Rightarrow> json \<Rightarrow> string option" where
  "port_command icmg args =
     (case (arg_text args ''artifact'', arg_text args ''to'', bool_or_throw args ''write'', bool_or_throw args ''overwrite'') of
        (Some a, Some t, Some w, Some ov) \<Rightarrow>
          Some (quoted icmg @ '' port apply '' @ quoted a @ '' --to '' @ quoted t
            @ (case arg_text args ''path_map'' of None \<Rightarrow> [] | Some m \<Rightarrow> '' --path-map '' @ quoted m)
            @ (if w then '' --write'' else []) @ (if ov then '' --overwrite'' else []))
      | _ \<Rightarrow> None)"

text \<open>What a call of the tools hands to the shell, if it is let through.\<close>

definition ingest_shell :: "(string \<Rightarrow> bool) \<Rightarrow> string \<Rightarrow> json \<Rightarrow> string option" where
  "ingest_shell exists_at icmg args = (case ingest_refusal exists_at args of Some e \<Rightarrow> None | None \<Rightarrow> Some (ingest_command icmg args))"

definition port_shell :: "string \<Rightarrow> json \<Rightarrow> string option" where
  "port_shell icmg args = (case port_refusal args of Some e \<Rightarrow> None | None \<Rightarrow> port_command icmg args)"

section \<open>Words in a command line\<close>

definition sh_plain :: "char \<Rightarrow> bool" where
  "sh_plain c \<longleftrightarrow> c \<noteq> CHR '' '' \<and> c \<noteq> tab \<and> c \<noteq> sq \<and> c \<noteq> dq \<and> c \<noteq> bs \<and> \<not> sh_active c"

lemma bare_plain: "list_all sh_plain s \<Longrightarrow> sh_words Bare cur (s @ rest) = sh_words Bare (cur @ s) rest"
  by (induction s arbitrary: cur) (auto simp: sh_plain_def)

lemma between_plain: "list_all sh_plain s \<Longrightarrow> s \<noteq> [] \<Longrightarrow> sh_words Between [] (s @ rest) = sh_words Bare s rest"
  using bare_plain[of "tl s" "[hd s]" rest] by (cases s) (auto simp: sh_plain_def)

definition sh_piece :: "bool \<times> string \<Rightarrow> string" where
  "sh_piece p = (if fst p then quoted (snd p) else snd p)"

definition piece_ok :: "bool \<times> string \<Rightarrow> bool" where
  "piece_ok p \<longleftrightarrow> (if fst p then \<not> list_ex quote_special (snd p) else list_all sh_plain (snd p) \<and> snd p \<noteq> [])"

lemma piece_word: "piece_ok p \<Longrightarrow> sh_words Between [] (sh_piece p @ rest) = sh_words Bare (snd p) rest"
  using double_quoted[of "snd p" "[]" rest] between_plain[of "snd p" rest]
  by (cases "fst p") (simp_all add: piece_ok_def sh_piece_def quoted_def)

lemma pieces_words: "\<forall>p \<in> set ps. piece_ok p \<Longrightarrow> sh_words Between [] (join '' '' (map sh_piece ps)) = Some (map snd ps)"
proof (induction ps rule: induct_list012)
  case (2 p)
  then show ?case using piece_word[of p "[]"] by simp
next
  case (3 p q ps)
  then show ?case using piece_word[of p "CHR '' '' # join '' '' (map sh_piece (q # ps))"] by simp
qed simp

lemma safe_path_quoted: "isSafeToolPath p \<Longrightarrow> bs \<notin> set p \<Longrightarrow> piece_ok (True, p)"
  by (auto simp: piece_ok_def isSafeToolPath_def list_ex_iff unsafe_char_def quote_special_def split: if_splits)

lemma number_plain: "list_all sh_plain (int_str n)"
proof -
  have "sh_plain c" if "c = CHR ''-'' \<or> is_digit c" for c
    using that by (auto simp: sh_plain_def sh_active_def is_digit_def ccode_def)
  then show ?thesis using int_str_chars by (auto simp: list_all_iff)
qed

lemma quoted_piece: "\<not> list_ex quote_special s \<Longrightarrow> piece_ok (True, s)"
  by (simp add: piece_ok_def)

lemma literal_pieces:
  "piece_ok (False, ''ingest'')" "piece_ok (False, ''--json'')" "piece_ok (False, ''--min-chars'')" "piece_ok (False, ''--refresh'')"
  "piece_ok (False, ''--raw'')" "piece_ok (False, ''port'')" "piece_ok (False, ''apply'')" "piece_ok (False, ''--to'')"
  "piece_ok (False, ''--path-map'')" "piece_ok (False, ''--write'')" "piece_ok (False, ''--overwrite'')"
  by (simp_all add: piece_ok_def sh_plain_def sh_active_def)

lemma number_piece: "piece_ok (False, int_str n)"
  using number_plain[of n] by (simp add: piece_ok_def int_str_def)

text \<open>
  If the binary and the arguments have no backslash, the shell runs the command of the ingest
  tool with the path, as it was given, for one argument, and nothing else of the path.
\<close>

theorem ingest_command_read_back:
  assumes "ingest_shell exists_at icmg args = Some cmd" "arg_text args ''path'' = Some p" "bs \<notin> set p" "\<not> list_ex quote_special icmg"
  shows "\<exists>rest. sh_words Between [] cmd = Some ([icmg, ''ingest'', p, ''--json'', ''--min-chars''] @ rest) \<and>
    set (tl rest) \<subseteq> {''--refresh'', ''--raw''}"
proof -
  let ?n = "case member args ''min_chars'' of Some (Number n) \<Rightarrow> cut32 n | _ \<Rightarrow> 30"
  let ?flags = "(if flag_on args ''refresh'' then [''--refresh''] else []) @ (if flag_on args ''raw'' then [''--raw''] else [])"
  let ?ps = "[(True, icmg), (False, ''ingest''), (True, p), (False, ''--json''), (False, ''--min-chars''), (False, int_str ?n)] @ map (Pair False) ?flags"
  have safe: "isSafeToolPath p" using assms(1,2) by (auto simp: ingest_shell_def ingest_refusal_def Let_def split: if_splits)
  have "cmd = ingest_command icmg args" using assms(1) by (simp add: ingest_shell_def split: option.splits)
  also have "\<dots> = join '' '' (map sh_piece ?ps)"
    using assms(2) by (auto simp: ingest_command_def sh_piece_def Let_def)
  finally have cmd: "cmd = join '' '' (map sh_piece ?ps)" .
  have "\<forall>q \<in> set ?ps. piece_ok q"
    using safe_path_quoted[OF safe assms(3)] quoted_piece[OF assms(4)] number_piece by (auto simp: literal_pieces)
  from pieces_words[OF this] have "sh_words Between [] cmd = Some (map snd ?ps)" unfolding cmd .
  then show ?thesis by (intro exI[of _ "int_str ?n # ?flags"]) simp
qed

text \<open>
  The same of the tool that applies a bundle: without a backslash, the switches of the
  command are those the arguments ask for.
\<close>

theorem port_command_read_back:
  assumes "port_shell icmg args = Some cmd" "arg_text args ''artifact'' = Some a" "arg_text args ''to'' = Some t" "bs \<notin> set a \<union> set t"
    "\<forall>m. arg_text args ''path_map'' = Some m \<longrightarrow> bs \<notin> set m" "\<not> list_ex quote_special icmg"
  shows "sh_words Between [] cmd = Some ([icmg, ''port'', ''apply'', a, ''--to'', t]
    @ (case arg_text args ''path_map'' of None \<Rightarrow> [] | Some m \<Rightarrow> [''--path-map'', m])
    @ (if member args ''write'' = Some (Boolean True) then [''--write''] else [])
    @ (if member args ''overwrite'' = Some (Boolean True) then [''--overwrite''] else []))"
proof -
  let ?m = "case arg_text args ''path_map'' of None \<Rightarrow> [] | Some m \<Rightarrow> [(False, ''--path-map''), (True, m)]"
  let ?flags = "(if member args ''write'' = Some (Boolean True) then [''--write''] else [])
    @ (if member args ''overwrite'' = Some (Boolean True) then [''--overwrite''] else [])"
  let ?ps = "[(True, icmg), (False, ''port''), (False, ''apply''), (True, a), (False, ''--to''), (True, t)] @ ?m @ map (Pair False) ?flags"
  have safe: "isSafeToolPath a" "isSafeToolPath t" "\<And>m. arg_text args ''path_map'' = Some m \<Longrightarrow> isSafeToolPath m"
    using assms(1-3) by (auto simp: port_shell_def port_refusal_def port_arg_refusal_def split: option.splits if_splits)
  obtain w ov where sw: "bool_or_throw args ''write'' = Some w" "bool_or_throw args ''overwrite'' = Some ov" "port_command icmg args = Some cmd"
    using assms(1) by (auto simp: port_shell_def port_command_def split: option.splits)
  have wo: "w \<longleftrightarrow> member args ''write'' = Some (Boolean True)" "ov \<longleftrightarrow> member args ''overwrite'' = Some (Boolean True)"
    using sw(1,2) by (auto simp: bool_or_throw_def split: option.splits json.splits)
  have "cmd = join '' '' (map sh_piece ?ps)"
    using sw assms(2,3) unfolding wo by (auto simp: port_command_def sh_piece_def split: option.splits)
  moreover have "\<forall>q \<in> set ?ps. piece_ok q"
    using safe_path_quoted[OF safe(1)] safe_path_quoted[OF safe(2)] safe_path_quoted[OF safe(3)] assms(4,5) quoted_piece[OF assms(6)]
    by (auto simp: literal_pieces split: option.split)
  ultimately have "sh_words Between [] cmd = Some (map snd ?ps)" using pieces_words by metis
  then show ?thesis by (auto split: option.split)
qed

text \<open>
  A backslash passes the check. At the end of an argument it takes the closing quote, the
  next argument is read outside quotes, and a call that asks for a dry run writes.
\<close>

theorem port_backslash_injects:
  "\<exists>args cmd words. port_shell ''icmg'' args = Some cmd \<and> member args ''write'' = Some (Boolean False) \<and>
     sh_words Between [] cmd = Some words \<and> ''--write'' \<in> set words \<and> ''--overwrite'' \<in> set words"
proof -
  let ?args = "Object [(''artifact'', Text (''a'' @ [bs])), (''to'', Text '' --to src --write --overwrite ''), (''path_map'', Text (''p'' @ [bs])), (''write'', Boolean False)]"
  let ?cmd = "quoted ''icmg'' @ '' port apply '' @ quoted (''a'' @ [bs]) @ '' --to '' @ quoted '' --to src --write --overwrite '' @ '' --path-map '' @ quoted (''p'' @ [bs])"
  have shell: "port_shell ''icmg'' ?args = Some ?cmd" by code_simp
  have "sh_words Between [] ?cmd
    = Some [''icmg'', ''port'', ''apply'', ''a'' @ [dq] @ '' --to '', ''--to'', ''src'', ''--write'', ''--overwrite'', '' --path-map p'' @ [dq]]"
    by code_simp
  with shell show ?thesis by (intro exI[of _ ?args] exI[of _ ?cmd]) auto
qed

theorem ingest_command_read_back_witness:
  "\<exists>rest. sh_words Between [] (ingest_command ''icmg'' (Object [(''path'', Text ''a b.png'')])) = Some ([''icmg'', ''ingest'', ''a b.png'', ''--json'', ''--min-chars''] @ rest)"
proof -
  have "ingest_shell (\<lambda>_. True) ''icmg'' (Object [(''path'', Text ''a b.png'')]) = Some (ingest_command ''icmg'' (Object [(''path'', Text ''a b.png'')]))"
    by code_simp
  moreover have "arg_text (Object [(''path'', Text ''a b.png'')]) ''path'' = Some ''a b.png''" "\<not> list_ex quote_special ''icmg''" by code_simp+
  moreover have "bs \<notin> set ''a b.png''" by simp
  ultimately show ?thesis using ingest_command_read_back[of "\<lambda>_. True" "''icmg''"] by blast
qed

theorem port_command_read_back_witness:
  "\<exists>cmd. port_shell ''icmg'' (Object [(''artifact'', Text ''a''), (''to'', Text ''my dir'')]) = Some cmd \<and>
    sh_words Between [] cmd = Some [''icmg'', ''port'', ''apply'', ''a'', ''--to'', ''my dir'']"
proof -
  let ?args = "Object [(''artifact'', Text ''a''), (''to'', Text ''my dir'')]"
  let ?cmd = "quoted ''icmg'' @ '' port apply '' @ quoted ''a'' @ '' --to '' @ quoted ''my dir''"
  have cmd: "port_shell ''icmg'' ?args = Some ?cmd" by code_simp
  have args: "arg_text ?args ''artifact'' = Some ''a''" "arg_text ?args ''to'' = Some ''my dir''" "arg_text ?args ''path_map'' = None"
    "member ?args ''write'' = None" "member ?args ''overwrite'' = None" "\<not> list_ex quote_special ''icmg''" by code_simp+
  have "sh_words Between [] ?cmd = Some [''icmg'', ''port'', ''apply'', ''a'', ''--to'', ''my dir'']"
    using port_command_read_back[OF cmd args(1,2)] args(3-6) by simp
  with cmd show ?thesis by blast
qed

end
