(* ===== verification/Spec2Isabelle.thy ===== *)
theory Spec2Isabelle
  imports Quoting RunArgs Destructive Wire Locks Presence Messages EventBus RecallCache
    WriteExpander FuzzyEdit RitualGate Sentinel TkilDedup TkilOutput Mcp TtlCaches
    Cli Bpe Selection Bisect Leiden Patch RateLimit McpCall ExecServer Wordpiece Calc
    AuditLog Recall Centrality ContextDelta CsvImport IntentSlice BashHook NlRules ToolPath
begin

text \<open>
  A verification development for icmage, the tool that sits between a coding agent and the
  machine: it runs the agent's commands and shows their output in short form
  (\<open>icmg run\<close>), expands the compressed writes the agent produces, serves its memory over
  MCP, and lets parallel sessions see each other through shared files. All paths below are
  relative to \<open>src/\<close> of the program's own source directory.

  \<^bold>\<open>How the parts interact.\<close> \<open>icmg run\<close> parses its own flags out of the argument vector
  (RunArgs), asks whether the command destroys data (Destructive), quotes the command for the
  runner, which splits it back for a direct spawn (Quoting), and passes the output through the
  deduplication (TkilDedup) and the urgency tiers (TkilOutput). The hooks of the agent call
  the write expander (WriteExpander), the ritual gate (RitualGate) and the sentinel
  (Sentinel). The cross-session commands append lines to shared files (Wire, and on top of it
  Locks, Presence, Messages and EventBus). The service process holds the recall cache
  (RecallCache); the MCP server (Mcp) calls its tools through a rate limit and a table of
  results (RateLimit, McpCall), and the commands use the session caches (TtlCaches). The exec
  server runs commands for a thin client and streams their output back (ExecServer). Memories
  are ranked for recall (Recall), files of the code graph by their centrality (Centrality), and
  what was shown before is not shown again (ContextDelta); of a long file the lines near an
  intent are shown (IntentSlice). Tool calls leave a chained log (AuditLog); tables come in from
  CSV files (CsvImport). The bash hook advises or rewrites noisy commands (BashHook), sentences
  of the user become rules (NlRules), and two MCP tools build shell commands from the paths they
  are given (ToolPath).

  \<^bold>\<open>Which theory models what.\<close>
    \<^item> Prelude: the collections \<open>model_defs\<close> and \<open>frame\<close>, lemmas on lists and options, and
      splitting and joining at a separator.
    \<^item> CxxString: what the code uses of \<open>std::string\<close>: \<open>find\<close>, \<open>substr\<close>, \<open>getline\<close> loops,
      \<open>to_string\<close>, \<open>stoll\<close>, \<open>istringstream >> word\<close>. A \<open>char\<close> is a byte.
    \<^item> Fnv: the 64-bit FNV-1a hash and its printed forms, on \<open>64 word\<close>.
    \<^item> Quoting: \<open>runQuoteArg\<close> of \<open>cli/run_args.hpp\<close>, \<open>parseArgv\<close> of \<open>tkil/runner.cpp\<close>, and
      \<open>core/msys_quote.hpp\<close> (\<open>quoteArgMsvcrt\<close>, \<open>quoteArgMsys\<close>, \<open>isMsysProgram\<close>,
      \<open>buildChildCmdline\<close>).
    \<^item> RunArgs: \<open>parseRunArgs\<close> and \<open>stripNestedRunPrefix\<close> of \<open>cli/run_args.hpp\<close>.
    \<^item> Destructive: \<open>destructiveDecision\<close>, \<open>hasInlineYesPrefix\<close>, \<open>isDestructiveArgv\<close> of the
      same file.
    \<^item> Wire: tab-separated lines with escaped text, and logs collapsed by key, as the four
      cross-session commands use them.
    \<^item> Locks: \<open>core/agent_lease.hpp\<close> and \<open>cli/commands/lock_cmd.cpp\<close>.
    \<^item> Presence: \<open>core/presence.hpp\<close> and \<open>cli/commands/presence_cmd.cpp\<close>.
    \<^item> Messages: \<open>core/msg.hpp\<close>, \<open>core/wire_check_helpers.hpp\<close>, \<open>cli/commands/msg_cmd.cpp\<close>.
    \<^item> EventBus: \<open>core/event_bus.hpp\<close> and \<open>cli/commands/bus_cmd.cpp\<close>.
    \<^item> RecallCache: \<open>core/recall_cache.hpp\<close> and \<open>core/recall_cache.cpp\<close>, the governor included.
    \<^item> WriteExpander: \<open>compress/write_expander.cpp\<close>, \<open>compress/template_engine.cpp\<close> and the
      write branch of \<open>cli/commands/hook_cmd.cpp\<close>.
    \<^item> FuzzyEdit: \<open>cli/fuzzy_edit.hpp\<close>.
    \<^item> RitualGate: \<open>cli/ritual_gate.hpp\<close> and \<open>cli/commands/ritual_cmd.cpp\<close>.
    \<^item> Sentinel: \<open>cli/sentinel_guard.hpp\<close>, the reacting checks of
      \<open>cli/commands/sentinel_cmd.cpp\<close>, and \<open>core/repair_counter.cpp\<close>.
    \<^item> TkilDedup: \<open>tkil/dedup_pass.hpp\<close> and \<open>tkil/dedup_pass.cpp\<close>.
    \<^item> TkilOutput: \<open>tkil/output_tier.hpp\<close>, \<open>tkil/output_delta.hpp\<close> and the printing part of
      \<open>tkil/tkil.cpp\<close>.
    \<^item> Mcp: \<open>mcp/mcp_toolset.hpp\<close> and \<open>mcp/server.cpp\<close>.
    \<^item> TtlCaches: \<open>core/turn_cache.cpp\<close>, \<open>core/query_cache.cpp\<close>, \<open>core/inject_dedup.cpp\<close> and
      \<open>core/tool_call_cache.cpp\<close>.
    \<^item> Cli: the option helpers of \<open>cli/base_command.hpp\<close> and the outcome of a command.
    \<^item> Bpe: \<open>core/bpe_tokenizer.cpp\<close>, the exact token counter.
    \<^item> Selection: \<open>core/working_set.hpp\<close>, \<open>core/compress_select.hpp\<close>,
      \<open>core/dangling_guard.hpp\<close>, what is kept of a text or of a set of sources under a budget.
    \<^item> Bisect: \<open>cli/bisect_logic.hpp\<close> and \<open>cli/commands/bisect_cmd.cpp\<close>.
    \<^item> Leiden: \<open>graph/leiden.cpp\<close>, community detection on the code graph.
    \<^item> Patch: \<open>cli/commands/patch_cmd.cpp\<close>, parsing and applying unified diffs.
    \<^item> RateLimit: \<open>core/rate_limiter.hpp\<close> and \<open>mcp/tool_budget.hpp\<close>.
    \<^item> McpCall: \<open>BaseMcpTool::call\<close> of \<open>mcp/base_mcp_tool.hpp\<close> and
      \<open>mcp/tools/project_switch_tool.cpp\<close>.
    \<^item> ExecServer: \<open>core/exec_protocol.hpp\<close> and \<open>core/exec_server.cpp\<close>.
    \<^item> Wordpiece: \<open>embed/wordpiece_tokenizer.cpp\<close>.
    \<^item> Calc: \<open>cli/calc_eval.hpp\<close> and \<open>cli/commands/calc_cmd.cpp\<close>.
    \<^item> AuditLog: \<open>core/audit_log.cpp\<close>, the chained log of tool calls.
    \<^item> Recall: \<open>imem/scorer.cpp\<close>, \<open>imem/bm25_tokenize.cpp\<close> and the tiers of
      \<open>imem/memory_tier.hpp\<close> and \<open>imem/retrieval_tier.hpp\<close>.
    \<^item> Centrality: \<open>graph/graph_centrality.hpp\<close> with the parts of \<open>graph_report.hpp\<close>,
      \<open>graph_prune.hpp\<close> and \<open>graph_node.hpp\<close> around it.
    \<^item> ContextDelta: \<open>cli/content_delta.hpp\<close> and its use in \<open>cli/commands/bundle_cmd.cpp\<close>,
      \<open>cli/pack_delta.hpp\<close>, \<open>core/structural_trim.hpp\<close>, \<open>core/cross_turn_dedup.hpp\<close> and
      \<open>cli/session_dedup.hpp\<close>.
    \<^item> CsvImport: \<open>import/csv_importer.cpp\<close> and \<open>import/base_importer.hpp\<close>, with the uniqueness
      of \<open>migrations/0001_initial_schema.sql\<close>.
    \<^item> IntentSlice: \<open>core/intent_slice.hpp\<close> and \<open>cli/find_slices.hpp\<close>.
    \<^item> BashHook: \<open>cli/bash_redirect.hpp\<close>, the bash-advice event of
      \<open>cli/commands/hook_cmd.cpp\<close> and \<open>core/cmd_densify.hpp\<close>; also how a shell splits a line.
    \<^item> NlRules: \<open>cli/auto_rule.hpp\<close>, rules and skills by plain sentences.
    \<^item> ToolPath: \<open>isSafeToolPath\<close> of \<open>core/path_utils.cpp\<close>, \<open>mcp/tools/ingest_tool.cpp\<close>,
      \<open>mcp/tools/port_apply_tool.cpp\<close>.
  Records and datatypes carry the code's fields and constructors, and a function keeps its
  name unless a constant of the library has it (a short prefix or suffix tells them apart).
  A loop is a recursive function whose arguments are the loop's variables.

  \<^bold>\<open>State.\<close> The text files the commands share are their byte content, so that what one
  command writes and the next reads back goes through the code's own printing and parsing.
  The recall cache keeps list nodes by address, and following an iterator whose node is gone
  is the value \<open>None\<close>: that this never happens is a theorem. The MCP server's state is the
  audit log and the context nodes its handlers change. The session caches are maps, the
  tool-call cache the rows of its table.

  \<^bold>\<open>Interfaces.\<close>
    \<^item> \<open>word_quoter\<close> (Quoting): a quoter none of whose arguments can end or start a word by
      itself; interpreted on the three quoters of the code.
    \<^item> \<open>line_codec\<close> (Wire): a printer and a parser of one line; what is appended to a complete
      file is read back, and a rewritten file reads as what was written. Interpreted on the
      leases, the presence entries, the messages and the events.
    \<^item> \<open>keyed_log\<close> (Wire): collapsing a log to one entry per key; interpreted on
      \<open>lastPerScope\<close>, \<open>upsertPresence\<close> and \<open>latestPerSession\<close>.
    \<^item> \<open>ttl_store\<close> (TtlCaches): a store whose entries have a lifetime, read by lookups that may
      drop entries; interpreted on the turn, query and tool-call caches.

  \<^bold>\<open>What the lemmas show.\<close> Round trips: quoting, the line formats, the ritual state file, the
  sentinel ledger, and patches in the form of diff -u. Invariants: the recall cache under
  every sequence of its operations; the ritual gate from an edit to the last sync step; the
  cursor of the message reader; the audit log under every sequence of appends; the mass of the
  ranking of the graph. Safety: mutual exclusion of locks, denied tools, verbatim
  lines, errors printed in full, edits of the audit log. Equivalences: the capped Levenshtein
  routine and the edit distance, a step of the ranking and its recurrence, the merge loop and
  byte-pair encoding. Refinement: compaction of the presence log and what its readers see. Besides
  these, IntentSlice shows that the windows of a file are near its hits and hold them all when the
  limits allow, BashHook that the advised command is read back as one word and that rewriting is
  idempotent, NlRules that a sentence changes only the clear best match, and ToolPath that without
  a backslash the arguments of a tool reach the shell as given, and that a backslash lets them add
  words. Each
  component's branches are stated as functional properties, the error branches too. Where the
  code does something other than its comments or its evident purpose, the theorem states what
  the code does, and the property's text says so.

  \<^bold>\<open>Termination and bounds.\<close> Every definition is total: the loops end by measures on the rest of
  the text, the remaining lines, or the size of the cache. Only the calculator's ten mutually
  recursive procedures carry a number of levels of calls, eight for each character and eight
  more, and \<open>evalExpr_ends\<close> shows that they are enough and that more change nothing. Hashes are
  64-bit words. Timestamps, counters and parsed numbers are unbounded integers, with the range
  checks of \<open>stoll\<close> and \<open>stoi\<close> written out where the code relies on their exceptions.
  Ratios of naturals that the code compares as doubles are compared as exact fractions; the
  scores of recall, which take logarithms and exponentials, are reals, the ranks of the graph
  rationals.

  \<^bold>\<open>Parameters.\<close> The clock, the environment, the process id, the file system behind the write
  expander, the pattern table, the JSON library (its parser, its printer and its exception
  texts), the registered MCP tools, the SQL queries of the resources, the arithmetic of
  doubles and \<open>stod\<close> in the calculator, the commands behind the exec server and the outcome
  of a repair reaction, the sort of the recall ranking, the stores behind the plain sentences and
  the ages of files are arguments of the definitions that use them. Writing the lock file and the
  sentinel's ledger and checking out a commit in a bisect are taken to succeed.

  \<^bold>\<open>Not modelled.\<close> The stores over SQLite (memories, graph, rules), scanning and symbol
  extraction, embeddings and rerankers, the language-model clients, the service and daemon
  loops, the sockets of the exec server, the wasm host, export and visualisation, the
  per-command output filters, and most of the command classes under \<open>cli/commands/\<close>: process
  and database I/O around the parts above.
\<close>

end
